(* ===== verification/GPrelude.thy ===== *)
theory GPrelude
  imports Main "HOL-Library.Word"
begin

text \<open>
  Prelude of the development: the machine types of lib/stdint.h, the failure values of the
  kernel, sequencing of fallible steps, bounded reads and writes of a memory object, and the
  generic word and list facts the components share.
\<close>

unbundle bit_operations_syntax

section \<open>Machine types\<close>

type_synonym u8 = "8 word"
type_synonym u16 = "16 word"
type_synonym u32 = "32 word"

section \<open>Failures\<close>

text \<open>
  \<open>Panic\<close> is a failed ASSERT or a PANIC of lib/debug.h, which prints its message, disables
  interrupts and spins for ever. \<open>OutOfBounds\<close> is a C access outside the object the model gives
  the code (undefined in C; the kernel has no protection against it). \<open>Blocks\<close> is a call that
  suspends the calling thread in a sequential model of that thread.
\<close>

datatype kerr = Panic string | OutOfBounds | Blocks

type_synonym 'a res = "kerr + 'a"

section \<open>Sequencing\<close>

text \<open>A fallible step followed by the rest of the function.\<close>

definition rbind :: "'a res \<Rightarrow> ('a \<Rightarrow> 'b res) \<Rightarrow> 'b res" where
  "rbind m f = (case m of Inl e \<Rightarrow> Inl e | Inr x \<Rightarrow> f x)"

definition assertC :: "string \<Rightarrow> bool \<Rightarrow> 'a res \<Rightarrow> 'a res" where
  "assertC msg c k = (if c then k else Inl (Panic msg))"

definition is_ok :: "'a res \<Rightarrow> bool" where
  "is_ok r = (case r of Inl _ \<Rightarrow> False | Inr _ \<Rightarrow> True)"

named_theorems res_simps "evaluation of fallible steps"
named_theorems res_elims "inversion of successful fallible steps"

lemma rbind_Inr [simp, res_simps]: "rbind (Inr x) f = f x"
  by (simp add: rbind_def)

lemma rbind_Inl [simp, res_simps]: "rbind (Inl e) f = Inl e"
  by (simp add: rbind_def)

lemma assertC_True [simp, res_simps]: "c \<Longrightarrow> assertC msg c k = k"
  by (simp add: assertC_def)

lemma assertC_False [simp, res_simps]: "\<not> c \<Longrightarrow> assertC msg c k = Inl (Panic msg)"
  by (simp add: assertC_def)

lemma is_ok_simps [simp]: "is_ok (Inr x)" "\<not> is_ok (Inl e)"
  by (simp_all add: is_ok_def)

lemma rbind_eq_Inr [res_elims]: "rbind m f = Inr y \<longleftrightarrow> (\<exists>x. m = Inr x \<and> f x = Inr y)"
  by (cases m) simp_all

lemma rbind_eq_Inl: "rbind m f = Inl e \<longleftrightarrow> m = Inl e \<or> (\<exists>x. m = Inr x \<and> f x = Inl e)"
  by (cases m) simp_all

lemma assertC_eq_Inr [res_elims]: "assertC msg c k = Inr y \<longleftrightarrow> c \<and> k = Inr y"
  by (simp add: assertC_def)

lemma rbind_cong [fundef_cong]:
  "m = m' \<Longrightarrow> (\<And>x. m' = Inr x \<Longrightarrow> f x = f' x) \<Longrightarrow> rbind m f = rbind m' f'"
  by (cases m') auto

lemma rbind_assoc: "rbind (rbind m f) g = rbind m (\<lambda>x. rbind (f x) g)"
  by (cases m) simp_all

section \<open>Bounded memory objects\<close>

definition rd :: "'a list \<Rightarrow> nat \<Rightarrow> 'a res" where
  "rd xs i = (if i < length xs then Inr (xs ! i) else Inl OutOfBounds)"

definition wr :: "'a list \<Rightarrow> nat \<Rightarrow> 'a \<Rightarrow> 'a list res" where
  "wr xs i v = (if i < length xs then Inr (xs[i := v]) else Inl OutOfBounds)"

lemma rd_ok [simp, res_simps]: "i < length xs \<Longrightarrow> rd xs i = Inr (xs ! i)"
  by (simp add: rd_def)

lemma rd_out [simp, res_simps]: "length xs \<le> i \<Longrightarrow> rd xs i = Inl OutOfBounds"
  by (simp add: rd_def)

lemma wr_ok [simp, res_simps]: "i < length xs \<Longrightarrow> wr xs i v = Inr (xs[i := v])"
  by (simp add: wr_def)

lemma wr_out [simp, res_simps]: "length xs \<le> i \<Longrightarrow> wr xs i v = Inl OutOfBounds"
  by (simp add: wr_def)

lemma rd_eq_Inr [res_elims]: "rd xs i = Inr v \<longleftrightarrow> i < length xs \<and> xs ! i = v"
  by (simp add: rd_def)

lemma wr_eq_Inr [res_elims]: "wr xs i v = Inr ys \<longleftrightarrow> i < length xs \<and> ys = xs[i := v]"
  by (auto simp: wr_def)

section \<open>Words\<close>

lemma unat_plus1_u32: "unat (w :: u32) < 2 ^ 32 - 1 \<Longrightarrow> unat (w + 1) = unat w + 1"
  by (simp add: unat_word_ariths)

lemma unat_plus1_less: "(w :: u32) < v \<Longrightarrow> unat (w + 1) = unat w + 1"
proof -
  assume "w < v"
  then have "unat w < unat v" by (simp add: word_less_nat_alt)
  moreover have "unat v < 2 ^ 32" using unsigned_less [of v] by simp
  ultimately show ?thesis by (intro unat_plus1_u32) simp
qed

lemma unat_minus1_u32: "(w :: u32) \<noteq> 0 \<Longrightarrow> unat (w - 1) = unat w - 1"
  by (rule unat_minus_one)

lemma unat_less_u32 [simp]: "unat (w :: u32) < 4294967296"
  using unsigned_less [of w] by simp

lemma unat_inj_iff [simp]: "unat (a :: u32) = unat b \<longleftrightarrow> a = b"
  by (simp add: word_unat_eq_iff)

lemma minus1_u32: "(- 1 :: u32) = 4294967295"
  by simp

lemma unat_minus1_max: "unat (- 1 :: u32) = 4294967295"
  by (simp only: minus1_u32) simp

lemma unat_add_small: "unat (a :: u32) + unat b < 4294967296 \<Longrightarrow> unat (a + b) = unat a + unat b"
  by (simp add: unat_word_ariths)

lemma unat_mult_small: "unat (a :: u32) * unat b < 4294967296 \<Longrightarrow> unat (a * b) = unat a * unat b"
  by (simp add: unat_word_ariths)

lemma unat_sub_small: "unat (b :: u32) \<le> unat a \<Longrightarrow> unat (a - b) = unat a - unat b"
  by (simp add: unat_sub word_le_nat_alt)

lemma unat_of_nat_small: "n < 4294967296 \<Longrightarrow> unat (of_nat n :: u32) = n"
  by (simp add: unat_of_nat take_bit_nat_eq_self)

lemmas unat_small = unat_add_small unat_mult_small unat_sub_small unat_of_nat_small

section \<open>Lists\<close>

lemma nth_update_eq_if: "i < length xs \<Longrightarrow> xs[i := v] ! j = (if j = i then v else xs ! j)"
  by auto

lemma find_upt_None: "find P [0..<m] = None \<longleftrightarrow> (\<forall>s < m. \<not> P s)"
  by (auto simp: find_None_iff)

lemma find_upt_Some:
  "find P [0..<m] = Some s \<longleftrightarrow> s < m \<and> P s \<and> (\<forall>t < s. \<not> P t)"
  by (auto simp: find_Some_iff)

text \<open>Overwrite the elements from position \<open>i\<close> on with those of \<open>ys\<close> (memcpy into a buffer).\<close>

definition overlay :: "'a list \<Rightarrow> nat \<Rightarrow> 'a list \<Rightarrow> 'a list" where
  "overlay xs i ys = take i xs @ ys @ drop (i + length ys) xs"

lemma length_overlay [simp]:
  "i + length ys \<le> length xs \<Longrightarrow> length (overlay xs i ys) = length xs"
  by (simp add: overlay_def)

lemma nth_overlay:
  "i + length ys \<le> length xs \<Longrightarrow> j < length xs \<Longrightarrow>
   overlay xs i ys ! j = (if i \<le> j \<and> j < i + length ys then ys ! (j - i) else xs ! j)"
  by (auto simp: overlay_def nth_append)

lemma overlay_read_back:
  "i + length ys \<le> length xs \<Longrightarrow> take (length ys) (drop i (overlay xs i ys)) = ys"
  by (simp add: overlay_def)

section \<open>First-in first-out containers\<close>

text \<open>
  The contract the kernel's queues share: \<open>R s xs\<close> says that the state \<open>s\<close> holds the elements \<open>xs\<close>
  in order, \<open>put\<close> adds at the end when \<open>ok\<close> allows it, \<open>get\<close> takes the oldest element. The linked
  lists of lib/structure/list.c and the ring buffer of lib/structure/ioqueue.c provide it.
\<close>

locale fifo =
  fixes R :: "'s \<Rightarrow> 'a list \<Rightarrow> bool"
    and ok :: "'a \<Rightarrow> 'a list \<Rightarrow> bool"
    and put :: "'a \<Rightarrow> 's \<Rightarrow> 's res"
    and get :: "'s \<Rightarrow> ('a \<times> 's) res"
  assumes put_R: "R s xs \<Longrightarrow> ok x xs \<Longrightarrow> \<exists>s'. put x s = Inr s' \<and> R s' (xs @ [x])"
    and get_R: "R s (x # xs) \<Longrightarrow> \<exists>s'. get s = Inr (x, s') \<and> R s' xs"
begin

fun put_all :: "'a list \<Rightarrow> 's \<Rightarrow> 's res" where
  "put_all [] s = Inr s"
| "put_all (x # xs) s = rbind (put x s) (put_all xs)"

fun get_n :: "nat \<Rightarrow> 's \<Rightarrow> ('a list \<times> 's) res" where
  "get_n 0 s = Inr ([], s)"
| "get_n (Suc n) s = rbind (get s) (\<lambda>(x, s'). rbind (get_n n s') (\<lambda>(xs, s''). Inr (x # xs, s'')))"

fun ok_all :: "'a list \<Rightarrow> 'a list \<Rightarrow> bool" where
  "ok_all [] xs = True"
| "ok_all (y # ys) xs = (ok y xs \<and> ok_all ys (xs @ [y]))"

lemma put_all_R: "R s xs \<Longrightarrow> ok_all ys xs \<Longrightarrow> \<exists>s'. put_all ys s = Inr s' \<and> R s' (xs @ ys)"
proof (induction ys arbitrary: s xs)
  case (Cons y ys)
  obtain s1 where "put y s = Inr s1" "R s1 (xs @ [y])" using put_R Cons.prems by force
  then show ?case using Cons.IH [of s1 "xs @ [y]"] Cons.prems by auto
qed simp

lemma get_n_R: "R s (xs @ ys) \<Longrightarrow> \<exists>s'. get_n (length xs) s = Inr (xs, s') \<and> R s' ys"
proof (induction xs arbitrary: s)
  case (Cons x xs)
  obtain s1 where "get s = Inr (x, s1)" "R s1 (xs @ ys)" using get_R Cons.prems by force
  then show ?case using Cons.IH [of s1] by auto
qed simp

text \<open>What goes in comes out in the same order, behind what was there before.\<close>

lemma put_get_order:
  assumes "R s xs" "ok_all ys xs"
  shows "\<exists>s1 s2. put_all ys s = Inr s1 \<and> get_n (length xs + length ys) s1 = Inr (xs @ ys, s2) \<and> R s2 []"
proof -
  obtain s1 where s1: "put_all ys s = Inr s1" "R s1 (xs @ ys)" using put_all_R assms by blast
  moreover obtain s2 where "get_n (length (xs @ ys)) s1 = Inr (xs @ ys, s2)" "R s2 []"
    using get_n_R [of s1 "xs @ ys" "[]"] s1(2) by auto
  ultimately show ?thesis by (intro exI [of _ s1] exI [of _ s2]) simp
qed

end

end
