(* ===== verification/Bitmap.thy ===== *)
theory Bitmap
  imports GPrelude
begin

text \<open>
  lib/structure/bitmap.c: the bitmap that backs the physical and virtual page pools, the pid
  pool, and the inode and block maps of the file system.

  A \<open>BitMap\<close> holds its length in bytes (a uint32) and the bytes of memory its start pointer
  addresses. That list may be longer than \<open>bm_length\<close>: \<open>bitMapScan\<close> reads the byte at index
  \<open>length\<close> before it compares the index with the length, so the model gives it the memory that
  follows and a read past the end of that memory is \<open>OutOfBounds\<close>.
\<close>

section \<open>The code\<close>

record BitMap =
  bm_length :: u32
  startAddr :: "u8 list"

definition bitMapInit :: "BitMap \<Rightarrow> BitMap res" where
  "bitMapInit bm =
     (if unat (bm_length bm) \<le> length (startAddr bm)
      then Inr (bm\<lparr>startAddr := overlay (startAddr bm) 0 (replicate (unat (bm_length bm)) 0)\<rparr>)
      else Inl OutOfBounds)"

definition bitMapTest :: "BitMap \<Rightarrow> u32 \<Rightarrow> u8 res" where
  "bitMapTest bm bitIdx =
     (if bm_length bm * 8 \<le> bitIdx then Inr 0
      else let byteIdx = bitIdx div 8; bitIdx = bitIdx mod 8
           in rbind (rd (startAddr bm) (unat byteIdx))
                (\<lambda>b. Inr (drop_bit (unat bitIdx) b AND 1)))"

text \<open>First loop of \<open>bitMapScan\<close>: skip the bytes that are 0xff. The byte is read first.\<close>

function scanByte :: "BitMap \<Rightarrow> u32 \<Rightarrow> u32 res" where
  "scanByte bm byteIdx =
     rbind (rd (startAddr bm) (unat byteIdx))
       (\<lambda>b. if b = 0xff \<and> byteIdx < bm_length bm then scanByte bm (byteIdx + 1)
            else Inr byteIdx)"
  by pat_completeness auto
termination
  by (relation "measure (\<lambda>(bm, i). unat (bm_length bm) - unat i)")
    (auto simp: unat_plus1_less word_less_nat_alt)

text \<open>Second loop: the first clear bit of a byte. The byte is promoted to int before the shift, so
  a shift by 8 or more reads 0 and the loop stops.\<close>

function scanBit :: "u8 \<Rightarrow> u32 \<Rightarrow> u32" where
  "scanBit b bitIdx =
     (if drop_bit (unat bitIdx) b AND 1 \<noteq> 0 then scanBit b (bitIdx + 1) else bitIdx)"
  by pat_completeness auto
termination
proof (relation "measure (\<lambda>(b, i). 8 - unat i)")
  fix b :: u8 and i :: u32
  assume "drop_bit (unat i) b AND 1 \<noteq> 0"
  then have "odd (drop_bit (unat i) b)"
    by (simp add: and_one_eq odd_iff_mod_2_eq_one)
  then have "bit b (unat i)"
    by (simp add: bit_iff_odd_drop_bit)
  then have "unat i < 8"
    using bit_imp_le_length by fastforce
  then show "((b, i + 1), (b, i)) \<in> measure (\<lambda>(b, i). 8 - unat i)"
    by (simp add: unat_plus1_u32)
qed simp

text \<open>Third loop: the run of \<open>cnt\<close> clear bits, \<open>leftBit\<close> counting the bits still to look at.\<close>

function scanRun :: "BitMap \<Rightarrow> u32 \<Rightarrow> u32 \<Rightarrow> u32 \<Rightarrow> u32 \<Rightarrow> u32 res" where
  "scanRun bm cnt leftBit nextBit fdCnt =
     (if leftBit = 0 then Inr (- 1)
      else rbind (bitMapTest bm nextBit)
        (\<lambda>t. let fdCnt' = (if t = 0 then fdCnt + 1 else 0)
             in if fdCnt' = cnt then Inr (nextBit - cnt + 1)
                else scanRun bm cnt (leftBit - 1) (nextBit + 1) fdCnt'))"
  by pat_completeness auto
termination
  by (relation "measure (\<lambda>(bm, cnt, l, n, f). unat l)")
    (auto simp: unat_minus1_u32 unat_gt_0)

definition bitMapScan :: "BitMap \<Rightarrow> u32 \<Rightarrow> u32 res" where
  "bitMapScan bm cnt =
     rbind (scanByte bm 0)
       (\<lambda>byteIdx. if byteIdx = bm_length bm then Inr (- 1)
        else rbind (rd (startAddr bm) (unat byteIdx))
          (\<lambda>b. let bitIdx = scanBit b 0; bitIdxStart = 8 * byteIdx + bitIdx
               in if cnt = 1 then Inr bitIdxStart
                  else let leftBit = bm_length bm * 8 - bitIdxStart - 1;
                           nextBit = bitIdxStart + 1
                       in scanRun bm cnt leftBit nextBit 1))"

definition bitMapSet :: "BitMap \<Rightarrow> u32 \<Rightarrow> bool \<Rightarrow> BitMap res" where
  "bitMapSet bm bitIdx val =
     (let byteIdx = bitIdx div 8; bitIdx = bitIdx mod 8
      in rbind (rd (startAddr bm) (unat byteIdx))
        (\<lambda>b. let b' = (if val then b OR push_bit (unat bitIdx) 1
                       else b AND NOT (push_bit (unat bitIdx) 1))
             in rbind (wr (startAddr bm) (unat byteIdx) b')
               (\<lambda>m. Inr (bm\<lparr>startAddr := m\<rparr>))))"

text \<open>The loop \<open>while (cnt--)\<close> of \<open>bitMapScanAndSet\<close>.\<close>

function setRun :: "BitMap \<Rightarrow> u32 \<Rightarrow> u32 \<Rightarrow> bool \<Rightarrow> BitMap res" where
  "setRun bm idx cnt val =
     (if cnt = 0 then Inr bm
      else rbind (bitMapSet bm idx val) (\<lambda>bm'. setRun bm' (idx + 1) (cnt - 1) val))"
  by pat_completeness auto
termination
  by (relation "measure (\<lambda>(bm, i, c, v). unat c)") (auto simp: unat_minus1_u32 unat_gt_0)

definition bitMapScanAndSet :: "BitMap \<Rightarrow> u32 \<Rightarrow> bool \<Rightarrow> (u32 \<times> BitMap) res" where
  "bitMapScanAndSet bm cnt val =
     rbind (bitMapScan bm cnt)
       (\<lambda>bitIdxStart. if bitIdxStart = - 1 then Inr (- 1, bm)
        else rbind (setRun bm bitIdxStart cnt val) (\<lambda>bm'. Inr (bitIdxStart, bm')))"

text \<open>\<open>bitMapPrint\<close> as the characters it sends to the screen.\<close>

definition bitMapPrint :: "BitMap \<Rightarrow> string res" where
  "bitMapPrint bm =
     (if unat (bm_length bm) \<le> length (startAddr bm)
      then Inr (concat (map (\<lambda>b. map (\<lambda>i. if bit b i then CHR ''1'' else CHR ''0'') [0..<8] @ '' '')
                   (take (unat (bm_length bm)) (startAddr bm))) @ [CHR 0x0A])
      else Inl OutOfBounds)"

declare scanByte.simps [simp del] scanBit.simps [simp del] scanRun.simps [simp del]
  setRun.simps [simp del]

section \<open>Abstract view: the set of used indices\<close>

definition bm_used :: "BitMap \<Rightarrow> nat \<Rightarrow> bool" where
  "bm_used bm i = bit (startAddr bm ! (i div 8)) (i mod 8)"

definition bm_cap :: "BitMap \<Rightarrow> nat" where
  "bm_cap bm = 8 * unat (bm_length bm)"

text \<open>The memory holds at least one byte after the bitmap, and the bit count fits a uint32.\<close>

definition bm_wf :: "BitMap \<Rightarrow> bool" where
  "bm_wf bm \<longleftrightarrow> unat (bm_length bm) < length (startAddr bm) \<and> bm_cap bm < 2 ^ 32"

definition run_free :: "BitMap \<Rightarrow> nat \<Rightarrow> nat \<Rightarrow> bool" where
  "run_free bm s n \<longleftrightarrow> s + n \<le> bm_cap bm \<and> (\<forall>i. s \<le> i \<and> i < s + n \<longrightarrow> \<not> bm_used bm i)"

text \<open>The reference search: try every start from 0 on.\<close>

definition first_fit :: "BitMap \<Rightarrow> nat \<Rightarrow> nat option" where
  "first_fit bm n =
     (if bm_cap bm < n then None
      else find (\<lambda>s. list_all (\<lambda>i. \<not> bm_used bm i) [s..<s + n]) [0..<Suc (bm_cap bm - n)])"

lemma run_free_alt:
  "list_all (\<lambda>i. \<not> bm_used bm i) [s..<s + n] \<longleftrightarrow> (\<forall>i. s \<le> i \<and> i < s + n \<longrightarrow> \<not> bm_used bm i)"
  by (auto simp: list_all_iff)

lemma first_fit_None: "first_fit bm n = None \<longleftrightarrow> (\<forall>s. \<not> run_free bm s n)"
proof (cases "bm_cap bm < n")
  case True
  then show ?thesis by (auto simp: first_fit_def run_free_def)
next
  case False
  then have "t < Suc (bm_cap bm - n) \<longleftrightarrow> t + n \<le> bm_cap bm" for t by auto
  then show ?thesis
    using False by (auto simp: first_fit_def find_upt_None run_free_alt run_free_def simp del: upt_Suc)
qed

lemma first_fit_Some:
  "first_fit bm n = Some s \<longleftrightarrow> run_free bm s n \<and> (\<forall>t < s. \<not> run_free bm t n)"
proof (cases "bm_cap bm < n")
  case True
  then show ?thesis by (auto simp: first_fit_def run_free_def)
next
  case False
  then have le: "t < Suc (bm_cap bm - n) \<longleftrightarrow> t + n \<le> bm_cap bm" for t by auto
  have "first_fit bm n = Some s \<longleftrightarrow> s + n \<le> bm_cap bm \<and>
      (\<forall>i. s \<le> i \<and> i < s + n \<longrightarrow> \<not> bm_used bm i) \<and>
      (\<forall>t < s. \<not> (\<forall>i. t \<le> i \<and> i < t + n \<longrightarrow> \<not> bm_used bm i))"
    using False by (simp only: first_fit_def find_upt_Some run_free_alt le if_False)
  then show ?thesis by (auto simp: run_free_def)
qed

section \<open>Functional correctness\<close>

lemma drop_bit_and_1: "(drop_bit k b AND 1 :: 'a::len word) = of_bool (bit b k)"
  by (simp add: and_one_eq bit_iff_odd_drop_bit mod_2_eq_odd)

lemma bm_length_8: "bm_wf bm \<Longrightarrow> unat (bm_length bm * 8) = bm_cap bm"
  by (simp add: bm_wf_def bm_cap_def unat_word_ariths)

lemma bitMapTest_spec:
  assumes "bm_wf bm"
  shows "bitMapTest bm i = Inr (of_bool (unat i < bm_cap bm \<and> bm_used bm (unat i)))"
proof -
  have "bm_length bm * 8 \<le> i \<longleftrightarrow> bm_cap bm \<le> unat i"
    using bm_length_8 [OF assms] by (simp add: word_le_nat_alt)
  moreover have "unat (i div 8) < length (startAddr bm)" if "unat i < bm_cap bm"
    using that assms unfolding unat_div bm_wf_def bm_cap_def by simp linarith
  ultimately show ?thesis
    by (auto simp: bitMapTest_def drop_bit_and_1 bm_used_def unat_div unat_mod)
qed

lemma byte_full: "(b :: u8) = 0xff \<longleftrightarrow> (\<forall>i<8. bit b i)"
proof -
  have "bit (0xff :: u8) i" if "i < 8" for i
  proof -
    have "(0xff :: u8) = mask 8" by (simp add: mask_eq_exp_minus_1)
    then show ?thesis using that by (simp only: bit_mask_iff) simp
  qed
  then show ?thesis by (auto intro: bit_word_eqI)
qed

lemma scanByte_spec:
  assumes "bm_wf bm" and "i \<le> bm_length bm"
  obtains k where "scanByte bm i = Inr k" "i \<le> k" "k \<le> bm_length bm"
    "\<forall>j. unat i \<le> j \<and> j < unat k \<longrightarrow> startAddr bm ! j = 0xff"
    "k < bm_length bm \<longrightarrow> startAddr bm ! unat k \<noteq> 0xff"
proof -
  have "\<exists>k. scanByte bm i = Inr k \<and> i \<le> k \<and> k \<le> bm_length bm \<and>
    (\<forall>j. unat i \<le> j \<and> j < unat k \<longrightarrow> startAddr bm ! j = 0xff) \<and>
    (k < bm_length bm \<longrightarrow> startAddr bm ! unat k \<noteq> 0xff)"
    using assms
  proof (induction bm i rule: scanByte.induct)
    case (1 bm i)
    have inb: "unat i < length (startAddr bm)"
      using "1.prems" by (simp add: bm_wf_def word_le_nat_alt)
    show ?case
    proof (cases "startAddr bm ! unat i = 0xff \<and> i < bm_length bm")
      case True
      then have u: "unat (i + 1) = unat i + 1" by (intro unat_plus1_less) blast
      then have "i + 1 \<le> bm_length bm" using True by (simp add: word_le_nat_alt word_less_nat_alt)
      with "1.IH" [of "startAddr bm ! unat i"] "1.prems"(1) True inb obtain k where
        k: "scanByte bm (i + 1) = Inr k" "i + 1 \<le> k" "k \<le> bm_length bm"
        "\<forall>j. unat (i + 1) \<le> j \<and> j < unat k \<longrightarrow> startAddr bm ! j = 0xff"
        "k < bm_length bm \<longrightarrow> startAddr bm ! unat k \<noteq> 0xff"
        by auto
      have "\<forall>j. unat i \<le> j \<and> j < unat k \<longrightarrow> startAddr bm ! j = 0xff"
        using k(4) u True by (metis Suc_eq_plus1 not_less_eq_eq order_antisym_conv)
      moreover have "i \<le> k" using k(2) u by (simp add: word_le_nat_alt)
      ultimately show ?thesis
        using k True inb by (auto simp: scanByte.simps [of bm i])
    next
      case False
      then show ?thesis
        using inb "1.prems" by (auto simp: scanByte.simps [of bm i])
    qed
  qed
  then show ?thesis using that by blast
qed

lemma scanBit_upto:
  assumes "m < 8" "\<not> bit b m" "unat i \<le> m" "\<forall>j<unat i. bit b j"
  shows "unat (scanBit b i) \<le> m \<and> \<not> bit b (unat (scanBit b i)) \<and> (\<forall>j<unat (scanBit b i). bit b j)"
  using assms
proof (induction b i rule: scanBit.induct)
  case (1 b i)
  show ?case
  proof (cases "bit b (unat i)")
    case True
    then have u: "unat (i + 1) = unat i + 1"
      using bit_imp_le_length [OF True] by (simp add: unat_plus1_u32)
    have "unat i \<noteq> m" using "1.prems" True by metis
    then have "unat (i + 1) \<le> m" "\<forall>j<unat (i + 1). bit b j"
      using "1.prems" u True less_Suc_eq by auto
    then have "unat (scanBit b (i + 1)) \<le> m \<and> \<not> bit b (unat (scanBit b (i + 1))) \<and>
      (\<forall>j<unat (scanBit b (i + 1)). bit b j)"
      using "1.IH" "1.prems"(1,2) True by (simp add: drop_bit_and_1)
    then show ?thesis using True by (simp add: scanBit.simps [of b i] drop_bit_and_1)
  next
    case False
    then show ?thesis using "1.prems" by (simp add: scanBit.simps [of b i] drop_bit_and_1)
  qed
qed

lemma scanBit_spec:
  assumes "b \<noteq> 0xff"
  obtains "unat (scanBit b 0) < 8" "\<not> bit b (unat (scanBit b 0))" "\<forall>j<unat (scanBit b 0). bit b j"
proof -
  from assms obtain m where "m < 8" "\<not> bit b m" by (auto simp: byte_full)
  then show ?thesis using scanBit_upto [of m b 0] that by force
qed

text \<open>The run search: no run ends at or before \<open>nextBit\<close>, and the \<open>fdCnt\<close> bits before it are the
  free bits that follow the last used one.\<close>

lemma scanRun_spec:
  assumes "bm_wf bm" "0 < unat cnt" "unat nextBit + unat leftBit = bm_cap bm"
    "unat fdCnt < unat cnt" "unat fdCnt \<le> unat nextBit"
    "\<forall>i. unat nextBit - unat fdCnt \<le> i \<and> i < unat nextBit \<longrightarrow> \<not> bm_used bm i"
    "unat nextBit = unat fdCnt \<or> bm_used bm (unat nextBit - unat fdCnt - 1)"
    "\<forall>s. run_free bm s (unat cnt) \<longrightarrow> unat nextBit < s + unat cnt"
  shows "scanRun bm cnt leftBit nextBit fdCnt =
    Inr (case first_fit bm (unat cnt) of None \<Rightarrow> - 1 | Some s \<Rightarrow> of_nat s)"
  using assms
proof (induction bm cnt leftBit nextBit fdCnt rule: scanRun.induct)
  case (1 bm cnt leftBit nextBit fdCnt)
  show ?case
  proof (cases "leftBit = 0")
    case True
    then have "\<forall>s. \<not> run_free bm s (unat cnt)"
      using "1.prems" by (fastforce simp: run_free_def)
    then show ?thesis
      using True by (subst scanRun.simps) (simp add: first_fit_None [THEN iffD2])
  next
    case left: False
    let ?n = "unat nextBit" and ?c = "unat cnt" and ?f = "unat fdCnt"
    have l_pos: "0 < unat leftBit" using left by (simp add: unat_gt_0)
    then have n_lt: "?n < bm_cap bm" using "1.prems"(3) by linarith
    have n1: "unat (nextBit + 1) = ?n + 1"
      using n_lt "1.prems"(1) by (intro unat_plus1_u32) (simp add: bm_wf_def)
    have l1: "unat (leftBit - 1) = unat leftBit - 1" using left by (rule unat_minus1_u32)
    have f1: "unat (fdCnt + 1) = ?f + 1"
      using "1.prems"(4) by (intro unat_plus1_less) (simp add: word_less_nat_alt)
    have test: "bitMapTest bm nextBit = Inr (of_bool (bm_used bm ?n))"
      using "1.prems"(1) n_lt by (simp add: bitMapTest_spec)
    show ?thesis
    proof (cases "bm_used bm ?n")
      case True
      have "\<forall>s. run_free bm s ?c \<longrightarrow> ?n + 1 < s + ?c"
      proof (intro allI impI)
        fix s assume r: "run_free bm s ?c"
        then have "?n < s + ?c" using "1.prems"(8) by blast
        moreover have "\<not> (s \<le> ?n)"
          using r True calculation by (auto simp: run_free_def)
        ultimately show "?n + 1 < s + ?c" using "1.prems"(2) by linarith
      qed
      moreover have vac: "\<forall>i. Suc ?n \<le> i \<and> i < Suc ?n \<longrightarrow> \<not> bm_used bm i" by auto
      ultimately have "scanRun bm cnt (leftBit - 1) (nextBit + 1) 0 =
          Inr (case first_fit bm ?c of None \<Rightarrow> - 1 | Some s \<Rightarrow> of_nat s)"
        using "1.IH" [of 1 0] left True test "1.prems"(1-3) n1 l1 l_pos vac
        by (simp add: unat_gt_0)
      then show ?thesis
        using left True test "1.prems"(2)
        by (auto simp: scanRun.simps [of _ _ leftBit] unat_gt_0 [symmetric])
    next
      case False
      have free: "\<forall>i. ?n - ?f \<le> i \<and> i < ?n + 1 \<longrightarrow> \<not> bm_used bm i"
        using "1.prems"(6) False by (auto simp: less_Suc_eq)
      show ?thesis
      proof (cases "fdCnt + 1 = cnt")
        case True
        then have fc: "?c = ?f + 1" using f1 by simp
        have "run_free bm (?n - ?f) ?c"
          using free n_lt "1.prems"(5) by (simp add: run_free_def fc)
        moreover have "\<forall>t < ?n - ?f. \<not> run_free bm t ?c"
          using "1.prems"(8) fc by fastforce
        ultimately have "first_fit bm ?c = Some (?n - ?f)" by (simp add: first_fit_Some)
        moreover have "nextBit - cnt + 1 = of_nat (?n - ?f)"
          using "1.prems"(5) True by (simp add: True [symmetric])
        ultimately show ?thesis
          using left False test True by (simp add: scanRun.simps [of _ _ leftBit])
      next
        case cont: False
        then have "?f + 1 \<noteq> ?c" using f1 by (metis unsigned_word_eqI)
        then have lt: "?f + 1 < ?c" using "1.prems"(4) by linarith
        have "\<forall>s. run_free bm s ?c \<longrightarrow> ?n + 1 < s + ?c"
        proof (intro allI impI)
          fix s assume r: "run_free bm s ?c"
          then have s: "?n < s + ?c" using "1.prems"(8) by blast
          show "?n + 1 < s + ?c"
          proof (rule ccontr)
            assume "\<not> ?n + 1 < s + ?c"
            then have e: "s + ?c = ?n + 1" using s by linarith
            then have "?n \<noteq> ?f" using lt by linarith
            then have "bm_used bm (?n - ?f - 1)" using "1.prems"(7) by blast
            moreover have "s \<le> ?n - ?f - 1" "?n - ?f - 1 < s + ?c" using e lt by linarith+
            ultimately show False using r by (auto simp: run_free_def)
          qed
        qed
        then have "scanRun bm cnt (leftBit - 1) (nextBit + 1) (fdCnt + 1) =
            Inr (case first_fit bm ?c of None \<Rightarrow> - 1 | Some s \<Rightarrow> of_nat s)"
          using "1.IH" [of 0 "fdCnt + 1"] left False test "1.prems"(1-3,5,7) n1 l1 f1 lt free cont l_pos
          by (simp add: unat_gt_0)
        then show ?thesis
          using left False test cont by (simp add: scanRun.simps [of _ _ leftBit])
      qed
    qed
  qed
qed

text \<open>The prefix of full bytes and set bits that the first two loops skip.\<close>

lemma full_prefix_used:
  assumes "\<forall>j < k. startAddr bm ! j = 0xff" "i < 8 * k"
  shows "bm_used bm i"
proof -
  have "i div 8 < k" using assms(2) by auto
  then have "startAddr bm ! (i div 8) = 0xff" using assms(1) by blast
  then show ?thesis by (simp add: bm_used_def byte_full)
qed

lemma skipped_prefix_used:
  assumes "\<forall>j < k. startAddr bm ! j = 0xff" "\<forall>j < m. bit (startAddr bm ! k) j" "m \<le> 8"
    "i < 8 * k + m"
  shows "bm_used bm i"
proof (cases "i < 8 * k")
  case True
  then show ?thesis using assms(1) full_prefix_used by blast
next
  case False
  define r where "r = i - 8 * k"
  have "i = r + k * 8" "r < m" using False assms(4) by (simp_all add: r_def)
  then have "i div 8 = k" "i mod 8 < m" using assms(3) by simp_all
  then show ?thesis using assms(2) by (simp add: bm_used_def)
qed

text \<open>\<open>bitMapScan\<close> returns the least start of \<open>cnt\<close> consecutive clear bits, and -1 when there is
  none.\<close>

lemma bitMapScan_eq_first_fit:
  assumes wf: "bm_wf bm" and cnt: "0 < unat cnt"
  shows "bitMapScan bm cnt = Inr (case first_fit bm (unat cnt) of None \<Rightarrow> - 1 | Some s \<Rightarrow> of_nat s)"
proof -
  obtain k where k: "scanByte bm 0 = Inr k" "k \<le> bm_length bm"
    "\<forall>j < unat k. startAddr bm ! j = 0xff" "k < bm_length bm \<longrightarrow> startAddr bm ! unat k \<noteq> 0xff"
    using scanByte_spec [OF wf, of 0] by auto
  show ?thesis
  proof (cases "k = bm_length bm")
    case True
    have "\<forall>i < bm_cap bm. bm_used bm i"
      using full_prefix_used k(3) True by (simp add: bm_cap_def)
    then have "\<forall>s. \<not> run_free bm s (unat cnt)"
      using cnt by (auto simp: run_free_def intro!: exI)
    then show ?thesis
      using k True by (simp add: bitMapScan_def first_fit_None [THEN iffD2])
  next
    case False
    then have kl: "unat k < unat (bm_length bm)"
      using k(2) by (metis word_less_nat_alt order_le_imp_less_or_eq)
    then have nfull: "startAddr bm ! unat k \<noteq> 0xff" using k(4) by (simp add: word_less_nat_alt)
    let ?b = "startAddr bm ! unat k" and ?m = "unat (scanBit (startAddr bm ! unat k) 0)"
    obtain m: "?m < 8" "\<not> bit ?b ?m" "\<forall>j < ?m. bit ?b j" using scanBit_spec [OF nfull] by blast
    let ?s = "8 * unat k + ?m" and ?start = "8 * k + scanBit ?b 0"
    have s_lt: "?s < bm_cap bm" using kl m(1) by (simp add: bm_cap_def)
    have cap32: "bm_cap bm < 4294967296" using wf by (simp add: bm_wf_def)
    have u_start: "unat ?start = ?s"
      using s_lt cap32 by (simp add: unat_word_ariths)
    have before: "bm_used bm i" if "i < ?s" for i
      using skipped_prefix_used [OF k(3) m(3)] m(1) that by simp
    have s_free: "\<not> bm_used bm ?s" using m(1,2) by (simp add: bm_used_def)
    have inb: "unat k < length (startAddr bm)" using kl wf by (simp add: bm_wf_def)
    show ?thesis
    proof (cases "cnt = 1")
      case True
      have "first_fit bm 1 = Some ?s"
        using s_lt s_free before by (auto simp: first_fit_Some run_free_def less_Suc_eq)
      moreover have "of_nat ?s = ?start" by (simp flip: u_start)
      ultimately show ?thesis
        using True False k(1) inb by (simp add: bitMapScan_def)
    next
      case many: False
      then have c2: "1 < unat cnt" using cnt
        by (metis One_nat_def Suc_lessI unat_1 unsigned_word_eqI)
      have n1: "unat (?start + 1) = ?s + 1"
        using s_lt cap32 by (subst unat_plus1_u32) (simp_all only: u_start, simp)
      have l1: "unat (bm_length bm * 8 - ?start - 1) = bm_cap bm - ?s - 1"
      proof -
        have "unat (bm_length bm * 8 - ?start) = bm_cap bm - ?s"
          using s_lt bm_length_8 [OF wf] u_start by (subst unat_sub_small) simp_all
        then show ?thesis using s_lt by (subst unat_minus1_u32) auto
      qed
      have "\<forall>s. run_free bm s (unat cnt) \<longrightarrow> unat (?start + 1) < s + unat cnt"
      proof (intro allI impI)
        fix s assume r: "run_free bm s (unat cnt)"
        then have "\<not> bm_used bm s" using cnt by (auto simp: run_free_def)
        then have "?s \<le> s" using before by (meson not_le)
        then show "unat (?start + 1) < s + unat cnt" using c2 n1 by linarith
      qed
      moreover have "unat (?start + 1) = unat (1 :: u32) \<or>
          bm_used bm (unat (?start + 1) - unat (1 :: u32) - 1)"
        using before [of "?s - 1"] n1 by (cases "?s = 0") auto
      moreover have "\<forall>i. unat (?start + 1) - unat (1 :: u32) \<le> i \<and> i < unat (?start + 1) \<longrightarrow>
          \<not> bm_used bm i"
        using s_free n1 by (auto simp: less_Suc_eq)
      ultimately have "scanRun bm cnt (bm_length bm * 8 - ?start - 1) (?start + 1) 1 =
          Inr (case first_fit bm (unat cnt) of None \<Rightarrow> - 1 | Some s \<Rightarrow> of_nat s)"
        using s_lt c2 n1 l1 cnt by (intro scanRun_spec [OF wf cnt]) simp_all
      then show ?thesis
        using False many k(1) inb by (simp add: bitMapScan_def Let_def)
    qed
  qed
qed

text \<open>Setting a bit changes that bit only.\<close>

definition bm_same_shape :: "BitMap \<Rightarrow> BitMap \<Rightarrow> bool" where
  "bm_same_shape bm bm' \<longleftrightarrow>
     bm_length bm' = bm_length bm \<and> length (startAddr bm') = length (startAddr bm)"

lemma bm_same_shape_trans:
  "bm_same_shape a b \<Longrightarrow> bm_same_shape b c \<Longrightarrow> bm_same_shape a c"
  by (simp add: bm_same_shape_def)

lemma bm_wf_same_shape: "bm_same_shape bm bm' \<Longrightarrow> bm_wf bm' = bm_wf bm"
  by (simp add: bm_same_shape_def bm_wf_def bm_cap_def)

lemma bm_cap_same_shape: "bm_same_shape bm bm' \<Longrightarrow> bm_cap bm' = bm_cap bm"
  by (simp add: bm_same_shape_def bm_cap_def)

lemma bit_set_clear:
  "bit (b OR 2 ^ n :: u8) j \<longleftrightarrow> bit b j \<or> (j = n \<and> n < 8)"
  "bit (b AND NOT (2 ^ n) :: u8) j \<longleftrightarrow> bit b j \<and> j \<noteq> n"
  by (auto simp: bit_or_iff bit_and_iff bit_not_iff bit_exp_iff dest: bit_imp_le_length)

lemma bitMapSet_spec:
  assumes "unat i div 8 < length (startAddr bm)"
  obtains bm' where "bitMapSet bm i v = Inr bm'" "bm_same_shape bm bm'"
    "\<And>j. bm_used bm' j = (if j = unat i then v else bm_used bm j)"
proof -
  let ?k = "unat i div 8" and ?n = "unat i mod 8"
  let ?b = "startAddr bm ! ?k"
  let ?b' = "if v then ?b OR push_bit ?n 1 else ?b AND NOT (push_bit ?n 1)"
  let ?bm' = "bm\<lparr>startAddr := (startAddr bm)[?k := ?b']\<rparr>"
  have "bitMapSet bm i v = Inr ?bm'"
    using assms by (simp add: bitMapSet_def unat_div unat_mod Let_def)
  moreover have "bm_same_shape bm ?bm'" by (simp add: bm_same_shape_def)
  moreover have "bm_used ?bm' j = (if j = unat i then v else bm_used bm j)" for j
  proof (cases "j div 8 = ?k")
    case True
    then have "j mod 8 = ?n \<longleftrightarrow> j = unat i" by (metis div_mult_mod_eq)
    then show ?thesis using True assms by (auto simp: bm_used_def bit_set_clear)
  next
    case False
    then show ?thesis using assms by (auto simp: bm_used_def)
  qed
  ultimately show ?thesis using that by blast
qed

lemma setRun_spec:
  assumes "bm_wf bm" "unat i + unat c \<le> bm_cap bm"
  shows "\<exists>bm'. setRun bm i c v = Inr bm' \<and> bm_same_shape bm bm' \<and>
    (\<forall>j. bm_used bm' j = (if unat i \<le> j \<and> j < unat i + unat c then v else bm_used bm j))"
  using assms
proof (induction bm i c v rule: setRun.induct)
  case (1 bm i c v)
  show ?case
  proof (cases "c = 0")
    case True
    then show ?thesis by (auto simp: setRun.simps [of bm] bm_same_shape_def)
  next
    case False
    then have c1: "unat (c - 1) = unat c - 1" "0 < unat c"
      by (simp_all add: unat_minus1_u32 unat_gt_0)
    have wf: "unat (bm_length bm) < length (startAddr bm)" "bm_cap bm < 4294967296"
      using "1.prems" by (simp_all add: bm_wf_def)
    have "unat i div 8 < length (startAddr bm)"
      using "1.prems" c1 wf by (simp add: bm_cap_def)
    then obtain bm1 where b1: "bitMapSet bm i v = Inr bm1" "bm_same_shape bm bm1"
      "\<And>j. bm_used bm1 j = (if j = unat i then v else bm_used bm j)"
      by (rule bitMapSet_spec [of i bm v]) blast
    have i1: "unat (i + 1) = unat i + 1"
      using "1.prems" c1 wf by (intro unat_plus1_u32) simp
    have "unat (i + 1) + unat (c - 1) \<le> bm_cap bm1"
      using i1 c1 "1.prems" by (simp add: bm_cap_same_shape [OF b1(2)])
    then obtain bm2 where b2: "setRun bm1 (i + 1) (c - 1) v = Inr bm2" "bm_same_shape bm1 bm2"
      "\<forall>j. bm_used bm2 j = (if unat (i + 1) \<le> j \<and> j < unat (i + 1) + unat (c - 1) then v
                             else bm_used bm1 j)"
      using "1.IH" [OF False b1(1)] "1.prems"(1) bm_wf_same_shape [OF b1(2)] by blast
    have "bm_used bm2 j = (if unat i \<le> j \<and> j < unat i + unat c then v else bm_used bm j)" for j
      using b1(3) b2(3) i1 c1 by auto
    then show ?thesis
      using b1 b2 False by (auto simp: setRun.simps [of bm] intro: bm_same_shape_trans)
  qed
qed

lemma first_fit_bound:
  "bm_wf bm \<Longrightarrow> 0 < n \<Longrightarrow> first_fit bm n = Some s \<Longrightarrow> s + n \<le> bm_cap bm \<and> s < 4294967295"
  by (auto simp: first_fit_Some run_free_def bm_wf_def)

lemma of_nat_neq_minus1:
  assumes "s < 4294967295"
  shows "(of_nat s :: u32) \<noteq> - 1"
proof
  assume "(of_nat s :: u32) = - 1"
  then have "unat (of_nat s :: u32) = unat (- 1 :: u32)" by simp
  then show False using assms unat_of_nat_small [of s] by (simp add: unat_minus1_max)
qed

lemma bitMapScanAndSet_none:
  "bm_wf bm \<Longrightarrow> 0 < unat cnt \<Longrightarrow> first_fit bm (unat cnt) = None \<Longrightarrow>
   bitMapScanAndSet bm cnt v = Inr (- 1, bm)"
  by (simp add: bitMapScanAndSet_def bitMapScan_eq_first_fit)

lemma bitMapScanAndSet_some:
  assumes "bm_wf bm" "0 < unat cnt" "first_fit bm (unat cnt) = Some s"
  obtains bm' where "bitMapScanAndSet bm cnt v = Inr (of_nat s, bm')" "bm_same_shape bm bm'"
    "\<And>j. bm_used bm' j = (if s \<le> j \<and> j < s + unat cnt then v else bm_used bm j)"
proof -
  have s: "s + unat cnt \<le> bm_cap bm" "s < 4294967295"
    using first_fit_bound [OF assms] by blast+
  then have u: "unat (of_nat s :: u32) = s" by (intro unat_of_nat_small) simp
  obtain bm' where "setRun bm (of_nat s) cnt v = Inr bm'" "bm_same_shape bm bm'"
    "\<forall>j. bm_used bm' j = (if s \<le> j \<and> j < s + unat cnt then v else bm_used bm j)"
    using setRun_spec [of bm "of_nat s" cnt v] assms(1) s(1) unfolding u by blast
  then show ?thesis
    using that assms of_nat_neq_minus1 [OF s(2)]
    by (simp add: bitMapScanAndSet_def bitMapScan_eq_first_fit)
qed

section \<open>Pools of identifiers\<close>

text \<open>
  The interface the rest of the kernel relies on: a pool hands out identifiers that are not in
  use, reports exhaustion only when none is left, and takes an identifier back. Its clients are
  the page pools, the inode map and the block map.
\<close>

locale id_pool =
  fixes inv :: "'s \<Rightarrow> bool"
    and ids :: "'s \<Rightarrow> 'h set"
    and used :: "'s \<Rightarrow> 'h set"
    and acquire :: "'s \<Rightarrow> ('h option \<times> 's) res"
    and release :: "'h \<Rightarrow> 's \<Rightarrow> 's res"
  assumes acquire_fresh: "inv s \<Longrightarrow> \<not> ids s \<subseteq> used s \<Longrightarrow>
      \<exists>h s'. acquire s = Inr (Some h, s') \<and> h \<in> ids s \<and> h \<notin> used s \<and>
        used s' = insert h (used s) \<and> ids s' = ids s \<and> inv s'"
    and acquire_exhausted: "inv s \<Longrightarrow> ids s \<subseteq> used s \<Longrightarrow> acquire s = Inr (None, s)"
    and release_used: "inv s \<Longrightarrow> h \<in> ids s \<Longrightarrow>
      \<exists>s'. release h s = Inr s' \<and> used s' = used s - {h} \<and> ids s' = ids s \<and> inv s'"
begin

text \<open>A client acquires \<open>n\<close> identifiers in a row.\<close>

fun acquire_n :: "nat \<Rightarrow> 's \<Rightarrow> ('h list \<times> 's) res" where
  "acquire_n 0 s = Inr ([], s)"
| "acquire_n (Suc n) s = rbind (acquire s)
     (\<lambda>(r, s'). case r of None \<Rightarrow> Inr ([], s')
       | Some h \<Rightarrow> rbind (acquire_n n s') (\<lambda>(hs, s''). Inr (h # hs, s'')))"

lemma acquire_ok: "inv s \<Longrightarrow> \<exists>r s'. acquire s = Inr (r, s') \<and> inv s' \<and> ids s' = ids s"
  using acquire_fresh acquire_exhausted by (cases "ids s \<subseteq> used s") fastforce+

lemma acquire_Some:
  "inv s \<Longrightarrow> acquire s = Inr (Some h, s') \<Longrightarrow>
   h \<in> ids s \<and> h \<notin> used s \<and> used s' = insert h (used s) \<and> ids s' = ids s \<and> inv s'"
  using acquire_fresh [of s] acquire_exhausted [of s] by (cases "ids s \<subseteq> used s") auto

lemma acquire_n_distinct:
  "inv s \<Longrightarrow> acquire_n n s = Inr (hs, s') \<Longrightarrow>
   distinct hs \<and> set hs \<inter> used s = {} \<and> set hs \<subseteq> ids s \<and> used s' = used s \<union> set hs \<and>
   ids s' = ids s \<and> inv s'"
proof (induction n arbitrary: s hs)
  case 0
  then show ?case by simp
next
  case (Suc n)
  obtain r s1 where a: "acquire s = Inr (r, s1)" using acquire_ok Suc.prems(1) by blast
  show ?case
  proof (cases r)
    case None
    then have "s1 = s"
      using a Suc.prems(1) acquire_fresh [of s] acquire_exhausted [of s]
      by (cases "ids s \<subseteq> used s") auto
    then show ?thesis using Suc.prems a None by simp
  next
    case (Some h)
    then have h: "h \<in> ids s" "h \<notin> used s" "used s1 = insert h (used s)" "ids s1 = ids s" "inv s1"
      using acquire_Some a Suc.prems(1) by blast+
    obtain hs1 where hs1: "acquire_n n s1 = Inr (hs1, s')" "hs = h # hs1"
      using Suc.prems(2) a Some by (auto simp: rbind_eq_Inr)
    show ?thesis using Suc.IH [OF h(5) hs1(1)] h hs1(2) by auto
  qed
qed

lemma acquire_release:
  assumes "inv s" "acquire s = Inr (Some h, s')"
  shows "\<exists>s''. release h s' = Inr s'' \<and> used s'' = used s \<and> ids s'' = ids s \<and> inv s''"
proof -
  have h: "h \<in> ids s" "h \<notin> used s" "used s' = insert h (used s)" "ids s' = ids s" "inv s'"
    using acquire_Some assms by blast+
  then show ?thesis using release_used [OF h(5), of h] by auto
qed

end

text \<open>The bitmap itself is such a pool, with the calls \<open>bitMapScanAndSet(bm, 1, 1)\<close> and
  \<open>bitMapSet(bm, i, 0)\<close>.\<close>

definition bm_acquire :: "BitMap \<Rightarrow> (u32 option \<times> BitMap) res" where
  "bm_acquire bm = rbind (bitMapScanAndSet bm 1 True)
     (\<lambda>(i, bm'). Inr (if i = - 1 then None else Some i, bm'))"

definition bm_release :: "u32 \<Rightarrow> BitMap \<Rightarrow> BitMap res" where
  "bm_release i bm = bitMapSet bm i False"

definition bm_ids :: "BitMap \<Rightarrow> u32 set" where
  "bm_ids bm = {i. unat i < bm_cap bm}"

definition bm_used_ids :: "BitMap \<Rightarrow> u32 set" where
  "bm_used_ids bm = {i. unat i < bm_cap bm \<and> bm_used bm (unat i)}"

lemma first_fit_1_None: "first_fit bm 1 = None \<longleftrightarrow> (\<forall>i < bm_cap bm. bm_used bm i)"
  by (force simp: first_fit_None run_free_def less_Suc_eq)

lemma bm_full_iff: "bm_wf bm \<Longrightarrow> bm_ids bm \<subseteq> bm_used_ids bm \<longleftrightarrow> first_fit bm 1 = None"
  unfolding first_fit_1_None
proof
  assume wf: "bm_wf bm" and sub: "bm_ids bm \<subseteq> bm_used_ids bm"
  show "\<forall>i < bm_cap bm. bm_used bm i"
  proof (intro allI impI)
    fix i assume "i < bm_cap bm"
    then have "unat (of_nat i :: u32) = i" "(of_nat i :: u32) \<in> bm_ids bm"
      using wf by (simp_all add: unat_of_nat_small bm_wf_def bm_ids_def)
    then show "bm_used bm i" using sub by (auto simp: bm_used_ids_def)
  qed
qed (auto simp: bm_ids_def bm_used_ids_def)

lemma bm_acquire_fresh:
  assumes wf: "bm_wf bm" and free: "\<not> bm_ids bm \<subseteq> bm_used_ids bm"
  shows "\<exists>h bm'. bm_acquire bm = Inr (Some h, bm') \<and> h \<in> bm_ids bm \<and> h \<notin> bm_used_ids bm \<and>
    bm_used_ids bm' = insert h (bm_used_ids bm) \<and> bm_ids bm' = bm_ids bm \<and> bm_wf bm'"
proof -
  obtain s where s: "first_fit bm 1 = Some s" using free bm_full_iff [OF wf] by auto
  then have b: "s < bm_cap bm" "s < 4294967295" "\<not> bm_used bm s"
    using first_fit_bound [OF wf, of 1 s] by (auto simp: first_fit_Some run_free_def)
  have u: "unat (of_nat s :: u32) = s" using b(2) by (intro unat_of_nat_small) simp
  obtain bm' where bm': "bitMapScanAndSet bm 1 True = Inr (of_nat s, bm')" "bm_same_shape bm bm'"
    "\<And>j. bm_used bm' j = (if s \<le> j \<and> j < s + 1 then True else bm_used bm j)"
    using bitMapScanAndSet_some [OF wf, of 1 s True] s by auto
  have "bm_acquire bm = Inr (Some (of_nat s), bm')"
    using bm'(1) of_nat_neq_minus1 [OF b(2)] by (simp add: bm_acquire_def)
  moreover have "of_nat s \<in> bm_ids bm" "of_nat s \<notin> bm_used_ids bm"
    using b by (simp_all add: bm_ids_def bm_used_ids_def u)
  moreover have "bm_used_ids bm' = insert (of_nat s) (bm_used_ids bm)"
  proof (rule set_eqI)
    fix i :: u32
    have "i = of_nat s \<longleftrightarrow> unat i = s" using u by auto
    then show "i \<in> bm_used_ids bm' \<longleftrightarrow> i \<in> insert (of_nat s) (bm_used_ids bm)"
      using b(1) bm'(3) [of "unat i"] bm_cap_same_shape [OF bm'(2)] by (auto simp: bm_used_ids_def)
  qed
  moreover have "bm_ids bm' = bm_ids bm" "bm_wf bm'"
    using wf bm'(2) by (simp_all add: bm_ids_def bm_cap_same_shape bm_wf_same_shape)
  ultimately show ?thesis by blast
qed

lemma bm_release_used:
  assumes wf: "bm_wf bm" and h: "h \<in> bm_ids bm"
  shows "\<exists>bm'. bm_release h bm = Inr bm' \<and> bm_used_ids bm' = bm_used_ids bm - {h} \<and>
    bm_ids bm' = bm_ids bm \<and> bm_wf bm'"
proof -
  have "unat h div 8 < length (startAddr bm)"
    using wf h unfolding bm_ids_def bm_wf_def bm_cap_def mem_Collect_eq by linarith
  then obtain bm' where bm': "bitMapSet bm h False = Inr bm'" "bm_same_shape bm bm'"
    "\<And>j. bm_used bm' j = (if j = unat h then False else bm_used bm j)"
    by (rule bitMapSet_spec [of h bm False]) blast
  then show ?thesis
    using wf by (auto simp: bm_release_def bm_used_ids_def bm_ids_def bm_cap_same_shape
        bm_wf_same_shape [OF bm'(2)])
qed

interpretation bmp: id_pool bm_wf bm_ids bm_used_ids bm_acquire bm_release
proof unfold_locales
  fix s :: BitMap
  assume "bm_wf s" "bm_ids s \<subseteq> bm_used_ids s"
  then show "bm_acquire s = Inr (None, s)"
    by (simp add: bm_acquire_def bm_full_iff bitMapScanAndSet_none)
qed (fact bm_acquire_fresh bm_release_used)+

section \<open>Properties of the bitmaps\<close>

definition demoMap :: BitMap where
  "demoMap = \<lparr>bm_length = 2, startAddr = [0xff, 0x05, 0]\<rparr>"

lemma demoMap_wf: "bm_wf demoMap"
  by (simp add: bm_wf_def bm_cap_def demoMap_def)

text \<open>C5: bitMapScan is first fit: on a well-formed bitmap it returns the least start of a run of cnt
  free bits inside the bitmap, and -1 when there is no such run.\<close>

theorem bitMapScan_first_fit:
  assumes "bm_wf bm" "0 < unat cnt"
  shows "bitMapScan bm cnt = Inr (case first_fit bm (unat cnt) of None \<Rightarrow> - 1 | Some s \<Rightarrow> of_nat s) \<and>
    (case first_fit bm (unat cnt) of
       None \<Rightarrow> (\<forall>s. \<not> run_free bm s (unat cnt))
     | Some s \<Rightarrow> run_free bm s (unat cnt) \<and> (\<forall>t < s. \<not> run_free bm t (unat cnt)))"
  using bitMapScan_eq_first_fit [OF assms] first_fit_None [of bm "unat cnt"] first_fit_Some [of bm "unat cnt"]
  by (auto split: option.splits)

theorem bitMapScan_first_fit_witness: "bitMapScan demoMap 2 = Inr 11"
  using bitMapScan_first_fit [OF demoMap_wf, of 2]
  by (simp add: first_fit_def bm_cap_def demoMap_def bm_used_def upt_rec)

text \<open>bitMapScanAndSet allocates: when a run is found exactly its cnt bits change to the new value,
  length and capacity stay; when none is found the bitmap is unchanged and the result is -1.\<close>

theorem bitMapScanAndSet_allocates:
  assumes "bm_wf bm" "0 < unat cnt"
  shows "case first_fit bm (unat cnt) of
      None \<Rightarrow> bitMapScanAndSet bm cnt v = Inr (- 1, bm)
    | Some s \<Rightarrow> \<exists>bm'. bitMapScanAndSet bm cnt v = Inr (of_nat s, bm') \<and> bm_length bm' = bm_length bm \<and>
        (\<forall>j. bm_used bm' j = (if s \<le> j \<and> j < s + unat cnt then v else bm_used bm j))"
proof (cases "first_fit bm (unat cnt)")
  case None
  then show ?thesis using bitMapScanAndSet_none [OF assms None] by simp
next
  case (Some s)
  then show ?thesis using bitMapScanAndSet_some [OF assms Some, of v]
    by (simp add: bm_same_shape_def) metis
qed

theorem bitMapScanAndSet_allocates_witness:
  "case first_fit demoMap 3 of None \<Rightarrow> bitMapScanAndSet demoMap 3 True = Inr (- 1, demoMap)
    | Some s \<Rightarrow> \<exists>bm'. bitMapScanAndSet demoMap 3 True = Inr (of_nat s, bm') \<and> bm_length bm' = bm_length demoMap \<and>
        (\<forall>j. bm_used bm' j = (if s \<le> j \<and> j < s + 3 then True else bm_used demoMap j))"
proof -
  have u: "unat (3 :: u32) = 3" by simp
  show ?thesis using bitMapScanAndSet_allocates [OF demoMap_wf, of 3 True] unfolding u by simp
qed

text \<open>a client that acquires n bits of a bitmap one after the other gets n different bits that were
  free and lie inside the bitmap (fewer when the bitmap is exhausted), and afterwards exactly these
  are used in addition.\<close>

theorem bitmap_ids_distinct:
  assumes "bm_wf bm" "bmp.acquire_n n bm = Inr (hs, bm')"
  shows "distinct hs \<and> set hs \<inter> bm_used_ids bm = {} \<and> set hs \<subseteq> bm_ids bm \<and>
    bm_used_ids bm' = bm_used_ids bm \<union> set hs"
  using bmp.acquire_n_distinct [OF assms] by blast

theorem bitmap_ids_distinct_witness:
  "distinct [9 :: u32, 11, 12] \<and> set [9 :: u32, 11, 12] \<inter> bm_used_ids demoMap = {}"
proof -
  have a: "bm_acquire demoMap = Inr (Some 9, \<lparr>bm_length = 2, startAddr = [0xff, 0x07, 0]\<rparr>)"
    "bm_acquire \<lparr>bm_length = 2, startAddr = [0xff, 0x07, 0]\<rparr> =
       Inr (Some 11, \<lparr>bm_length = 2, startAddr = [0xff, 0x0f, 0]\<rparr>)"
    "bm_acquire \<lparr>bm_length = 2, startAddr = [0xff, 0x0f, 0]\<rparr> =
       Inr (Some 12, \<lparr>bm_length = 2, startAddr = [0xff, 0x1f, 0]\<rparr>)"
    by code_simp+
  have "bmp.acquire_n 3 demoMap = Inr ([9, 11, 12], \<lparr>bm_length = 2, startAddr = [0xff, 0x1f, 0]\<rparr>)"
    by (simp add: numeral_3_eq_3 a)
  from bitmap_ids_distinct [OF demoMap_wf this] show ?thesis by blast
qed

text \<open>bitMapScan reads a byte before it checks the bound: when all bytes of a bitmap are 0xff and
  its memory ends with it, the scan reads past the end.\<close>

theorem bitMapScan_overread:
  assumes "length (startAddr bm) = unat (bm_length bm)" "\<forall>b \<in> set (startAddr bm). b = 0xff"
  shows "bitMapScan bm cnt = Inl OutOfBounds"
proof -
  have step: "scanByte bm i = Inl OutOfBounds" if "unat i \<le> unat (bm_length bm)" for i
    using that
  proof (induction "unat (bm_length bm) - unat i" arbitrary: i)
    case 0
    then show ?case by (subst scanByte.simps) (simp add: assms(1))
  next
    case (Suc n)
    then have lt: "unat i < unat (bm_length bm)" by linarith
    then have "startAddr bm ! unat i = 0xff" using assms by simp
    moreover have "unat (i + 1) = unat i + 1" using lt by (intro unat_plus1_less [of i "bm_length bm"]) (simp add: word_less_nat_alt)
    ultimately show ?case using Suc lt assms(1) by (subst scanByte.simps) (simp add: word_less_nat_alt)
  qed
  then show ?thesis using step [of 0] by (simp add: bitMapScan_def)
qed

theorem bitMapScan_overread_witness:
  "bitMapScan \<lparr>bm_length = 2, startAddr = [0xff, 0xff]\<rparr> 1 = Inl OutOfBounds"
  using bitMapScan_overread [of "\<lparr>bm_length = 2, startAddr = [0xff, 0xff]\<rparr>" 1] by simp

end
