(* ===== verification/CString.thy ===== *)
theory CString
  imports GPrelude
begin

text \<open>
  lib/string.c. A pointer into memory is the list of bytes from that address to the end of the
  object it points into; advancing the pointer drops the head. A loop that runs off the object is
  \<open>OutOfBounds\<close>. \<open>char\<close> is signed on the target, so a byte is compared as \<open>sint\<close> where the code
  compares chars; a returned pointer is the offset into the argument, NULL is \<open>None\<close>.
\<close>

section \<open>Memory blocks\<close>

fun memset :: "u8 list \<Rightarrow> u8 \<Rightarrow> nat \<Rightarrow> u8 list res" where
  "memset d val 0 = Inr d"
| "memset [] val (Suc sz) = Inl OutOfBounds"
| "memset (_ # d) val (Suc sz) = rbind (memset d val sz) (\<lambda>d'. Inr (val # d'))"

fun memcpy :: "u8 list \<Rightarrow> u8 list \<Rightarrow> nat \<Rightarrow> u8 list res" where
  "memcpy d s 0 = Inr d"
| "memcpy (_ # d) (c # s) (Suc sz) = rbind (memcpy d s sz) (\<lambda>d'. Inr (c # d'))"
| "memcpy _ _ (Suc sz) = Inl OutOfBounds"

fun memcmp :: "u8 list \<Rightarrow> u8 list \<Rightarrow> nat \<Rightarrow> int res" where
  "memcmp s1 s2 0 = Inr 0"
| "memcmp (a # s1) (b # s2) (Suc sz) =
     (if a \<noteq> b then Inr (if b < a then 1 else - 1) else memcmp s1 s2 sz)"
| "memcmp _ _ (Suc sz) = Inl OutOfBounds"

section \<open>Strings\<close>

fun strcpy :: "u8 list \<Rightarrow> u8 list \<Rightarrow> u8 list res" where
  "strcpy (_ # dst) (c # src) =
     (if c = 0 then Inr (c # dst) else rbind (strcpy dst src) (\<lambda>d. Inr (c # d)))"
| "strcpy _ _ = Inl OutOfBounds"

fun strlen :: "u8 list \<Rightarrow> nat res" where
  "strlen [] = Inl OutOfBounds"
| "strlen (c # str) = (if c = 0 then Inr 0 else rbind (strlen str) (\<lambda>n. Inr (Suc n)))"

fun strcmp :: "u8 list \<Rightarrow> u8 list \<Rightarrow> int res" where
  "strcmp (a # s1) (b # s2) =
     (if a \<noteq> 0 \<and> a = b then strcmp s1 s2
      else Inr (if sint a < sint b then - 1 else if sint b < sint a then 1 else 0))"
| "strcmp _ _ = Inl OutOfBounds"

fun strchr :: "u8 list \<Rightarrow> u8 \<Rightarrow> nat option res" where
  "strchr [] c = Inl OutOfBounds"
| "strchr (x # str) c =
     (if x = 0 then Inr None else if x = c then Inr (Some 0)
      else rbind (strchr str c) (\<lambda>r. Inr (map_option Suc r)))"

text \<open>\<open>strrchr\<close> keeps the last match in \<open>lc\<close> while \<open>pos\<close> counts the characters passed.\<close>

fun strrchrLoop :: "u8 list \<Rightarrow> u8 \<Rightarrow> nat \<Rightarrow> nat option \<Rightarrow> nat option res" where
  "strrchrLoop [] c pos lc = Inl OutOfBounds"
| "strrchrLoop (x # str) c pos lc =
     (if x = 0 then Inr lc
      else strrchrLoop str c (Suc pos) (if x = c then Some pos else lc))"

definition strrchr :: "u8 list \<Rightarrow> u8 \<Rightarrow> nat option res" where
  "strrchr str c = strrchrLoop str c 0 None"

fun strcat :: "u8 list \<Rightarrow> u8 list \<Rightarrow> u8 list res" where
  "strcat [] src = Inl OutOfBounds"
| "strcat (x # dst) src =
     (if x = 0 then strcpy (x # dst) src else rbind (strcat dst src) (\<lambda>d. Inr (x # d)))"

fun strchrs :: "u8 list \<Rightarrow> u8 \<Rightarrow> nat res" where
  "strchrs [] c = Inl OutOfBounds"
| "strchrs (x # str) c =
     (if x = 0 then Inr 0
      else rbind (strchrs str c) (\<lambda>n. Inr (if x = c then Suc n else n)))"

section \<open>The string a pointer denotes\<close>

definition cstr :: "u8 list \<Rightarrow> u8 list" where
  "cstr m = takeWhile (\<lambda>c. c \<noteq> 0) m"

definition is_cstr :: "u8 list \<Rightarrow> bool" where
  "is_cstr m \<longleftrightarrow> 0 \<in> set m"

definition bytes :: "string \<Rightarrow> u8 list" where
  "bytes s = map of_char s"

lemma cstr_simps [simp]:
  "cstr [] = []" "cstr (0 # m) = []" "c \<noteq> 0 \<Longrightarrow> cstr (c # m) = c # cstr m"
  by (simp_all add: cstr_def)

lemma is_cstr_simps [simp]: "\<not> is_cstr []" "is_cstr (c # m) \<longleftrightarrow> c = 0 \<or> is_cstr m"
  by (auto simp: is_cstr_def)

lemma cstr_nonzero: "0 \<notin> set (cstr m)"
  by (auto simp: cstr_def dest: set_takeWhileD)

lemma cstr_append_0 [simp]: "0 \<notin> set s \<Longrightarrow> cstr (s @ 0 # r) = s"
  by (induction s) auto

lemma is_cstr_append [simp]: "is_cstr (s @ r) \<longleftrightarrow> is_cstr s \<or> is_cstr r"
  by (auto simp: is_cstr_def)

lemma cstr_split: "is_cstr m \<Longrightarrow> \<exists>r. m = cstr m @ 0 # r"
proof (induction m)
  case (Cons c m)
  then show ?case by (cases "c = 0") auto
qed simp

lemma length_cstr: "is_cstr m \<Longrightarrow> length (cstr m) < length m"
  by (metis cstr_split length_append length_Cons less_add_Suc1 add_Suc_right)

section \<open>Correctness\<close>

lemma memset_ok: "n \<le> length d \<Longrightarrow> memset d v n = Inr (replicate n v @ drop n d)"
  by (induction d v n rule: memset.induct) auto

lemma memcpy_ok:
  "n \<le> length d \<Longrightarrow> n \<le> length s \<Longrightarrow> memcpy d s n = Inr (take n s @ drop n d)"
  by (induction d s n rule: memcpy.induct) auto

lemma memcpy_out: "\<not> (n \<le> length d \<and> n \<le> length s) \<Longrightarrow> memcpy d s n = Inl OutOfBounds"
  by (induction d s n rule: memcpy.induct) auto

lemma memcmp_zero_iff:
  "n \<le> length a \<Longrightarrow> n \<le> length b \<Longrightarrow> memcmp a b n = Inr 0 \<longleftrightarrow> take n a = take n b"
  by (induction a b n rule: memcmp.induct) auto

lemma strlen_ok: "is_cstr m \<Longrightarrow> strlen m = Inr (length (cstr m))"
proof (induction m)
  case (Cons c m)
  then show ?case by (cases "c = 0") auto
qed simp

lemma strlen_out: "\<not> is_cstr m \<Longrightarrow> strlen m = Inl OutOfBounds"
  by (induction m) auto

lemma strcpy_ok:
  "is_cstr src \<Longrightarrow> length (cstr src) < length dst \<Longrightarrow>
   strcpy dst src = Inr (cstr src @ 0 # drop (Suc (length (cstr src))) dst)"
proof (induction dst src rule: strcpy.induct)
  case (1 d dst c src)
  then show ?case by (cases "c = 0") auto
qed auto

lemma strcpy_out:
  "\<not> (is_cstr src \<and> length (cstr src) < length dst) \<Longrightarrow> strcpy dst src = Inl OutOfBounds"
proof (induction dst src rule: strcpy.induct)
  case (1 d dst c src)
  then show ?case by (cases "c = 0") auto
qed auto

lemma strcat_ok:
  "is_cstr dst \<Longrightarrow> is_cstr src \<Longrightarrow> length (cstr dst) + length (cstr src) < length dst \<Longrightarrow>
   strcat dst src = Inr (cstr dst @ cstr src @ 0 # drop (Suc (length (cstr dst) + length (cstr src))) dst)"
proof (induction dst src rule: strcat.induct)
  case (2 x dst src)
  then show ?case by (cases "x = 0") (auto simp: strcpy_ok)
qed simp

lemma strcat_out:
  "\<not> (is_cstr src \<and> length (cstr dst) + length (cstr src) < length dst) \<Longrightarrow>
   strcat dst src = Inl OutOfBounds"
proof (induction dst src rule: strcat.induct)
  case (2 x dst src)
  then show ?case by (cases "x = 0") (auto simp: strcpy_out)
qed simp

lemma sint_eq_iff_u8 [simp]: "sint (a :: u8) = sint b \<longleftrightarrow> a = b"
  by (auto intro: signed_word_eqI)

lemma sint_eq_0_u8 [simp]: "sint (a :: u8) = 0 \<longleftrightarrow> a = 0" "0 = sint a \<longleftrightarrow> a = 0"
  using sint_eq_iff_u8 [of a 0] by auto

lemma strcmp_zero_iff:
  "is_cstr a \<Longrightarrow> is_cstr b \<Longrightarrow> strcmp a b = Inr 0 \<longleftrightarrow> cstr a = cstr b"
proof (induction a b rule: strcmp.induct)
  case (1 x a y b)
  then show ?case by (cases "x = 0"; cases "y = 0") (auto simp: not_less_iff_gr_or_eq)
qed auto

lemma strcmp_total: "is_cstr a \<Longrightarrow> is_cstr b \<Longrightarrow> strcmp a b \<in> {Inr (- 1), Inr 0, Inr 1}"
proof (induction a b rule: strcmp.induct)
  case (1 x a y b)
  then show ?case by (cases "x = 0"; cases "y = 0") auto
qed auto

lemma strcmp_antisym: "strcmp a b = Inr n \<Longrightarrow> strcmp b a = Inr (- n)"
  by (induction a b rule: strcmp.induct) (auto split: if_splits)

lemma strchrs_ok: "is_cstr m \<Longrightarrow> strchrs m c = Inr (count_list (cstr m) c)"
proof (induction m)
  case (Cons x m)
  then show ?case by (cases "x = 0") auto
qed simp

text \<open>\<open>strchr\<close> is the first index, \<open>strrchr\<close> the last.\<close>

lemma find_map_Suc: "find P (map Suc xs) = map_option Suc (find (\<lambda>i. P (Suc i)) xs)"
  by (induction xs) auto

lemma strchr_ok:
  "is_cstr m \<Longrightarrow> strchr m c = Inr (find (\<lambda>i. cstr m ! i = c) [0..<length (cstr m)])"
proof (induction m)
  case (Cons x m)
  show ?case
  proof (cases "x = 0")
    case False
    then have "[0..<length (cstr (x # m))] = 0 # map Suc [0..<length (cstr m)]"
      by (simp add: upt_conv_Cons map_Suc_upt del: upt_Suc)
    then show ?thesis using Cons False by (simp add: find_map_Suc)
  qed simp
qed simp

lemma strrchrLoop_notin:
  "0 \<notin> set a \<Longrightarrow> c \<notin> set a \<Longrightarrow> strrchrLoop (a @ 0 # r) c pos lc = Inr lc"
  by (induction a arbitrary: pos) auto

lemma strrchrLoop_last:
  "0 \<notin> set a \<Longrightarrow> c \<noteq> 0 \<Longrightarrow> 0 \<notin> set b \<Longrightarrow> c \<notin> set b \<Longrightarrow>
   strrchrLoop (a @ c # b @ 0 # r) c pos lc = Inr (Some (pos + length a))"
  by (induction a arbitrary: pos lc) (auto simp: strrchrLoop_notin)

lemma strrchr_notin: "0 \<notin> set s \<Longrightarrow> c \<notin> set s \<Longrightarrow> strrchr (s @ 0 # r) c = Inr None"
  by (simp add: strrchr_def strrchrLoop_notin)

lemma strrchr_last:
  "0 \<notin> set a \<Longrightarrow> c \<noteq> 0 \<Longrightarrow> 0 \<notin> set b \<Longrightarrow> c \<notin> set b \<Longrightarrow>
   strrchr (a @ c # b @ 0 # r) c = Inr (Some (length a))"
  by (simp add: strrchr_def strrchrLoop_last)

section \<open>Properties of the strings\<close>

text \<open>strcmp orders terminated strings: its result is -1, 0 or 1, it is 0 exactly for equal strings,
  and swapping the arguments negates it.\<close>

theorem strcmp_order:
  assumes "is_cstr a" "is_cstr b"
  shows "\<exists>n \<in> {- 1, 0, 1}. strcmp a b = Inr n \<and> strcmp b a = Inr (- n) \<and> (n = 0 \<longleftrightarrow> cstr a = cstr b)"
  using strcmp_total [OF assms] strcmp_antisym [of a b] strcmp_zero_iff [OF assms] by auto

theorem strcmp_order_witness: "strcmp (bytes ''ab'' @ [0]) (bytes ''b'' @ [0]) \<noteq> Inr 0"
proof -
  have e: "is_cstr (bytes ''ab'' @ [0])" "is_cstr (bytes ''b'' @ [0])"
    "cstr (bytes ''ab'' @ [0]) \<noteq> cstr (bytes ''b'' @ [0])"
    by (simp_all add: bytes_def)
  from strcmp_order [OF e(1,2)] e(3) show ?thesis by force
qed

text \<open>strcat appends exactly when the destination has room for both strings and the terminator, and
  touches nothing behind the terminator; otherwise it leaves the destination's object.\<close>

theorem strcat_bounds:
  assumes "is_cstr dst" "is_cstr src"
  shows "strcat dst src =
    (if length (cstr dst) + length (cstr src) < length dst
     then Inr (cstr dst @ cstr src @ 0 # drop (Suc (length (cstr dst) + length (cstr src))) dst)
     else Inl OutOfBounds)"
  using strcat_ok [OF assms] strcat_out [of src dst] by simp

theorem strcat_bounds_witness:
  "strcat (bytes ''ab'' @ [0, 7]) (bytes ''c'' @ [0]) = Inr (bytes ''abc'' @ [0])"
  using strcat_bounds [of "bytes ''ab'' @ [0, 7]" "bytes ''c'' @ [0]"] by (simp add: bytes_def)

end
