(* ===== verification/Cpu.thy ===== *)
theory Cpu
  imports GPrelude
begin

text \<open>
  The processor state the C code reads and writes with inline assembly (lib/kernel/interrupt.c),
  and the descriptors it builds for the processor: the interrupt gates of kernel/interrupt.c and
  the segment descriptors of kernel/user/tss.c.
\<close>

section \<open>The interrupt flag (lib/kernel/interrupt.c)\<close>

datatype IntrStatus = INTR_OFF | INTR_ON

record cpu =
  eflags :: u32

definition EFLAGS_IF :: u32 where "EFLAGS_IF = 0x200"

definition enableIntr :: "'a cpu_scheme \<Rightarrow> 'a cpu_scheme" where
  "enableIntr s = s\<lparr>eflags := eflags s OR EFLAGS_IF\<rparr>"

definition disableIntr :: "'a cpu_scheme \<Rightarrow> 'a cpu_scheme" where
  "disableIntr s = s\<lparr>eflags := eflags s AND NOT EFLAGS_IF\<rparr>"

definition setIntrStatus :: "IntrStatus \<Rightarrow> 'a cpu_scheme \<Rightarrow> 'a cpu_scheme" where
  "setIntrStatus status s = (if status = INTR_ON then enableIntr s else disableIntr s)"

definition getIntrStatus :: "'a cpu_scheme \<Rightarrow> IntrStatus" where
  "getIntrStatus s = (if eflags s AND EFLAGS_IF \<noteq> 0 then INTR_ON else INTR_OFF)"

lemma EFLAGS_IF_bit: "bit EFLAGS_IF n \<longleftrightarrow> n = 9"
proof -
  have e: "EFLAGS_IF = push_bit 9 1" by (simp add: EFLAGS_IF_def)
  show ?thesis unfolding e by (auto simp only: bit_push_bit_iff bit_1_iff) simp_all
qed

lemma EFLAGS_IF_nonzero [simp]: "EFLAGS_IF \<noteq> 0"
  by (simp add: EFLAGS_IF_def)

lemma if_set_iff: "(w :: u32) AND EFLAGS_IF \<noteq> 0 \<longleftrightarrow> bit w 9"
proof
  assume "w AND EFLAGS_IF \<noteq> 0"
  then obtain n where "bit (w AND EFLAGS_IF) n" using bit_word_eqI [of "w AND EFLAGS_IF" 0] by auto
  then show "bit w 9" by (auto simp: bit_and_iff EFLAGS_IF_bit)
next
  assume "bit w 9"
  then have "bit (w AND EFLAGS_IF) 9" by (simp add: bit_and_iff EFLAGS_IF_bit)
  then show "w AND EFLAGS_IF \<noteq> 0" by auto
qed

lemma getIntrStatus_enable [simp]: "getIntrStatus (enableIntr s) = INTR_ON"
  by (simp add: getIntrStatus_def enableIntr_def if_set_iff bit_or_iff EFLAGS_IF_bit)

lemma getIntrStatus_disable [simp]: "getIntrStatus (disableIntr s) = INTR_OFF"
  using if_set_iff [of "eflags s AND NOT EFLAGS_IF"]
  by (simp add: getIntrStatus_def disableIntr_def bit_and_iff bit_not_iff EFLAGS_IF_bit)

lemma getIntrStatus_set [simp]: "getIntrStatus (setIntrStatus st s) = st"
  by (cases st) (simp_all add: setIntrStatus_def)

lemma cpu_more [simp]:
  "cpu.more (enableIntr s) = cpu.more s" "cpu.more (disableIntr s) = cpu.more s"
  "cpu.more (setIntrStatus st s) = cpu.more s"
  by (simp_all add: enableIntr_def disableIntr_def setIntrStatus_def)

text \<open>Save, disable, restore: the critical-section pattern of the kernel gives back the flag it
  found.\<close>

lemma restore_intr: "eflags (setIntrStatus (getIntrStatus s) (disableIntr s)) = eflags s"
proof (cases "bit (eflags s) 9")
  case True
  then have "getIntrStatus s = INTR_ON" using if_set_iff by (simp add: getIntrStatus_def)
  moreover have "eflags s AND NOT EFLAGS_IF OR EFLAGS_IF = eflags s"
    using True by (intro bit_word_eqI) (auto simp: bit_or_iff bit_and_iff bit_not_iff EFLAGS_IF_bit)
  ultimately show ?thesis by (simp add: setIntrStatus_def enableIntr_def disableIntr_def)
next
  case False
  then have "getIntrStatus s = INTR_OFF" using if_set_iff by (simp add: getIntrStatus_def)
  moreover have "eflags s AND NOT EFLAGS_IF = eflags s"
    using False by (intro bit_word_eqI) (auto simp: bit_and_iff bit_not_iff EFLAGS_IF_bit)
  ultimately show ?thesis by (simp add: setIntrStatus_def disableIntr_def)
qed

lemma restore_intr_eflags:
  assumes "eflags s' = eflags (disableIntr s)"
  shows "eflags (setIntrStatus (getIntrStatus s) s') = eflags s"
  using restore_intr [of s] assms by (simp add: setIntrStatus_def enableIntr_def disableIntr_def split: if_splits)

section \<open>Interrupt gates (kernel/interrupt.c)\<close>

record GateDesc =
  funcOffsetLowWord :: u16
  selector :: u16
  dcount :: u8
  attribute :: u8
  funcOffsetHighWord :: u16

abbreviation SELECTOR_K_CODE :: u16 where "SELECTOR_K_CODE \<equiv> 8"
abbreviation IDT_DESC_ATTR_DPL0 :: u8 where "IDT_DESC_ATTR_DPL0 \<equiv> 0x8E"
abbreviation IDT_DESC_ATTR_DPL3 :: u8 where "IDT_DESC_ATTR_DPL3 \<equiv> 0xEE"

definition makeIdtDesc :: "u8 \<Rightarrow> u32 \<Rightarrow> GateDesc" where
  "makeIdtDesc attr fn =
     \<lparr>funcOffsetLowWord = ucast fn, selector = SELECTOR_K_CODE, dcount = 0, attribute = attr,
      funcOffsetHighWord = ucast (drop_bit 16 fn)\<rparr>"

text \<open>The three loops of \<open>idtDescInit\<close> as the table they fill, from the entry points
  \<open>intrEntryTable\<close> and \<open>syscallEntry\<close> of kernel/asm/kernel.asm.\<close>

definition idtDescInit :: "(nat \<Rightarrow> u32) \<Rightarrow> u32 \<Rightarrow> GateDesc list" where
  "idtDescInit intrEntryTable syscallEntry =
     map (\<lambda>i. makeIdtDesc IDT_DESC_ATTR_DPL0 (intrEntryTable i)) [0..<0x30] @
     replicate (0x80 - 0x30) (makeIdtDesc IDT_DESC_ATTR_DPL0 (intrEntryTable 0x2f)) @
     [makeIdtDesc IDT_DESC_ATTR_DPL3 syscallEntry]"

definition gate_target :: "GateDesc \<Rightarrow> u32" where
  "gate_target g = ucast (funcOffsetLowWord g) OR push_bit 16 (ucast (funcOffsetHighWord g))"

definition gate_dpl :: "GateDesc \<Rightarrow> u8" where
  "gate_dpl g = drop_bit 5 (attribute g) AND 3"

lemma gate_target_make: "gate_target (makeIdtDesc attr fn) = fn"
  by (rule bit_word_eqI)
    (auto simp: gate_target_def makeIdtDesc_def bit_or_iff bit_push_bit_iff bit_ucast_iff bit_drop_bit_eq)

lemma length_idtDescInit: "length (idtDescInit tab sys) = 0x81"
  by (simp add: idtDescInit_def)

lemma gate_dpl_make: "gate_dpl (makeIdtDesc attr fn) = drop_bit 5 attr AND 3"
  by (simp add: gate_dpl_def makeIdtDesc_def)

lemma idtDescInit_nth:
  assumes "i < 0x81"
  shows "idtDescInit tab sys ! i =
    (if i < 0x30 then makeIdtDesc IDT_DESC_ATTR_DPL0 (tab i)
     else if i < 0x80 then makeIdtDesc IDT_DESC_ATTR_DPL0 (tab 0x2f)
     else makeIdtDesc IDT_DESC_ATTR_DPL3 sys)"
proof -
  have "i = 0x80" if "\<not> i < 0x80" using assms that by linarith
  then show ?thesis by (auto simp: idtDescInit_def nth_append simp del: upt_Suc)
qed

lemma idt_gates:
  assumes "i < 0x81"
  shows "gate_dpl (idtDescInit tab sys ! i) = (if i = 0x80 then 3 else 0) \<and>
   gate_target (idtDescInit tab sys ! i) =
     (if i = 0x80 then sys else if i < 0x30 then tab i else tab 0x2f)"
proof -
  have "i < 0x80 \<longleftrightarrow> i \<noteq> 0x80" using assms by linarith
  then show ?thesis
    unfolding idtDescInit_nth [OF assms] by (simp add: gate_target_make gate_dpl_make)
qed

section \<open>Segment descriptors (kernel/user/tss.c)\<close>

record GDTDesc =
  limitLowWord :: u16
  baseLowWord :: u16
  baseMidByte :: u8
  attrLowByte :: u8
  LimitHighAttrHighByte :: u8
  baseHighByte :: u8

definition makeGDTDesc :: "u32 \<Rightarrow> u32 \<Rightarrow> u8 \<Rightarrow> u8 \<Rightarrow> GDTDesc" where
  "makeGDTDesc base limit attrLow attrHigh =
     \<lparr>limitLowWord = ucast (limit AND 0x0000ffff),
      baseLowWord = ucast (base AND 0x0000ffff),
      baseMidByte = ucast (drop_bit 16 (base AND 0x00ff0000)),
      attrLowByte = attrLow,
      LimitHighAttrHighByte = ucast (drop_bit 16 (limit AND 0x000f0000) + ucast attrHigh),
      baseHighByte = ucast (drop_bit 24 (base AND 0xff000000))\<rparr>"

text \<open>How the processor reads a descriptor back.\<close>

definition desc_base :: "GDTDesc \<Rightarrow> u32" where
  "desc_base d = ucast (baseLowWord d) OR push_bit 16 (ucast (baseMidByte d)) OR
     push_bit 24 (ucast (baseHighByte d))"

definition desc_limit :: "GDTDesc \<Rightarrow> u32" where
  "desc_limit d = ucast (limitLowWord d) OR push_bit 16 (ucast (LimitHighAttrHighByte d) AND 0xf)"

definition desc_attr_high :: "GDTDesc \<Rightarrow> u8" where
  "desc_attr_high d = LimitHighAttrHighByte d AND 0xf0"


lemma mask_16: "(0x0000ffff :: u32) = mask 16" "(0xf :: u32) = mask 4"
  by (simp_all add: mask_eq_exp_minus_1)

lemma bit_00ff0000: "bit (0x00ff0000 :: u32) n \<longleftrightarrow> 16 \<le> n \<and> n < 24"
proof -
  have "(0x00ff0000 :: u32) = push_bit 16 (mask 8)" by (simp add: mask_eq_exp_minus_1 push_bit_eq_mult)
  then show ?thesis by (simp only: bit_push_bit_iff bit_mask_iff) auto
qed

lemma bit_ff000000: "bit (0xff000000 :: u32) n \<longleftrightarrow> 24 \<le> n \<and> n < 32"
proof -
  have "(0xff000000 :: u32) = push_bit 24 (mask 8)" by (simp add: mask_eq_exp_minus_1 push_bit_eq_mult)
  then show ?thesis by (simp only: bit_push_bit_iff bit_mask_iff) auto
qed

lemma bit_000f0000: "bit (0x000f0000 :: u32) n \<longleftrightarrow> 16 \<le> n \<and> n < 20"
proof -
  have "(0x000f0000 :: u32) = push_bit 16 (mask 4)" by (simp add: mask_eq_exp_minus_1 push_bit_eq_mult)
  then show ?thesis by (simp only: bit_push_bit_iff bit_mask_iff) auto
qed

text \<open>Word numerals are tested for bits as integers.\<close>

lemma bit_numerals_int:
  "bit (0xf :: int) n \<longleftrightarrow> n < 4" "bit (0xff :: int) n \<longleftrightarrow> n < 8"
  "bit (0xf0 :: int) n \<longleftrightarrow> 4 \<le> n \<and> n < 8"
  "bit (0x000f0000 :: int) n \<longleftrightarrow> 16 \<le> n \<and> n < 20"
  "bit (0x00ff0000 :: int) n \<longleftrightarrow> 16 \<le> n \<and> n < 24"
  "bit (0xff000000 :: int) n \<longleftrightarrow> 24 \<le> n \<and> n < 32"
proof -
  have m: "(0xf :: int) = mask 4" "(0xff :: int) = mask 8" "(0xf0 :: int) = push_bit 4 (mask 4)"
    "(0x000f0000 :: int) = push_bit 16 (mask 4)" "(0x00ff0000 :: int) = push_bit 16 (mask 8)"
    "(0xff000000 :: int) = push_bit 24 (mask 8)"
    by (simp_all add: mask_eq_exp_minus_1 push_bit_eq_mult)
  show "bit (0xf :: int) n \<longleftrightarrow> n < 4" "bit (0xff :: int) n \<longleftrightarrow> n < 8"
    "bit (0xf0 :: int) n \<longleftrightarrow> 4 \<le> n \<and> n < 8"
    "bit (0x000f0000 :: int) n \<longleftrightarrow> 16 \<le> n \<and> n < 20"
    "bit (0x00ff0000 :: int) n \<longleftrightarrow> 16 \<le> n \<and> n < 24"
    "bit (0xff000000 :: int) n \<longleftrightarrow> 24 \<le> n \<and> n < 32"
    unfolding m by (auto simp only: bit_mask_iff bit_push_bit_iff) simp_all
qed

lemma index_split: "(24::nat) \<le> n \<Longrightarrow> 24 + (n - 24) = n" "(16::nat) \<le> n \<Longrightarrow> 16 + (n - 16) = n"
  by simp_all

lemma split_at_24: "\<not> bit b (24 + (n - 24)) \<Longrightarrow> bit b n \<Longrightarrow> (n :: nat) < 24"
  by (rule ccontr) simp

lemma bit_u8_lt: "bit (w :: u8) n \<Longrightarrow> n < 8"
  using bit_imp_le_length [of w n] by simp

lemma desc_base_make: "desc_base (makeGDTDesc base limit lo hi) = base"
  unfolding desc_base_def makeGDTDesc_def GDTDesc.simps mask_16
  by (rule bit_word_eqI)
    (auto simp: bit_or_iff bit_and_iff bit_push_bit_iff bit_ucast_iff bit_drop_bit_eq bit_mask_iff
      bit_00ff0000 bit_ff000000 bit_numerals_int index_split dest!: split_at_24)

text \<open>The high nibble of the limit and the attribute nibble share a byte; the code adds them, which
  is a union because their bits are disjoint.\<close>

lemma limit_attr_byte:
  assumes "hi AND 0xf = 0"
  shows "LimitHighAttrHighByte (makeGDTDesc base limit lo hi) =
    ucast (drop_bit 16 (limit AND 0x000f0000)) OR hi"
proof -
  have hi: "\<not> bit hi n" if "n < 4" for n
    using assms that bit_and_iff [of hi "0xf" n] by (simp add: bit_numerals_int)
  let ?x = "drop_bit 16 (limit AND 0x000f0000)"
  have x: "bit ?x n \<longleftrightarrow> n < 4 \<and> bit limit (16 + n)" for n
    by (auto simp: bit_drop_bit_eq bit_and_iff bit_numerals_int simp del: drop_bit_and)
  have "?x AND ucast hi = 0"
    using hi by (intro bit_word_eqI) (auto simp: bit_and_iff bit_ucast_iff x simp del: drop_bit_and)
  then have "?x + ucast hi = ?x OR ucast hi"
    by (rule disjunctive_add_eq_or)
  then show ?thesis
    unfolding makeGDTDesc_def GDTDesc.simps
    by (intro bit_word_eqI) (auto simp: bit_or_iff bit_ucast_iff simp del: drop_bit_and dest: bit_u8_lt)
qed

lemma desc_limit_make:
  assumes "hi AND 0xf = 0" "limit < 2 ^ 20"
  shows "desc_limit (makeGDTDesc base limit lo hi) = limit"
    and "desc_attr_high (makeGDTDesc base limit lo hi) = hi"
proof -
  have hi: "\<not> bit hi n" if "n < 4" for n
    using assms(1) that bit_and_iff [of hi "0xf" n] by (simp add: bit_numerals_int)
  have "limit = limit AND mask 20"
    using assms(2) by (simp add: less_mask_eq mask_eq_exp_minus_1 [symmetric])
  then have lim: "bit limit n \<Longrightarrow> n < 20" for n
    by (metis bit_and_iff bit_mask_iff)
  have "limitLowWord (makeGDTDesc base limit lo hi) = ucast limit"
    unfolding makeGDTDesc_def GDTDesc.simps mask_16
    by (intro bit_word_eqI) (auto simp: bit_ucast_iff bit_and_iff bit_mask_iff)
  moreover have "bit limit n \<Longrightarrow> n - 16 < 4" for n using lim [of n] by simp
  ultimately show "desc_limit (makeGDTDesc base limit lo hi) = limit"
    using lim hi unfolding desc_limit_def limit_attr_byte [OF assms(1)]
    by (intro bit_word_eqI)
      (auto simp: bit_or_iff bit_and_iff bit_push_bit_iff bit_ucast_iff bit_drop_bit_eq
        bit_000f0000 bit_numerals_int simp del: drop_bit_and dest: lim)
  show "desc_attr_high (makeGDTDesc base limit lo hi) = hi"
    using hi unfolding desc_attr_high_def limit_attr_byte [OF assms(1)]
    by (intro bit_word_eqI)
      (auto simp: bit_or_iff bit_and_iff bit_ucast_iff bit_drop_bit_eq bit_numerals_int bit_000f0000
        simp del: drop_bit_and, meson not_le)
qed

section \<open>Properties of the descriptors\<close>

text \<open>makeGDTDesc packs a segment descriptor that the processor reads back as the base, the limit
  (of 20 bits) and the high attributes (in the upper nibble) it was given.\<close>

theorem makeGDTDesc_round_trip:
  assumes "attrHigh AND 0xf = 0" "limit < 2 ^ 20"
  shows "desc_base (makeGDTDesc base limit attrLow attrHigh) = base \<and>
    desc_limit (makeGDTDesc base limit attrLow attrHigh) = limit \<and>
    desc_attr_high (makeGDTDesc base limit attrLow attrHigh) = attrHigh \<and>
    attrLowByte (makeGDTDesc base limit attrLow attrHigh) = attrLow"
  using desc_base_make desc_limit_make [OF assms] by (simp add: makeGDTDesc_def)

theorem makeGDTDesc_round_trip_witness:
  "desc_limit (makeGDTDesc 0 0xfffff 0xf8 0xc0) = 0xfffff"
  using makeGDTDesc_round_trip [of "0xc0" "0xfffff" 0 "0xf8"] by simp

text \<open>of the 0x81 interrupt gates only 0x80 may be entered from user mode; it leads to the system
  call entry, the gates below 0x30 to their own entry and those above to the entry of 0x2f.\<close>

theorem idt_only_syscall_from_user:
  assumes "i < 0x81"
  shows "gate_dpl (idtDescInit tab sys ! i) = (if i = 0x80 then 3 else 0) \<and>
   gate_target (idtDescInit tab sys ! i) =
     (if i = 0x80 then sys else if i < 0x30 then tab i else tab 0x2f)"
  using assms by (rule idt_gates)

theorem idt_only_syscall_from_user_witness:
  "gate_dpl (idtDescInit (\<lambda>i. of_nat i) 7 ! 0x20) = 0 \<and> gate_dpl (idtDescInit (\<lambda>i. of_nat i) 7 ! 0x80) = 3"
  using idt_only_syscall_from_user [where i = "0x20" and tab = "\<lambda>i. of_nat i" and sys = 7]
    idt_only_syscall_from_user [where i = "0x80" and tab = "\<lambda>i. of_nat i" and sys = 7] by simp

end
