(* ===== verification/DList.thy ===== *)
theory DList
  imports Cpu
begin

text \<open>
  The intrusive doubly linked lists of lib/structure/list.c: a heap of \<open>prev\<close> and \<open>next\<close> fields,
  the operations as they update it, and their refinement to sequences of element addresses.
\<close>

section \<open>The heap of list elements\<close>

text \<open>A \<open>ListElem\<close> is its address; its two pointer fields are the values of two maps. A \<open>List\<close> at
  address \<open>l\<close> has its \<open>head\<close> at \<open>l\<close> and its \<open>tail\<close> at \<open>l + 8\<close>. The operations disable and restore
  interrupts, so the heap extends the processor state.\<close>

record lheap = cpu +
  lprev :: "u32 \<Rightarrow> u32"
  lnext :: "u32 \<Rightarrow> u32"

abbreviation list_tail :: "u32 \<Rightarrow> u32" where "list_tail l \<equiv> l + 8"

definition set_prev :: "u32 \<Rightarrow> u32 \<Rightarrow> 'a lheap_scheme \<Rightarrow> 'a lheap_scheme" where
  "set_prev e v h = h\<lparr>lprev := (lprev h)(e := v)\<rparr>"

definition set_next :: "u32 \<Rightarrow> u32 \<Rightarrow> 'a lheap_scheme \<Rightarrow> 'a lheap_scheme" where
  "set_next e v h = h\<lparr>lnext := (lnext h)(e := v)\<rparr>"

definition listInit :: "u32 \<Rightarrow> 'a lheap_scheme \<Rightarrow> 'a lheap_scheme" where
  "listInit l h =
     set_next (list_tail l) 0 (set_prev (list_tail l) l
       (set_next l (list_tail l) (set_prev l 0 h)))"

definition listInsertBefore :: "u32 \<Rightarrow> u32 \<Rightarrow> 'a lheap_scheme \<Rightarrow> 'a lheap_scheme" where
  "listInsertBefore before elem h =
     (let status = getIntrStatus h;
          h = disableIntr h;
          h = set_next (lprev h before) elem h;
          h = set_prev elem (lprev h before) h;
          h = set_next elem before h;
          h = set_prev before elem h
      in setIntrStatus status h)"

definition listPush :: "u32 \<Rightarrow> u32 \<Rightarrow> 'a lheap_scheme \<Rightarrow> 'a lheap_scheme" where
  "listPush l elem h = listInsertBefore (lnext h l) elem h"

definition listAppend :: "u32 \<Rightarrow> u32 \<Rightarrow> 'a lheap_scheme \<Rightarrow> 'a lheap_scheme" where
  "listAppend l elem h = listInsertBefore (list_tail l) elem h"

definition listRemove :: "u32 \<Rightarrow> 'a lheap_scheme \<Rightarrow> 'a lheap_scheme" where
  "listRemove elem h =
     (let status = getIntrStatus h;
          h = disableIntr h;
          h = set_next (lprev h elem) (lnext h elem) h;
          h = set_prev (lnext h elem) (lprev h elem) h
      in setIntrStatus status h)"

definition listPop :: "u32 \<Rightarrow> 'a lheap_scheme \<Rightarrow> u32 \<times> 'a lheap_scheme" where
  "listPop l h =
     (if lnext h l = list_tail l then (0, h)
      else let elem = lnext h l in (elem, listRemove elem h))"

partial_function (option) elemExistLoop :: "u32 \<Rightarrow> u32 \<Rightarrow> 'a lheap_scheme \<Rightarrow> u32 \<Rightarrow> bool option" where
  "elemExistLoop t elem h e =
     (if e = t then Some False
      else if e = elem then Some True
      else elemExistLoop t elem h (lnext h e))"

definition listElemExist :: "u32 \<Rightarrow> u32 \<Rightarrow> 'a lheap_scheme \<Rightarrow> bool option" where
  "listElemExist l elem h = elemExistLoop (list_tail l) elem h (lnext h l)"

definition listIsEmpty :: "u32 \<Rightarrow> 'a lheap_scheme \<Rightarrow> bool" where
  "listIsEmpty l h = (lnext h l = list_tail l)"

partial_function (option) listLenLoop :: "u32 \<Rightarrow> 'a lheap_scheme \<Rightarrow> u32 \<Rightarrow> u32 \<Rightarrow> u32 option" where
  "listLenLoop t h elem len =
     (if elem = t then Some len else listLenLoop t h (lnext h elem) (len + 1))"

definition listLen :: "u32 \<Rightarrow> 'a lheap_scheme \<Rightarrow> u32 option" where
  "listLen l h = listLenLoop (list_tail l) h (lnext h l) 0"

text \<open>The callback of \<open>listTraversal\<close> may have effects of its own: it maps a state \<open>s\<close>.\<close>

partial_function (option) traversalLoop ::
  "u32 \<Rightarrow> (u32 \<Rightarrow> 'b \<Rightarrow> 's \<Rightarrow> bool \<times> 's) \<Rightarrow> 'b \<Rightarrow> 'a lheap_scheme \<Rightarrow> u32 \<Rightarrow> 's \<Rightarrow> (u32 \<times> 's) option" where
  "traversalLoop t func arg h elem s =
     (if elem = t then Some (0, s)
      else (case func elem arg s of (r, s') \<Rightarrow>
        if r then Some (elem, s') else traversalLoop t func arg h (lnext h elem) s'))"

definition listTraversal ::
  "u32 \<Rightarrow> (u32 \<Rightarrow> 'b \<Rightarrow> 's \<Rightarrow> bool \<times> 's) \<Rightarrow> 'b \<Rightarrow> 'a lheap_scheme \<Rightarrow> 's \<Rightarrow> (u32 \<times> 's) option" where
  "listTraversal l func arg h s =
     (if listIsEmpty l h then Some (0, s)
      else traversalLoop (list_tail l) func arg h (lnext h l) s)"

lemma set_fields [simp]:
  "lprev (set_prev e v h) = (lprev h)(e := v)" "lnext (set_prev e v h) = lnext h"
  "lprev (set_next e v h) = lprev h" "lnext (set_next e v h) = (lnext h)(e := v)"
  "eflags (set_prev e v h) = eflags h" "eflags (set_next e v h) = eflags h"
  by (simp_all add: set_prev_def set_next_def)

lemma intr_list_fields [simp]:
  "lprev (disableIntr h) = lprev h" "lnext (disableIntr h) = lnext h"
  "lprev (enableIntr h) = lprev h" "lnext (enableIntr h) = lnext h"
  "lprev (setIntrStatus st h) = lprev h" "lnext (setIntrStatus st h) = lnext h"
  by (simp_all add: disableIntr_def enableIntr_def setIntrStatus_def)

section \<open>Sequences represented by the heap\<close>

text \<open>\<open>linked h p\<close>: consecutive addresses of \<open>p\<close> point to each other.\<close>

fun linked :: "'a lheap_scheme \<Rightarrow> u32 list \<Rightarrow> bool" where
  "linked h (a # b # p) = (lnext h a = b \<and> lprev h b = a \<and> linked h (b # p))"
| "linked h p = True"

definition list_path :: "u32 \<Rightarrow> u32 list \<Rightarrow> u32 list" where
  "list_path l xs = l # xs @ [list_tail l]"

text \<open>The list at \<open>l\<close> holds the elements \<open>xs\<close>, all non-null.\<close>

definition dl :: "'a lheap_scheme \<Rightarrow> u32 \<Rightarrow> u32 list \<Rightarrow> bool" where
  "dl h l xs = (distinct (list_path l xs) \<and> 0 \<notin> set (list_path l xs) \<and> linked h (list_path l xs))"

lemma linked_append:
  "linked h (as @ x # y # bs) \<longleftrightarrow>
   linked h (as @ [x]) \<and> lnext h x = y \<and> lprev h y = x \<and> linked h (y # bs)"
  by (induction h as rule: linked.induct) (auto simp: neq_Nil_conv split: list.splits)

lemma linked_cong:
  assumes "\<forall>a \<in> set p. lnext h a = lnext h' a \<and> lprev h a = lprev h' a"
  shows "linked h p = linked h' p"
  using assms by (induction h p rule: linked.induct) auto

text \<open>The first element's \<open>prev\<close> and the last element's \<open>next\<close> are not part of the path.\<close>

lemma linked_set_next_last: "distinct (p @ [x]) \<Longrightarrow> linked (set_next x v h) (p @ [x]) = linked h (p @ [x])"
proof (induction p)
  case (Cons a p)
  then show ?case by (cases p) auto
qed simp

lemma linked_set_prev_hd: "x \<notin> set p \<Longrightarrow> linked (set_prev x v h) (x # p) = linked h (x # p)"
proof (induction p arbitrary: x)
  case (Cons b p)
  have "linked (set_prev x v h) (b # p) = linked h (b # p)"
    using Cons.prems by (intro linked_cong) auto
  then show ?case using Cons.prems by auto
qed simp

lemma linked_frame:
  "x \<notin> set p \<Longrightarrow> linked (set_next x v h) p = linked h p"
  "x \<notin> set p \<Longrightarrow> linked (set_prev x v h) p = linked h p"
  by (rule linked_cong; auto)+

lemma linked_intr [simp]:
  "linked (disableIntr h) p = linked h p" "linked (setIntrStatus st h) p = linked h p"
  by (rule linked_cong; simp)+

lemma listInsertBefore_fields:
  assumes "lprev h before = x" "elem \<noteq> before"
  shows "lnext (listInsertBefore before elem h) = (lnext h)(x := elem, elem := before)"
    and "lprev (listInsertBefore before elem h) = (lprev h)(elem := x, before := elem)"
    and "eflags (listInsertBefore before elem h) = eflags h"
  using assms unfolding listInsertBefore_def Let_def
  by (simp_all add: restore_intr_eflags)

lemma listRemove_fields:
  assumes "lprev h elem \<noteq> elem"
  shows "lnext (listRemove elem h) = (lnext h)(lprev h elem := lnext h elem)"
    and "lprev (listRemove elem h) = (lprev h)(lnext h elem := lprev h elem)"
    and "eflags (listRemove elem h) = eflags h"
  using assms unfolding listRemove_def Let_def
  by (simp_all add: restore_intr_eflags)

lemma linked_split_cong:
  assumes "\<And>a. a \<in> set (butlast p) \<Longrightarrow> lnext h' a = lnext h a"
    and "\<And>a. a \<in> set (tl p) \<Longrightarrow> lprev h' a = lprev h a"
  shows "linked h' p = linked h p"
  using assms by (induction h p rule: linked.induct) auto

lemma linked_insert:
  assumes "linked h (as @ x # y # bs)" "distinct (as @ x # y # bs)" "e \<notin> set (as @ x # y # bs)"
  shows "linked (listInsertBefore y e h) (as @ x # e # y # bs)"
proof -
  let ?h = "listInsertBefore y e h"
  have l: "linked h (as @ [x])" "lprev h y = x" "linked h (y # bs)"
    using assms(1) by (simp_all add: linked_append)
  note f = listInsertBefore_fields [OF l(2), of e]
  have ey: "e \<noteq> y" using assms(3) by auto
  have "linked ?h (as @ [x])"
    using l(1) assms by (subst linked_split_cong [of _ _ h]) (auto simp: f [OF ey] butlast_append tl_append split: list.splits)
  moreover have "linked ?h (y # bs)"
    using l(3) assms by (subst linked_split_cong [of _ _ h]) (auto simp: f [OF ey] dest: in_set_butlastD split: if_splits)
  moreover have "lnext ?h x = e" "lprev ?h e = x" "lnext ?h e = y" "lprev ?h y = e"
    using assms(2,3) by (auto simp: f [OF ey])
  ultimately show ?thesis by (simp add: linked_append)
qed

lemma linked_remove:
  assumes "linked h (as @ x # e # y # bs)" "distinct (as @ x # e # y # bs)"
  shows "linked (listRemove e h) (as @ x # y # bs)"
proof -
  let ?h = "listRemove e h"
  have l: "linked h (as @ [x])" "lprev h e = x" "lnext h e = y" "linked h (y # bs)"
    using assms(1) by (simp_all add: linked_append)
  have "lprev h e \<noteq> e" using l(2) assms(2) by auto
  note f = listRemove_fields [OF this]
  have "linked ?h (as @ [x])"
    using l assms by (subst linked_split_cong [of _ _ h]) (auto simp: f butlast_append tl_append split: list.splits)
  moreover have "linked ?h (y # bs)"
    using l assms by (subst linked_split_cong [of _ _ h]) (auto simp: f dest: in_set_butlastD split: if_splits)
  moreover have "lnext ?h x = y" "lprev ?h y = x" by (simp_all add: f l)
  ultimately show ?thesis by (simp add: linked_append)
qed

section \<open>Refinement to sequences\<close>

lemma dl_path: "dl h l xs \<Longrightarrow> linked h (l # xs @ [list_tail l])"
  by (simp add: dl_def list_path_def)

lemma dl_ends:
  assumes "dl h l xs"
  shows "lnext h l = hd (xs @ [list_tail l])" "lprev h (list_tail l) = last (l # xs)"
proof -
  show "lnext h l = hd (xs @ [list_tail l])" using dl_path [OF assms] by (cases xs) auto
  obtain ys y where ys: "l # xs = ys @ [y]" using rev_exhaust [of "l # xs"] by blast
  then have "linked h (ys @ y # list_tail l # [])" using dl_path [OF assms] by (metis append_Cons append_assoc append_Nil)
  then show "lprev h (list_tail l) = last (l # xs)" unfolding ys linked_append by simp
qed

lemma tail_neq_head [simp]: "(l :: u32) \<noteq> l + 8" "l + 8 \<noteq> (l :: u32)"
  by simp_all

lemma listInit_dl:
  assumes "l \<noteq> 0" "list_tail l \<noteq> 0"
  shows "dl (listInit l h) l []"
  using assms by (simp add: dl_def list_path_def listInit_def)

text \<open>An element is fit for insertion when it is non-null and not already on the list.\<close>

definition fresh_elem :: "u32 \<Rightarrow> u32 \<Rightarrow> u32 list \<Rightarrow> bool" where
  "fresh_elem l e xs = (e \<noteq> 0 \<and> e \<notin> set (list_path l xs))"

lemma listPush_dl:
  assumes "dl h l xs" "fresh_elem l e xs"
  shows "dl (listPush l e h) l (e # xs)"
proof -
  obtain y bs where yb: "xs @ [list_tail l] = y # bs" by (cases xs) auto
  then have y: "lnext h l = y" using dl_ends(1) [OF assms(1)] by simp
  have "linked (listInsertBefore y e h) ([] @ l # e # y # bs)"
    using assms unfolding dl_def list_path_def fresh_elem_def yb by (intro linked_insert) auto
  then have "linked (listPush l e h) (list_path l (e # xs))"
    by (simp add: listPush_def list_path_def y yb)
  then show ?thesis
    using assms unfolding dl_def fresh_elem_def by (auto simp: list_path_def)
qed

lemma listAppend_dl:
  assumes "dl h l xs" "fresh_elem l e xs"
  shows "dl (listAppend l e h) l (xs @ [e])"
proof -
  obtain ys y where ys: "l # xs = ys @ [y]" using rev_exhaust [of "l # xs"] by blast
  have eq: "l # xs @ [list_tail l] = ys @ y # list_tail l # []" using ys by (metis append_Cons append_assoc append_Nil)
  have "linked (listInsertBefore (list_tail l) e h) (ys @ y # e # list_tail l # [])"
    using assms unfolding dl_def list_path_def fresh_elem_def eq by (intro linked_insert) auto
  moreover have "ys @ y # e # list_tail l # [] = l # (xs @ [e]) @ [list_tail l]"
    using ys by (metis append_Cons append_assoc append_Nil)
  ultimately have "linked (listAppend l e h) (l # (xs @ [e]) @ [list_tail l])"
    by (simp add: listAppend_def)
  then show ?thesis using assms by (auto simp: dl_def list_path_def fresh_elem_def)
qed

lemma listRemove_dl:
  assumes "dl h l (as @ e # bs)"
  shows "dl (listRemove e h) l (as @ bs)"
proof -
  obtain xs x where xs: "l # as = xs @ [x]" using rev_exhaust [of "l # as"] by blast
  obtain y ys where ys: "bs @ [list_tail l] = y # ys" by (cases bs) auto
  have eq: "l # (as @ e # bs) @ [list_tail l] = xs @ x # e # y # ys"
    "l # (as @ bs) @ [list_tail l] = xs @ x # y # ys"
    using xs ys by (metis append_Cons append_assoc append_Nil)+
  have "linked (listRemove e h) (xs @ x # y # ys)"
    using assms unfolding dl_def list_path_def eq by (intro linked_remove) auto
  then show ?thesis using assms by (auto simp: dl_def list_path_def simp flip: eq(2))
qed

lemma listPop_dl:
  assumes "dl h l xs"
  shows "listPop l h = (case xs of [] \<Rightarrow> (0, h) | x # _ \<Rightarrow> (x, listRemove x h))"
    and "dl (snd (listPop l h)) l (tl xs)"
proof -
  show *: "listPop l h = (case xs of [] \<Rightarrow> (0, h) | x # _ \<Rightarrow> (x, listRemove x h))"
    using dl_ends(1) [OF assms] assms
    by (cases xs) (auto simp: listPop_def dl_def list_path_def Let_def)
  show "dl (snd (listPop l h)) l (tl xs)"
    unfolding * using assms listRemove_dl [of h l "[]"] by (cases xs) auto
qed

lemma listPop_Cons: "dl h l (x # xs) \<Longrightarrow> \<exists>h'. listPop l h = (x, h') \<and> dl h' l xs"
  using listPop_dl [of h l "x # xs"] by (cases "listPop l h") auto

lemma listIsEmpty_dl: "dl h l xs \<Longrightarrow> listIsEmpty l h = (xs = [])"
  using dl_ends(1) [of h l xs] by (cases xs) (auto simp: listIsEmpty_def dl_def list_path_def)

subsection \<open>The traversals return\<close>

lemma elemExistLoop_path:
  "linked h (e # p @ [t]) \<Longrightarrow> distinct (e # p @ [t]) \<Longrightarrow>
   elemExistLoop t x h e = Some (x \<in> set (e # p))"
proof (induction p arbitrary: e)
  case Nil
  then show ?case by (subst elemExistLoop.simps) (auto simp: elemExistLoop.simps [of t x h t])
next
  case (Cons b p)
  then show ?case using Cons.IH [of b] by (subst elemExistLoop.simps) auto
qed

theorem listElemExist_dl:
  assumes "dl h l xs"
  shows "listElemExist l e h = Some (e \<in> set xs)"
proof (cases xs)
  case Nil
  then show ?thesis using dl_ends(1) [OF assms] by (simp add: listElemExist_def elemExistLoop.simps)
next
  case (Cons x p)
  then show ?thesis using dl_ends(1) [OF assms] assms elemExistLoop_path [of h x p "list_tail l" e]
    by (simp add: listElemExist_def dl_def list_path_def)
qed

lemma listLenLoop_path:
  "linked h (e # p @ [t]) \<Longrightarrow> distinct (e # p @ [t]) \<Longrightarrow>
   listLenLoop t h e n = Some (n + 1 + of_nat (length p))"
proof (induction p arbitrary: e n)
  case Nil
  then show ?case by (subst listLenLoop.simps) (auto simp: listLenLoop.simps [of t h t])
next
  case (Cons b p)
  then show ?case using Cons.IH [of b "n + 1"] by (subst listLenLoop.simps) auto
qed

theorem listLen_dl:
  assumes "dl h l xs"
  shows "listLen l h = Some (of_nat (length xs))"
proof (cases xs)
  case Nil
  then show ?thesis using dl_ends(1) [OF assms] by (simp add: listLen_def listLenLoop.simps)
next
  case (Cons x p)
  then show ?thesis using dl_ends(1) [OF assms] assms listLenLoop_path [of h x p "list_tail l" 0]
    by (simp add: listLen_def dl_def list_path_def)
qed

text \<open>The traversal over a sequence.\<close>

fun traverse :: "(u32 \<Rightarrow> 'b \<Rightarrow> 's \<Rightarrow> bool \<times> 's) \<Rightarrow> 'b \<Rightarrow> u32 list \<Rightarrow> 's \<Rightarrow> u32 \<times> 's" where
  "traverse func arg [] s = (0, s)"
| "traverse func arg (x # xs) s =
     (case func x arg s of (r, s') \<Rightarrow> if r then (x, s') else traverse func arg xs s')"

lemma traversalLoop_path:
  "linked h (e # p @ [t]) \<Longrightarrow> distinct (e # p @ [t]) \<Longrightarrow>
   traversalLoop t func arg h e s = Some (traverse func arg (e # p) s)"
proof (induction p arbitrary: e s)
  case Nil
  then show ?case
    by (subst traversalLoop.simps) (auto simp: traversalLoop.simps [of t func arg h t] split: prod.splits)
next
  case (Cons b p)
  then show ?case using Cons.IH [of b] by (subst traversalLoop.simps) (auto split: prod.splits)
qed

theorem listTraversal_dl:
  assumes "dl h l xs"
  shows "listTraversal l func arg h s = Some (traverse func arg xs s)"
proof (cases xs)
  case Nil
  then show ?thesis using listIsEmpty_dl [OF assms] by (simp add: listTraversal_def)
next
  case (Cons x p)
  then show ?thesis
    using dl_ends(1) [OF assms] assms listIsEmpty_dl [OF assms] traversalLoop_path [of h x p "list_tail l" func arg s]
    by (simp add: listTraversal_def dl_def list_path_def del: traverse.simps)
qed

lemma traverse_pure:
  "traverse (\<lambda>x a s. (P x a, s)) arg xs s = ((case find (\<lambda>x. P x arg) xs of None \<Rightarrow> 0 | Some x \<Rightarrow> x), s)"
  by (induction xs) auto

section \<open>Several lists in one heap\<close>

definition apart :: "u32 list \<Rightarrow> u32 list \<Rightarrow> bool" where
  "apart p q = (set p \<inter> set q = {})"

lemma dl_frame:
  assumes "dl h l xs"
    and "\<And>a. a \<in> set (list_path l xs) \<Longrightarrow> lnext h' a = lnext h a \<and> lprev h' a = lprev h a"
  shows "dl h' l xs"
  using assms linked_cong [of "list_path l xs" h' h] by (auto simp: dl_def)

lemma listAppend_frame:
  assumes "dl h l xs" "fresh_elem l e xs" "dl h m ys" "apart (list_path l xs) (list_path m ys)"
    "e \<notin> set (list_path m ys)"
  shows "dl (listAppend l e h) m ys"
proof (rule dl_frame [OF assms(3)])
  fix a assume a: "a \<in> set (list_path m ys)"
  have "last (l # xs) \<in> set (list_path l xs)" "list_tail l \<in> set (list_path l xs)"
    by (auto simp: list_path_def)
  then have "a \<noteq> last (l # xs)" "a \<noteq> list_tail l" "a \<noteq> e" using a assms(4,5) by (auto simp: apart_def)
  moreover have "e \<noteq> list_tail l" using assms(2) by (auto simp: fresh_elem_def list_path_def)
  ultimately show "lnext (listAppend l e h) a = lnext h a \<and> lprev (listAppend l e h) a = lprev h a"
    using listInsertBefore_fields [OF dl_ends(2) [OF assms(1)], of e] by (simp add: listAppend_def)
qed

lemma listRemove_frame:
  assumes "dl h l (as @ e # bs)" "dl h m ys" "apart (list_path l (as @ e # bs)) (list_path m ys)"
  shows "dl (listRemove e h) m ys"
proof (rule dl_frame [OF assms(2)])
  fix a assume a: "a \<in> set (list_path m ys)"
  obtain xs x where xs: "l # as = xs @ [x]" using rev_exhaust [of "l # as"] by blast
  obtain y zs where ys: "bs @ [list_tail l] = y # zs" by (cases bs) auto
  have eq: "list_path l (as @ e # bs) = xs @ x # e # y # zs"
    unfolding list_path_def using xs ys by (metis append_Cons append_assoc append_Nil)
  have l: "lprev h e = x" "lnext h e = y"
    using assms(1) unfolding dl_def eq by (simp_all add: linked_append)
  have "a \<noteq> x" "a \<noteq> y" using a assms(3) unfolding apart_def eq by auto
  moreover have "lprev h e \<noteq> e" using assms(1) unfolding dl_def eq l by auto
  ultimately show "lnext (listRemove e h) a = lnext h a \<and> lprev (listRemove e h) a = lprev h a"
    using listRemove_fields [of h e] by (simp add: l)
qed

text \<open>Moving the first element of one list behind another, as every wake-up does.\<close>

theorem pop_append_move:
  assumes "dl h l (x # xs)" "dl h m ys" "apart (list_path l (x # xs)) (list_path m ys)"
  shows "\<exists>h'. listPop l h = (x, h') \<and> dl (listAppend m x h') l xs \<and> dl (listAppend m x h') m (ys @ [x])"
proof -
  obtain h' where h': "listPop l h = (x, h')" "dl h' l xs" using listPop_Cons [OF assms(1)] by blast
  have "h' = listRemove x h" using h'(1) listPop_dl(1) [OF assms(1)] by simp
  then have m: "dl h' m ys" using listRemove_frame [of h l "[]" x xs m ys] assms by simp
  have f: "fresh_elem m x ys" using assms(1,3) by (auto simp: fresh_elem_def apart_def dl_def list_path_def)
  have ap: "apart (list_path m ys) (list_path l xs)" using assms(3) by (auto simp: apart_def list_path_def)
  have "x \<notin> set (list_path l xs)" using assms(1) by (auto simp: dl_def list_path_def)
  then have "dl (listAppend m x h') l xs" using listAppend_frame [OF m f h'(2) ap] by blast
  then show ?thesis using h'(1) listAppend_dl [OF m f] by blast
qed

section \<open>The list as a queue\<close>

definition list_put :: "u32 \<Rightarrow> u32 \<Rightarrow> lheap \<Rightarrow> lheap res" where
  "list_put l e h = Inr (listAppend l e h)"

definition list_get :: "u32 \<Rightarrow> lheap \<Rightarrow> (u32 \<times> lheap) res" where
  "list_get l h = (case listPop l h of (e, h') \<Rightarrow> if e = 0 then Inl Blocks else Inr (e, h'))"

interpretation lq: fifo "\<lambda>h. dl h l" "fresh_elem l" "list_put l" "list_get l" for l
proof unfold_locales
  fix h xs x
  show "dl h l xs \<Longrightarrow> fresh_elem l x xs \<Longrightarrow> \<exists>h'. list_put l x h = Inr h' \<and> dl h' l (xs @ [x])"
    by (simp add: list_put_def listAppend_dl)
next
  fix h :: lheap and x xs
  assume d: "dl h l (x # xs)"
  then obtain h' where "listPop l h = (x, h')" "dl h' l xs" using listPop_Cons by blast
  moreover have "x \<noteq> 0" using d by (auto simp: dl_def list_path_def)
  ultimately show "\<exists>h'. list_get l h = Inr (x, h') \<and> dl h' l xs" by (auto simp: list_get_def)
qed

lemma lq_ok_all_iff:
  "lq.ok_all l ys xs \<longleftrightarrow> distinct ys \<and> 0 \<notin> set ys \<and> set ys \<inter> set (list_path l xs) = {}"
  by (induction ys arbitrary: xs) (auto simp: fresh_elem_def list_path_def)

section \<open>Properties of the lists\<close>

text \<open>An empty list at address 0x1000, and one with an element.\<close>

definition demoHeap :: lheap where
  "demoHeap = listInit 0x2000 (listInit 0x1000 \<lparr>eflags = 2, lprev = (\<lambda>_. 0), lnext = (\<lambda>_. 0)\<rparr>)"

lemma demoHeap_dl: "dl demoHeap 0x1000 []" "dl demoHeap 0x2000 []"
  by (simp_all add: demoHeap_def dl_def list_path_def listInit_def)

text \<open>C6: the linked list is a queue: a list that holds xs, after appending the elements ys one by one,
  gives back xs and then ys in that order and is empty.\<close>

theorem list_is_queue:
  assumes "dl h l xs" "distinct ys" "0 \<notin> set ys" "set ys \<inter> set (list_path l xs) = {}"
  shows "\<exists>h1 h2. lq.put_all l ys h = Inr h1 \<and>
    lq.get_n l (length xs + length ys) h1 = Inr (xs @ ys, h2) \<and> dl h2 l []"
  by (rule lq.put_get_order [OF assms(1)]) (use assms in \<open>simp add: lq_ok_all_iff\<close>)

theorem list_is_queue_witness:
  "\<exists>h1 h2. lq.put_all 0x1000 [0x10, 0x20] demoHeap = Inr h1 \<and>
    lq.get_n 0x1000 2 h1 = Inr ([0x10, 0x20], h2) \<and> dl h2 0x1000 []"
proof -
  have d: "set [0x10, 0x20] \<inter> set (list_path 0x1000 []) = {}" by (simp add: list_path_def)
  have n: "length [] + length [0x10, 0x20 :: u32] = 2" "[] @ [0x10, 0x20 :: u32] = [0x10, 0x20]" by simp_all
  show ?thesis by (rule list_is_queue [OF demoHeap_dl(1) _ _ d, unfolded n]) simp_all
qed

text \<open>taking the first element of one list and appending it to another moves it: nothing else
  changes on either list.\<close>

theorem list_pop_append_moves:
  assumes "dl h l (x # xs)" "dl h m ys" "apart (list_path l (x # xs)) (list_path m ys)"
  shows "\<exists>h'. listPop l h = (x, h') \<and> dl (listAppend m x h') l xs \<and> dl (listAppend m x h') m (ys @ [x])"
  using assms by (rule pop_append_move)

theorem list_pop_append_moves_witness:
  "\<exists>h'. listPop 0x1000 (listAppend 0x1000 0x10 demoHeap) = (0x10, h') \<and>
    dl (listAppend 0x2000 0x10 h') 0x2000 [0x10]"
proof -
  have f: "fresh_elem 0x1000 0x10 []" by (simp add: fresh_elem_def list_path_def)
  have a: "dl (listAppend 0x1000 0x10 demoHeap) 0x1000 [0x10]"
    using listAppend_dl [OF demoHeap_dl(1) f] by simp
  have b: "dl (listAppend 0x1000 0x10 demoHeap) 0x2000 []"
    by (rule listAppend_frame [OF demoHeap_dl(1) f demoHeap_dl(2)]) (simp_all add: apart_def list_path_def)
  show ?thesis using list_pop_append_moves [OF a b] by (auto simp: apart_def list_path_def)
qed

text \<open>C12: on a well-formed list the three loops end: listElemExist decides membership, listLen counts
  the elements and listTraversal returns the first element its callback accepts, or NULL.\<close>

theorem list_loops_return:
  assumes "dl h l xs"
  shows "listElemExist l e h = Some (e \<in> set xs) \<and> listLen l h = Some (of_nat (length xs)) \<and>
    listTraversal l (\<lambda>x a s. (P x a, s)) arg h s =
      Some ((case find (\<lambda>x. P x arg) xs of None \<Rightarrow> 0 | Some x \<Rightarrow> x), s)"
  using listElemExist_dl [OF assms] listLen_dl [OF assms]
    listTraversal_dl [OF assms, of "\<lambda>x a s. (P x a, s)" arg s]
  by (simp add: traverse_pure)

theorem list_loops_return_witness: "listLen 0x1000 demoHeap = Some 0"
  using list_loops_return [OF demoHeap_dl(1), of 0 "\<lambda>_ _. True" "0 :: nat" "0 :: nat"]
  by (elim conjE) simp

end
