(* ===== verification/Sched.thy ===== *)
theory Sched
  imports Bitmap CString DList
begin

text \<open>
  Threads, the scheduler and the synchronisation primitives: kernel/thread/thread.c,
  kernel/thread/sync.c and the timer interrupt of device/timer.c. A thread is the address of its
  TaskStruct; the lists of the code are the sequences that DList shows them to represent. The
  part of a suspended call that runs when the thread is switched to again is kept as a frame on
  the thread's kernel stack.
\<close>

section \<open>Data (kernel/thread/thread.h)\<close>

datatype TaskStatus =
  TASK_RUNNING | TASK_READY | TASK_BLOCKED | TASK_WAITING | TASK_HANGING | TASK_DIED

record VirtualAddrPool =
  vbitMap :: BitMap
  vstartAddr :: u32

record MemBlockDesc =
  blockSize :: u32
  blocksPerArena :: u32
  freeList :: "u32 list"

record TaskStruct =
  selfKnlStack :: u32
  status :: TaskStatus
  pid :: u32
  priority :: u32
  name :: "u8 list"
  ticks :: u32
  elapsedTicks :: u32
  fdTable :: "u32 list"
  pageDir :: u32
  umbdArr :: "MemBlockDesc list"
  vap :: VirtualAddrPool
  cwdIno :: u32
  parentPid :: u32
  exitStatus :: u32
  stackMagicNum :: u32

abbreviation STACK_MAGIC_NUMBER :: u32 where "STACK_MAGIC_NUMBER \<equiv> 0x20212021"
abbreviation MAX_FILE_OPEN_PER_PROC :: nat where "MAX_FILE_OPEN_PER_PROC \<equiv> 7"
abbreviation PG_SIZE :: u32 where "PG_SIZE \<equiv> 4096"
abbreviation PAGE_DIR_TABLE_POS :: u32 where "PAGE_DIR_TABLE_POS \<equiv> 0x00100000"
abbreviation (input) NULLPTR :: u32 where "NULLPTR \<equiv> 0"

text \<open>The semaphores of the kernel's static locks. The fields of a \<open>Lock\<close> are \<open>holder\<close>,
  \<open>holderRepeatTimes\<close> and the semaphore of the same name.\<close>

datatype semaid = PidLock | KernelPapLock | UserPapLock | ConsoleLock | KeyBoardLock
  | ChannelLock nat

record Semaphore =
  val :: u8
  blockedList :: "u32 list"
  waitingList :: "u32 list"

text \<open>What is left to run of a call that was suspended: the restoration of the interrupt flag at
  the end of \<open>threadBlock\<close> and \<open>threadYield\<close>, the return from an interrupt, the loop of
  \<open>semaDown\<close>, and the code behind \<open>semaDown\<close> in \<open>lockLock\<close>, before \<open>semaUp\<close> in \<open>lockUnlock\<close> and
  behind \<open>threadBlock\<close> in \<open>lockWait\<close>.\<close>

datatype kframe =
  FIntr IntrStatus | FIret IntrStatus | FSema semaid IntrStatus | FAcquire semaid
  | FSemaUp semaid | FRelock semaid IntrStatus

record ksched = cpu +
  tcb :: "u32 \<Rightarrow> TaskStruct"
  curThread :: u32
  mainThread :: u32
  idleThread :: u32
  threadReadyList :: "u32 list"
  threadAllList :: "u32 list"
  kstack :: "u32 \<Rightarrow> kframe list"
  semas :: "semaid \<Rightarrow> Semaphore"
  holder :: "semaid \<Rightarrow> u32"
  holderRepeatTimes :: "semaid \<Rightarrow> u32"
  timerTicks :: u32
  pidBitMap :: BitMap
  pidStart :: u32
  cr3 :: u32
  tssEsp0 :: u32
  kv2p :: "u32 \<Rightarrow> u32"

text \<open>\<open>kv2p\<close> is the translation of kernel addresses by the page tables (\<open>addrV2P\<close> of
  kernel/memory.c), the same in every page directory.\<close>

definition updTask :: "u32 \<Rightarrow> (TaskStruct \<Rightarrow> TaskStruct) \<Rightarrow> 'a ksched_scheme \<Rightarrow> 'a ksched_scheme" where
  "updTask t f s = s\<lparr>tcb := (tcb s)(t := f (tcb s t))\<rparr>"

definition updSema :: "semaid \<Rightarrow> (Semaphore \<Rightarrow> Semaphore) \<Rightarrow> 'a ksched_scheme \<Rightarrow> 'a ksched_scheme" where
  "updSema l f s = s\<lparr>semas := (semas s)(l := f (semas s l))\<rparr>"

definition setHolder :: "semaid \<Rightarrow> u32 \<Rightarrow> u32 \<Rightarrow> 'a ksched_scheme \<Rightarrow> 'a ksched_scheme" where
  "setHolder l h n s =
     s\<lparr>holder := (holder s)(l := h), holderRepeatTimes := (holderRepeatTimes s)(l := n)\<rparr>"

definition pushFrame :: "kframe \<Rightarrow> 'a ksched_scheme \<Rightarrow> 'a ksched_scheme" where
  "pushFrame f s = s\<lparr>kstack := (kstack s)(curThread s := f # kstack s (curThread s))\<rparr>"

definition popFrame :: "'a ksched_scheme \<Rightarrow> 'a ksched_scheme" where
  "popFrame s = s\<lparr>kstack := (kstack s)(curThread s := tl (kstack s (curThread s)))\<rparr>"

abbreviation statusOf :: "'a ksched_scheme \<Rightarrow> u32 \<Rightarrow> TaskStatus" where
  "statusOf s t \<equiv> status (tcb s t)"

abbreviation isBlockedStatus :: "TaskStatus \<Rightarrow> bool" where
  "isBlockedStatus st \<equiv> st = TASK_BLOCKED \<or> st = TASK_HANGING \<or> st = TASK_WAITING"

section \<open>The scheduler (kernel/thread/thread.c)\<close>

definition threadUnblock :: "u32 \<Rightarrow> 'a ksched_scheme \<Rightarrow> 'a ksched_scheme res" where
  "threadUnblock pcb s =
     assertC ''!listElemExist(&threadReadyList, &pcb->generalTag)'' (pcb \<notin> set (threadReadyList s))
     (assertC ''pcb->status'' (isBlockedStatus (statusOf s pcb))
     (let intrStatus = getIntrStatus s; s = disableIntr s
      in if statusOf s pcb \<noteq> TASK_READY then
           assertC ''threadUnblock: blocked thread in ready list'' (pcb \<notin> set (threadReadyList s))
           (let s = updTask pcb (\<lambda>t. t\<lparr>status := TASK_READY\<rparr>) s;
                s = s\<lparr>threadReadyList := pcb # threadReadyList s\<rparr>
            in Inr (setIntrStatus intrStatus s))
         else Inr (setIntrStatus intrStatus s)))"

definition pageDirActivate :: "u32 \<Rightarrow> 'a ksched_scheme \<Rightarrow> 'a ksched_scheme" where
  "pageDirActivate ts s =
     (let pageDirPhyAddr = (if pageDir (tcb s ts) \<noteq> NULLPTR then kv2p s (pageDir (tcb s ts))
                            else PAGE_DIR_TABLE_POS)
      in s\<lparr>cr3 := pageDirPhyAddr\<rparr>)"

definition updateTSSEsp :: "u32 \<Rightarrow> 'a ksched_scheme \<Rightarrow> 'a ksched_scheme" where
  "updateTSSEsp ts s = s\<lparr>tssEsp0 := ts + PG_SIZE\<rparr>"

definition processActivate :: "u32 \<Rightarrow> 'a ksched_scheme \<Rightarrow> 'a ksched_scheme res" where
  "processActivate ts s =
     assertC ''ts != NULL'' (ts \<noteq> NULLPTR)
     (let s = pageDirActivate ts s
      in Inr (if pageDir (tcb s ts) \<noteq> NULLPTR then updateTSSEsp ts s else s))"

text \<open>\<open>schedule\<close> ends with \<open>switchTo\<close>: from then on the next thread runs. The part of \<open>schedule\<close>
  that picks it is \<open>switchNext\<close>.\<close>

definition switchNext :: "'a ksched_scheme \<Rightarrow> 'a ksched_scheme res" where
  "switchNext s =
     (case threadReadyList s of
        [] \<Rightarrow> Inl OutOfBounds
      | next # rest \<Rightarrow>
          (let s = s\<lparr>threadReadyList := rest\<rparr>;
               s = updTask next (\<lambda>t. t\<lparr>status := TASK_RUNNING\<rparr>) s
           in rbind (processActivate next s) (\<lambda>s. Inr (s\<lparr>curThread := next\<rparr>))))"

definition requeueCurrent :: "'a ksched_scheme \<Rightarrow> 'a ksched_scheme res" where
  "requeueCurrent s =
     (let cur = curThread s
      in if statusOf s cur = TASK_RUNNING then
           assertC ''!listElemExist(&threadReadyList, &cur->generalTag)''
             (cur \<notin> set (threadReadyList s))
           (let s = s\<lparr>threadReadyList := threadReadyList s @ [cur]\<rparr>
            in Inr (updTask cur (\<lambda>t. t\<lparr>ticks := priority t, status := TASK_READY\<rparr>) s))
         else Inr s)"

definition schedule :: "'a ksched_scheme \<Rightarrow> 'a ksched_scheme res" where
  "schedule s =
     assertC ''getIntrStatus() == INTR_OFF'' (getIntrStatus s = INTR_OFF)
     (rbind (requeueCurrent s) (\<lambda>s.
      rbind (if threadReadyList s = [] then threadUnblock (idleThread s) s else Inr s)
        switchNext))"

definition threadBlock :: "TaskStatus \<Rightarrow> 'a ksched_scheme \<Rightarrow> 'a ksched_scheme res" where
  "threadBlock st s =
     assertC ''status'' (isBlockedStatus st)
     (let intrStatus = getIntrStatus s; s = disableIntr s; cur = curThread s
      in assertC ''!listElemExist(&threadReadyList, &cur->generalTag)''
           (cur \<notin> set (threadReadyList s))
         (let s = updTask cur (\<lambda>t. t\<lparr>status := st\<rparr>) s
          in schedule (pushFrame (FIntr intrStatus) s)))"

definition threadYield :: "'a ksched_scheme \<Rightarrow> 'a ksched_scheme res" where
  "threadYield s =
     (let intrStatus = getIntrStatus s; s = disableIntr s; cur = curThread s
      in assertC ''!listElemExist(&threadReadyList, &cur->generalTag)''
           (cur \<notin> set (threadReadyList s))
         (let s = s\<lparr>threadReadyList := threadReadyList s @ [cur]\<rparr>;
              s = updTask cur (\<lambda>t. t\<lparr>status := TASK_READY\<rparr>) s
          in schedule (pushFrame (FIntr intrStatus) s)))"

text \<open>One round of \<open>idleThreadFunc\<close>: the thread blocks; behind the call it executes sti and hlt.\<close>

definition idleThreadFunc :: "'a ksched_scheme \<Rightarrow> 'a ksched_scheme res" where
  "idleThreadFunc s = threadBlock TASK_BLOCKED (pushFrame (FIntr INTR_ON) s)"

text \<open>device/timer.c. The processor clears the interrupt flag when it enters the handler and iret
  restores it.\<close>

definition intrTimerHandler :: "'a ksched_scheme \<Rightarrow> 'a ksched_scheme res" where
  "intrTimerHandler s =
     (let cur = curThread s
      in assertC ''curThread->stackMagicNum == STACK_MAGIC_NUMBER''
           (stackMagicNum (tcb s cur) = STACK_MAGIC_NUMBER)
         (let s = updTask cur (\<lambda>t. t\<lparr>elapsedTicks := elapsedTicks t + 1\<rparr>) s;
              s = s\<lparr>timerTicks := timerTicks s + 1\<rparr>
          in if ticks (tcb s cur) = 0 then schedule s
             else Inr (updTask cur (\<lambda>t. t\<lparr>ticks := ticks t - 1\<rparr>) s)))"

definition timerInterrupt :: "'a ksched_scheme \<Rightarrow> 'a ksched_scheme res" where
  "timerInterrupt s = intrTimerHandler (disableIntr (pushFrame (FIret (getIntrStatus s)) s))"

section \<open>Semaphores and locks (kernel/thread/sync.c)\<close>

definition semaInit :: "u8 \<Rightarrow> Semaphore" where
  "semaInit v = \<lparr>val = v, blockedList = [], waitingList = []\<rparr>"

definition lockInit :: "semaid \<Rightarrow> 'a ksched_scheme \<Rightarrow> 'a ksched_scheme" where
  "lockInit l s = updSema l (\<lambda>_. semaInit 1) (setHolder l NULLPTR 0 s)"

text \<open>The loop of \<open>semaDown\<close> up to the next context switch, with its frame on the stack: the
  frame stays when the thread blocks, so that the test is made again when it runs again.\<close>

definition semaLoop :: "semaid \<Rightarrow> IntrStatus \<Rightarrow> 'a ksched_scheme \<Rightarrow> 'a ksched_scheme res" where
  "semaLoop l intrStatus s =
     (let cur = curThread s
      in if val (semas s l) = 0 then
           assertC ''!listElemExist(&sema->blockedList, &cur->lockTag)''
             (cur \<notin> set (blockedList (semas s l)))
           (threadBlock TASK_BLOCKED
              (updSema l (\<lambda>q. q\<lparr>blockedList := blockedList q @ [cur]\<rparr>) s))
         else
           (let s = updSema l (\<lambda>q. q\<lparr>val := val q - 1\<rparr>) s
            in assertC ''sema->value == 0'' (val (semas s l) = 0)
                 (Inr (setIntrStatus intrStatus (popFrame s)))))"

definition semaDown :: "semaid \<Rightarrow> 'a ksched_scheme \<Rightarrow> 'a ksched_scheme res" where
  "semaDown l s =
     (let intrStatus = getIntrStatus s; s = disableIntr s
      in semaLoop l intrStatus (pushFrame (FSema l intrStatus) s))"

text \<open>The loop of \<open>semaUp\<close>: it returns the rest of the blocked list.\<close>

fun semaWake :: "u32 list \<Rightarrow> 'a ksched_scheme \<Rightarrow> (u32 list \<times> 'a ksched_scheme) res" where
  "semaWake [] s = Inr ([], s)"
| "semaWake (thread # list) s =
     (if statusOf s thread = TASK_BLOCKED
      then rbind (threadUnblock thread s) (\<lambda>s. Inr (list, s))
      else semaWake list s)"

definition semaUp :: "semaid \<Rightarrow> 'a ksched_scheme \<Rightarrow> 'a ksched_scheme res" where
  "semaUp l s =
     (let intrStatus = getIntrStatus s; s = disableIntr s
      in assertC ''sema->value == 0'' (val (semas s l) = 0)
         (rbind (semaWake (blockedList (semas s l)) s) (\<lambda>(list, s).
          let s = updSema l (\<lambda>q. q\<lparr>blockedList := list, val := val q + 1\<rparr>) s
          in assertC ''sema->value == 1'' (val (semas s l) = 1)
               (Inr (setIntrStatus intrStatus s)))))"

definition lockLock :: "semaid \<Rightarrow> 'a ksched_scheme \<Rightarrow> 'a ksched_scheme res" where
  "lockLock l s =
     (if holder s l \<noteq> curThread s then semaDown l (pushFrame (FAcquire l) s)
      else Inr (setHolder l (holder s l) (holderRepeatTimes s l + 1) s))"

definition lockAcquired :: "semaid \<Rightarrow> 'a ksched_scheme \<Rightarrow> 'a ksched_scheme" where
  "lockAcquired l s = setHolder l (curThread s) 1 s"

text \<open>\<open>lockUnlock\<close> before its call of \<open>semaUp\<close>; the flag tells whether the call is made.\<close>

definition lockRelease :: "semaid \<Rightarrow> 'a ksched_scheme \<Rightarrow> (bool \<times> 'a ksched_scheme) res" where
  "lockRelease l s =
     assertC ''lock->holder == getCurrentThread()'' (holder s l = curThread s)
     (if holderRepeatTimes s l > 1
      then Inr (False, setHolder l (holder s l) (holderRepeatTimes s l - 1) s)
      else assertC ''lock->holderRepeatTimes == 1'' (holderRepeatTimes s l = 1)
             (Inr (True, setHolder l NULLPTR 0 s)))"

definition lockUnlock :: "semaid \<Rightarrow> 'a ksched_scheme \<Rightarrow> 'a ksched_scheme res" where
  "lockUnlock l s = rbind (lockRelease l s) (\<lambda>(up, s). if up then semaUp l s else Inr s)"

definition lockWait :: "semaid \<Rightarrow> 'a ksched_scheme \<Rightarrow> 'a ksched_scheme res" where
  "lockWait l s =
     (let intrStatus = getIntrStatus s; s = disableIntr s; cur = curThread s
      in assertC ''lockWait:holder isnt current thread'' (holder s l = cur)
         (assertC ''!listElemExist(&lock->semaphore.waitingList, &cur->lockTag)''
            (cur \<notin> set (waitingList (semas s l)))
         (assertC ''!listElemExist(&lock->semaphore.blockedList, &cur->lockTag)''
            (cur \<notin> set (blockedList (semas s l)))
         (let s = updSema l (\<lambda>q. q\<lparr>waitingList := waitingList q @ [cur]\<rparr>) s
          in rbind (lockUnlock l s)
               (\<lambda>s. threadBlock TASK_WAITING (pushFrame (FRelock l intrStatus) s))))))"

definition lockNotify :: "semaid \<Rightarrow> 'a ksched_scheme \<Rightarrow> 'a ksched_scheme res" where
  "lockNotify l s =
     assertC ''lockNotify:holder isnt current thread'' (holder s l = curThread s)
     (let intrStatus = getIntrStatus s; s = disableIntr s
      in case waitingList (semas s l) of
           [] \<Rightarrow> Inr (setIntrStatus intrStatus s)
         | thread # list \<Rightarrow>
             rbind (threadUnblock thread (updSema l (\<lambda>q. q\<lparr>waitingList := list\<rparr>) s))
               (\<lambda>s. Inr (setIntrStatus intrStatus s)))"

fun notifyLoop :: "semaid \<Rightarrow> u32 list \<Rightarrow> 'a ksched_scheme \<Rightarrow> 'a ksched_scheme res" where
  "notifyLoop l [] s = Inr s"
| "notifyLoop l (thread # list) s =
     rbind (threadUnblock thread (updSema l (\<lambda>q. q\<lparr>waitingList := list\<rparr>) s)) (notifyLoop l list)"

definition lockNotifyAll :: "semaid \<Rightarrow> 'a ksched_scheme \<Rightarrow> 'a ksched_scheme res" where
  "lockNotifyAll l s =
     assertC ''lockNotifyAll:holder isnt current thread'' (holder s l = curThread s)
     (let intrStatus = getIntrStatus s; s = disableIntr s
      in rbind (notifyLoop l (waitingList (semas s l)) s)
           (\<lambda>s. Inr (setIntrStatus intrStatus s)))"

section \<open>Resuming a suspended call\<close>

text \<open>Run the topmost frame of the current thread's kernel stack up to the next point where an
  interrupt or a context switch can occur.\<close>

definition kresume :: "'a ksched_scheme \<Rightarrow> 'a ksched_scheme res" where
  "kresume s =
     (case kstack s (curThread s) of
        [] \<Rightarrow> Inr s
      | FIntr st # _ \<Rightarrow> Inr (setIntrStatus st (popFrame s))
      | FIret st # _ \<Rightarrow> Inr (setIntrStatus st (popFrame s))
      | FSema l st # _ \<Rightarrow> semaLoop l st s
      | FAcquire l # _ \<Rightarrow> Inr (lockAcquired l (popFrame s))
      | FSemaUp l # _ \<Rightarrow> semaUp l (popFrame s)
      | FRelock l st # _ \<Rightarrow> lockLock l (setIntrStatus st (popFrame s)))"

text \<open>\<open>lockUnlock\<close> with the point between its two halves, where an interrupt may come.\<close>

definition lockUnlockStart :: "semaid \<Rightarrow> 'a ksched_scheme \<Rightarrow> 'a ksched_scheme res" where
  "lockUnlockStart l s =
     rbind (lockRelease l s) (\<lambda>(up, s). Inr (if up then pushFrame (FSemaUp l) s else s))"

section \<open>Uncontended locks\<close>

text \<open>\<open>lockLock\<close> run to its end by a thread that does not have to wait; the components that run in
  one thread use it, and a call that would have to wait is \<open>Blocks\<close> there.\<close>

definition lockNow :: "semaid \<Rightarrow> 'a ksched_scheme \<Rightarrow> 'a ksched_scheme res" where
  "lockNow l s =
     (if holder s l \<noteq> curThread s then
        if val (semas s l) = 0 then Inl Blocks
        else (let s = updSema l (\<lambda>q. q\<lparr>val := val q - 1\<rparr>) s
              in assertC ''sema->value == 0'' (val (semas s l) = 0)
                   (Inr (setHolder l (curThread s) 1 s)))
      else Inr (setHolder l (holder s l) (holderRepeatTimes s l + 1) s))"

section \<open>Process identifiers (kernel/thread/thread.c)\<close>

definition pidPoolInit :: "'a ksched_scheme \<Rightarrow> 'a ksched_scheme res" where
  "pidPoolInit s =
     rbind (bitMapInit \<lparr>bm_length = 128, startAddr = replicate 128 0\<rparr>)
       (\<lambda>bm. Inr (lockInit PidLock (s\<lparr>pidStart := 1, pidBitMap := bm\<rparr>)))"

definition allocatePid :: "'a ksched_scheme \<Rightarrow> (u32 \<times> 'a ksched_scheme) res" where
  "allocatePid s =
     rbind (lockNow PidLock s) (\<lambda>s.
     rbind (bitMapScanAndSet (pidBitMap s) 1 True) (\<lambda>(bitIdx, bm).
     rbind (lockUnlock PidLock (s\<lparr>pidBitMap := bm\<rparr>)) (\<lambda>s.
     Inr (bitIdx + pidStart s, s))))"

definition releasePid :: "u32 \<Rightarrow> 'a ksched_scheme \<Rightarrow> 'a ksched_scheme res" where
  "releasePid p s =
     rbind (lockNow PidLock s) (\<lambda>s.
     let bitIdx = p - pidStart s in
     rbind (bitMapSet (pidBitMap s) bitIdx False) (\<lambda>bm.
     lockUnlock PidLock (s\<lparr>pidBitMap := bm\<rparr>)))"

definition checkPid :: "'a ksched_scheme \<Rightarrow> u32 \<Rightarrow> u32 \<Rightarrow> bool" where
  "checkPid s p t = (pid (tcb s t) = p)"

definition pidToThread :: "u32 \<Rightarrow> 'a ksched_scheme \<Rightarrow> u32" where
  "pidToThread p s = (case find (checkPid s p) (threadAllList s) of None \<Rightarrow> NULLPTR | Some t \<Rightarrow> t)"

definition sysGetPid :: "'a ksched_scheme \<Rightarrow> u32" where
  "sysGetPid s = pid (tcb s (curThread s))"

definition forkPid :: "'a ksched_scheme \<Rightarrow> (u32 \<times> 'a ksched_scheme) res" where
  "forkPid s = allocatePid s"

section \<open>Creating threads (kernel/thread/thread.c)\<close>

text \<open>A TaskStruct of zero bytes.\<close>

definition zeroTask :: TaskStruct where
  "zeroTask = \<lparr>selfKnlStack = 0, status = TASK_RUNNING, pid = 0, priority = 0, name = replicate 16 0,
     ticks = 0, elapsedTicks = 0, fdTable = replicate MAX_FILE_OPEN_PER_PROC 0, pageDir = 0,
     umbdArr = replicate 7 \<lparr>blockSize = 0, blocksPerArena = 0, freeList = []\<rparr>,
     vap = \<lparr>vbitMap = \<lparr>bm_length = 0, startAddr = []\<rparr>, vstartAddr = 0\<rparr>,
     cwdIno = 0, parentPid = 0, exitStatus = 0, stackMagicNum = 0\<rparr>"

abbreviation freshFdTable :: "u32 list" where
  "freshFdTable \<equiv> [0, 1, 2] @ replicate (MAX_FILE_OPEN_PER_PROC - 3) (- 1)"

text \<open>The kernel stack pointer has type \<open>uint32*\<close>, so the two subtractions of sizes 76 and 32 are
  in units of four bytes. What the new stack makes the thread do first, \<open>kernelThread\<close>, is to
  enable interrupts.\<close>

definition threadCreate ::
  "u32 \<Rightarrow> u8 list \<Rightarrow> u32 \<Rightarrow> 'a ksched_scheme \<Rightarrow> 'a ksched_scheme res" where
  "threadCreate pcb nm prio s =
     (let s = updTask pcb (\<lambda>_. zeroTask) s in
      rbind (strcpy (name (tcb s pcb)) nm) (\<lambda>nm'.
      let s = updTask pcb (\<lambda>t. t\<lparr>name := nm'\<rparr>) s in
      rbind (allocatePid s) (\<lambda>(p, s).
      let s = updTask pcb (\<lambda>t. t\<lparr>pid := p, status := TASK_READY,
                selfKnlStack := pcb + PG_SIZE - 4 * 76 - 4 * 32, priority := prio, ticks := prio,
                elapsedTicks := 0, pageDir := NULLPTR, cwdIno := 0,
                stackMagicNum := STACK_MAGIC_NUMBER, parentPid := - 1,
                fdTable := freshFdTable\<rparr>) s
      in Inr (s\<lparr>kstack := (kstack s)(pcb := [FIntr INTR_ON])\<rparr>))))"

text \<open>The end of \<open>threadStart\<close> and of \<open>processStart\<close>.\<close>

definition threadEnqueue :: "u32 \<Rightarrow> 'a ksched_scheme \<Rightarrow> 'a ksched_scheme res" where
  "threadEnqueue pcb s =
     assertC ''!listElemExist(&threadReadyList, &pcb->generalTag)'' (pcb \<notin> set (threadReadyList s))
     (assertC ''!listElemExist(&threadAllList, &pcb->allListTag)'' (pcb \<notin> set (threadAllList s))
     (Inr (s\<lparr>threadReadyList := threadReadyList s @ [pcb], threadAllList := threadAllList s @ [pcb]\<rparr>)))"

text \<open>\<open>threadStart\<close> on the page \<open>pcb\<close> that \<open>getKernelPages\<close> has returned.\<close>

definition threadStart :: "u32 \<Rightarrow> u8 list \<Rightarrow> u32 \<Rightarrow> 'a ksched_scheme \<Rightarrow> 'a ksched_scheme res" where
  "threadStart pcb nm prio s = rbind (threadCreate pcb nm prio s) (threadEnqueue pcb)"

definition makeMainThread :: "'a ksched_scheme \<Rightarrow> 'a ksched_scheme res" where
  "makeMainThread s =
     (let mainT = curThread s;
          s = s\<lparr>mainThread := mainT\<rparr>;
          s = updTask mainT (\<lambda>_. zeroTask) s in
      rbind (strcpy (name (tcb s mainT)) (bytes ''main'' @ [0])) (\<lambda>nm'.
      let s = updTask mainT (\<lambda>t. t\<lparr>name := nm'\<rparr>) s in
      rbind (allocatePid s) (\<lambda>(p, s).
      let s = updTask mainT (\<lambda>t. t\<lparr>pid := p, status := TASK_RUNNING,
                selfKnlStack := mainT + PG_SIZE, priority := 4, ticks := 4, elapsedTicks := 0,
                pageDir := NULLPTR, cwdIno := 0, parentPid := - 1,
                stackMagicNum := STACK_MAGIC_NUMBER, fdTable := freshFdTable\<rparr>) s
      in assertC ''!listElemExist(&threadAllList, &mainThread->allListTag)''
           (mainT \<notin> set (threadAllList s))
           (Inr (s\<lparr>threadAllList := threadAllList s @ [mainT]\<rparr>)))))"

definition threadInit :: "u32 \<Rightarrow> 'a ksched_scheme \<Rightarrow> 'a ksched_scheme res" where
  "threadInit idlePage s =
     (let s = s\<lparr>threadAllList := [], threadReadyList := []\<rparr> in
      rbind (pidPoolInit s) (\<lambda>s.
      rbind (makeMainThread s) (\<lambda>s.
      rbind (threadStart idlePage (bytes ''idle'' @ [0]) 1 s) (\<lambda>s.
      Inr (s\<lparr>idleThread := idlePage\<rparr>)))))"

section \<open>Sleeping (device/timer.c)\<close>

abbreviation MILLISECONDS_PER_INTR :: u32 where "MILLISECONDS_PER_INTR \<equiv> 10"

definition DIV_ROUND_UP :: "u32 \<Rightarrow> u32 \<Rightarrow> u32" where
  "DIV_ROUND_UP x step = (x + step - 1) div step"

text \<open>The loop of \<open>ticksToSleep\<close>: \<open>now\<close> lists the values of the tick counter at the tests of the
  loop, in which the thread yields; the result is the number of yields.\<close>

fun ticksToSleep :: "u32 \<Rightarrow> u32 \<Rightarrow> u32 list \<Rightarrow> nat option" where
  "ticksToSleep startTick sleepTicks [] = None"
| "ticksToSleep startTick sleepTicks (now # rest) =
     (if now - startTick < sleepTicks then map_option Suc (ticksToSleep startTick sleepTicks rest)
      else Some 0)"

definition sleepTicksOf :: "u32 \<Rightarrow> u32" where
  "sleepTicksOf milliSeconds = DIV_ROUND_UP milliSeconds MILLISECONDS_PER_INTR"

text \<open>The bytes \<open>setFrequency\<close> sends to the timer chip: (port, value).\<close>

definition setFrequency :: "u16 \<Rightarrow> u8 \<Rightarrow> u8 \<Rightarrow> u8 \<Rightarrow> u16 \<Rightarrow> (u16 \<times> u8) list" where
  "setFrequency counterPort counterNo rwl counterMode counterValue =
     [(0x43, push_bit 6 counterNo OR push_bit 4 rwl OR push_bit 1 counterMode),
      (counterPort, ucast counterValue), (counterPort, ucast (drop_bit 8 counterValue))]"

end
