(* ===== verification/SyncInv.thy ===== *)
theory SyncInv
  imports SchedInv
begin

text \<open>
  The locks of kernel/thread/sync.c under interleaving: the phase of a thread in a lock
  operation, the invariant of each lock, the effect of every operation on it, and the machine of
  all operations with timer interrupts, whose runs keep the invariant and never fail an assertion.
\<close>

section \<open>Where a thread is\<close>

text \<open>The phase of a thread is read off its kernel stack, below the frames of interrupts that
  preempted it.\<close>

datatype phase = PRun | PDown semaid | PAcq semaid | PUp semaid | PWait semaid | PBad

fun isIret :: "kframe \<Rightarrow> bool" where
  "isIret (FIret _) = True"
| "isIret _ = False"

fun corePhase :: "kframe list \<Rightarrow> phase" where
  "corePhase [] = PRun"
| "corePhase [FIntr _] = PRun"
| "corePhase [FIntr _, FIntr _] = PRun"
| "corePhase [FSema l _, FAcquire m] = (if l = m then PDown l else PBad)"
| "corePhase [FIntr _, FSema l _, FAcquire m] = (if l = m then PDown l else PBad)"
| "corePhase [FAcquire l] = PAcq l"
| "corePhase [FSemaUp l] = PUp l"
| "corePhase [FRelock l _] = PWait l"
| "corePhase [FIntr _, FRelock l _] = PWait l"
| "corePhase _ = PBad"

definition phaseOf :: "kframe list \<Rightarrow> phase" where
  "phaseOf ks = corePhase (dropWhile isIret ks)"

lemma phaseOf_FIret [simp]: "phaseOf (FIret st # ks) = phaseOf ks"
  by (simp add: phaseOf_def)

lemma phaseOf_core:
  "\<not> isIret f \<Longrightarrow> phaseOf (f # ks) = corePhase (f # ks)"
  by (simp add: phaseOf_def)

lemma phaseOf_simps [simp]:
  "phaseOf [] = PRun" "phaseOf [FIntr i] = PRun" "phaseOf [FIntr i, FIntr j] = PRun"
  "phaseOf [FSema l i, FAcquire l] = PDown l" "phaseOf [FIntr j, FSema l i, FAcquire l] = PDown l"
  "phaseOf [FAcquire l] = PAcq l" "phaseOf [FSemaUp l] = PUp l" "phaseOf [FRelock l i] = PWait l"
  "phaseOf [FIntr j, FRelock l i] = PWait l"
  by (simp_all add: phaseOf_core) (simp add: phaseOf_def)

text \<open>What the top frame says about the rest of a well-shaped stack.\<close>

lemma phase_FIntr: "phaseOf (FIntr i # ks) \<noteq> PBad \<Longrightarrow> phaseOf ks = phaseOf (FIntr i # ks)"
  by (cases "FIntr i # ks" rule: corePhase.cases) (auto simp: phaseOf_core phaseOf_def split: if_splits)

lemma phase_FSema: "phaseOf (FSema l i # ks) \<noteq> PBad \<Longrightarrow> ks = [FAcquire l]"
  by (cases "FSema l i # ks" rule: corePhase.cases) (auto simp: phaseOf_core split: if_splits)

lemma phase_FAcquire: "phaseOf (FAcquire l # ks) \<noteq> PBad \<Longrightarrow> ks = []"
  by (cases "FAcquire l # ks" rule: corePhase.cases) (auto simp: phaseOf_core split: if_splits)

lemma phase_FSemaUp: "phaseOf (FSemaUp l # ks) \<noteq> PBad \<Longrightarrow> ks = []"
  by (cases "FSemaUp l # ks" rule: corePhase.cases) (auto simp: phaseOf_core split: if_splits)

lemma phase_FRelock: "phaseOf (FRelock l i # ks) \<noteq> PBad \<Longrightarrow> ks = []"
  by (cases "FRelock l i # ks" rule: corePhase.cases) (auto simp: phaseOf_core split: if_splits)

section \<open>The invariant of a lock\<close>

text \<open>A thread has the token of a lock between \<open>semaDown\<close> and the store of \<open>holder\<close>, and between
  the clearing of \<open>holder\<close> and \<open>semaUp\<close>.\<close>

definition hasToken :: "semaid \<Rightarrow> phase \<Rightarrow> bool" where
  "hasToken l p \<longleftrightarrow> p = PAcq l \<or> p = PUp l"

abbreviation parked :: "TaskStatus \<Rightarrow> bool" where
  "parked st \<equiv> st = TASK_BLOCKED \<or> st = TASK_WAITING"

text \<open>\<open>lockInv T st ph q h r l\<close>: for the threads \<open>T\<close> with statuses \<open>st\<close> and phases \<open>ph\<close>, the lock
  \<open>l\<close> with semaphore \<open>q\<close>, holder \<open>h\<close> and repeat count \<open>r\<close> is sound. The last conjunct says that
  a free lock with waiters has one that is about to try again.\<close>

definition lockInv ::
  "u32 set \<Rightarrow> (u32 \<Rightarrow> TaskStatus) \<Rightarrow> (u32 \<Rightarrow> phase) \<Rightarrow> Semaphore \<Rightarrow> u32 \<Rightarrow> u32 \<Rightarrow> semaid \<Rightarrow> bool" where
  "lockInv T st ph q h r l \<longleftrightarrow>
     distinct (blockedList q) \<and> distinct (waitingList q) \<and>
     (\<forall>t \<in> set (blockedList q). t \<in> T \<and> st t = TASK_BLOCKED \<and> ph t = PDown l) \<and>
     (\<forall>t \<in> set (waitingList q). t \<in> T \<and> st t = TASK_WAITING \<and> ph t = PWait l) \<and>
     (h \<noteq> 0 \<longrightarrow> h \<in> T \<and> r \<noteq> 0) \<and>
     (\<forall>t \<in> T. hasToken l (ph t) \<longrightarrow> h = 0) \<and>
     (\<forall>t \<in> T. hasToken l (ph t) \<longrightarrow> (\<forall>u \<in> T. u \<noteq> t \<longrightarrow> \<not> hasToken l (ph u))) \<and>
     (val q = 0 \<and> (h \<noteq> 0 \<or> (\<exists>t \<in> T. hasToken l (ph t))) \<or>
      val q = 1 \<and> h = 0 \<and> (\<forall>t \<in> T. \<not> hasToken l (ph t))) \<and>
     (val q = 1 \<and> blockedList q \<noteq> [] \<longrightarrow> (\<exists>t \<in> T. ph t = PDown l \<and> \<not> parked (st t)))"

lemma lockInvI:
  assumes "distinct (blockedList q)" "distinct (waitingList q)"
    "\<And>t. t \<in> set (blockedList q) \<Longrightarrow> t \<in> T \<and> st t = TASK_BLOCKED \<and> ph t = PDown l"
    "\<And>t. t \<in> set (waitingList q) \<Longrightarrow> t \<in> T \<and> st t = TASK_WAITING \<and> ph t = PWait l"
    "h \<noteq> 0 \<Longrightarrow> h \<in> T \<and> r \<noteq> 0"
    "\<And>t. t \<in> T \<Longrightarrow> hasToken l (ph t) \<Longrightarrow> h = 0"
    "\<And>t u. t \<in> T \<Longrightarrow> hasToken l (ph t) \<Longrightarrow> u \<in> T \<Longrightarrow> u \<noteq> t \<Longrightarrow> \<not> hasToken l (ph u)"
    "val q = 0 \<and> (h \<noteq> 0 \<or> (\<exists>t \<in> T. hasToken l (ph t))) \<or>
     val q = 1 \<and> h = 0 \<and> (\<forall>t \<in> T. \<not> hasToken l (ph t))"
    "val q = 1 \<Longrightarrow> blockedList q \<noteq> [] \<Longrightarrow> \<exists>t \<in> T. ph t = PDown l \<and> \<not> parked (st t)"
  shows "lockInv T st ph q h r l"
  unfolding lockInv_def
proof (intro conjI)
  show "\<forall>t \<in> T. hasToken l (ph t) \<longrightarrow> (\<forall>u \<in> T. u \<noteq> t \<longrightarrow> \<not> hasToken l (ph u))"
    using assms(7) by blast
  show "val q = 1 \<and> blockedList q \<noteq> [] \<longrightarrow> (\<exists>t \<in> T. ph t = PDown l \<and> \<not> parked (st t))"
    using assms(9) by blast
  show "\<forall>t \<in> T. hasToken l (ph t) \<longrightarrow> h = 0" using assms(6) by blast
qed (use assms(1-5) in blast | fact assms(8))+

lemma lockInvD:
  assumes "lockInv T st ph q h r l"
  shows "distinct (blockedList q)" "distinct (waitingList q)"
    "\<And>t. t \<in> set (blockedList q) \<Longrightarrow> t \<in> T \<and> st t = TASK_BLOCKED \<and> ph t = PDown l"
    "\<And>t. t \<in> set (waitingList q) \<Longrightarrow> t \<in> T \<and> st t = TASK_WAITING \<and> ph t = PWait l"
    "h \<noteq> 0 \<Longrightarrow> h \<in> T \<and> r \<noteq> 0"
    "\<And>t. t \<in> T \<Longrightarrow> hasToken l (ph t) \<Longrightarrow> h = 0"
    "\<And>t u. t \<in> T \<Longrightarrow> hasToken l (ph t) \<Longrightarrow> u \<in> T \<Longrightarrow> u \<noteq> t \<Longrightarrow> \<not> hasToken l (ph u)"
    "val q = 0 \<and> (h \<noteq> 0 \<or> (\<exists>t \<in> T. hasToken l (ph t))) \<or>
     val q = 1 \<and> h = 0 \<and> (\<forall>t \<in> T. \<not> hasToken l (ph t))"
    "val q = 1 \<Longrightarrow> blockedList q \<noteq> [] \<Longrightarrow> \<exists>t \<in> T. ph t = PDown l \<and> \<not> parked (st t)"
  using assms unfolding lockInv_def by (elim conjE, blast)+

lemma hasToken_simps [simp]:
  "hasToken l (PAcq m) = (l = m)" "hasToken l (PUp m) = (l = m)" "\<not> hasToken l PRun"
  "\<not> hasToken l (PDown m)" "\<not> hasToken l (PWait m)"
  by (auto simp: hasToken_def)

lemma lockInv_stable:
  assumes "lockInv T st ph q h r l"
    and "\<And>t. t \<in> T \<Longrightarrow> ph t = PDown l \<Longrightarrow> st t = TASK_BLOCKED \<Longrightarrow> ph' t = PDown l \<and> st' t = TASK_BLOCKED"
    and "\<And>t. t \<in> T \<Longrightarrow> ph t = PWait l \<Longrightarrow> st t = TASK_WAITING \<Longrightarrow> ph' t = PWait l \<and> st' t = TASK_WAITING"
    and "\<And>t. t \<in> T \<Longrightarrow> hasToken l (ph' t) = hasToken l (ph t)"
    and "\<And>t. t \<in> T \<Longrightarrow> ph t = PDown l \<Longrightarrow> \<not> parked (st t) \<Longrightarrow> ph' t = PDown l \<and> \<not> parked (st' t)"
  shows "lockInv T st' ph' q h r l"
proof -
  note d = lockInvD [OF assms(1)]
  show ?thesis
  proof (rule lockInvI)
    show "val q = 0 \<and> (h \<noteq> 0 \<or> (\<exists>t \<in> T. hasToken l (ph' t))) \<or>
     val q = 1 \<and> h = 0 \<and> (\<forall>t \<in> T. \<not> hasToken l (ph' t))" using d(8) assms(4) by auto
    show "\<exists>t \<in> T. ph' t = PDown l \<and> \<not> parked (st' t)" if "val q = 1" "blockedList q \<noteq> []"
      using d(9) [OF that] assms(5) by blast
    show "hasToken l (ph' t) \<Longrightarrow> h = 0" if "t \<in> T" for t using d(6) assms(4) that by blast
    show "\<not> hasToken l (ph' u)" if "t \<in> T" "hasToken l (ph' t)" "u \<in> T" "u \<noteq> t" for t u
      using d(7) assms(4) that by blast
    show "t \<in> T \<and> st' t = TASK_BLOCKED \<and> ph' t = PDown l" if "t \<in> set (blockedList q)" for t
      using d(3) assms(2) that by blast
    show "t \<in> T \<and> st' t = TASK_WAITING \<and> ph' t = PWait l" if "t \<in> set (waitingList q)" for t
      using d(4) assms(3) that by blast
  qed (use d(1,2,5) in blast)+
qed

lemma lockInv_take:
  assumes "lockInv T st ph q h r l" "cur \<in> T" "\<not> parked (st cur)" "\<not> hasToken l (ph cur)" "val q \<noteq> 0"
  shows "lockInv T st (ph(cur := PAcq l)) (q\<lparr>val := 0\<rparr>) h r l" "val q = 1"
proof -
  note d = lockInvD [OF assms(1)]
  show v: "val q = 1" using d(8) assms(5) by blast
  then have n: "h = 0" "\<And>t. t \<in> T \<Longrightarrow> \<not> hasToken l (ph t)" using d(8) assms(5) by blast+
  show "lockInv T st (ph(cur := PAcq l)) (q\<lparr>val := 0\<rparr>) h r l"
  proof (rule lockInvI)
    have c: "cur \<notin> set (blockedList q)" "cur \<notin> set (waitingList q)" using d(3,4) assms(3) by blast+
    show "t \<in> T \<and> st t = TASK_BLOCKED \<and> (ph(cur := PAcq l)) t = PDown l"
      if "t \<in> set (blockedList (q\<lparr>val := 0\<rparr>))" for t using d(3) [of t] that c by auto
    show "t \<in> T \<and> st t = TASK_WAITING \<and> (ph(cur := PAcq l)) t = PWait l"
      if "t \<in> set (waitingList (q\<lparr>val := 0\<rparr>))" for t using d(4) [of t] that c by auto
    show "\<not> hasToken l ((ph(cur := PAcq l)) u)"
      if "t \<in> T" "hasToken l ((ph(cur := PAcq l)) t)" "u \<in> T" "u \<noteq> t" for t u
      using that n(2) by (auto split: if_splits)
    show "val (q\<lparr>val := 0\<rparr>) = 0 \<and> (h \<noteq> 0 \<or> (\<exists>t\<in>T. hasToken l ((ph(cur := PAcq l)) t))) \<or>
       val (q\<lparr>val := 0\<rparr>) = 1 \<and> h = 0 \<and> (\<forall>t\<in>T. \<not> hasToken l ((ph(cur := PAcq l)) t))"
      using assms(2) by (auto intro: bexI [of _ cur])
  qed (use d(1,2) n(1) in simp_all)
qed

lemma lockInv_block:
  assumes "lockInv T st ph q h r l" "cur \<in> T" "\<not> parked (st cur)" "\<not> hasToken l (ph cur)" "val q = 0"
  shows "lockInv T (st(cur := TASK_BLOCKED)) (ph(cur := PDown l))
    (q\<lparr>blockedList := blockedList q @ [cur]\<rparr>) h r l" "cur \<notin> set (blockedList q)"
proof -
  note d = lockInvD [OF assms(1)]
  show c: "cur \<notin> set (blockedList q)" using d(3) assms(3) by blast
  have w: "cur \<notin> set (waitingList q)" using d(4) assms(3) by blast
  show "lockInv T (st(cur := TASK_BLOCKED)) (ph(cur := PDown l))
    (q\<lparr>blockedList := blockedList q @ [cur]\<rparr>) h r l"
  proof (rule lockInvI)
    have tok: "hasToken l ((ph(cur := PDown l)) t) = hasToken l (ph t)" for t
      using assms(4) by simp
    show "hasToken l ((ph(cur := PDown l)) t) \<Longrightarrow> h = 0" if "t \<in> T" for t
      using d(6) that unfolding tok by blast
    show "\<not> hasToken l ((ph(cur := PDown l)) u)"
      if "t \<in> T" "hasToken l ((ph(cur := PDown l)) t)" "u \<in> T" "u \<noteq> t" for t u
      using d(7) that unfolding tok by blast
    show "val (q\<lparr>blockedList := blockedList q @ [cur]\<rparr>) = 0 \<and>
        (h \<noteq> 0 \<or> (\<exists>t\<in>T. hasToken l ((ph(cur := PDown l)) t))) \<or>
       val (q\<lparr>blockedList := blockedList q @ [cur]\<rparr>) = 1 \<and> h = 0 \<and>
        (\<forall>t\<in>T. \<not> hasToken l ((ph(cur := PDown l)) t))"
      using d(8) unfolding tok by simp
  qed (use d(1-5) assms(2,5) c w in \<open>auto split: if_splits\<close>)
qed

lemma lockInv_acquired:
  assumes "lockInv T st ph q h r l" "cur \<in> T" "cur \<noteq> 0" "\<not> parked (st cur)" "ph cur = PAcq l"
  shows "lockInv T st (ph(cur := PRun)) q cur 1 l"
proof -
  note d = lockInvD [OF assms(1)]
  have v: "val q = 0" using d(8) assms(2,5) by auto
  have n: "\<And>t. t \<in> T \<Longrightarrow> t \<noteq> cur \<Longrightarrow> \<not> hasToken l (ph t)" using d(7) [of cur] assms(2,5) by auto
  show ?thesis
    using d(1-4) assms(2-5) v n by (intro lockInvI) (auto split: if_splits)
qed

lemma lockInv_repeat:
  assumes "lockInv T st ph q h r l" "cur \<in> T" "\<not> parked (st cur)" "h = cur" "h \<noteq> 0" "r' \<noteq> 0"
    "ph cur \<noteq> PDown l"
  shows "lockInv T st (ph(cur := PRun)) q h r' l"
proof -
  note d = lockInvD [OF assms(1)]
  have n: "\<And>t. t \<in> T \<Longrightarrow> \<not> hasToken l (ph t)" using d(6) assms(5) by blast
  have v: "val q = 0" using d(8) assms(5) by blast
  show ?thesis
    using d(1-4) assms(2-6) v n by (intro lockInvI) (auto split: if_splits)
qed

lemma lockInv_release:
  assumes "lockInv T st ph q h r l" "cur \<in> T" "\<not> parked (st cur)" "h = cur" "h \<noteq> 0"
  shows "lockInv T st (ph(cur := PUp l)) q 0 0 l"
proof -
  note d = lockInvD [OF assms(1)]
  have n: "\<And>t. t \<in> T \<Longrightarrow> \<not> hasToken l (ph t)" using d(6) assms(5) by blast
  have v: "val q = 0" using d(8) assms(5) by blast
  show ?thesis
    using d(1-4) assms(2,3) v n by (intro lockInvI) (auto split: if_splits)
qed

lemma lockInv_up:
  assumes "lockInv T st ph q h r l" "cur \<in> T" "\<not> parked (st cur)" "ph cur = PUp l"
  shows "val q = 0" "h = 0"
    "blockedList q = [] \<Longrightarrow> lockInv T st (ph(cur := PRun)) (q\<lparr>val := 1\<rparr>) h r l"
    "blockedList q = t # ts \<Longrightarrow>
      lockInv T (st(t := TASK_READY)) (ph(cur := PRun)) (q\<lparr>blockedList := ts, val := 1\<rparr>) h r l"
proof -
  note d = lockInvD [OF assms(1)]
  show v: "val q = 0" using d(8) assms(2,4) by auto
  show h: "h = 0" using d(6) assms(2,4) by auto
  have n: "\<And>u. u \<in> T \<Longrightarrow> u \<noteq> cur \<Longrightarrow> \<not> hasToken l (ph u)" using d(7) [of cur] assms(2,4) by auto
  show "lockInv T st (ph(cur := PRun)) (q\<lparr>val := 1\<rparr>) h r l" if "blockedList q = []"
    using d(1-4) assms(2-4) h n that by (intro lockInvI) (auto split: if_splits)
  show "lockInv T (st(t := TASK_READY)) (ph(cur := PRun)) (q\<lparr>blockedList := ts, val := 1\<rparr>) h r l"
    if b: "blockedList q = t # ts"
  proof -
    have t: "t \<in> T" "ph t = PDown l" "t \<noteq> cur" "st t = TASK_BLOCKED" "t \<notin> set ts" "distinct ts"
      using d(1) d(3) [of t] assms(3) unfolding b by auto
    have w: "t \<notin> set (waitingList q)" using d(4) t(4) by force
    show ?thesis
    proof (rule lockInvI)
      show "\<exists>t' \<in> T. (ph(cur := PRun)) t' = PDown l \<and> \<not> parked ((st(t := TASK_READY)) t')"
        using t by (intro bexI [of _ t]) auto
    qed (use d(2-4) assms(2-4) h n t w b in \<open>auto split: if_splits\<close>)
  qed
qed

lemma lockInv_wait:
  assumes "lockInv T st ph q h r l" "cur \<in> T" "\<not> parked (st cur)" "ph cur = PRun"
  shows "lockInv T (st(cur := TASK_WAITING)) (ph(cur := PWait l))
    (q\<lparr>waitingList := waitingList q @ [cur]\<rparr>) h r l" "cur \<notin> set (waitingList q)"
    "cur \<notin> set (blockedList q)"
proof -
  note d = lockInvD [OF assms(1)]
  show w: "cur \<notin> set (waitingList q)" using d(4) assms(3) by blast
  show b: "cur \<notin> set (blockedList q)" using d(3) assms(3) by blast
  show "lockInv T (st(cur := TASK_WAITING)) (ph(cur := PWait l))
    (q\<lparr>waitingList := waitingList q @ [cur]\<rparr>) h r l"
  proof (rule lockInvI)
    show "\<exists>t \<in> T. (ph(cur := PWait l)) t = PDown l \<and> \<not> parked ((st(cur := TASK_WAITING)) t)"
      if "val (q\<lparr>waitingList := waitingList q @ [cur]\<rparr>) = 1"
        "blockedList (q\<lparr>waitingList := waitingList q @ [cur]\<rparr>) \<noteq> []"
    proof -
      have "val q = 1" "blockedList q \<noteq> []" using that by simp_all
      then obtain t where "t \<in> T" "ph t = PDown l" "\<not> parked (st t)" using d(9) by blast
      then show ?thesis using assms(4) by (intro bexI [of _ t]) auto
    qed
    have tok: "hasToken l ((ph(cur := PWait l)) t) = hasToken l (ph t)" for t
      using assms(4) by simp
    show "hasToken l ((ph(cur := PWait l)) t) \<Longrightarrow> h = 0" if "t \<in> T" for t
      using d(6) that unfolding tok by blast
    show "\<not> hasToken l ((ph(cur := PWait l)) u)"
      if "t \<in> T" "hasToken l ((ph(cur := PWait l)) t)" "u \<in> T" "u \<noteq> t" for t u
      using d(7) that unfolding tok by blast
    show "val (q\<lparr>waitingList := waitingList q @ [cur]\<rparr>) = 0 \<and>
        (h \<noteq> 0 \<or> (\<exists>t\<in>T. hasToken l ((ph(cur := PWait l)) t))) \<or>
       val (q\<lparr>waitingList := waitingList q @ [cur]\<rparr>) = 1 \<and> h = 0 \<and>
        (\<forall>t\<in>T. \<not> hasToken l ((ph(cur := PWait l)) t))"
      using d(8) unfolding tok by simp
  qed (use d(1-5) assms(2) w b in \<open>auto split: if_splits\<close>)
qed

lemma lockInv_notify:
  assumes "lockInv T st ph q h r l" "waitingList q = t # ts"
  shows "lockInv T (st(t := TASK_READY)) ph (q\<lparr>waitingList := ts\<rparr>) h r l"
    "t \<in> T" "st t = TASK_WAITING"
proof -
  note d = lockInvD [OF assms(1)]
  show t: "t \<in> T" "st t = TASK_WAITING" using d(4) assms(2) by auto
  have t': "t \<notin> set ts" "distinct ts" "ph t = PWait l" using d(2) d(4) [of t] assms(2) by auto
  have b: "t \<notin> set (blockedList q)" using d(3) t by force
  show "lockInv T (st(t := TASK_READY)) ph (q\<lparr>waitingList := ts\<rparr>) h r l"
  proof (rule lockInvI)
    show "\<exists>u \<in> T. ph u = PDown l \<and> \<not> parked ((st(t := TASK_READY)) u)"
      if "val (q\<lparr>waitingList := ts\<rparr>) = 1" "blockedList (q\<lparr>waitingList := ts\<rparr>) \<noteq> []"
    proof -
      have "val q = 1" "blockedList q \<noteq> []" using that by simp_all
      then obtain u where u: "u \<in> T" "ph u = PDown l" "\<not> parked (st u)" using d(9) by blast
      have "\<not> parked ((st(t := TASK_READY)) u)" using u(3) by simp
      then show ?thesis using u(1,2) by blast
    qed
    show "val (q\<lparr>waitingList := ts\<rparr>) = 0 \<and> (h \<noteq> 0 \<or> (\<exists>t\<in>T. hasToken l (ph t))) \<or>
       val (q\<lparr>waitingList := ts\<rparr>) = 1 \<and> h = 0 \<and> (\<forall>t\<in>T. \<not> hasToken l (ph t))"
      using d(8) by simp
    show "\<not> hasToken l (ph u)" if "t \<in> T" "hasToken l (ph t)" "u \<in> T" "u \<noteq> t" for t u
      using d(7) that by blast
    show "hasToken l (ph t) \<Longrightarrow> h = 0" if "t \<in> T" for t using d(6) that by blast
  qed (use d(1-5) assms(2) t t' b in \<open>auto split: if_splits\<close>)
qed

section \<open>The invariant of all locks and threads\<close>

text \<open>\<open>syncV\<close>: every lock is sound; every blocked thread but the idle one is on the list it is
  blocked on, so that it can be woken.\<close>

definition syncV ::
  "u32 set \<Rightarrow> u32 \<Rightarrow> (u32 \<Rightarrow> TaskStatus) \<Rightarrow> (u32 \<Rightarrow> phase) \<Rightarrow> (semaid \<Rightarrow> Semaphore) \<Rightarrow>
   (semaid \<Rightarrow> u32) \<Rightarrow> (semaid \<Rightarrow> u32) \<Rightarrow> bool" where
  "syncV T i st ph sm ho rp \<longleftrightarrow>
     (\<forall>l. lockInv T st ph (sm l) (ho l) (rp l) l) \<and>
     (\<forall>t \<in> T. ph t \<noteq> PBad) \<and> ph i = PRun \<and>
     (\<forall>t \<in> T. t \<noteq> i \<and> st t = TASK_BLOCKED \<longrightarrow> (\<exists>l. t \<in> set (blockedList (sm l)))) \<and>
     (\<forall>t \<in> T. t \<noteq> i \<and> st t = TASK_WAITING \<longrightarrow> (\<exists>l. t \<in> set (waitingList (sm l))))"

definition phases :: "'a ksched_scheme \<Rightarrow> u32 \<Rightarrow> phase" where
  "phases s = (\<lambda>t. phaseOf (kstack s t))"

definition syncInv :: "'a ksched_scheme \<Rightarrow> bool" where
  "syncInv s \<longleftrightarrow> syncV (set (threadAllList s)) (idleThread s) (statusOf s) (phases s)
     (semas s) (holder s) (holderRepeatTimes s)"

definition kinv :: "'a ksched_scheme \<Rightarrow> bool" where
  "kinv s \<longleftrightarrow> schedInv s \<and> syncInv s"

lemma syncV_D:
  assumes "syncV T i st ph sm ho rp"
  shows "lockInv T st ph (sm l) (ho l) (rp l) l" "t \<in> T \<Longrightarrow> ph t \<noteq> PBad" "ph i = PRun"
    "t \<in> T \<Longrightarrow> t \<noteq> i \<Longrightarrow> st t = TASK_BLOCKED \<Longrightarrow> \<exists>l. t \<in> set (blockedList (sm l))"
    "t \<in> T \<Longrightarrow> t \<noteq> i \<Longrightarrow> st t = TASK_WAITING \<Longrightarrow> \<exists>l. t \<in> set (waitingList (sm l))"
  using assms unfolding syncV_def by blast+

text \<open>A context switch or a frame that only restores the interrupt flag.\<close>

lemma syncV_cong:
  assumes "syncV T i st ph sm ho rp" "\<And>t. t \<in> T \<Longrightarrow> ph' t = ph t" "ph' i = PRun"
    "\<And>t. t \<noteq> i \<Longrightarrow> (st' t = TASK_BLOCKED) = (st t = TASK_BLOCKED)"
    "\<And>t. t \<noteq> i \<Longrightarrow> (st' t = TASK_WAITING) = (st t = TASK_WAITING)"
  shows "syncV T i st' ph' sm ho rp"
proof -
  note d = syncV_D [OF assms(1)]
  have "lockInv T st' ph' (sm l) (ho l) (rp l) l" for l
  proof (rule lockInv_stable [OF d(1) [of l]])
    fix t assume t: "t \<in> T"
    show "hasToken l (ph' t) = hasToken l (ph t)" using assms(2) t by simp
    show "ph' t = PDown l \<and> st' t = TASK_BLOCKED" if "ph t = PDown l" "st t = TASK_BLOCKED"
      using that t d(3) assms(2,4) by (metis phase.distinct(1))
    show "ph' t = PWait l \<and> st' t = TASK_WAITING" if "ph t = PWait l" "st t = TASK_WAITING"
      using that t d(3) assms(2,5) by (metis phase.distinct(7))
    show "ph' t = PDown l \<and> \<not> parked (st' t)" if "ph t = PDown l" "\<not> parked (st t)"
      using that t d(3) assms(2,4,5) by (metis phase.distinct(1))
  qed
  moreover have "\<exists>l. t \<in> set (blockedList (sm l))" if "t \<in> T" "t \<noteq> i" "st' t = TASK_BLOCKED" for t
    using d(4) [of t] assms(4) [of t] that by blast
  moreover have "\<exists>l. t \<in> set (waitingList (sm l))" if "t \<in> T" "t \<noteq> i" "st' t = TASK_WAITING" for t
    using d(5) [of t] assms(5) [of t] that by blast
  ultimately show ?thesis using d(2) assms(2,3) unfolding syncV_def by metis
qed

text \<open>An operation of the thread \<open>cur\<close> on the lock \<open>l\<close>, which may wake threads parked on it.\<close>

definition onLock :: "semaid \<Rightarrow> phase \<Rightarrow> bool" where
  "onLock l p \<longleftrightarrow> p = PRun \<or> p = PDown l \<or> p = PAcq l \<or> p = PUp l \<or> p = PWait l"

lemma syncV_step:
  assumes inv: "syncV T i st ph sm ho rp" and new: "lockInv T st' ph' q h r l"
    and ph: "\<And>t. t \<in> T \<Longrightarrow> t \<noteq> cur \<Longrightarrow> ph' t = ph t"
    and st: "\<And>t. t \<in> T \<Longrightarrow> t \<noteq> cur \<Longrightarrow> st' t = st t \<or> ph t = PDown l \<or> ph t = PWait l"
    and cur: "\<not> parked (st cur)" "onLock l (ph cur)" "onLock l (ph' cur)" "cur \<noteq> i" "i \<in> T"
    and b: "\<And>t. t \<in> T \<Longrightarrow> t \<noteq> i \<Longrightarrow> st' t = TASK_BLOCKED \<Longrightarrow> t \<in> set (blockedList q) \<or>
      st t = TASK_BLOCKED \<and> (t \<in> set (blockedList (sm l)) \<longrightarrow> t \<in> set (blockedList q))"
    and w: "\<And>t. t \<in> T \<Longrightarrow> t \<noteq> i \<Longrightarrow> st' t = TASK_WAITING \<Longrightarrow> t \<in> set (waitingList q) \<or>
      st t = TASK_WAITING \<and> (t \<in> set (waitingList (sm l)) \<longrightarrow> t \<in> set (waitingList q))"
  shows "syncV T i st' ph' (sm(l := q)) (ho(l := h)) (rp(l := r))"
proof -
  note d = syncV_D [OF inv]
  have "lockInv T st' ph' ((sm(l := q)) m) ((ho(l := h)) m) ((rp(l := r)) m) m" for m
  proof (cases "m = l")
    case False
    have "lockInv T st' ph' (sm m) (ho m) (rp m) m"
    proof (rule lockInv_stable [OF d(1) [of m]])
      fix t assume t: "t \<in> T"
      have c: "t = cur \<Longrightarrow> ph t \<noteq> PDown m \<and> \<not> hasToken m (ph t) \<and> \<not> hasToken m (ph' t)"
        using cur(2,3) False by (auto simp: onLock_def)
      show "hasToken m (ph' t) = hasToken m (ph t)" using c ph [OF t] by (cases "t = cur") auto
      show "ph' t = PDown m \<and> st' t = TASK_BLOCKED" if "ph t = PDown m" "st t = TASK_BLOCKED"
        using that c ph [OF t] st [OF t] False by (cases "t = cur") auto
      show "ph' t = PWait m \<and> st' t = TASK_WAITING" if "ph t = PWait m" "st t = TASK_WAITING"
        using that cur(1) ph [OF t] st [OF t] False by (cases "t = cur") auto
      show "ph' t = PDown m \<and> \<not> parked (st' t)" if "ph t = PDown m" "\<not> parked (st t)"
        using that c ph [OF t] st [OF t] False by (cases "t = cur") auto
    qed
    then show ?thesis using False by simp
  qed (use new in simp)
  moreover have "ph' t \<noteq> PBad" if "t \<in> T" for t
    using ph [OF that] d(2) [OF that] cur(3) by (cases "t = cur") (auto simp: onLock_def)
  moreover have "ph' i = PRun" using ph [OF cur(5)] cur(4) d(3) by simp
  moreover have "\<exists>m. t \<in> set (blockedList ((sm(l := q)) m))" if tb: "t \<in> T" "t \<noteq> i" "st' t = TASK_BLOCKED" for t
  proof -
    consider "t \<in> set (blockedList q)"
      | "st t = TASK_BLOCKED" "t \<in> set (blockedList (sm l)) \<longrightarrow> t \<in> set (blockedList q)"
      using b [OF tb] by blast
    then show ?thesis
    proof cases
      case 2
      then obtain m where "t \<in> set (blockedList (sm m))" using d(4) tb by blast
      then show ?thesis using 2(2) by (intro exI [of _ m]) auto
    qed (auto intro: exI [of _ l])
  qed
  moreover have "\<exists>m. t \<in> set (waitingList ((sm(l := q)) m))" if tb: "t \<in> T" "t \<noteq> i" "st' t = TASK_WAITING" for t
  proof -
    consider "t \<in> set (waitingList q)"
      | "st t = TASK_WAITING" "t \<in> set (waitingList (sm l)) \<longrightarrow> t \<in> set (waitingList q)"
      using w [OF tb] by blast
    then show ?thesis
    proof cases
      case 2
      then obtain m where "t \<in> set (waitingList (sm m))" using d(5) tb by blast
      then show ?thesis using 2(2) by (intro exI [of _ m]) auto
    qed (auto intro: exI [of _ l])
  qed
  ultimately show ?thesis unfolding syncV_def by blast
qed

lemma status_fun_upd [simp]:
  "(\<lambda>a. status (((f :: u32 \<Rightarrow> TaskStruct)(t := x)) a)) = (\<lambda>a. status (f a))(t := status x)"
  by auto

lemma phase_fun_upd [simp]:
  "(\<lambda>a. phaseOf (((f :: u32 \<Rightarrow> kframe list)(t := x)) a)) = (\<lambda>a. phaseOf (f a))(t := phaseOf x)"
  by auto

lemma status_if [simp]:
  "(\<lambda>a. status (if a = t then x else (f :: u32 \<Rightarrow> TaskStruct) a)) = (\<lambda>a. status (f a))(t := status x)"
  by auto

lemma phase_if [simp]:
  "(\<lambda>a. phaseOf (if a = t then x else (f :: u32 \<Rightarrow> kframe list) a)) = (\<lambda>a. phaseOf (f a))(t := phaseOf x)"
  by auto

lemma syncInv_switch:
  assumes "syncInv s" "switchKeeps s s'"
  shows "syncInv s'"
proof -
  have k: "threadAllList s' = threadAllList s" "idleThread s' = idleThread s" "kstack s' = kstack s"
    "semas s' = semas s" "holder s' = holder s" "holderRepeatTimes s' = holderRepeatTimes s"
    using assms(2) by (simp_all add: switchKeeps_def)
  show ?thesis
    unfolding syncInv_def k
  proof (rule syncV_cong [OF assms(1) [unfolded syncInv_def]])
    show "phases s' (idleThread s) = PRun"
      using syncV_D(3) [OF assms(1) [unfolded syncInv_def]] by (simp add: phases_def k)
  qed (use assms(2) in \<open>simp_all add: phases_def k switchKeeps_def\<close>)
qed

lemma schedule_kinv:
  assumes "schedPre s" "getIntrStatus s = INTR_OFF" "syncInv s"
  shows "\<exists>s'. schedule s = Inr s' \<and> kinv s'"
  using schedule_ok [OF assms(1,2)] syncInv_switch [OF assms(3)] by (auto simp: kinv_def)

lemma getIntrStatus_cong: "eflags s = eflags t \<Longrightarrow> getIntrStatus s = getIntrStatus t"
  by (simp add: getIntrStatus_def)

lemma getIntrStatus_keep [simp]:
  "getIntrStatus (pushFrame f s) = getIntrStatus s" "getIntrStatus (popFrame s) = getIntrStatus s"
  "getIntrStatus (updTask t g s) = getIntrStatus s" "getIntrStatus (updSema l k s) = getIntrStatus s"
  "getIntrStatus (setHolder l h n s) = getIntrStatus s"
  by (simp_all add: getIntrStatus_def)

lemma schedInv_cur:
  assumes "schedInv s"
  shows "curThread s \<in> set (threadAllList s)" "statusOf s (curThread s) = TASK_RUNNING"
    "curThread s \<noteq> 0" "curThread s \<notin> set (threadReadyList s)" "idleThread s \<in> set (threadAllList s)"
proof -
  have p: "schedPre s" "statusOf s (curThread s) = TASK_RUNNING" using assms by (simp_all add: schedInv_def)
  show "curThread s \<in> set (threadAllList s)" "statusOf s (curThread s) = TASK_RUNNING"
    "idleThread s \<in> set (threadAllList s)" using schedPre_all [OF p(1)] p(2) by auto
  show "curThread s \<noteq> 0" using schedPre_all(1,3) [OF p(1)] by metis
  show "curThread s \<notin> set (threadReadyList s)" using schedPre_ready [OF p(1)] p(2) by simp
qed

lemma schedPre_block:
  assumes "schedInv s" "st = TASK_BLOCKED \<or> st = TASK_WAITING \<and> curThread s \<noteq> idleThread s"
    "tcb s' = (tcb s)(curThread s := (tcb s (curThread s))\<lparr>status := st\<rparr>)"
    "threadReadyList s' = threadReadyList s"
    "curThread s' = curThread s" "threadAllList s' = threadAllList s" "idleThread s' = idleThread s"
  shows "schedPre s'"
proof -
  have p: "schedPre s" "statusOf s (curThread s) = TASK_RUNNING" using assms(1) by (simp_all add: schedInv_def)
  have n: "st \<noteq> TASK_READY" "st \<noteq> TASK_HANGING" "st \<noteq> TASK_DIED" "st \<noteq> TASK_RUNNING"
    "st = TASK_WAITING \<longrightarrow> curThread s \<noteq> idleThread s" using assms(2) by auto
  show ?thesis
    using p n unfolding schedPre_def assms(3-7) by simp metis
qed

lemma threadBlock_ok:
  fixes s :: "'a ksched_scheme"
  assumes s: "schedInv s" and st: "st = TASK_BLOCKED \<or> st = TASK_WAITING \<and> curThread s \<noteq> idleThread s"
    and inv: "syncV (set (threadAllList s)) (idleThread s) ((statusOf s)(curThread s := st))
      ((phases s)(curThread s := phaseOf (FIntr (getIntrStatus s) # kstack s (curThread s))))
      (semas s) (holder s) (holderRepeatTimes s)"
  shows "\<exists>s'. threadBlock st s = Inr s' \<and> kinv s'"
proof -
  let ?s = "pushFrame (FIntr (getIntrStatus s))
    (updTask (curThread s) (\<lambda>t. t\<lparr>status := st\<rparr>) (disableIntr s))"
  have "threadBlock st s = schedule ?s"
    using st schedInv_cur(4) [OF s] by (auto simp: threadBlock_def Let_def)
  moreover have "schedPre ?s" by (rule schedPre_block [OF s st]) simp_all
  moreover have "syncInv ?s" using inv by (simp add: syncInv_def phases_def)
  ultimately show ?thesis using schedule_kinv [of ?s] by simp
qed

section \<open>The operations keep the invariant\<close>

lemma schedInv_cong:
  assumes "tcb s' = tcb s" "curThread s' = curThread s" "threadReadyList s' = threadReadyList s"
    "threadAllList s' = threadAllList s" "idleThread s' = idleThread s"
  shows "schedInv s' = schedInv s"
  using assms by (simp add: schedInv_def schedPre_def)

lemma kinv_D:
  assumes "kinv s"
  shows "schedInv s" "syncV (set (threadAllList s)) (idleThread s) (statusOf s) (phases s)
     (semas s) (holder s) (holderRepeatTimes s)"
    "\<not> parked (statusOf s (curThread s))"
  using assms schedInv_cur(2) [of s] by (auto simp: kinv_def syncInv_def)

lemma cur_not_idle: "kinv s \<Longrightarrow> phases s (curThread s) \<noteq> PRun \<Longrightarrow> curThread s \<noteq> idleThread s"
  using syncV_D(3) [OF kinv_D(2)] by metis

text \<open>The current thread works on the lock \<open>l\<close> and goes on running.\<close>

lemma kinv_step:
  assumes inv: "kinv s" and s': "schedInv s'" "threadAllList s' = threadAllList s"
      "idleThread s' = idleThread s"
    and new: "lockInv (set (threadAllList s)) (statusOf s') (phases s') q h r l"
    and ph: "phases s' = (phases s)(curThread s := p)"
    and st: "\<And>t. t \<noteq> curThread s \<Longrightarrow> t \<in> set (threadAllList s) \<Longrightarrow>
      statusOf s' t = statusOf s t \<or> phases s t = PDown l \<or> phases s t = PWait l"
    and on: "onLock l (phases s (curThread s))" "onLock l p" "curThread s \<noteq> idleThread s"
    and b: "\<And>t. statusOf s' t = TASK_BLOCKED \<Longrightarrow> statusOf s t = TASK_BLOCKED \<and>
      (t \<in> set (blockedList (semas s l)) \<longrightarrow> t \<in> set (blockedList q))"
    and w: "\<And>t. statusOf s' t = TASK_WAITING \<Longrightarrow> statusOf s t = TASK_WAITING \<and>
      (t \<in> set (waitingList (semas s l)) \<longrightarrow> t \<in> set (waitingList q))"
    and upd: "semas s' = (semas s)(l := q)" "holder s' = (holder s)(l := h)"
      "holderRepeatTimes s' = (holderRepeatTimes s)(l := r)"
  shows "kinv s'"
proof -
  have "syncV (set (threadAllList s)) (idleThread s) (statusOf s') (phases s')
    ((semas s)(l := q)) ((holder s)(l := h)) ((holderRepeatTimes s)(l := r))"
  proof (rule syncV_step [OF kinv_D(2) [OF inv] new, of "curThread s"])
    show "phases s' t = phases s t" if "t \<noteq> curThread s" for t using that ph by simp
    show "onLock l (phases s' (curThread s))" using on(2) ph by simp
    show "idleThread s \<in> set (threadAllList s)" using schedInv_cur(5) [OF kinv_D(1) [OF inv]] .
  qed (use st on b w kinv_D(3) [OF inv] in blast)+
  then show ?thesis using s' by (simp add: kinv_def syncInv_def upd)
qed

lemma lockInv_of: "kinv s \<Longrightarrow> lockInv (set (threadAllList s)) (statusOf s) (phases s) (semas s l)
    (holder s l) (holderRepeatTimes s l) l"
  using syncV_D(1) [OF kinv_D(2)] .

text \<open>Only the frames of the current thread change: it enters \<open>semaDown\<close> or is back from
  \<open>lockWait\<close>.\<close>

lemma kinv_reframe:
  assumes inv: "kinv s" and "curThread s \<noteq> idleThread s"
    and p: "phases s (curThread s) = PRun \<and> p = PDown l \<or> phases s (curThread s) = PWait l \<and> p = PRun"
    and s': "tcb s' = tcb s" "curThread s' = curThread s" "threadReadyList s' = threadReadyList s"
    "threadAllList s' = threadAllList s" "idleThread s' = idleThread s" "semas s' = semas s"
    "holder s' = holder s" "holderRepeatTimes s' = holderRepeatTimes s"
    "phases s' = (phases s)(curThread s := p)"
  shows "kinv s'"
proof (rule kinv_step [OF inv])
  show "schedInv s'" using kinv_D(1) [OF inv] schedInv_cong [of s' s] s' by simp
  show "lockInv (set (threadAllList s)) (statusOf s') (phases s') (semas s l) (holder s l)
     (holderRepeatTimes s l) l"
    using p kinv_D(3) [OF inv] by (intro lockInv_stable [OF lockInv_of [OF inv]]) (auto simp: s')
qed (use assms in \<open>auto simp: onLock_def\<close>)

lemma phases_frame:
  "phases (s\<lparr>kstack := k\<rparr>) = (\<lambda>t. phaseOf (k t))"
  by (simp add: phases_def)

lemma phases_simps [simp]:
  "phases (setIntrStatus st s) = phases s" "phases (disableIntr s) = phases s"
  "phases (updSema l k s) = phases s" "phases (setHolder l h n s) = phases s"
  "phases (updTask t g s) = phases s"
  "phases (pushFrame f s) = (phases s)(curThread s := phaseOf (f # kstack s (curThread s)))"
  "phases (popFrame s) = (phases s)(curThread s := phaseOf (tl (kstack s (curThread s))))"
  by (simp_all add: phases_def)

lemma semaLoop_ok:
  assumes inv: "kinv s" and k: "kstack s (curThread s) = [FSema l i, FAcquire l]"
  shows "\<exists>s'. semaLoop l i s = Inr s' \<and> kinv s'"
proof -
  let ?c = "curThread s"
  have ph: "phases s ?c = PDown l" by (simp add: phases_def k)
  have ni: "?c \<noteq> idleThread s" using cur_not_idle [OF inv] ph by simp
  note c = schedInv_cur [OF kinv_D(1) [OF inv]]
  note li = lockInv_of [OF inv, of l]
  show ?thesis
  proof (cases "val (semas s l) = 0")
    case True
    note b = lockInv_block [OF li c(1) kinv_D(3) [OF inv] _ True]
    let ?s = "updSema l (\<lambda>q. q\<lparr>blockedList := blockedList q @ [?c]\<rparr>) s"
    have "\<exists>s'. threadBlock TASK_BLOCKED ?s = Inr s' \<and> kinv s'"
    proof (rule threadBlock_ok)
      show "schedInv ?s" using kinv_D(1) [OF inv] schedInv_cong [of ?s s] by simp
      let ?q = "(semas s l)\<lparr>blockedList := blockedList (semas s l) @ [?c]\<rparr>"
      have "syncV (set (threadAllList s)) (idleThread s) ((statusOf s)(?c := TASK_BLOCKED))
        ((phases s)(?c := PDown l)) ((semas s)(l := ?q)) ((holder s)(l := holder s l))
        ((holderRepeatTimes s)(l := holderRepeatTimes s l))"
        by (rule syncV_step [OF kinv_D(2) [OF inv] b(1), where cur = ?c])
          (use ph ni c kinv_D(3) [OF inv] in \<open>auto simp: onLock_def split: if_splits\<close>)
      then show "syncV (set (threadAllList ?s)) (idleThread ?s) ((statusOf ?s)(curThread ?s := TASK_BLOCKED))
        ((phases ?s)(curThread ?s := phaseOf (FIntr (getIntrStatus ?s) # kstack ?s (curThread ?s))))
        (semas ?s) (holder ?s) (holderRepeatTimes ?s)"
        by (simp add: k)
    qed simp
    then show ?thesis using True b(2) ph by (simp add: semaLoop_def Let_def)
  next
    case False
    note t = lockInv_take [OF li c(1) kinv_D(3) [OF inv] _ False]
    have v: "val (semas s l) = 1" using t(2) ph by simp
    let ?s = "setIntrStatus i (popFrame (updSema l (\<lambda>q. q\<lparr>val := val q - 1\<rparr>) s))"
    have "semaLoop l i s = Inr ?s" using v by (simp add: semaLoop_def Let_def)
    moreover have "kinv ?s"
    proof (rule kinv_step [OF inv])
      show "schedInv ?s" using kinv_D(1) [OF inv] schedInv_cong [of ?s s] by simp
      show "lockInv (set (threadAllList s)) (statusOf ?s) (phases ?s) ((semas s l)\<lparr>val := 0\<rparr>)
        (holder s l) (holderRepeatTimes s l) l"
        using t(1) ph by (simp add: k)
      show "phases ?s = (phases s)(?c := PAcq l)" by (simp add: k)
    qed (use ph ni v in \<open>auto simp: onLock_def\<close>)
    ultimately show ?thesis by blast
  qed
qed

lemma semaDown_ok:
  assumes inv: "kinv s" and k: "kstack s (curThread s) = []" and ni: "curThread s \<noteq> idleThread s"
  shows "\<exists>s'. semaDown l (pushFrame (FAcquire l) s) = Inr s' \<and> kinv s'"
proof -
  let ?s = "pushFrame (FSema l (getIntrStatus s)) (disableIntr (pushFrame (FAcquire l) s))"
  have "kinv ?s"
    by (rule kinv_reframe [OF inv ni, of "PDown l" l]) (simp_all add: k phases_def)
  then have "\<exists>s'. semaLoop l (getIntrStatus s) ?s = Inr s' \<and> kinv s'"
    by (rule semaLoop_ok) (simp add: k)
  then show ?thesis by (simp add: semaDown_def Let_def)
qed

lemma lockLock_ok:
  assumes inv: "kinv s" and k: "kstack s (curThread s) = []" and ni: "curThread s \<noteq> idleThread s"
    and n: "holder s l = curThread s \<Longrightarrow> holderRepeatTimes s l \<noteq> - 1"
  shows "\<exists>s'. lockLock l s = Inr s' \<and> kinv s'"
proof (cases "holder s l = curThread s")
  case False
  then show ?thesis using semaDown_ok [OF inv k ni] by (simp add: lockLock_def)
next
  case True
  note c = schedInv_cur [OF kinv_D(1) [OF inv]]
  have ph: "phases s (curThread s) = PRun" by (simp add: phases_def k)
  let ?s = "setHolder l (holder s l) (holderRepeatTimes s l + 1) s"
  have "kinv ?s"
  proof (rule kinv_step [OF inv])
    show "schedInv ?s" using kinv_D(1) [OF inv] schedInv_cong [of ?s s] by simp
    have "holderRepeatTimes s l + 1 \<noteq> 0"
      using n [OF True] by (metis add_eq_0_iff2 minus_minus)
    then show "lockInv (set (threadAllList s)) (statusOf ?s) (phases ?s) (semas s l)
      (holder s l) (holderRepeatTimes s l + 1) l"
      using lockInv_repeat [OF lockInv_of [OF inv, of l] c(1) kinv_D(3) [OF inv] True, of "holderRepeatTimes s l + 1"]
        c(3) True ph fun_upd_idem [of "phases s", OF ph] by simp
    show "phases ?s = (phases s)(curThread s := PRun)" using ph by auto
  qed (use ph ni in \<open>auto simp: onLock_def\<close>)
  then show ?thesis using True by (simp add: lockLock_def)
qed

text \<open>The wake-up inside \<open>semaUp\<close> and the state it leaves.\<close>

lemma semaWake_ok:
  assumes "schedInv s" and b: "\<And>t. t \<in> set ts \<Longrightarrow> statusOf s t = TASK_BLOCKED"
  shows "case ts of [] \<Rightarrow> semaWake ts s = Inr ([], s)
    | t # us \<Rightarrow> \<exists>s'. semaWake ts s = Inr (us, s') \<and>
        tcb s' = (tcb s)(t := (tcb s t)\<lparr>status := TASK_READY\<rparr>) \<and>
        threadReadyList s' = t # threadReadyList s \<and> eflags s' = eflags s \<and>
        curThread s' = curThread s \<and> threadAllList s' = threadAllList s \<and>
        idleThread s' = idleThread s \<and> kstack s' = kstack s \<and> semas s' = semas s \<and>
        holder s' = holder s \<and> holderRepeatTimes s' = holderRepeatTimes s"
proof (cases ts)
  case (Cons t us)
  have t: "statusOf s t = TASK_BLOCKED" using b Cons by simp
  then have "t \<notin> set (threadReadyList s)"
    using assms(1) schedPre_ready [of s t] by (simp add: schedInv_def)
  from threadUnblock_ok [OF this] t obtain s' where "threadUnblock t s = Inr s' \<and>
        tcb s' = (tcb s)(t := (tcb s t)\<lparr>status := TASK_READY\<rparr>) \<and>
        threadReadyList s' = t # threadReadyList s \<and> eflags s' = eflags s \<and>
        curThread s' = curThread s \<and> threadAllList s' = threadAllList s \<and>
        idleThread s' = idleThread s \<and> kstack s' = kstack s \<and> semas s' = semas s \<and>
        holder s' = holder s \<and> holderRepeatTimes s' = holderRepeatTimes s" by blast
  then show ?thesis using t Cons by simp
qed simp

lemma schedInv_wake:
  assumes "schedInv s" "t \<in> set (threadAllList s)" "parked (statusOf s t)"
    "tcb s' = (tcb s)(t := (tcb s t)\<lparr>status := TASK_READY\<rparr>)"
    "threadReadyList s' = t # threadReadyList s"
    "curThread s' = curThread s" "threadAllList s' = threadAllList s" "idleThread s' = idleThread s"
  shows "schedInv s'"
proof -
  have "t \<noteq> curThread s" using assms(3) schedInv_cur(2) [OF assms(1)] by auto
  then show ?thesis
    using schedPre_unblock [of s t s'] assms by (auto simp: schedInv_def)
qed

definition wakeFirst :: "u32 list \<Rightarrow> (u32 \<Rightarrow> 'b) \<Rightarrow> ('b \<Rightarrow> 'b) \<Rightarrow> u32 \<Rightarrow> 'b" where
  "wakeFirst ts f g = (case ts of [] \<Rightarrow> f | t # _ \<Rightarrow> f(t := g (f t)))"

lemma semaUp_fields:
  fixes s :: "'a ksched_scheme"
  assumes s: "schedInv s" and v: "val (semas s l) = 0"
    and b: "\<And>t. t \<in> set (blockedList (semas s l)) \<Longrightarrow> statusOf s t = TASK_BLOCKED"
  shows "\<exists>s'. semaUp l s = Inr s' \<and>
    tcb s' = wakeFirst (blockedList (semas s l)) (tcb s) (\<lambda>t. t\<lparr>status := TASK_READY\<rparr>) \<and>
    threadReadyList s' = take 1 (blockedList (semas s l)) @ threadReadyList s \<and>
    semas s' = (semas s)(l := (semas s l)\<lparr>blockedList := tl (blockedList (semas s l)), val := 1\<rparr>) \<and>
    eflags s' = eflags s \<and> curThread s' = curThread s \<and> threadAllList s' = threadAllList s \<and>
    idleThread s' = idleThread s \<and> kstack s' = kstack s \<and>
    holder s' = holder s \<and> holderRepeatTimes s' = holderRepeatTimes s"
proof -
  let ?p = "disableIntr s" and ?bs = "blockedList (semas s l)"
  have sp: "schedInv ?p" using s schedInv_cong [of ?p s] by simp
  have "\<exists>a. semaWake ?bs ?p = Inr (tl ?bs, a) \<and>
    tcb a = wakeFirst ?bs (tcb s) (\<lambda>t. t\<lparr>status := TASK_READY\<rparr>) \<and>
    threadReadyList a = take 1 ?bs @ threadReadyList s \<and> semas a = semas s \<and>
    eflags a = eflags ?p \<and> curThread a = curThread s \<and> threadAllList a = threadAllList s \<and>
    idleThread a = idleThread s \<and> kstack a = kstack s \<and>
    holder a = holder s \<and> holderRepeatTimes a = holderRepeatTimes s"
  proof (cases ?bs)
    case Nil
    then show ?thesis by (simp add: wakeFirst_def)
  next
    case (Cons t ts)
    then show ?thesis using semaWake_ok [OF sp, of "t # ts"] b by (auto simp: wakeFirst_def)
  qed
  then obtain a where a: "semaWake ?bs ?p = Inr (tl ?bs, a)"
    "tcb a = wakeFirst ?bs (tcb s) (\<lambda>t. t\<lparr>status := TASK_READY\<rparr>)"
    "threadReadyList a = take 1 ?bs @ threadReadyList s" "semas a = semas s"
    "eflags a = eflags ?p" "curThread a = curThread s" "threadAllList a = threadAllList s"
    "idleThread a = idleThread s" "kstack a = kstack s"
    "holder a = holder s" "holderRepeatTimes a = holderRepeatTimes s" by blast
  let ?u = "updSema l (\<lambda>q. q\<lparr>blockedList := tl ?bs, val := val q + 1\<rparr>) a"
  have "semaUp l s = Inr (setIntrStatus (getIntrStatus s) ?u)"
    using v a(1) by (simp add: semaUp_def Let_def a(4))
  moreover have "eflags (setIntrStatus (getIntrStatus s) ?u) = eflags s"
    by (rule restore_intr_eflags) (simp add: a(5))
  ultimately show ?thesis using v by (intro exI [of _ "setIntrStatus (getIntrStatus s) ?u"]) (simp add: a)
qed

lemma wakeFirst_status:
  "(\<lambda>u. status (wakeFirst ts f (\<lambda>t. t\<lparr>status := TASK_READY\<rparr>) u)) =
   wakeFirst ts (\<lambda>u. status (f u)) (\<lambda>_. TASK_READY)"
  by (auto simp: wakeFirst_def split: list.splits)

lemma schedInv_wakeFirst:
  assumes "schedInv s" "ts \<noteq> [] \<Longrightarrow> hd ts \<in> set (threadAllList s) \<and> parked (statusOf s (hd ts))"
    "tcb s' = wakeFirst ts (tcb s) (\<lambda>t. t\<lparr>status := TASK_READY\<rparr>)"
    "threadReadyList s' = take 1 ts @ threadReadyList s"
    "curThread s' = curThread s" "threadAllList s' = threadAllList s" "idleThread s' = idleThread s"
  shows "schedInv s'"
proof (cases ts)
  case Nil
  then show ?thesis using assms schedInv_cong [of s' s] by (simp add: wakeFirst_def)
next
  case (Cons t us)
  show ?thesis
    using assms(1) by (rule schedInv_wake) (use assms Cons in \<open>auto simp: wakeFirst_def\<close>)
qed

text \<open>The invariant of the lock across \<open>semaUp\<close>.\<close>

lemma lockInv_semaUp:
  assumes "lockInv T st ph q h r l" "cur \<in> T" "\<not> parked (st cur)" "ph cur = PUp l"
  shows "lockInv T (wakeFirst (blockedList q) st (\<lambda>_. TASK_READY)) (ph(cur := PRun))
    (q\<lparr>blockedList := tl (blockedList q), val := 1\<rparr>) h r l"
proof (cases "blockedList q")
  case Nil
  then have e: "q\<lparr>blockedList := tl (blockedList q), val := 1\<rparr> = q\<lparr>val := 1\<rparr>" by (cases q) simp
  show ?thesis unfolding e using lockInv_up(3) [OF assms Nil] Nil by (simp add: wakeFirst_def)
next
  case (Cons t ts)
  then show ?thesis using lockInv_up(4) [OF assms Cons] by (simp add: wakeFirst_def)
qed

lemma wakeFirst_other: "t \<notin> set ts \<Longrightarrow> wakeFirst ts f g t = f t"
  by (auto simp: wakeFirst_def split: list.splits)

lemma wakeFirst_READY:
  assumes "distinct ts" "wakeFirst ts st (\<lambda>_. TASK_READY) t \<noteq> TASK_READY"
  shows "st t = wakeFirst ts st (\<lambda>_. TASK_READY) t" "t \<in> set ts \<longrightarrow> t \<in> set (tl ts)"
  using assms by (auto simp: wakeFirst_def split: list.splits if_splits)

lemma semaUp_ok:
  assumes inv: "kinv s" and k: "kstack s (curThread s) = [FSemaUp l]"
  shows "\<exists>s'. semaUp l (popFrame s) = Inr s' \<and> kinv s'"
proof -
  let ?c = "curThread s" and ?q = "semas s l" and ?p = "popFrame s"
  have ph: "phases s ?c = PUp l" by (simp add: phases_def k)
  have ni: "?c \<noteq> idleThread s" using cur_not_idle [OF inv] ph by simp
  note c = schedInv_cur [OF kinv_D(1) [OF inv]]
  note li = lockInv_of [OF inv, of l]
  have v: "val ?q = 0" using lockInv_up(1) [OF li c(1) kinv_D(3) [OF inv] ph] .
  have sp: "schedInv ?p" using kinv_D(1) [OF inv] schedInv_cong [of ?p s] by simp
  note bl = lockInvD(3) [OF li]
  obtain s' where s': "semaUp l ?p = Inr s'"
    "tcb s' = wakeFirst (blockedList ?q) (tcb s) (\<lambda>t. t\<lparr>status := TASK_READY\<rparr>)"
    "threadReadyList s' = take 1 (blockedList ?q) @ threadReadyList s"
    "semas s' = (semas s)(l := ?q\<lparr>blockedList := tl (blockedList ?q), val := 1\<rparr>)"
    "curThread s' = ?c" "threadAllList s' = threadAllList s"
    "idleThread s' = idleThread s" "kstack s' = kstack ?p"
    "holder s' = holder s" "holderRepeatTimes s' = holderRepeatTimes s"
    using semaUp_fields [OF sp, of l] v bl by auto
  have st: "statusOf s' = wakeFirst (blockedList ?q) (statusOf s) (\<lambda>_. TASK_READY)"
    unfolding s'(2) by (rule wakeFirst_status)
  have phs: "phases s' = (phases s)(?c := PRun)" by (simp add: phases_def s'(8) k)
  note wr = wakeFirst_READY [OF lockInvD(1) [OF li], of "statusOf s"]
  have "kinv s'"
  proof (rule kinv_step [OF inv])
    show "schedInv s'"
      by (rule schedInv_wakeFirst [OF kinv_D(1) [OF inv] _ s'(2,3)]) (use bl s' hd_in_set in auto)
    show "lockInv (set (threadAllList s)) (statusOf s') (phases s')
      (?q\<lparr>blockedList := tl (blockedList ?q), val := 1\<rparr>) (holder s l) (holderRepeatTimes s l) l"
      using lockInv_semaUp [OF li c(1) kinv_D(3) [OF inv] ph] by (simp add: st phs)
    show "statusOf s' t = statusOf s t \<or> phases s t = PDown l \<or> phases s t = PWait l" for t
      using bl [of t] wakeFirst_other [of t "blockedList ?q" "statusOf s" "\<lambda>_. TASK_READY"]
        fun_cong [OF st, of t] by metis
    show "statusOf s t = TASK_BLOCKED \<and> (t \<in> set (blockedList ?q) \<longrightarrow>
        t \<in> set (blockedList (?q\<lparr>blockedList := tl (blockedList ?q), val := 1\<rparr>)))"
      if "statusOf s' t = TASK_BLOCKED" for t
      using wr [of t] that fun_cong [OF st, of t] by simp
    show "statusOf s t = TASK_WAITING \<and> (t \<in> set (waitingList ?q) \<longrightarrow>
        t \<in> set (waitingList (?q\<lparr>blockedList := tl (blockedList ?q), val := 1\<rparr>)))"
      if "statusOf s' t = TASK_WAITING" for t
      using wr [of t] that fun_cong [OF st, of t] by simp
  qed (use ph phs ni s' in \<open>auto simp: onLock_def\<close>)
  then show ?thesis using s'(1) by blast
qed

lemma lockUnlockStart_ok:
  assumes inv: "kinv s" and k: "kstack s (curThread s) = []" and ni: "curThread s \<noteq> idleThread s"
    and h: "holder s l = curThread s"
  shows "\<exists>s'. lockUnlockStart l s = Inr s' \<and> kinv s'"
proof -
  let ?c = "curThread s"
  note c = schedInv_cur [OF kinv_D(1) [OF inv]]
  note li = lockInv_of [OF inv, of l]
  have ph: "phases s ?c = PRun" by (simp add: phases_def k)
  have r: "holderRepeatTimes s l \<noteq> 0" using lockInvD(5) [OF li] h c(3) by simp
  show ?thesis
  proof (cases "holderRepeatTimes s l > 1")
    case True
    let ?s = "setHolder l ?c (holderRepeatTimes s l - 1) s"
    have "kinv ?s"
    proof (rule kinv_step [OF inv])
      show "schedInv ?s" using kinv_D(1) [OF inv] schedInv_cong [of ?s s] by simp
      have "holderRepeatTimes s l - 1 \<noteq> 0" using True by auto
      then show "lockInv (set (threadAllList s)) (statusOf ?s) (phases ?s) (semas s l) ?c
        (holderRepeatTimes s l - 1) l"
        using lockInv_repeat [OF li c(1) kinv_D(3) [OF inv] h, of "holderRepeatTimes s l - 1"] c(3) ph h
          fun_upd_idem [of "phases s", OF ph] by simp
      show "phases ?s = (phases s)(?c := PRun)" using ph by auto
    qed (use ph ni in \<open>auto simp: onLock_def\<close>)
    then show ?thesis using True h by (simp add: lockUnlockStart_def lockRelease_def)
  next
    case False
    then have r1: "holderRepeatTimes s l = 1" using r
      by (metis le_zero_eq less_one linorder_neqE_nat not_less unat_0_iff unat_1 word_less_nat_alt word_unat_eq_iff)
    let ?s = "pushFrame (FSemaUp l) (setHolder l 0 0 s)"
    have "kinv ?s"
    proof (rule kinv_step [OF inv])
      show "schedInv ?s" using kinv_D(1) [OF inv] schedInv_cong [of ?s s] by simp
      show "lockInv (set (threadAllList s)) (statusOf ?s) (phases ?s) (semas s l) 0 0 l"
        using lockInv_release [OF li c(1) kinv_D(3) [OF inv] h] c(3) h by (simp add: k)
      show "phases ?s = (phases s)(?c := PUp l)" by (simp add: k)
    qed (use ph ni in \<open>auto simp: onLock_def\<close>)
    then show ?thesis using r1 h by (simp add: lockUnlockStart_def lockRelease_def)
  qed
qed

lemma repeat_1:
  assumes "(r :: u32) \<noteq> 0" "\<not> r > 1"
  shows "r = 1"
  using assms by (metis le_zero_eq less_one linorder_neqE_nat not_less unat_0_iff unat_1
      word_less_nat_alt word_unat_eq_iff)

text \<open>The last part of \<open>lockWait\<close>: the thread is on the waiting list and goes to sleep.\<close>

lemma wait_block:
  assumes inv: "kinv s" and k: "kstack s (curThread s) = []" and ni: "curThread s \<noteq> idleThread s"
    and li: "lockInv (set (threadAllList s)) st ((phases s)(curThread s := PRun)) q h r l"
    and a: "schedInv a" "statusOf a = st" "phases a = phases s"
      "semas a = (semas s)(l := q\<lparr>waitingList := waitingList q @ [curThread s]\<rparr>)"
      "holder a = (holder s)(l := h)" "holderRepeatTimes a = (holderRepeatTimes s)(l := r)"
      "curThread a = curThread s" "threadAllList a = threadAllList s" "idleThread a = idleThread s"
      "kstack a = kstack s"
    and st: "\<And>t. t \<noteq> curThread s \<Longrightarrow> st t = statusOf s t \<or> phases s t = PDown l"
      "\<not> parked (st (curThread s))"
    and b: "\<And>t. st t = TASK_BLOCKED \<Longrightarrow> statusOf s t = TASK_BLOCKED \<and>
      (t \<in> set (blockedList (semas s l)) \<longrightarrow> t \<in> set (blockedList q))"
    and w: "\<And>t. st t = TASK_WAITING \<Longrightarrow> statusOf s t = TASK_WAITING"
      "waitingList q = waitingList (semas s l)"
  shows "\<exists>s'. threadBlock TASK_WAITING (pushFrame (FRelock l i) a) = Inr s' \<and> kinv s'"
proof -
  let ?c = "curThread s" and ?T = "set (threadAllList s)"
  let ?a = "pushFrame (FRelock l i) a" and ?q = "q\<lparr>waitingList := waitingList q @ [curThread s]\<rparr>"
  note c = schedInv_cur [OF kinv_D(1) [OF inv]]
  have ph: "phases s ?c = PRun" by (simp add: phases_def k)
  have "lockInv ?T (st(?c := TASK_WAITING)) (((phases s)(?c := PRun))(?c := PWait l)) ?q h r l"
    by (rule lockInv_wait(1) [OF li c(1) st(2)]) simp
  then have new: "lockInv ?T (st(?c := TASK_WAITING)) ((phases s)(?c := PWait l)) ?q h r l" by simp
  have v: "syncV ?T (idleThread s) (st(?c := TASK_WAITING)) ((phases s)(?c := PWait l))
    ((semas s)(l := ?q)) ((holder s)(l := h)) ((holderRepeatTimes s)(l := r))"
  proof (rule syncV_step [OF kinv_D(2) [OF inv] new, where cur = ?c])
    show "t \<in> set (blockedList ?q) \<or> statusOf s t = TASK_BLOCKED \<and>
        (t \<in> set (blockedList (semas s l)) \<longrightarrow> t \<in> set (blockedList ?q))"
      if "(st(?c := TASK_WAITING)) t = TASK_BLOCKED" for t
      using b [of t] that by (auto split: if_splits)
    show "t \<in> set (waitingList ?q) \<or> statusOf s t = TASK_WAITING \<and>
        (t \<in> set (waitingList (semas s l)) \<longrightarrow> t \<in> set (waitingList ?q))"
      if "(st(?c := TASK_WAITING)) t = TASK_WAITING" for t
      using w(1) [of t] w(2) that by (auto split: if_splits)
    show "(st(?c := TASK_WAITING)) t = statusOf s t \<or> phases s t = PDown l \<or> phases s t = PWait l"
      if "t \<noteq> ?c" for t using st(1) [of t] that by (simp; blast)
  qed (use ph ni c kinv_D(3) [OF inv] in \<open>auto simp: onLock_def\<close>)
  show ?thesis
  proof (rule threadBlock_ok)
    show "schedInv ?a" using a(1) schedInv_cong [of ?a a] by simp
    show "TASK_WAITING = TASK_BLOCKED \<or> TASK_WAITING = TASK_WAITING \<and> curThread ?a \<noteq> idleThread ?a"
      using ni a(7,9) by simp
    have e: "phases ?a = (phases s)(?c := PWait l)" using a by (simp add: k)
    show "syncV (set (threadAllList ?a)) (idleThread ?a) ((statusOf ?a)(curThread ?a := TASK_WAITING))
      ((phases ?a)(curThread ?a := phaseOf (FIntr (getIntrStatus ?a) # kstack ?a (curThread ?a))))
      (semas ?a) (holder ?a) (holderRepeatTimes ?a)"
      unfolding e using v by (simp add: a k)
  qed
qed

lemma lockWait_ok:
  assumes inv: "kinv s" and k: "kstack s (curThread s) = []" and ni: "curThread s \<noteq> idleThread s"
    and h: "holder s l = curThread s"
  shows "\<exists>s'. lockWait l s = Inr s' \<and> kinv s'"
proof -
  let ?c = "curThread s" and ?q = "semas s l" and ?i = "getIntrStatus s"
  note c = schedInv_cur [OF kinv_D(1) [OF inv]]
  note li = lockInv_of [OF inv, of l]
  note np = kinv_D(3) [OF inv]
  have ph: "phases s ?c = PRun" by (simp add: phases_def k)
  note wt = lockInv_wait(2,3) [OF li c(1) np ph]
  have r: "holderRepeatTimes s l \<noteq> 0" using lockInvD(5) [OF li] h c(3) by simp
  define s1 where "s1 = updSema l (\<lambda>q. q\<lparr>waitingList := waitingList q @ [?c]\<rparr>) (disableIntr s)"
  have s1: "lockWait l s = rbind (lockUnlock l s1) (\<lambda>s. threadBlock TASK_WAITING (pushFrame (FRelock l ?i) s))"
    using h wt by (simp add: lockWait_def Let_def s1_def)
  show ?thesis
  proof (cases "holderRepeatTimes s l > 1")
    case True
    let ?a = "setHolder l ?c (holderRepeatTimes s l - 1) s1"
    have u: "lockUnlock l s1 = Inr ?a" using True h by (simp add: lockUnlock_def lockRelease_def s1_def)
    have "\<exists>s'. threadBlock TASK_WAITING (pushFrame (FRelock l ?i) ?a) = Inr s' \<and> kinv s'"
    proof (rule wait_block [OF inv k ni])
      have "holderRepeatTimes s l - 1 \<noteq> 0" using True by auto
      then show "lockInv (set (threadAllList s)) (statusOf s) ((phases s)(?c := PRun)) ?q (holder s l)
        (holderRepeatTimes s l - 1) l"
        using lockInv_repeat [OF li c(1) np h] c(3) ph h by simp
      show "schedInv ?a" using kinv_D(1) [OF inv] schedInv_cong [of ?a s] by (simp add: s1_def)
      show "holder ?a = (holder s)(l := holder s l)" using h by (simp add: s1_def)
    qed (use np in \<open>auto simp: s1_def\<close>)
    then show ?thesis unfolding s1 u by simp
  next
    case False
    then have r1: "holderRepeatTimes s l = 1" using repeat_1 r by blast
    let ?b = "setHolder l 0 0 s1"
    have sb: "schedInv ?b" using kinv_D(1) [OF inv] schedInv_cong [of ?b s] by (simp add: s1_def)
    have rel: "lockInv (set (threadAllList s)) (statusOf s) ((phases s)(?c := PUp l)) ?q 0 0 l"
      using lockInv_release [OF li c(1) np h] c(3) h by simp
    have v: "val ?q = 0" using lockInv_up(1) [OF rel c(1) np] by simp
    note bl = lockInvD(3) [OF li]
    have semb: "semas ?b l = ?q\<lparr>waitingList := waitingList ?q @ [?c]\<rparr>" by (simp add: s1_def)
    obtain a where a: "semaUp l ?b = Inr a"
      "tcb a = wakeFirst (blockedList ?q) (tcb s) (\<lambda>t. t\<lparr>status := TASK_READY\<rparr>)"
      "threadReadyList a = take 1 (blockedList ?q) @ threadReadyList s"
      "semas a = (semas s)(l := ?q\<lparr>waitingList := waitingList ?q @ [?c],
          blockedList := tl (blockedList ?q), val := 1\<rparr>)"
      "curThread a = ?c" "threadAllList a = threadAllList s"
      "idleThread a = idleThread s" "kstack a = kstack s"
      "holder a = (holder s)(l := 0)" "holderRepeatTimes a = (holderRepeatTimes s)(l := 0)"
      using semaUp_fields [OF sb, of l] v bl semb by (auto simp: s1_def)
    have u: "lockUnlock l s1 = Inr a" using False r1 h a(1) by (simp add: lockUnlock_def lockRelease_def s1_def)
    have st: "statusOf a = wakeFirst (blockedList ?q) (statusOf s) (\<lambda>_. TASK_READY)"
      unfolding a(2) by (rule wakeFirst_status)
    note wr = wakeFirst_READY [OF lockInvD(1) [OF li], of "statusOf s"]
    note wo = wakeFirst_other [of _ "blockedList ?q" "statusOf s" "\<lambda>_. TASK_READY"]
    have "\<exists>s'. threadBlock TASK_WAITING (pushFrame (FRelock l ?i) a) = Inr s' \<and> kinv s'"
    proof (rule wait_block [OF inv k ni _ _ st])
      show "lockInv (set (threadAllList s)) (wakeFirst (blockedList ?q) (statusOf s) (\<lambda>_. TASK_READY))
        ((phases s)(?c := PRun)) (?q\<lparr>blockedList := tl (blockedList ?q), val := 1\<rparr>) 0 0 l"
        using lockInv_semaUp [OF rel c(1) np] by simp
      show "schedInv a"
        by (rule schedInv_wakeFirst [OF kinv_D(1) [OF inv] _ a(2,3)]) (use bl a hd_in_set in auto)
      show "\<not> parked (wakeFirst (blockedList ?q) (statusOf s) (\<lambda>_. TASK_READY) ?c)"
        using wo [OF wt(2)] np by simp
      show "wakeFirst (blockedList ?q) (statusOf s) (\<lambda>_. TASK_READY) t = statusOf s t \<or> phases s t = PDown l"
        for t using bl [of t] wo [of t] by blast
      show "statusOf s t = TASK_BLOCKED \<and> (t \<in> set (blockedList ?q) \<longrightarrow>
        t \<in> set (blockedList (?q\<lparr>blockedList := tl (blockedList ?q), val := 1\<rparr>)))"
        if "wakeFirst (blockedList ?q) (statusOf s) (\<lambda>_. TASK_READY) t = TASK_BLOCKED" for t
        using wr [of t] that by simp
      show "statusOf s t = TASK_WAITING"
        if "wakeFirst (blockedList ?q) (statusOf s) (\<lambda>_. TASK_READY) t = TASK_WAITING" for t
        using wr [of t] that by simp
    qed (use a in \<open>auto simp: phases_def\<close>)
    then show ?thesis unfolding s1 u by simp
  qed
qed

text \<open>Waking the first waiter of a lock.\<close>

lemma notify_one:
  assumes inv: "kinv s" and ni: "curThread s \<noteq> idleThread s" and ph: "phases s (curThread s) = PRun"
    and w: "waitingList (semas s l) = t # ts"
  shows "\<exists>s'. threadUnblock t (updSema l (\<lambda>q. q\<lparr>waitingList := ts\<rparr>) s) = Inr s' \<and> kinv s' \<and>
    curThread s' = curThread s \<and> idleThread s' = idleThread s \<and> phases s' = phases s \<and>
    kstack s' = kstack s \<and> waitingList (semas s' l) = ts"
proof -
  let ?u = "updSema l (\<lambda>q. q\<lparr>waitingList := ts\<rparr>) s" and ?q = "semas s l"
  note li = lockInv_of [OF inv, of l]
  note n = lockInv_notify [OF li w]
  have d: "distinct (t # ts)" "phases s t = PWait l" using lockInvD(2) [OF li] lockInvD(4) [OF li, of t] w by auto
  have "t \<notin> set (threadReadyList s)"
    using kinv_D(1) [OF inv] schedPre_ready [of s t] n(3) by (simp add: schedInv_def)
  then obtain s' where s': "threadUnblock t ?u = Inr s'" "tcb s' = (tcb s)(t := (tcb s t)\<lparr>status := TASK_READY\<rparr>)"
    "threadReadyList s' = t # threadReadyList s"
    "curThread s' = curThread s" "threadAllList s' = threadAllList s"
    "idleThread s' = idleThread s" "kstack s' = kstack s"
    "semas s' = (semas s)(l := ?q\<lparr>waitingList := ts\<rparr>)"
    "holder s' = holder s" "holderRepeatTimes s' = holderRepeatTimes s"
    using threadUnblock_ok [of t ?u] n(3) by auto
  have tc: "t \<noteq> curThread s" using n(3) kinv_D(3) [OF inv] by auto
  have phs: "phases s' = phases s" by (simp add: phases_def s')
  have "kinv s'"
  proof (rule kinv_step [OF inv])
    show "schedInv s'"
      using schedInv_wake [OF kinv_D(1) [OF inv] n(2) _ s'(2,3)] n(3) s' by simp
    show "lockInv (set (threadAllList s)) (statusOf s') (phases s') (?q\<lparr>waitingList := ts\<rparr>)
      (holder s l) (holderRepeatTimes s l) l"
      using n(1) by (simp add: s' phs)
    show "phases s' = (phases s)(curThread s := PRun)" using ph phs by auto
  qed (use ph ni s' d w tc n(3) in \<open>auto simp: onLock_def split: if_splits\<close>)
  then show ?thesis using s' phs by simp
qed

text \<open>A change of the interrupt flag alone.\<close>

lemma kinv_intr [simp]: "kinv (setIntrStatus st s) = kinv s" "kinv (disableIntr s) = kinv s"
proof -
  have "schedInv (setIntrStatus st s) = schedInv s" "schedInv (disableIntr s) = schedInv s"
    by (rule schedInv_cong; simp)+
  then show "kinv (setIntrStatus st s) = kinv s" "kinv (disableIntr s) = kinv s"
    by (simp_all add: kinv_def syncInv_def)
qed

lemma lockNotify_ok:
  assumes inv: "kinv s" and k: "kstack s (curThread s) = []" and ni: "curThread s \<noteq> idleThread s"
    and h: "holder s l = curThread s"
  shows "\<exists>s'. lockNotify l s = Inr s' \<and> kinv s'"
proof (cases "waitingList (semas s l)")
  case Nil
  then show ?thesis using inv h by (simp add: lockNotify_def Let_def)
next
  case (Cons t ts)
  have "\<exists>s'. threadUnblock t (updSema l (\<lambda>q. q\<lparr>waitingList := ts\<rparr>) (disableIntr s)) = Inr s' \<and> kinv s'"
    using notify_one [of "disableIntr s" l t ts] inv ni Cons by (auto simp: phases_def k)
  then show ?thesis using h Cons by (auto simp: lockNotify_def Let_def)
qed

lemma notifyLoop_ok:
  "kinv s \<Longrightarrow> curThread s \<noteq> idleThread s \<Longrightarrow> phases s (curThread s) = PRun \<Longrightarrow>
   waitingList (semas s l) = ts \<Longrightarrow> \<exists>s'. notifyLoop l ts s = Inr s' \<and> kinv s' \<and> waitingList (semas s' l) = []"
proof (induction ts arbitrary: s)
  case (Cons t ts)
  obtain s1 where s1: "threadUnblock t (updSema l (\<lambda>q. q\<lparr>waitingList := ts\<rparr>) s) = Inr s1" "kinv s1"
    "curThread s1 = curThread s" "idleThread s1 = idleThread s" "phases s1 = phases s"
    "waitingList (semas s1 l) = ts"
    using notify_one [OF Cons.prems] by blast
  then show ?case using Cons.IH [of s1] Cons.prems by simp
qed simp

lemma lockNotifyAll_ok:
  assumes inv: "kinv s" and k: "kstack s (curThread s) = []" and ni: "curThread s \<noteq> idleThread s"
    and h: "holder s l = curThread s"
  shows "\<exists>s'. lockNotifyAll l s = Inr s' \<and> kinv s' \<and> waitingList (semas s' l) = []"
proof -
  have "\<exists>s'. notifyLoop l (waitingList (semas s l)) (disableIntr s) = Inr s' \<and> kinv s' \<and>
    waitingList (semas s' l) = []"
    using inv ni by (intro notifyLoop_ok) (simp_all add: phases_def k)
  then show ?thesis using h by (auto simp: lockNotifyAll_def Let_def)
qed

lemma schedPre_yield:
  assumes "schedInv s" "tcb s' = (tcb s)(curThread s := (tcb s (curThread s))\<lparr>status := TASK_READY\<rparr>)"
    "threadReadyList s' = threadReadyList s @ [curThread s]"
    "curThread s' = curThread s" "threadAllList s' = threadAllList s" "idleThread s' = idleThread s"
  shows "schedPre s'"
proof -
  have p: "schedPre s" "statusOf s (curThread s) = TASK_RUNNING" "curThread s \<notin> set (threadReadyList s)"
    using assms(1) schedInv_cur [OF assms(1)] by (simp_all add: schedInv_def)
  show ?thesis using p unfolding schedPre_def assms(2-6) by (simp; blast)
qed

lemma threadYield_ok:
  assumes inv: "kinv s" and k: "kstack s (curThread s) = []"
  shows "\<exists>s'. threadYield s = Inr s' \<and> kinv s'"
proof -
  let ?s = "pushFrame (FIntr (getIntrStatus s)) (updTask (curThread s) (\<lambda>t. t\<lparr>status := TASK_READY\<rparr>)
    ((disableIntr s)\<lparr>threadReadyList := threadReadyList s @ [curThread s]\<rparr>))"
  note c = schedInv_cur [OF kinv_D(1) [OF inv]]
  have "threadYield s = schedule ?s" using c(4) by (simp add: threadYield_def Let_def)
  moreover have "schedPre ?s" by (rule schedPre_yield [OF kinv_D(1) [OF inv]]) simp_all
  moreover have "syncInv ?s"
  proof -
    have "syncV (set (threadAllList s)) (idleThread s) (statusOf ?s) (phases ?s) (semas s) (holder s)
      (holderRepeatTimes s)"
      by (rule syncV_cong [OF kinv_D(2) [OF inv]])
        (use c k syncV_D(3) [OF kinv_D(2) [OF inv]] in \<open>auto simp: phases_def\<close>)
    then show ?thesis by (simp add: syncInv_def)
  qed
  moreover have "getIntrStatus ?s = INTR_OFF"
    using getIntrStatus_disable [of s] by (simp add: getIntrStatus_def disableIntr_def)
  ultimately show ?thesis using schedule_kinv [of ?s] by simp
qed

lemma idle_ok:
  assumes inv: "kinv s" and k: "kstack s (curThread s) = []" and i: "curThread s = idleThread s"
  shows "\<exists>s'. idleThreadFunc s = Inr s' \<and> kinv s'"
  unfolding idleThreadFunc_def
proof (rule threadBlock_ok)
  let ?s = "pushFrame (FIntr INTR_ON) s"
  show "schedInv ?s" using kinv_D(1) [OF inv] schedInv_cong [of ?s s] by simp
  show "syncV (set (threadAllList ?s)) (idleThread ?s) ((statusOf ?s)(curThread ?s := TASK_BLOCKED))
      ((phases ?s)(curThread ?s := phaseOf (FIntr (getIntrStatus ?s) # kstack ?s (curThread ?s))))
      (semas ?s) (holder ?s) (holderRepeatTimes ?s)"
    using syncV_D(3) [OF kinv_D(2) [OF inv]] k i
    by simp (rule syncV_cong [OF kinv_D(2) [OF inv]]; simp add: i)
qed simp

text \<open>A timer interrupt may come at any time the flag allows it.\<close>

lemma schedPre_task:
  assumes "schedPre s" "tcb s' = (tcb s)(t := x)" "status x = statusOf s t"
    "stackMagicNum x = stackMagicNum (tcb s t)" "threadReadyList s' = threadReadyList s"
    "curThread s' = curThread s" "threadAllList s' = threadAllList s" "idleThread s' = idleThread s"
  shows "schedPre s'"
  using assms(1,3,4) unfolding schedPre_def assms(2,5-8) by simp metis

lemma timerInterrupt_ok:
  assumes inv: "kinv s"
  shows "\<exists>s'. timerInterrupt s = Inr s' \<and> kinv s'"
proof -
  let ?c = "curThread s"
  let ?e = "\<lambda>t. t\<lparr>elapsedTicks := elapsedTicks t + 1\<rparr>"
  define s1 where "s1 = (updTask ?c ?e (disableIntr (pushFrame (FIret (getIntrStatus s)) s)))
    \<lparr>timerTicks := timerTicks s + 1\<rparr>"
  note c = schedInv_cur [OF kinv_D(1) [OF inv]]
  have p: "schedPre s" using kinv_D(1) [OF inv] by (simp add: schedInv_def)
  have m: "stackMagicNum (tcb s ?c) = STACK_MAGIC_NUMBER" using p c(1) by (simp add: schedPre_def)
  have tt: "timerTicks (updTask ?c ?e (disableIntr (pushFrame (FIret (getIntrStatus s)) s))) = timerTicks s"
    by (simp add: updTask_def disableIntr_def pushFrame_def)
  have eq: "timerInterrupt s = (if ticks (tcb s1 ?c) = 0 then schedule s1
             else Inr (updTask ?c (\<lambda>t. t\<lparr>ticks := ticks t - 1\<rparr>) s1))"
    using m tt by (simp add: timerInterrupt_def intrTimerHandler_def Let_def s1_def)
  have f: "tcb s1 = (tcb s)(?c := ?e (tcb s ?c))" "threadReadyList s1 = threadReadyList s"
    "curThread s1 = ?c" "threadAllList s1 = threadAllList s" "idleThread s1 = idleThread s"
    "phases s1 = phases s" "semas s1 = semas s" "holder s1 = holder s"
    "holderRepeatTimes s1 = holderRepeatTimes s"
    by (auto simp: s1_def phases_def)
  have st: "statusOf s1 = statusOf s" by (auto simp: f)
  have p1: "schedPre s1" by (rule schedPre_task [OF p f(1)]) (simp_all add: f)
  have i1: "syncInv s1" using kinv_D(2) [OF inv] by (simp only: syncInv_def f(4-9) st)
  have o1: "getIntrStatus s1 = INTR_OFF"
    using getIntrStatus_disable [of s] by (simp add: s1_def getIntrStatus_def disableIntr_def)
  show ?thesis
  proof (cases "ticks (tcb s1 ?c) = 0")
    case True
    then show ?thesis using schedule_kinv [OF p1 o1 i1] eq by simp
  next
    case False
    let ?s = "updTask ?c (\<lambda>t. t\<lparr>ticks := ticks t - 1\<rparr>) s1"
    have st2: "statusOf ?s = statusOf s1" by auto
    have p2: "schedPre ?s" by (rule schedPre_task [OF p1 updTask_fields(1)]) simp_all
    have "statusOf ?s (curThread ?s) = TASK_RUNNING" using c(2) st st2 f(3) by (simp add: f(1))
    then have "schedInv ?s" using p2 by (simp add: schedInv_def)
    moreover have "phases ?s = phases s1" by simp
    then have "syncInv ?s" using i1 unfolding syncInv_def st2 by simp
    ultimately show ?thesis using False eq by (simp add: kinv_def)
  qed
qed

text \<open>Going on with a suspended call.\<close>

lemma kinv_pop:
  assumes inv: "kinv s" and ph: "phaseOf (tl (kstack s (curThread s))) = phases s (curThread s)"
  shows "kinv (popFrame s)"
proof -
  have "phases (popFrame s) = phases s" using ph by auto
  moreover have "schedInv (popFrame s) = schedInv s" by (rule schedInv_cong) simp_all
  ultimately show ?thesis using inv by (simp add: kinv_def syncInv_def)
qed

lemma kresume_ok:
  assumes inv: "kinv s"
    and n: "\<And>l st ks. kstack s (curThread s) = FRelock l st # ks \<Longrightarrow>
      holder s l = curThread s \<Longrightarrow> holderRepeatTimes s l \<noteq> - 1"
  shows "\<exists>s'. kresume s = Inr s' \<and> kinv s'"
proof (cases "kstack s (curThread s)")
  case Nil
  then show ?thesis using inv by (simp add: kresume_def)
next
  case (Cons f ks)
  let ?c = "curThread s"
  note c = schedInv_cur [OF kinv_D(1) [OF inv]]
  note li = lockInv_of [OF inv] and np = kinv_D(3) [OF inv]
  have nb: "phaseOf (f # ks) \<noteq> PBad" using syncV_D(2) [OF kinv_D(2) [OF inv] c(1)] Cons
    by (simp add: phases_def)
  have phc: "phases s ?c = phaseOf (f # ks)" by (simp add: phases_def Cons)
  show ?thesis
  proof (cases f)
    case (FIntr st)
    then have "kinv (popFrame s)" using inv phase_FIntr nb Cons phc by (intro kinv_pop) auto
    then show ?thesis using Cons FIntr by (simp add: kresume_def)
  next
    case (FIret st)
    then have "kinv (popFrame s)" using inv Cons phc by (intro kinv_pop) auto
    then show ?thesis using Cons FIret by (simp add: kresume_def)
  next
    case (FSema l st)
    then have "ks = [FAcquire l]" using phase_FSema nb by blast
    then show ?thesis using semaLoop_ok [OF inv] Cons FSema by (simp add: kresume_def)
  next
    case (FSemaUp l)
    then have "ks = []" using phase_FSemaUp nb by blast
    then show ?thesis using semaUp_ok [OF inv] Cons FSemaUp by (simp add: kresume_def)
  next
    case (FAcquire l)
    then have ks: "ks = []" using phase_FAcquire nb by blast
    have ph: "phases s ?c = PAcq l" by (simp add: phc FAcquire ks)
    have ni: "?c \<noteq> idleThread s" using cur_not_idle [OF inv] ph by simp
    let ?s = "lockAcquired l (popFrame s)"
    have "kinv ?s"
    proof (rule kinv_step [OF inv])
      show "schedInv ?s" using kinv_D(1) [OF inv] schedInv_cong [of ?s s] by (simp add: lockAcquired_def)
      show "lockInv (set (threadAllList s)) (statusOf ?s) (phases ?s) (semas s l) ?c 1 l"
        using lockInv_acquired [OF li c(1) c(3) np ph] by (simp add: lockAcquired_def Cons ks)
      show "phases ?s = (phases s)(?c := PRun)" by (simp add: lockAcquired_def Cons ks)
    qed (use ph ni in \<open>auto simp: onLock_def lockAcquired_def\<close>)
    then show ?thesis using Cons FAcquire by (simp add: kresume_def)
  next
    case (FRelock l st)
    then have ks: "ks = []" using phase_FRelock nb by blast
    have ph: "phases s ?c = PWait l" by (simp add: phc FRelock ks)
    have ni: "?c \<noteq> idleThread s" using cur_not_idle [OF inv] ph by simp
    let ?s = "setIntrStatus st (popFrame s)"
    have "kinv ?s"
      by (rule kinv_reframe [OF inv ni, of PRun l]) (simp_all add: ph Cons ks)
    then have "\<exists>s'. lockLock l ?s = Inr s' \<and> kinv s'"
      using n FRelock Cons by (intro lockLock_ok) (simp_all add: ks ni)
    then show ?thesis using Cons FRelock by (simp add: kresume_def)
  qed
qed

section \<open>The machine of all operations\<close>

text \<open>What the processor may do next in a state: the current thread starts a call, goes on with
  the call it is in, or is interrupted by the timer.\<close>

datatype kact = ALock semaid | AUnlock semaid | AWait semaid | ANotify semaid | ANotifyAll semaid
  | AYield | AIdle | AResume | ATick | AStart u32 TaskStruct

fun kexec :: "kact \<Rightarrow> 'a ksched_scheme \<Rightarrow> 'a ksched_scheme res" where
  "kexec (ALock l) s = lockLock l s"
| "kexec (AUnlock l) s = lockUnlockStart l s"
| "kexec (AWait l) s = lockWait l s"
| "kexec (ANotify l) s = lockNotify l s"
| "kexec (ANotifyAll l) s = lockNotifyAll l s"
| "kexec AYield s = threadYield s"
| "kexec AIdle s = idleThreadFunc s"
| "kexec AResume s = kresume s"
| "kexec ATick s = timerInterrupt s"
| "kexec (AStart pcb ts) s =
     threadEnqueue pcb (s\<lparr>tcb := (tcb s)(pcb := ts), kstack := (kstack s)(pcb := [FIntr INTR_ON])\<rparr>)"

text \<open>A call starts when no other call of the thread is pending; the idle thread only blocks
  itself; a thread unlocks, waits and notifies on locks it holds, and does not nest a lock
  2^32 - 1 times; a new thread gets a page that no thread has.\<close>

definition noOverflow :: "semaid \<Rightarrow> 'a ksched_scheme \<Rightarrow> bool" where
  "noOverflow l s \<longleftrightarrow> (holder s l = curThread s \<longrightarrow> holderRepeatTimes s l \<noteq> - 1)"

fun allowed :: "kact \<Rightarrow> 'a ksched_scheme \<Rightarrow> bool" where
  "allowed (ALock l) s = (kstack s (curThread s) = [] \<and> curThread s \<noteq> idleThread s \<and> noOverflow l s)"
| "allowed (AUnlock l) s =
     (kstack s (curThread s) = [] \<and> curThread s \<noteq> idleThread s \<and> holder s l = curThread s)"
| "allowed (AWait l) s =
     (kstack s (curThread s) = [] \<and> curThread s \<noteq> idleThread s \<and> holder s l = curThread s)"
| "allowed (ANotify l) s =
     (kstack s (curThread s) = [] \<and> curThread s \<noteq> idleThread s \<and> holder s l = curThread s)"
| "allowed (ANotifyAll l) s =
     (kstack s (curThread s) = [] \<and> curThread s \<noteq> idleThread s \<and> holder s l = curThread s)"
| "allowed AYield s = (kstack s (curThread s) = [] \<and> curThread s \<noteq> idleThread s)"
| "allowed AIdle s = (kstack s (curThread s) = [] \<and> curThread s = idleThread s)"
| "allowed AResume s = (case kstack s (curThread s) of [] \<Rightarrow> False
     | FRelock l _ # _ \<Rightarrow> noOverflow l s | _ # _ \<Rightarrow> True)"
| "allowed ATick s = (getIntrStatus s = INTR_ON)"
| "allowed (AStart pcb ts) s =
     (kstack s (curThread s) = [] \<and> curThread s \<noteq> idleThread s \<and> pcb \<noteq> NULLPTR \<and>
      pcb \<notin> set (threadAllList s) \<and> status ts = TASK_READY \<and> stackMagicNum ts = STACK_MAGIC_NUMBER)"

inductive kreach :: "'a ksched_scheme \<Rightarrow> 'a ksched_scheme \<Rightarrow> bool" for s0 where
  kreach_init: "kreach s0 s0"
| kreach_step: "kreach s0 s \<Longrightarrow> allowed act s \<Longrightarrow> kexec act s = Inr s' \<Longrightarrow> kreach s0 s'"

inductive_cases kreachE: "kreach s0 s"

lemma start_ok:
  fixes s :: "'a ksched_scheme"
  assumes inv: "kinv s" and "allowed (AStart pcb ts) s"
  shows "\<exists>s'. kexec (AStart pcb ts) s = Inr s' \<and> kinv s'"
proof -
  let ?a = "(s\<lparr>tcb := (tcb s)(pcb := ts), kstack := (kstack s)(pcb := [FIntr INTR_ON])\<rparr>)
    \<lparr>threadReadyList := threadReadyList s @ [pcb], threadAllList := threadAllList s @ [pcb]\<rparr>"
  let ?T = "set (threadAllList s)"
  have a: "pcb \<noteq> 0" "pcb \<notin> ?T" "status ts = TASK_READY" "stackMagicNum ts = STACK_MAGIC_NUMBER"
    using assms(2) by simp_all
  have p: "schedPre s" "statusOf s (curThread s) = TASK_RUNNING"
    using kinv_D(1) [OF inv] by (simp_all add: schedInv_def)
  have nr: "pcb \<notin> set (threadReadyList s)" using schedPre_ready [OF p(1)] a(2) by simp
  have ne: "pcb \<noteq> curThread s" "pcb \<noteq> idleThread s" using schedPre_all [OF p(1)] a(2) by auto
  have "kexec (AStart pcb ts) s = Inr ?a" using nr a(2) by (simp add: threadEnqueue_def)
  moreover have "schedInv ?a"
  proof -
    have "schedPre ?a"
      using p(1) a nr ne unfolding schedPre_def by (simp; blast)
    then show ?thesis using p(2) ne by (simp add: schedInv_def)
  qed
  moreover have "syncInv ?a"
  proof -
    note v = kinv_D(2) [OF inv]
    let ?st = "(statusOf s)(pcb := TASK_READY)" and ?ph = "(phases s)(pcb := PRun)"
    have li: "lockInv (insert pcb ?T) ?st ?ph (semas s l) (holder s l) (holderRepeatTimes s l) l" for l
    proof -
      note d = lockInvD [OF syncV_D(1) [OF v, of l]]
      show ?thesis
      proof (rule lockInvI)
        show "val (semas s l) = 0 \<and> (holder s l \<noteq> 0 \<or> (\<exists>t\<in>insert pcb ?T. hasToken l (?ph t))) \<or>
          val (semas s l) = 1 \<and> holder s l = 0 \<and> (\<forall>t\<in>insert pcb ?T. \<not> hasToken l (?ph t))"
          using d(8) a(2) by auto
        show "\<exists>t\<in>insert pcb ?T. ?ph t = PDown l \<and> \<not> parked (?st t)"
          if "val (semas s l) = 1" "blockedList (semas s l) \<noteq> []"
        proof -
          note e = d(9) [OF that]
          obtain t where t: "t \<in> ?T" "phases s t = PDown l" "\<not> parked (statusOf s t)"
            using e by blast
          then have "t \<noteq> pcb" using a(2) by blast
          then show ?thesis using t by (intro bexI [of _ t]) simp_all
        qed
        show "t \<in> insert pcb ?T \<and> ?st t = TASK_BLOCKED \<and> ?ph t = PDown l"
          if "t \<in> set (blockedList (semas s l))" for t using d(3) [OF that] a(2) by auto
        show "t \<in> insert pcb ?T \<and> ?st t = TASK_WAITING \<and> ?ph t = PWait l"
          if "t \<in> set (waitingList (semas s l))" for t using d(4) [OF that] a(2) by auto
        show "\<not> hasToken l (?ph u)" if "hasToken l (?ph t)" "t \<in> insert pcb ?T" "u \<in> insert pcb ?T" "u \<noteq> t" for t u
          using d(7) [of t u] that by (auto split: if_splits)
        show "hasToken l (?ph t) \<Longrightarrow> holder s l = 0" if "t \<in> insert pcb ?T" for t
          using d(6) [of t] that by (auto split: if_splits)
      qed (use d(1,2,5) in auto)
    qed
    have bw: "\<exists>l. t \<in> set (blockedList (semas s l))"
      if "t \<in> insert pcb ?T" "t \<noteq> idleThread s" "?st t = TASK_BLOCKED" for t
      using syncV_D(4) [OF v, of t] that by (auto split: if_splits)
    have ww: "\<exists>l. t \<in> set (waitingList (semas s l))"
      if "t \<in> insert pcb ?T" "t \<noteq> idleThread s" "?st t = TASK_WAITING" for t
      using syncV_D(5) [OF v, of t] that by (auto split: if_splits)
    have "syncV (insert pcb ?T) (idleThread s) ?st ?ph (semas s) (holder s) (holderRepeatTimes s)"
      unfolding syncV_def using li bw ww syncV_D(2,3) [OF v] ne by auto
    moreover have "statusOf ?a = ?st" "phases ?a = ?ph" using a(3) by (auto simp: phases_def)
    ultimately show ?thesis by (simp add: syncInv_def)
  qed
  ultimately show ?thesis by (simp add: kinv_def)
qed

lemma kexec_ok:
  assumes "kinv s" "allowed act s"
  shows "\<exists>s'. kexec act s = Inr s' \<and> kinv s'"
proof (cases act)
  case (ALock l)
  then show ?thesis using assms lockLock_ok [OF assms(1)] by (auto simp: noOverflow_def)
next
  case (AResume)
  have "\<exists>s'. kresume s = Inr s' \<and> kinv s'"
    using assms(2) AResume by (intro kresume_ok [OF assms(1)]) (simp add: noOverflow_def)
  then show ?thesis using AResume by simp
next
  case (ANotifyAll l)
  then show ?thesis using assms lockNotifyAll_ok [OF assms(1)] by fastforce
next
  case (AStart pcb ts)
  then show ?thesis using start_ok [OF assms(1)] assms(2) by blast
next
  case AIdle
  have "kstack s (curThread s) = [] \<and> curThread s = idleThread s"
    using assms(2) unfolding AIdle allowed.simps .
  then show ?thesis unfolding AIdle kexec.simps using idle_ok [OF assms(1)] by blast
qed (use assms lockUnlockStart_ok lockWait_ok lockNotify_ok threadYield_ok timerInterrupt_ok
    in auto)

text \<open>A run of the machine along a list of actions, each of which must be allowed.\<close>

fun kruns :: "kact list \<Rightarrow> 'a ksched_scheme \<Rightarrow> 'a ksched_scheme res" where
  "kruns [] s = Inr s"
| "kruns (a # as) s = (if allowed a s then rbind (kexec a s) (kruns as) else Inl OutOfBounds)"

lemma kruns_kreach: "kreach s0 s \<Longrightarrow> kruns as s = Inr s' \<Longrightarrow> kreach s0 s'"
proof (induction as arbitrary: s)
  case (Cons a as)
  then obtain s1 where "allowed a s" "kexec a s = Inr s1" "kruns as s1 = Inr s'"
    by (auto simp: rbind_eq_Inr split: if_splits)
  then show ?case using Cons.IH kreach_step Cons.prems(1) by blast
qed simp

lemma kreach_kinv: "kreach s0 s \<Longrightarrow> kinv s0 \<Longrightarrow> kinv s"
proof (induction rule: kreach.induct)
  case (kreach_step s act s')
  then show ?case using kexec_ok [of s act] by auto
qed

text \<open>Mutual exclusion: a lock is held by the holder, or by the one thread that is between
  \<open>semaDown\<close> and the store of \<open>holder\<close> or between its release and \<open>semaUp\<close>.\<close>

definition owns :: "'a ksched_scheme \<Rightarrow> semaid \<Rightarrow> u32 \<Rightarrow> bool" where
  "owns s l t \<longleftrightarrow> t \<in> set (threadAllList s) \<and> (holder s l = t \<or> hasToken l (phases s t))"

lemma owns_unique:
  assumes "kinv s" "owns s l t" "owns s l u"
  shows "t = u"
proof (rule ccontr)
  assume ne: "t \<noteq> u"
  note d = lockInvD [OF lockInv_of [OF assms(1), of l]]
  have T: "t \<in> set (threadAllList s)" "u \<in> set (threadAllList s)" "t \<noteq> 0" "u \<noteq> 0"
    using assms schedPre_all(1) [of s] kinv_D(1) [OF assms(1)] by (auto simp: owns_def schedInv_def)
  show False
    using d(6) [of t] d(6) [of u] d(7) [of t u] T assms(2,3) ne unfolding owns_def by auto
qed

lemma owns_iff_taken:
  assumes "kinv s"
  shows "(\<exists>t. owns s l t) \<longleftrightarrow> val (semas s l) = 0"
proof -
  note d = lockInvD [OF lockInv_of [OF assms, of l]]
  have z: "0 \<notin> set (threadAllList s)"
    using schedPre_all(1) [of s] kinv_D(1) [OF assms] by (simp add: schedInv_def)
  show ?thesis using d(5,8) z unfolding owns_def by auto
qed

section \<open>The initial state\<close>

text \<open>All locks initialised, as the init functions of the kernel leave them.\<close>

definition locksInit :: "'a ksched_scheme \<Rightarrow> bool" where
  "locksInit s \<longleftrightarrow> (\<forall>l. semas s l = semaInit 1 \<and> holder s l = 0 \<and> holderRepeatTimes s l = 0)"

lemma lockInv_init: "lockInv T st ph (semaInit 1) 0 0 l \<longleftrightarrow> (\<forall>t \<in> T. \<not> hasToken l (ph t))"
  by (auto simp: lockInv_def semaInit_def)

lemma pid_scan:
  "bitMapScanAndSet \<lparr>bm_length = 128, startAddr = replicate 128 0\<rparr> 1 True =
     Inr (0, \<lparr>bm_length = 128, startAddr = 1 # replicate 127 0\<rparr>)"
  "bitMapScanAndSet \<lparr>bm_length = 128, startAddr = 1 # replicate 127 0\<rparr> 1 True =
     Inr (1, \<lparr>bm_length = 128, startAddr = 3 # replicate 127 0\<rparr>)"
  by code_simp+

lemma pid_init:
  "bitMapInit \<lparr>bm_length = 128, startAddr = replicate 128 0\<rparr> =
     Inr \<lparr>bm_length = 128, startAddr = replicate 128 0\<rparr>"
  by code_simp

lemma names:
  "strcpy (replicate 16 0) (bytes ''main'' @ [0]) = Inr ([109, 97, 105, 110] @ replicate 12 0)"
  "strcpy (replicate 16 0) (bytes ''idle'' @ [0]) = Inr ([105, 100, 108, 101] @ replicate 12 0)"
  by code_simp+

text \<open>A lock that is free is taken and given back without a trace.\<close>

lemma allocatePid_free:
  assumes "semas s PidLock = semaInit 1" "holder s PidLock = 0" "holderRepeatTimes s PidLock = 0"
    "curThread s \<noteq> 0" "bitMapScanAndSet (pidBitMap s) 1 True = Inr (i, bm)"
  shows "\<exists>s'. allocatePid s = Inr (i + pidStart s, s') \<and> pidBitMap s' = bm \<and> pidStart s' = pidStart s \<and>
    tcb s' = tcb s \<and> curThread s' = curThread s \<and> threadReadyList s' = threadReadyList s \<and>
    threadAllList s' = threadAllList s \<and> semas s' = semas s \<and> holder s' = holder s \<and>
    holderRepeatTimes s' = holderRepeatTimes s \<and> kstack s' = kstack s"
proof -
  let ?s = "setHolder PidLock 0 0 ((setHolder PidLock (curThread s) 1
    (updSema PidLock (\<lambda>q. q\<lparr>val := val q - 1\<rparr>) s))\<lparr>pidBitMap := bm\<rparr>)"
  let ?i = "getIntrStatus s"
  have "lockNow PidLock s = Inr (setHolder PidLock (curThread s) 1 (updSema PidLock (\<lambda>q. q\<lparr>val := val q - 1\<rparr>) s))"
    using assms(1,2,4) by (simp add: lockNow_def semaInit_def Let_def)
  moreover have "pidBitMap (setHolder PidLock (curThread s) 1 (updSema PidLock (\<lambda>q. q\<lparr>val := val q - 1\<rparr>) s)) = pidBitMap s"
    by (simp add: setHolder_def updSema_def)
  ultimately show ?thesis
    using assms
    by (auto simp: allocatePid_def lockUnlock_def lockRelease_def semaUp_def semaInit_def Let_def
        setHolder_def updSema_def setIntrStatus_def enableIntr_def disableIntr_def fun_upd_idem_iff)
qed

lemma makeMainThread_ok:
  assumes "semas s PidLock = semaInit 1" "holder s PidLock = 0" "holderRepeatTimes s PidLock = 0"
    "curThread s \<noteq> 0" "bitMapScanAndSet (pidBitMap s) 1 True = Inr (i, bm)"
    "curThread s \<notin> set (threadAllList s)"
  shows "\<exists>s' x. makeMainThread s = Inr s' \<and> tcb s' = (tcb s)(curThread s := x) \<and>
    status x = TASK_RUNNING \<and> pid x = i + pidStart s \<and> stackMagicNum x = STACK_MAGIC_NUMBER \<and>
    curThread s' = curThread s \<and> threadReadyList s' = threadReadyList s \<and>
    threadAllList s' = threadAllList s @ [curThread s] \<and> kstack s' = kstack s \<and> semas s' = semas s \<and>
    holder s' = holder s \<and> holderRepeatTimes s' = holderRepeatTimes s \<and> pidBitMap s' = bm \<and>
    pidStart s' = pidStart s"
proof -
  let ?m = "curThread s"
  define s2 where "s2 = updTask ?m (\<lambda>t. t\<lparr>name := [109, 97, 105, 110] @ replicate 12 0\<rparr>)
    (updTask ?m (\<lambda>_. zeroTask) (s\<lparr>mainThread := ?m\<rparr>))"
  have f2: "semas s2 = semas s" "holder s2 = holder s" "holderRepeatTimes s2 = holderRepeatTimes s"
    "curThread s2 = ?m" "kstack s2 = kstack s" "threadAllList s2 = threadAllList s"
    "threadReadyList s2 = threadReadyList s" "pidStart s2 = pidStart s" "pidBitMap s2 = pidBitMap s"
    "tcb s2 = (tcb s)(?m := zeroTask\<lparr>name := [109, 97, 105, 110] @ replicate 12 0\<rparr>)"
    by (auto simp: s2_def updTask_def)
  obtain s3 where s3: "allocatePid s2 = Inr (i + pidStart s2, s3)"
    "pidBitMap s3 = bm" "pidStart s3 = pidStart s"
    "curThread s3 = ?m" "threadReadyList s3 = threadReadyList s" "threadAllList s3 = threadAllList s"
    "semas s3 = semas s" "holder s3 = holder s" "holderRepeatTimes s3 = holderRepeatTimes s"
    "kstack s3 = kstack s" "tcb s3 = tcb s2"
    using allocatePid_free [of s2 i bm] assms by (auto simp: f2)
  define g where "g = (\<lambda>t :: TaskStruct. t\<lparr>pid := i + pidStart s, status := TASK_RUNNING,
      selfKnlStack := ?m + PG_SIZE, priority := 4, ticks := 4, elapsedTicks := 0,
      pageDir := NULLPTR, cwdIno := 0, parentPid := - 1,
      stackMagicNum := STACK_MAGIC_NUMBER, fdTable := freshFdTable\<rparr>)"
  have "makeMainThread s = Inr ((updTask ?m g s3)\<lparr>threadAllList := threadAllList s @ [?m]\<rparr>)"
    using s3(1) names(1) assms(6)
    by (simp add: makeMainThread_def Let_def s3(3,6) f2(8) g_def flip: s2_def)
      (simp add: zeroTask_def updTask_def s2_def [unfolded updTask_def] s3)
  then show ?thesis
    by (intro exI [of _ "(updTask ?m g s3)\<lparr>threadAllList := threadAllList s @ [?m]\<rparr>"]
        exI [of _ "g (tcb s3 ?m)"]) (simp add: s3 f2 g_def, simp add: updTask_def s3)
qed

lemma threadCreate_ok:
  assumes "semas s PidLock = semaInit 1" "holder s PidLock = 0" "holderRepeatTimes s PidLock = 0"
    "curThread s \<noteq> 0" "bitMapScanAndSet (pidBitMap s) 1 True = Inr (i, bm)"
    "strcpy (replicate 16 0) nm = Inr nm'"
  shows "\<exists>s' x. threadCreate pcb nm prio s = Inr s' \<and> tcb s' = (tcb s)(pcb := x) \<and>
    status x = TASK_READY \<and> pid x = i + pidStart s \<and> stackMagicNum x = STACK_MAGIC_NUMBER \<and>
    curThread s' = curThread s \<and> threadReadyList s' = threadReadyList s \<and>
    threadAllList s' = threadAllList s \<and> kstack s' = (kstack s)(pcb := [FIntr INTR_ON]) \<and>
    semas s' = semas s \<and> holder s' = holder s \<and> holderRepeatTimes s' = holderRepeatTimes s"
proof -
  define s2 where "s2 = updTask pcb (\<lambda>t. t\<lparr>name := nm'\<rparr>) (updTask pcb (\<lambda>_. zeroTask) s)"
  have f2: "semas s2 = semas s" "holder s2 = holder s" "holderRepeatTimes s2 = holderRepeatTimes s"
    "curThread s2 = curThread s" "kstack s2 = kstack s" "threadAllList s2 = threadAllList s"
    "threadReadyList s2 = threadReadyList s" "pidStart s2 = pidStart s" "pidBitMap s2 = pidBitMap s"
    "tcb s2 = (tcb s)(pcb := zeroTask\<lparr>name := nm'\<rparr>)"
    by (auto simp: s2_def updTask_def)
  obtain s3 where s3: "allocatePid s2 = Inr (i + pidStart s2, s3)"
    "curThread s3 = curThread s" "threadReadyList s3 = threadReadyList s"
    "threadAllList s3 = threadAllList s" "semas s3 = semas s" "holder s3 = holder s"
    "holderRepeatTimes s3 = holderRepeatTimes s" "kstack s3 = kstack s" "tcb s3 = tcb s2"
    using allocatePid_free [of s2 i bm] assms by (auto simp: f2)
  define g where "g = (\<lambda>t :: TaskStruct. t\<lparr>pid := i + pidStart s, status := TASK_READY,
      selfKnlStack := pcb + PG_SIZE - 4 * 76 - 4 * 32, priority := prio, ticks := prio,
      elapsedTicks := 0, pageDir := NULLPTR, cwdIno := 0,
      stackMagicNum := STACK_MAGIC_NUMBER, parentPid := - 1, fdTable := freshFdTable\<rparr>)"
  let ?s = "(updTask pcb g s3)\<lparr>kstack := (kstack s)(pcb := [FIntr INTR_ON])\<rparr>"
  have z: "name zeroTask = replicate 16 0" by (simp add: zeroTask_def)
  have "threadCreate pcb nm prio s = Inr ?s"
    using s3(1) assms(6) z
    by (simp add: threadCreate_def Let_def f2(8) g_def s3 flip: s2_def)
  then show ?thesis
    by (intro exI [of _ ?s] exI [of _ "g (tcb s3 pcb)"]) (simp add: s3 f2 g_def)
qed

text \<open>What \<open>threadInit\<close> leaves: the main thread running, the idle thread ready, no lock taken.\<close>

definition booted :: "'a ksched_scheme \<Rightarrow> bool" where
  "booted s \<longleftrightarrow> locksInit s \<and> threadAllList s = [curThread s, idleThread s] \<and>
     threadReadyList s = [idleThread s] \<and> curThread s \<noteq> 0 \<and> idleThread s \<noteq> 0 \<and>
     idleThread s \<noteq> curThread s \<and> statusOf s (curThread s) = TASK_RUNNING \<and>
     statusOf s (idleThread s) = TASK_READY \<and>
     stackMagicNum (tcb s (curThread s)) = STACK_MAGIC_NUMBER \<and>
     stackMagicNum (tcb s (idleThread s)) = STACK_MAGIC_NUMBER \<and>
     kstack s (curThread s) = [] \<and> kstack s (idleThread s) = [FIntr INTR_ON]"

lemma kinv_boot:
  assumes "booted s"
  shows "kinv s"
proof -
  have "schedInv s" using assms by (auto simp: booted_def schedInv_def schedPre_def)
  moreover have "lockInv (set (threadAllList s)) (statusOf s) (phases s) (semas s l) (holder s l)
    (holderRepeatTimes s l) l" for l
    using assms by (simp add: booted_def locksInit_def lockInv_init phases_def)
  then have "syncInv s" using assms by (auto simp: booted_def syncInv_def syncV_def phases_def)
  ultimately show ?thesis by (simp add: kinv_def)
qed

lemma threadInit_ok:
  assumes "locksInit s" "kstack s (curThread s) = []" "curThread s \<noteq> 0" "idlePage \<noteq> 0"
    "idlePage \<noteq> curThread s"
  shows "\<exists>s'. threadInit idlePage s = Inr s' \<and> booted s' \<and> curThread s' = curThread s \<and>
    idleThread s' = idlePage \<and> pid (tcb s' (curThread s)) = 1 \<and> pid (tcb s' idlePage) = 2"
proof -
  let ?m = "curThread s"
  have l: "semas s = (\<lambda>_. semaInit 1)" "holder s = (\<lambda>_. 0)" "holderRepeatTimes s = (\<lambda>_. 0)"
    using assms(1) by (auto simp: locksInit_def)
  define s1 where "s1 = lockInit PidLock (s\<lparr>threadAllList := [], threadReadyList := [], pidStart := 1,
    pidBitMap := \<lparr>bm_length = 128, startAddr = replicate 128 0\<rparr>\<rparr>)"
  have f1: "semas s1 = (\<lambda>_. semaInit 1)" "holder s1 = (\<lambda>_. 0)" "holderRepeatTimes s1 = (\<lambda>_. 0)"
    "curThread s1 = ?m" "kstack s1 = kstack s" "threadAllList s1 = []" "threadReadyList s1 = []"
    "pidStart s1 = 1" "pidBitMap s1 = \<lparr>bm_length = 128, startAddr = replicate 128 0\<rparr>"
    by (auto simp: s1_def lockInit_def l setHolder_def updSema_def)
  have p1: "pidPoolInit (s\<lparr>threadAllList := [], threadReadyList := []\<rparr>) = Inr s1"
    by (simp add: pidPoolInit_def pid_init s1_def)
  obtain s2 x where s2: "makeMainThread s1 = Inr s2" "tcb s2 = (tcb s1)(?m := x)"
    "status x = TASK_RUNNING" "pid x = 1" "stackMagicNum x = STACK_MAGIC_NUMBER"
    "curThread s2 = ?m" "threadReadyList s2 = []" "threadAllList s2 = [?m]" "kstack s2 = kstack s"
    "semas s2 = semas s1" "holder s2 = holder s1" "holderRepeatTimes s2 = holderRepeatTimes s1"
    "pidBitMap s2 = \<lparr>bm_length = 128, startAddr = 1 # replicate 127 0\<rparr>" "pidStart s2 = 1"
    using makeMainThread_ok [of s1, OF _ _ _ _ pid_scan(1) [folded f1(9)]] assms(3) f1 by auto
  obtain s3 y where s3: "threadCreate idlePage (bytes ''idle'' @ [0]) 1 s2 = Inr s3"
    "tcb s3 = (tcb s2)(idlePage := y)" "status y = TASK_READY" "pid y = 2"
    "stackMagicNum y = STACK_MAGIC_NUMBER" "curThread s3 = ?m" "threadReadyList s3 = []"
    "threadAllList s3 = [?m]" "kstack s3 = (kstack s)(idlePage := [FIntr INTR_ON])"
    "semas s3 = semas s1" "holder s3 = holder s1" "holderRepeatTimes s3 = holderRepeatTimes s1"
    using threadCreate_ok [of s2, OF _ _ _ _ pid_scan(2) [folded s2(13)] names(2), of idlePage 1]
      assms(3) f1 s2 by auto
  let ?s = "s3\<lparr>threadReadyList := [idlePage], threadAllList := [?m, idlePage], idleThread := idlePage\<rparr>"
  have "threadInit idlePage s = Inr ?s"
    using assms(5) by (simp add: threadInit_def p1 s2(1) s3(1,7,8) threadStart_def threadEnqueue_def)
  moreover have "booted ?s" using assms by (simp add: booted_def locksInit_def f1 s2 s3)
  ultimately show ?thesis using assms(5) by (simp add: s2 s3)
qed

section \<open>Properties of the threads and locks\<close>

text \<open>A state in which the main thread is about to call \<open>threadInit\<close>, and one in which it has been
  called.\<close>

definition mainStart :: ksched where
  "mainStart = \<lparr>eflags = 2, tcb = (\<lambda>_. zeroTask), curThread = 0xc009e000, mainThread = 0,
     idleThread = 0, threadReadyList = [], threadAllList = [], kstack = (\<lambda>_. []),
     semas = (\<lambda>_. semaInit 1), holder = (\<lambda>_. 0), holderRepeatTimes = (\<lambda>_. 0), timerTicks = 0,
     pidBitMap = \<lparr>bm_length = 0, startAddr = []\<rparr>, pidStart = 0, cr3 = 0x100000, tssEsp0 = 0,
     kv2p = (\<lambda>a. a - 0xc0000000)\<rparr>"

definition worker :: TaskStruct where
  "worker = zeroTask\<lparr>status := TASK_READY, priority := 4, ticks := 4, stackMagicNum := STACK_MAGIC_NUMBER\<rparr>"

definition bootedState :: ksched where
  "bootedState = mainStart\<lparr>tcb := (\<lambda>t. if t = 1 then worker\<lparr>status := TASK_RUNNING\<rparr> else worker),
     curThread := 1, mainThread := 1, idleThread := 2, threadReadyList := [2], threadAllList := [1, 2],
     kstack := (\<lambda>t. if t = 2 then [FIntr INTR_ON] else [])\<rparr>"

lemma booted_bootedState: "booted bootedState"
  by (simp add: booted_def bootedState_def mainStart_def locksInit_def worker_def)



text \<open>C1: from a state threadInit leaves, no interleaving of lock, unlock, wait, notify, yield, thread
  starts and timer interrupts makes an assertion of the kernel fail: every call a thread may make,
  every continuation of a suspended call and every timer interrupt completes.\<close>

theorem sync_never_panics:
  assumes "booted s0" "kreach s0 s1" "allowed act s1"
  shows "\<exists>s2. kexec act s1 = Inr s2"
  using kexec_ok [OF kreach_kinv [OF assms(2) kinv_boot [OF assms(1)]] assms(3)] by blast

theorem sync_never_panics_witness:
  "\<exists>s2. kexec (ALock ConsoleLock) bootedState = Inr s2"
proof (rule sync_never_panics [OF booted_bootedState kreach_init])
  show "allowed (ALock ConsoleLock) bootedState"
    by (simp add: bootedState_def mainStart_def noOverflow_def)
qed

text \<open>Three threads besides the idle one contend for the console lock: the main thread takes it,
  two others block on it, and the main thread gives it back.\<close>

definition contention :: "kact list" where
  "contention = [ALock ConsoleLock, AResume, AStart 3 worker, AStart 4 worker,
     AYield, AResume, AIdle, AResume, ALock ConsoleLock, AResume, ALock ConsoleLock,
     AResume, AUnlock ConsoleLock, AResume]"

lemmas kexec_eval = lockLock_def semaDown_def semaLoop_def pushFrame_def popFrame_def updSema_def
  updTask_def setHolder_def kresume_def lockAcquired_def lockUnlockStart_def lockRelease_def
  semaUp_def threadUnblock_def threadBlock_def threadYield_def schedule_def requeueCurrent_def
  switchNext_def processActivate_def pageDirActivate_def updateTSSEsp_def idleThreadFunc_def
  threadEnqueue_def noOverflow_def setIntrStatus_def getIntrStatus_def enableIntr_def
  disableIntr_def EFLAGS_IF_def Let_def

lemma contention_run:
  "case kruns contention bootedState of Inl _ \<Rightarrow> False
   | Inr s \<Rightarrow> val (semas s ConsoleLock) = 1 \<and> blockedList (semas s ConsoleLock) \<noteq> []"
  by (simp add: contention_def bootedState_def mainStart_def worker_def zeroTask_def semaInit_def kexec_eval)

text \<open>C2: mutual exclusion: in every reachable state at most one thread owns a lock, that is, is its
  holder or is between semaDown and the store of holder or between its release and semaUp; and the
  semaphore of the lock is 0 exactly when some thread owns it.\<close>

theorem lock_mutual_exclusion:
  assumes "booted s0" "kreach s0 s1"
  shows "(\<forall>t u. owns s1 l t \<and> owns s1 l u \<longrightarrow> t = u) \<and> ((\<exists>t. owns s1 l t) \<longleftrightarrow> val (semas s1 l) = 0)"
  using owns_unique owns_iff_taken kreach_kinv [OF assms(2) kinv_boot [OF assms(1)]] by blast

theorem lock_mutual_exclusion_witness:
  "\<exists>s1. kruns contention bootedState = Inr s1 \<and> \<not> (\<exists>t. owns s1 ConsoleLock t)"
proof -
  obtain s1 where s1: "kruns contention bootedState = Inr s1" "val (semas s1 ConsoleLock) = 1"
    using contention_run by (auto split: sum.splits)
  then show ?thesis
    using lock_mutual_exclusion [OF booted_bootedState kruns_kreach [OF kreach_init s1(1)], of ConsoleLock]
    by auto
qed

text \<open>C3: no lost wake-up: when a lock is free and threads are on its blocked list, some thread that
  is not blocked or waiting is about to try to take the lock again.\<close>

theorem lock_no_lost_wakeup:
  assumes "booted s0" "kreach s0 s1" "val (semas s1 l) = 1" "blockedList (semas s1 l) \<noteq> []"
  shows "\<exists>t \<in> set (threadAllList s1). phases s1 t = PDown l \<and>
    (statusOf s1 t = TASK_READY \<or> statusOf s1 t = TASK_RUNNING)"
proof -
  have inv: "kinv s1" using kreach_kinv [OF assms(2) kinv_boot [OF assms(1)]] .
  obtain t where t: "t \<in> set (threadAllList s1)" "phases s1 t = PDown l" "\<not> parked (statusOf s1 t)"
    using lockInvD(9) [OF lockInv_of [OF inv] assms(3,4)] by blast
  moreover have "statusOf s1 t \<noteq> TASK_HANGING" "statusOf s1 t \<noteq> TASK_DIED"
    using kinv_D(1) [OF inv] t(1) by (auto simp: schedInv_def schedPre_def)
  ultimately show ?thesis by (cases "statusOf s1 t") auto
qed

theorem lock_no_lost_wakeup_witness:
  "\<exists>s1. kruns contention bootedState = Inr s1 \<and>
     (\<exists>t \<in> set (threadAllList s1). phases s1 t = PDown ConsoleLock)"
proof -
  obtain s1 where s1: "kruns contention bootedState = Inr s1" "val (semas s1 ConsoleLock) = 1"
    "blockedList (semas s1 ConsoleLock) \<noteq> []"
    using contention_run by (auto split: sum.splits)
  then show ?thesis
    using lock_no_lost_wakeup [OF booted_bootedState kruns_kreach [OF kreach_init s1(1)] s1(2,3)] by auto
qed

text \<open>C4: every thread is in exactly one place: the current thread is the only running one, the
  ready list holds each ready thread once and nothing else, and each blocked or waiting thread
  other than the idle thread is on the list of a lock that can wake it.\<close>

theorem threads_in_one_place:
  assumes "booted s0" "kreach s0 s1" "t \<in> set (threadAllList s1)"
  shows "(statusOf s1 t = TASK_RUNNING \<longleftrightarrow> t = curThread s1) \<and>
    count_list (threadReadyList s1) t = (if statusOf s1 t = TASK_READY then 1 else 0) \<and>
    (t \<noteq> idleThread s1 \<and> statusOf s1 t = TASK_BLOCKED \<longrightarrow> (\<exists>l. t \<in> set (blockedList (semas s1 l)))) \<and>
    (t \<noteq> idleThread s1 \<and> statusOf s1 t = TASK_WAITING \<longrightarrow> (\<exists>l. t \<in> set (waitingList (semas s1 l))))"
proof -
  have inv: "kinv s1" using kreach_kinv [OF assms(2) kinv_boot [OF assms(1)]] .
  have p: "schedPre s1" "statusOf s1 (curThread s1) = TASK_RUNNING"
    using kinv_D(1) [OF inv] by (simp_all add: schedInv_def)
  have d: "count_list xs x = (if x \<in> set xs then 1 else 0)" if "distinct xs" for xs :: "u32 list" and x
    using that by (induction xs) auto
  have "statusOf s1 t = TASK_RUNNING \<longleftrightarrow> t = curThread s1"
    using p assms(3) unfolding schedPre_def by auto
  moreover have "count_list (threadReadyList s1) t = (if statusOf s1 t = TASK_READY then 1 else 0)"
    using d [OF schedPre_all(4) [OF p(1)]] schedPre_ready [OF p(1), of t] assms(3) by simp
  ultimately show ?thesis using syncV_D(4,5) [OF kinv_D(2) [OF inv] assms(3)] by blast
qed

theorem threads_in_one_place_witness:
  "statusOf bootedState 2 = TASK_RUNNING \<longleftrightarrow> 2 = curThread bootedState"
  using threads_in_one_place [OF booted_bootedState kreach_init, of 2]
  by (simp add: bootedState_def)

end
