(* ===== verification/Stdio.thy ===== *)
theory Stdio
  imports CString
begin

text \<open>
  lib/user/stdio.c, lib/kernel/print.c and lib/kernel/stdio.c: number formatting and \<open>vsprintf\<close>.
  The local digit buffers keep their sizes from the code, so a write past one of them would be
  \<open>OutOfBounds\<close>. A destination is a buffer with the position of the write pointer in it.
\<close>

section \<open>Characters\<close>

abbreviation ch_0 :: u8 where "ch_0 \<equiv> 48"
abbreviation ch_9 :: u8 where "ch_9 \<equiv> 57"
abbreviation ch_x :: u8 where "ch_x \<equiv> 120"
abbreviation ch_d :: u8 where "ch_d \<equiv> 100"
abbreviation ch_c :: u8 where "ch_c \<equiv> 99"
abbreviation ch_s :: u8 where "ch_s \<equiv> 115"
abbreviation ch_minus :: u8 where "ch_minus \<equiv> 45"
abbreviation ch_percent :: u8 where "ch_percent \<equiv> 37"

lemma ch_literals:
  "bytes ''09xdcs-%'' = [ch_0, ch_9, ch_x, ch_d, ch_c, ch_s, ch_minus, ch_percent]"
  by (simp add: bytes_def)

section \<open>Digits\<close>

text \<open>The loop \<open>while (val)\<close>: the least significant digit first, into a fixed-size buffer.\<close>

function digitLoop :: "u32 \<Rightarrow> u32 \<Rightarrow> u8 list \<Rightarrow> nat \<Rightarrow> (u8 list \<times> nat) res" where
  "digitLoop base val buff idx =
     (if val = 0 \<or> base < 2 then Inr (buff, idx)
      else let remain = val mod base; val' = val div base
           in rbind (wr buff idx (ucast remain + ch_0)) (\<lambda>buff'. digitLoop base val' buff' (Suc idx)))"
  by pat_completeness auto
termination
  by (relation "measure (\<lambda>(b, v, _). unat v)")
    (auto simp: unat_div unat_gt_0 word_less_nat_alt not_less intro!: div_less_dividend)

declare digitLoop.simps [simp del]

text \<open>\<open>itoa\<close>: the characters it appends at \<open>*bufPtrAddr\<close>.\<close>

definition itoa :: "u32 \<Rightarrow> u8 list res" where
  "itoa val =
     (if val = 0 then Inr [ch_0]
      else rbind (digitLoop 10 val (replicate 10 0) 0)
        (\<lambda>(buff, idx). Inr (rev (take idx buff))))"

definition hexChar :: "u8 \<Rightarrow> u8" where
  "hexChar c = (if ch_9 < c \<and> c \<noteq> ch_x then c + 7 else c)"

definition itoha :: "u32 \<Rightarrow> u8 list res" where
  "itoha val =
     (if val = 0 then Inr [ch_0, ch_x, ch_0]
      else rbind (digitLoop 16 val (replicate 12 0) 0)
        (\<lambda>(buff, idx). rbind (wr buff idx ch_x)
          (\<lambda>buff. rbind (wr buff (Suc idx) ch_0)
            (\<lambda>buff. Inr (map hexChar (rev (take (Suc (Suc idx)) buff)))))))"

text \<open>\<open>putUint32\<close> and \<open>putUint32Hex\<close> of lib/kernel/print.c, as the characters sent to the screen.\<close>

definition putUint32 :: "u32 \<Rightarrow> u8 list res" where
  "putUint32 val =
     (if val = 0 then Inr [ch_0]
      else rbind (digitLoop 10 val (replicate 10 0) 0)
        (\<lambda>(buff, idx). Inr (rev (take idx buff))))"

definition putUint32Hex :: "u32 \<Rightarrow> u8 list res" where
  "putUint32Hex val =
     (if val = 0 then Inr [ch_0, ch_x, ch_0]
      else rbind (digitLoop 16 val (replicate 8 0) 0)
        (\<lambda>(buff, idx). Inr ([ch_0, ch_x] @
           map (\<lambda>c. if ch_9 < c then c + 7 else c) (rev (take idx buff)))))"

fun putString :: "u8 list \<Rightarrow> u8 list res" where
  "putString [] = Inl OutOfBounds"
| "putString (c # s) = (if c = 0 then Inr [] else rbind (putString s) (\<lambda>r. Inr (c # r)))"

section \<open>vsprintf\<close>

text \<open>A variadic argument: a 32-bit value or a pointer to a string.\<close>

datatype va_arg = VInt u32 | VStr "u8 list"

fun putc :: "u8 \<Rightarrow> u8 list \<times> nat \<Rightarrow> (u8 list \<times> nat) res" where
  "putc c (buf, p) = rbind (wr buf p c) (\<lambda>buf'. Inr (buf', Suc p))"

fun puts :: "u8 list \<Rightarrow> u8 list \<times> nat \<Rightarrow> (u8 list \<times> nat) res" where
  "puts [] d = Inr d"
| "puts (c # cs) d = rbind (putc c d) (puts cs)"

definition directive :: "u8 \<Rightarrow> va_arg list \<Rightarrow> u8 list \<times> nat \<Rightarrow> (va_arg list \<times> (u8 list \<times> nat)) res" where
  "directive c ap d =
     (if c = ch_d then
        (case ap of VInt v # ap' \<Rightarrow>
           (if sint v < 0
            then rbind (putc ch_minus d) (\<lambda>d. rbind (itoa (0 - v)) (\<lambda>t. rbind (puts t d) (\<lambda>d. Inr (ap', d))))
            else rbind (itoa v) (\<lambda>t. rbind (puts t d) (\<lambda>d. Inr (ap', d))))
         | _ \<Rightarrow> Inl OutOfBounds)
      else if c = ch_x then
        (case ap of VInt v # ap' \<Rightarrow> rbind (itoha v) (\<lambda>t. rbind (puts t d) (\<lambda>d. Inr (ap', d)))
         | _ \<Rightarrow> Inl OutOfBounds)
      else if c = ch_c then
        (case ap of VInt v # ap' \<Rightarrow> rbind (putc (ucast v) d) (\<lambda>d. Inr (ap', d))
         | _ \<Rightarrow> Inl OutOfBounds)
      else if c = ch_s then
        (case ap of VStr s # ap' \<Rightarrow>
           (case d of (buf, p) \<Rightarrow>
              rbind (strcpy (drop p buf) s) (\<lambda>t. rbind (strlen s) (\<lambda>n. Inr (ap', (take p buf @ t, p + n)))))
         | _ \<Rightarrow> Inl OutOfBounds)
      else rbind (putc c d) (\<lambda>d. Inr (ap, d)))"

fun fmtLoop :: "u8 list \<Rightarrow> va_arg list \<Rightarrow> u8 list \<times> nat \<Rightarrow> (u8 list \<times> nat) res" where
  "fmtLoop [] ap d = Inl OutOfBounds"
| "fmtLoop [c] ap d =
     (if c = 0 then Inr d
      else if c \<noteq> ch_percent then rbind (putc c d) (\<lambda>_. Inl OutOfBounds)
      else Inl OutOfBounds)"
| "fmtLoop (c # c' # fmt) ap d =
     (if c = 0 then Inr d
      else if c \<noteq> ch_percent then rbind (putc c d) (fmtLoop (c' # fmt) ap)
      else rbind (directive c' ap d) (\<lambda>(ap', d'). fmtLoop fmt ap' d'))"

definition vsprintf :: "u8 list \<Rightarrow> u8 list \<Rightarrow> va_arg list \<Rightarrow> (nat \<times> u8 list) res" where
  "vsprintf buf format ap =
     rbind (fmtLoop format ap (buf, 0))
       (\<lambda>(buf', p). rbind (strlen buf') (\<lambda>n. Inr (n, buf')))"

definition sprintf :: "u8 list \<Rightarrow> u8 list \<Rightarrow> va_arg list \<Rightarrow> u8 list res" where
  "sprintf buf format ap = rbind (vsprintf buf format ap) (\<lambda>(n, buf'). Inr buf')"

text \<open>\<open>printf\<close> (user) and \<open>printk\<close> (kernel): the text handed to the console.\<close>

definition printf :: "u8 list \<Rightarrow> va_arg list \<Rightarrow> u8 list res" where
  "printf format ap =
     rbind (vsprintf (replicate 1024 0) format ap)
       (\<lambda>(n, buf). rbind (strlen buf) (\<lambda>n. Inr (take n buf)))"

definition printk :: "u8 list \<Rightarrow> va_arg list \<Rightarrow> u8 list res" where
  "printk format ap =
     rbind (vsprintf (replicate 512 0) format ap) (\<lambda>(n, buf). putString buf)"

section \<open>Round trip of the number formats\<close>

fun parse_digits :: "nat \<Rightarrow> (u8 \<Rightarrow> nat) \<Rightarrow> nat \<Rightarrow> u8 list \<Rightarrow> nat" where
  "parse_digits b f acc [] = acc"
| "parse_digits b f acc (c # cs) = parse_digits b f (acc * b + f c) cs"

definition dec_val :: "u8 \<Rightarrow> nat" where
  "dec_val c = unat c - 48"

definition hex_val :: "u8 \<Rightarrow> nat" where
  "hex_val c = (if unat c \<le> 57 then unat c - 48 else unat c - 55)"

definition atoi :: "u8 list \<Rightarrow> nat" where
  "atoi s = parse_digits 10 dec_val 0 s"

definition atoh :: "u8 list \<Rightarrow> nat option" where
  "atoh s = (case s of a # b # r \<Rightarrow>
      (if a = ch_0 \<and> b = ch_x then Some (parse_digits 16 hex_val 0 r) else None) | _ \<Rightarrow> None)"

text \<open>The value of a digit list that has the least significant digit first.\<close>

fun lsd_val :: "nat \<Rightarrow> (u8 \<Rightarrow> nat) \<Rightarrow> u8 list \<Rightarrow> nat" where
  "lsd_val b f [] = 0"
| "lsd_val b f (c # cs) = f c + b * lsd_val b f cs"

lemma parse_digits_append:
  "parse_digits b f acc (xs @ ys) = parse_digits b f (parse_digits b f acc xs) ys"
  by (induction xs arbitrary: acc) auto

lemma parse_digits_rev: "parse_digits b f 0 (rev ds) = lsd_val b f ds"
  by (induction ds) (simp_all add: parse_digits_append mult.commute)

text \<open>The loop writes one digit per division and fits when \<open>val < base ^ room\<close>.\<close>

lemma digitLoop_spec:
  assumes "2 \<le> base" "base \<le> 16" "unat val < unat base ^ room" "idx + room \<le> length buff"
  shows "\<exists>ds. digitLoop base val buff idx =
      Inr (take idx buff @ ds @ drop (idx + length ds) buff, idx + length ds) \<and>
    length ds \<le> room \<and> (\<forall>c \<in> set ds. \<exists>k < unat base. c = of_nat k + ch_0) \<and>
    lsd_val (unat base) dec_val ds = unat val"
  using assms
proof (induction base val buff idx arbitrary: room rule: digitLoop.induct)
  case (1 base val buff idx)
  show ?case
  proof (cases "val = 0")
    case True
    then have "digitLoop base val buff idx = Inr (buff, idx)" by (subst digitLoop.simps) simp
    then show ?thesis using True by (intro exI [of _ "[]"]) simp
  next
    case False
    have b: "\<not> base < 2" "2 \<le> unat base" "unat base \<le> 16"
      using "1.prems"(1,2) by (auto simp: word_le_nat_alt not_less)
    obtain room' where room: "room = Suc room'"
      using False "1.prems"(3) by (cases room) (auto simp: unat_gt_0 [symmetric])
    let ?c = "ucast (val mod base) + ch_0 :: u8"
    let ?buff = "buff[idx := ?c]"
    have small: "unat val div unat base < unat base ^ room'"
      using "1.prems"(3) b(2) unfolding room by (simp add: less_mult_imp_div_less mult.commute)
    then obtain ds where ds: "digitLoop base (val div base) ?buff (Suc idx) =
        Inr (take (Suc idx) ?buff @ ds @ drop (Suc idx + length ds) ?buff, Suc idx + length ds)"
      "length ds \<le> room'" "\<forall>c \<in> set ds. \<exists>k < unat base. c = of_nat k + ch_0"
      "lsd_val (unat base) dec_val ds = unat (val div base)"
      using "1.IH" [of "val mod base" "val div base" ?buff room'] False b "1.prems" room
      by (auto simp: unat_div)
    have r: "unat (val mod base) < unat base" using b(2) by (simp add: unat_mod)
    have c: "?c = of_nat (unat (val mod base)) + ch_0" by (simp add: of_nat_unat)
    have "unat ?c = unat (val mod base) + 48"
      using r b(3) unfolding c by (simp only: unat_word_ariths unat_of_nat) simp
    then have "dec_val ?c = unat (val mod base)" by (simp add: dec_val_def)
    then have "lsd_val (unat base) dec_val (?c # ds) = unat val"
      using ds(4) by (simp add: unat_div unat_mod)
    moreover have "digitLoop base val buff idx =
        Inr (take idx buff @ (?c # ds) @ drop (idx + length (?c # ds)) buff, idx + length (?c # ds))"
      using ds(1) False b(1) "1.prems"(4) room
      by (simp add: digitLoop.simps [of base val] Let_def take_Suc_conv_app_nth)
    moreover have "\<exists>k < unat base. ?c = of_nat k + ch_0" using r c by blast
    then have "\<forall>c \<in> set (?c # ds). \<exists>k < unat base. c = of_nat k + ch_0"
      using ds(3) by (simp only: list.set ball_simps)
    moreover have "length (?c # ds) \<le> room" using ds(2) room by simp
    ultimately show ?thesis by blast
  qed
qed

lemma u8_digit: "k < 16 \<Longrightarrow> unat (of_nat k + ch_0 :: u8) = k + 48"
  by (simp add: unat_word_ariths unat_of_nat take_bit_nat_eq_self)

lemma u32_lt_pow10: "unat (v :: u32) < unat (10 :: u32) ^ 10"
  by (rule less_trans [OF unat_less_u32]) simp

lemma u32_lt_pow16: "unat (v :: u32) < unat (16 :: u32) ^ 8"
  by (rule less_le_trans [OF unat_less_u32]) simp

lemma itoa_ok:
  "\<exists>s. itoa v = Inr s \<and> atoi s = unat v \<and> s \<noteq> [] \<and> length s \<le> 10 \<and>
    (\<forall>c \<in> set s. ch_0 \<le> c \<and> c \<le> ch_9)"
proof (cases "v = 0")
  case True
  then show ?thesis by (simp add: itoa_def atoi_def dec_val_def)
next
  case False
  obtain ds where ds: "digitLoop 10 v (replicate 10 0) 0 =
      Inr (ds @ drop (length ds) (replicate 10 0), length ds)"
    "length ds \<le> 10" "\<forall>c \<in> set ds. \<exists>k < 10. c = of_nat k + ch_0"
    "lsd_val 10 dec_val ds = unat v"
    using digitLoop_spec [of 10 v 10 0 "replicate 10 0"] u32_lt_pow10 [of v] by auto
  have "ds \<noteq> []" using ds(4) False by (auto simp: unat_gt_0 [symmetric])
  moreover have "ch_0 \<le> c \<and> c \<le> ch_9" if "c \<in> set ds" for c
    using ds(3) that u8_digit by (fastforce simp: word_le_nat_alt)
  ultimately show ?thesis
    using False ds by (simp add: itoa_def atoi_def parse_digits_rev)
qed

lemma hexChar_table: "\<forall>k \<in> {0..<16 :: nat}. hex_val (hexChar (of_nat k + ch_0)) = k"
  by code_simp

lemma hexChar_digit: "k < 16 \<Longrightarrow> hex_val (hexChar (of_nat k + ch_0)) = k"
  using hexChar_table by simp

lemma lsd_val_hex:
  "\<forall>c \<in> set ds. \<exists>k < 16. c = of_nat k + ch_0 \<Longrightarrow>
   lsd_val 16 hex_val (map hexChar ds) = lsd_val 16 dec_val ds"
proof (induction ds)
  case (Cons c ds)
  then obtain k where k: "k < 16" "c = of_nat k + ch_0" by auto
  then have "dec_val c = k" using u8_digit by (simp add: dec_val_def)
  then show ?case using Cons k hexChar_digit by simp
qed simp

lemma itoha_ok: "\<exists>s. itoha v = Inr s \<and> atoh s = Some (unat v) \<and> length s \<le> 10"
proof (cases "v = 0")
  case True
  then show ?thesis by (simp add: itoha_def atoh_def hex_val_def)
next
  case False
  obtain ds where ds: "digitLoop 16 v (replicate 12 0) 0 =
      Inr (ds @ drop (length ds) (replicate 12 0), length ds)"
    "length ds \<le> 8" "\<forall>c \<in> set ds. \<exists>k < 16. c = of_nat k + ch_0"
    "lsd_val 16 dec_val ds = unat v"
    using digitLoop_spec [of 16 v 8 0 "replicate 12 0"] u32_lt_pow16 [of v] by auto
  obtain m where m: "12 - length ds = Suc (Suc m)"
    using ds(2) that [of "10 - length ds"] by simp
  have "itoha v = Inr ([ch_0, ch_x] @ map hexChar (rev ds))"
    using False ds(1,2) m by (simp add: itoha_def list_update_append hexChar_def)
  moreover have "parse_digits 16 hex_val 0 (map hexChar (rev ds)) = unat v"
    using ds(3,4) by (simp add: rev_map [symmetric] parse_digits_rev lsd_val_hex)
  ultimately show ?thesis using ds(2) by (simp add: atoh_def)
qed

section \<open>vsprintf against a reference rendering\<close>

text \<open>The text of one directive, and of a whole format (without its terminator).\<close>

definition piece :: "u8 \<Rightarrow> va_arg list \<Rightarrow> (u8 list \<times> va_arg list) option" where
  "piece c ap =
     (if c = ch_d then
        (case ap of VInt v # ap' \<Rightarrow>
           Some (if sint v < 0 then ch_minus # projr (itoa (- v)) else projr (itoa v), ap') | _ \<Rightarrow> None)
      else if c = ch_x then (case ap of VInt v # ap' \<Rightarrow> Some (projr (itoha v), ap') | _ \<Rightarrow> None)
      else if c = ch_c then (case ap of VInt v # ap' \<Rightarrow> Some ([ucast v], ap') | _ \<Rightarrow> None)
      else if c = ch_s then
        (case ap of VStr s # ap' \<Rightarrow> if is_cstr s then Some (cstr s, ap') else None | _ \<Rightarrow> None)
      else Some ([c], ap))"

fun render :: "u8 list \<Rightarrow> va_arg list \<Rightarrow> u8 list option" where
  "render [] ap = Some []"
| "render [c] ap = (if c = ch_percent then None else Some [c])"
| "render (c # c' # fmt) ap =
     (if c \<noteq> ch_percent then map_option ((#) c) (render (c' # fmt) ap)
      else case piece c' ap of None \<Rightarrow> None
        | Some (t, ap') \<Rightarrow> map_option ((@) t) (render fmt ap'))"

lemma puts_ok:
  "length t \<le> k \<Longrightarrow>
   puts t (w @ replicate k 0, length w) = Inr (w @ t @ replicate (k - length t) 0, length w + length t)"
proof (induction t arbitrary: w k)
  case (Cons c t)
  then obtain k' where k: "k = Suc k'" by (cases k) auto
  then show ?case using Cons.IH [of k' "w @ [c]"] Cons.prems by (simp add: list_update_append)
qed simp

lemma putc_ok:
  "0 < k \<Longrightarrow> putc c (w @ replicate k 0, length w) = Inr ((w @ [c]) @ replicate (k - 1) 0, Suc (length w))"
  using puts_ok [of "[c]" k w] by simp

declare putc.simps [simp del]

lemma directive_ok:
  assumes "piece c ap = Some (t, ap')" "length t < k"
  shows "directive c ap (w @ replicate k 0, length w) =
    Inr (ap', (w @ t @ replicate (k - length t) 0, length w + length t))"
proof -
  have "\<forall>v. \<exists>s. itoa v = Inr s" "\<forall>v. \<exists>s. itoha v = Inr s" using itoa_ok itoha_ok by blast+
  then obtain n h where n: "\<And>v. itoa v = Inr (n v)" and h: "\<And>v. itoha v = Inr (h v)"
    by metis
  consider "c = ch_d" | "c = ch_x" | "c = ch_c" | "c = ch_s" | "c \<notin> {ch_d, ch_x, ch_c, ch_s}" by auto
  then show ?thesis
  proof cases
    case 1
    then obtain v where ap: "ap = VInt v # ap'"
      using assms(1) by (auto simp: piece_def split: list.splits va_arg.splits)
    show ?thesis
    proof (cases "sint v < 0")
      case True
      then have "t = ch_minus # n (- v)" using assms(1) 1 ap n by (simp add: piece_def)
      then show ?thesis
        using 1 ap True n assms(2) putc_ok [of k ch_minus w] puts_ok [of "n (- v)" "k - 1" "w @ [ch_minus]"]
        by (simp add: directive_def)
    next
      case False
      then have "t = n v" using assms(1) 1 ap n by (simp add: piece_def)
      then show ?thesis using 1 ap False n assms(2) by (simp add: directive_def puts_ok)
    qed
  next
    case 4
    then obtain s where s: "ap = VStr s # ap'" "is_cstr s" "t = cstr s"
      using assms(1) by (auto simp: piece_def split: list.splits va_arg.splits if_splits)
    then have "strcpy (replicate k 0) s = Inr (t @ 0 # replicate (k - Suc (length t)) 0)"
      using assms(2) by (simp add: strcpy_ok)
    moreover have "0 # replicate (k - Suc (length t)) 0 = (replicate (k - length t) 0 :: u8 list)"
      using assms(2) by (simp add: Suc_diff_Suc flip: replicate_Suc)
    ultimately show ?thesis
      using 4 s strlen_ok by (simp add: directive_def)
  qed (use assms h in \<open>auto simp: piece_def directive_def puts_ok putc_ok
         split: list.splits va_arg.splits\<close>)
qed

lemma fmtLoop_render:
  assumes "render fmt ap = Some out" "0 \<notin> set fmt" "length out < k"
  shows "fmtLoop (fmt @ 0 # r) ap (w @ replicate k 0, length w) =
    Inr (w @ out @ replicate (k - length out) 0, length w + length out)"
  using assms
proof (induction fmt ap arbitrary: out w k rule: render.induct)
  case (1 ap)
  then show ?case by (cases r) auto
next
  case (2 c ap)
  then show ?case using putc_ok [of k c w]
    by (cases r) (auto split: if_splits)
next
  case (3 c c' fmt ap)
  show ?case
  proof (cases "c = ch_percent")
    case False
    then obtain out' where out: "render (c' # fmt) ap = Some out'" "out = c # out'"
      using "3.prems"(1) by auto
    then show ?thesis
      using "3.IH"(1) [OF False out(1), of "k - 1" "w @ [c]"] "3.prems" False putc_ok [of k c w]
      by simp
  next
    case True
    then obtain t ap' out' where out: "piece c' ap = Some (t, ap')" "render fmt ap' = Some out'"
      "out = t @ out'"
      using "3.prems"(1) by (auto split: option.splits)
    have "fmtLoop (fmt @ 0 # r) ap' ((w @ t) @ replicate (k - length t) 0, length (w @ t)) =
        Inr ((w @ t) @ out' @ replicate (k - length t - length out') 0, length (w @ t) + length out')"
      using "3.prems" out True by (intro "3.IH"(2) [OF _ out(1)]) auto
    then show ?thesis
      using True out "3.prems" directive_ok [OF out(1), of k w] by simp
  qed
qed

lemma vsprintf_render:
  assumes "render fmt ap = Some out" "0 \<notin> set fmt" "0 \<notin> set out" "length out < k"
  shows "vsprintf (replicate k 0) (fmt @ 0 # r) ap = Inr (length out, out @ replicate (k - length out) 0)"
proof -
  have "fmtLoop (fmt @ 0 # r) ap (replicate k 0, 0) =
      Inr (out @ replicate (k - length out) 0, length out)"
    using fmtLoop_render [OF assms(1,2,4), of r "[]"] by simp
  moreover have "replicate (k - length out) (0 :: u8) = 0 # replicate (k - Suc (length out)) 0"
    using assms(4) by (simp add: Suc_diff_Suc flip: replicate_Suc)
  ultimately show ?thesis using assms(3) by (simp add: vsprintf_def strlen_ok)
qed

section \<open>Properties of the formatting\<close>

text \<open>C11: itoa and itoha write every 32-bit value so that it reads back: the decimal digits (at most 10)
  evaluate to the value, and so do the hexadecimal ones behind 0x; no digit buffer overflows.\<close>

theorem itoa_round_trip:
  "\<exists>s t. itoa v = Inr s \<and> atoi s = unat v \<and> length s \<le> 10 \<and>
     itoha v = Inr t \<and> atoh t = Some (unat v) \<and> length t \<le> 10"
  using itoa_ok [of v] itoha_ok [of v] by blast

text \<open>C10: vsprintf into a zeroed buffer that is longer than the output writes exactly the rendering of
  the format and returns its length.\<close>

theorem vsprintf_renders:
  assumes "render fmt ap = Some out" "0 \<notin> set fmt" "0 \<notin> set out" "length out < k"
  shows "vsprintf (replicate k 0) (fmt @ 0 # r) ap = Inr (length out, out @ replicate (k - length out) 0)"
  using assms by (rule vsprintf_render)

theorem vsprintf_renders_witness:
  "vsprintf (replicate 8 0) (bytes ''n=%d'' @ [0]) [VInt (- 12)] = Inr (5, bytes ''n=-12'' @ replicate 3 0)"
  using vsprintf_renders [of "bytes ''n=%d''" "[VInt (- 12)]" "bytes ''n=-12''" 8 "[]"]
  by (simp add: bytes_def) code_simp

text \<open>vsprintf does not terminate its output: into a buffer that held a longer string before, the
  old tail stays in the result, and the returned length counts it.\<close>

theorem vsprintf_keeps_old_tail:
  assumes "0 \<notin> set fmt" "ch_percent \<notin> set fmt" "length fmt \<le> length old" "0 \<notin> set old"
  shows "vsprintf (old @ 0 # rest) (fmt @ [0]) ap =
    Inr (length old, fmt @ drop (length fmt) old @ 0 # rest)"
proof -
  have l: "fmtLoop (fmt @ [0]) ap (w @ buf, length w) = Inr (w @ fmt @ drop (length fmt) buf, length w + length fmt)"
    if "0 \<notin> set fmt" "ch_percent \<notin> set fmt" "length fmt \<le> length buf" for fmt w buf
    using that
  proof (induction fmt arbitrary: w buf)
    case (Cons c fmt)
    obtain b buf' where b: "buf = b # buf'" using Cons.prems by (cases buf) auto
    obtain d ds where d: "fmt @ [0] = d # ds" by (cases fmt) auto
    have "(w @ b # buf')[length w := c] = (w @ [c]) @ buf'" by simp
    then show ?case using Cons.IH [where w = "w @ [c]" and buf = buf'] Cons.prems b d by (simp add: putc.simps)
  qed simp
  have "is_cstr (fmt @ drop (length fmt) old @ 0 # rest)" by simp
  moreover have "cstr (fmt @ drop (length fmt) old @ 0 # rest) = fmt @ drop (length fmt) old"
    using cstr_append_0 [of "fmt @ drop (length fmt) old" rest] assms(1,4) in_set_dropD by fastforce
  ultimately have n: "strlen (fmt @ drop (length fmt) old @ 0 # rest) = Inr (length old)"
    using assms(3) by (simp add: strlen_ok)
  show ?thesis
    using l [OF assms(1,2), of "old @ 0 # rest" "[]"] assms(3) n by (simp add: vsprintf_def)
qed

theorem vsprintf_keeps_old_tail_witness:
  "vsprintf (bytes ''hello'' @ [0]) (bytes ''ab'' @ [0]) [] = Inr (5, bytes ''abllo'' @ [0])"
  using vsprintf_keeps_old_tail [of "bytes ''ab''" "bytes ''hello''" "[]" "[]"]
  by (simp add: bytes_def)

end
