(* ===== verification/IoQueue.thy ===== *)
theory IoQueue
  imports SyncInv Stdio
begin

text \<open>
  The ring buffer of lib/structure/ioqueue.c and the console of device/console.c: the data a
  critical section works on, the operations with their lock, and the refinement of the ring to a
  bounded first-in first-out queue.
\<close>

section \<open>The ring buffer (lib/structure/ioqueue.c)\<close>

abbreviation (input) IOQUEUE_BUF_SIZE :: nat where "IOQUEUE_BUF_SIZE \<equiv> 10"

text \<open>\<open>producer\<close> and \<open>consumer\<close> are written by the initialisation only. Head and tail are int32
  fields that stay in 0..9.\<close>

record IOQueue =
  producer :: u32
  consumer :: u32
  qbuf :: "u8 list"
  qhead :: u32
  qtail :: u32
  isFull :: bool
  isEmpty :: bool

definition nextPos :: "u32 \<Rightarrow> u32" where
  "nextPos pos = (pos + 1) mod 10"

text \<open>\<open>ioQueueInit\<close> apart from its lock; the bytes of the buffer keep what they hold.\<close>

definition ioQueueInitData :: "IOQueue \<Rightarrow> IOQueue" where
  "ioQueueInitData q = q\<lparr>producer := NULLPTR, consumer := NULLPTR, qhead := 0, qtail := 0,
     isEmpty := True, isFull := False\<rparr>"

definition ioQueueIsFull :: "IOQueue \<Rightarrow> bool" where
  "ioQueueIsFull q = isFull q"

definition ioQueueIsEmpty :: "IOQueue \<Rightarrow> bool" where
  "ioQueueIsEmpty q = isEmpty q"

text \<open>What \<open>ioQueuePutChar\<close> and \<open>ioQueueGetChar\<close> do between taking the lock and notifying; a full
  (empty) queue sends the caller into \<open>lockWait\<close>.\<close>

definition ioqPut :: "u8 \<Rightarrow> IOQueue \<Rightarrow> IOQueue res" where
  "ioqPut elem q =
     (if ioQueueIsFull q then Inl Blocks
      else rbind (wr (qbuf q) (unat (qhead q)) elem) (\<lambda>b.
        let q = q\<lparr>qbuf := b, qhead := nextPos (qhead q), isEmpty := False\<rparr>
        in Inr (if qhead q = qtail q then q\<lparr>isFull := True\<rparr> else q)))"

definition ioqGet :: "IOQueue \<Rightarrow> (u8 \<times> IOQueue) res" where
  "ioqGet q =
     (if ioQueueIsEmpty q then Inl Blocks
      else rbind (rd (qbuf q) (unat (qtail q))) (\<lambda>res.
        let q = q\<lparr>qtail := nextPos (qtail q), isFull := False\<rparr>
        in Inr (res, if qtail q = qhead q then q\<lparr>isEmpty := True\<rparr> else q)))"

record kio = ksched +
  keyboardBuf :: IOQueue
  ctrlStatus :: bool
  shiftStatus :: bool
  altStatus :: bool
  capsLockStatus :: bool
  extScanCode :: bool
  screen :: "u8 list"

definition ioQueueInit :: "'a kio_scheme \<Rightarrow> 'a kio_scheme" where
  "ioQueueInit s = lockInit KeyBoardLock (s\<lparr>keyboardBuf := ioQueueInitData (keyboardBuf s)\<rparr>)"

definition ioQueuePutChar :: "u8 \<Rightarrow> 'a kio_scheme \<Rightarrow> 'a kio_scheme res" where
  "ioQueuePutChar elem s =
     rbind (lockNow KeyBoardLock s) (\<lambda>s.
     rbind (ioqPut elem (keyboardBuf s)) (\<lambda>q.
     rbind (lockNotifyAll KeyBoardLock (s\<lparr>keyboardBuf := q\<rparr>))
       (lockUnlock KeyBoardLock)))"

definition ioQueueGetChar :: "'a kio_scheme \<Rightarrow> (u8 \<times> 'a kio_scheme) res" where
  "ioQueueGetChar s =
     rbind (lockNow KeyBoardLock s) (\<lambda>s.
     rbind (ioqGet (keyboardBuf s)) (\<lambda>(res, q).
     rbind (lockNotifyAll KeyBoardLock (s\<lparr>keyboardBuf := q\<rparr>)) (\<lambda>s.
     rbind (lockUnlock KeyBoardLock s) (\<lambda>s. Inr (res, s)))))"

section \<open>The console (device/console.c)\<close>

definition consoleInit :: "'a kio_scheme \<Rightarrow> 'a kio_scheme" where
  "consoleInit s = lockInit ConsoleLock s"

text \<open>The characters a printing routine sends go to the screen under the console lock.\<close>

definition consoleOut :: "u8 list res \<Rightarrow> 'a kio_scheme \<Rightarrow> 'a kio_scheme res" where
  "consoleOut out s =
     rbind (lockNow ConsoleLock s) (\<lambda>s.
     rbind out (\<lambda>cs. lockUnlock ConsoleLock (s\<lparr>screen := screen s @ cs\<rparr>)))"

definition consolePutString :: "u8 list \<Rightarrow> 'a kio_scheme \<Rightarrow> 'a kio_scheme res" where
  "consolePutString str s = consoleOut (putString str) s"

definition consolePutUint32 :: "u32 \<Rightarrow> 'a kio_scheme \<Rightarrow> 'a kio_scheme res" where
  "consolePutUint32 v s = consoleOut (putUint32 v) s"

definition consolePutUint32Hex :: "u32 \<Rightarrow> 'a kio_scheme \<Rightarrow> 'a kio_scheme res" where
  "consolePutUint32Hex v s = consoleOut (putUint32Hex v) s"

definition consolePutChar :: "u8 \<Rightarrow> 'a kio_scheme \<Rightarrow> 'a kio_scheme res" where
  "consolePutChar c s = consoleOut (Inr [c]) s"

section \<open>The ring as a bounded queue\<close>

definition ioq_cnt :: "IOQueue \<Rightarrow> nat" where
  "ioq_cnt q = (if isFull q then 10 else (unat (qhead q) + 10 - unat (qtail q)) mod 10)"

definition ioq_inv :: "IOQueue \<Rightarrow> bool" where
  "ioq_inv q \<longleftrightarrow> length (qbuf q) = 10 \<and> unat (qhead q) < 10 \<and> unat (qtail q) < 10 \<and>
     (qhead q = qtail q \<longleftrightarrow> isFull q \<or> isEmpty q) \<and> \<not> (isFull q \<and> isEmpty q)"

definition ioq_list :: "IOQueue \<Rightarrow> u8 list" where
  "ioq_list q = map (\<lambda>i. qbuf q ! ((unat (qtail q) + i) mod 10)) [0..<ioq_cnt q]"

definition ioq_holds :: "IOQueue \<Rightarrow> u8 list \<Rightarrow> bool" where
  "ioq_holds q xs \<longleftrightarrow> ioq_inv q \<and> ioq_list q = xs"

lemma unat_nextPos: "unat p < 10 \<Longrightarrow> unat (nextPos p) = (unat p + 1) mod 10"
  by (simp add: nextPos_def unat_mod unat_plus1_u32)

lemma length_ioq_list [simp]: "length (ioq_list q) = ioq_cnt q"
  by (simp add: ioq_list_def)

lemma mod10:
  "(n :: nat) < 10 \<Longrightarrow> n mod 10 = n" "10 \<le> (n :: nat) \<Longrightarrow> n < 20 \<Longrightarrow> n mod 10 = n - 10"
  by (auto simp: mod_if)

lemma ring_dist:
  fixes h t :: nat
  assumes "h < 10" "t < 10"
  shows "(h + 10 - t) mod 10 = (if t \<le> h then h - t else h + 10 - t)"
    "(h + 1) mod 10 = (if h = 9 then 0 else h + 1)"
    "(t + (h + 10 - t) mod 10) mod 10 = h"
proof -
  show a: "(h + 10 - t) mod 10 = (if t \<le> h then h - t else h + 10 - t)"
    using assms mod10(2) [of "h + 10 - t"] by (cases "t \<le> h") auto
  show "(h + 1) mod 10 = (if h = 9 then 0 else h + 1)"
    using assms by (cases "h = 9") auto
  show "(t + (h + 10 - t) mod 10) mod 10 = h"
    unfolding a using assms mod10(2) [of "h + 10"] by (cases "t \<le> h") auto
qed

text \<open>With positions as numbers: the count from head and tail.\<close>

definition ring_cnt :: "bool \<Rightarrow> nat \<Rightarrow> nat \<Rightarrow> nat" where
  "ring_cnt full h t = (if full then 10 else if t \<le> h then h - t else h + 10 - t)"

lemma ioq_cnt_ring:
  "unat (qhead q) < 10 \<Longrightarrow> unat (qtail q) < 10 \<Longrightarrow>
   ioq_cnt q = ring_cnt (isFull q) (unat (qhead q)) (unat (qtail q))"
  unfolding ioq_cnt_def ring_cnt_def by (simp only: ring_dist(1))

lemma ioq_invD:
  assumes "ioq_inv q"
  shows "length (qbuf q) = 10" "unat (qhead q) < 10" "unat (qtail q) < 10"
    "unat (qhead q) = unat (qtail q) \<longleftrightarrow> isFull q \<or> isEmpty q" "\<not> (isFull q \<and> isEmpty q)"
    "ioq_cnt q = ring_cnt (isFull q) (unat (qhead q)) (unat (qtail q))"
  using assms ioq_cnt_ring [of q] by (simp_all add: ioq_inv_def)

lemma ring_cnt_facts:
  assumes "h < 10" "t < 10" "h = t \<longleftrightarrow> f \<or> e" "\<not> (f \<and> e)"
  shows "ring_cnt f h t \<le> 10" "ring_cnt f h t = 10 \<longleftrightarrow> f" "ring_cnt f h t = 0 \<longleftrightarrow> e"
    "(t + ring_cnt f h t) mod 10 = h"
proof -
  show "ring_cnt f h t \<le> 10" "ring_cnt f h t = 10 \<longleftrightarrow> f" "ring_cnt f h t = 0 \<longleftrightarrow> e"
    using assms unfolding ring_cnt_def by (auto split: if_splits)
  show "(t + ring_cnt f h t) mod 10 = h"
    using assms mod10(2) [of "h + 10"] mod10(2) [of "t + 10"] unfolding ring_cnt_def by (cases "t \<le> h") auto
qed

lemma ioq_cnt_facts:
  assumes "ioq_inv q"
  shows "ioq_cnt q \<le> 10" "ioq_cnt q = 10 \<longleftrightarrow> isFull q" "ioq_cnt q = 0 \<longleftrightarrow> isEmpty q"
    "(unat (qtail q) + ioq_cnt q) mod 10 = unat (qhead q)"
  using ring_cnt_facts [OF ioq_invD(2-5) [OF assms]] ioq_invD(6) [OF assms] by auto

lemma ioqPut_holds:
  assumes q: "ioq_inv q" and nf: "\<not> isFull q"
  shows "\<exists>q'. ioqPut c q = Inr q' \<and> ioq_inv q' \<and> ioq_list q' = ioq_list q @ [c]"
proof -
  note d = ioq_invD [OF q]
  let ?h = "unat (qhead q)" and ?t = "unat (qtail q)"
  have n: "unat (nextPos (qhead q)) = (if ?h = 9 then 0 else ?h + 1)"
    using unat_nextPos [OF d(2)] ring_dist(2) [OF d(2,3)] by simp
  define full where "full \<longleftrightarrow> nextPos (qhead q) = qtail q"
  have fe: "full \<longleftrightarrow> unat (nextPos (qhead q)) = ?t" by (simp add: full_def)
  define q' where "q' = q\<lparr>qbuf := (qbuf q)[?h := c], qhead := nextPos (qhead q), isEmpty := False, isFull := full\<rparr>"
  have put: "ioqPut c q = Inr q'"
    using d(1,2) nf by (auto simp: ioqPut_def ioQueueIsFull_def Let_def q'_def full_def)
  have inv: "ioq_inv q'"
    using d(1-3) n fe by (auto simp: ioq_inv_def q'_def full_def)
  have cnt: "ioq_cnt q' = Suc (ioq_cnt q)"
    using ioq_invD(6) [OF inv] d(2-6) nf n fe unfolding ring_cnt_def q'_def
    by (auto split: if_splits)
  have pos: "(?t + ioq_cnt q) mod 10 = ?h" using ioq_cnt_facts(4) [OF q] by simp
  have lt: "ioq_cnt q < 10" using ioq_cnt_facts(1,2) [OF q] nf by linarith
  have old: "(qbuf q)[?h := c] ! ((?t + i) mod 10) = qbuf q ! ((?t + i) mod 10)" if i: "i < ioq_cnt q" for i
  proof -
    have "(?t + i) mod 10 \<noteq> ?h"
    proof
      assume "(?t + i) mod 10 = ?h"
      then have "(?t + i) mod 10 = (?t + ioq_cnt q) mod 10" using pos by simp
      then show False using i lt d(3) by (auto simp: mod_if split: if_splits)
    qed
    then show ?thesis by simp
  qed
  have "ioq_list q' = map (\<lambda>i. (qbuf q)[?h := c] ! ((?t + i) mod 10)) [0..<Suc (ioq_cnt q)]"
    unfolding ioq_list_def cnt by (simp add: q'_def)
  also have "\<dots> = ioq_list q @ [c]"
    using old pos d(1,2) by (simp add: ioq_list_def)
  finally show ?thesis using put inv by blast
qed

lemma ioqGet_holds:
  assumes q: "ioq_inv q" and l: "ioq_list q = c # cs"
  shows "\<exists>q'. ioqGet q = Inr (c, q') \<and> ioq_inv q' \<and> ioq_list q' = cs"
proof -
  note d = ioq_invD [OF q]
  let ?h = "unat (qhead q)" and ?t = "unat (qtail q)"
  have pos: "0 < ioq_cnt q" using l length_ioq_list [of q] by (metis length_greater_0_conv list.distinct(1))
  have ne: "\<not> isEmpty q" using ioq_cnt_facts(3) [OF q] pos by simp
  have n: "unat (nextPos (qtail q)) = (if ?t = 9 then 0 else ?t + 1)"
    using unat_nextPos [OF d(3)] ring_dist(2) [OF d(3,2)] by simp
  define em where "em \<longleftrightarrow> nextPos (qtail q) = qhead q"
  have ee: "em \<longleftrightarrow> unat (nextPos (qtail q)) = ?h" by (simp add: em_def)
  define q' where "q' = q\<lparr>qtail := nextPos (qtail q), isFull := False, isEmpty := em\<rparr>"
  have hd: "[0..<ioq_cnt q] = 0 # map Suc [0..<ioq_cnt q - 1]"
    using pos by (simp add: upt_conv_Cons map_Suc_upt)
  have c: "c = qbuf q ! ?t" "cs = map (\<lambda>i. qbuf q ! ((?t + Suc i) mod 10)) [0..<ioq_cnt q - 1]"
    using l d(3) unfolding ioq_list_def hd by (simp_all add: comp_def)
  have get: "ioqGet q = Inr (c, q')"
    using d(1,3) ne c(1) by (auto simp: ioqGet_def ioQueueIsEmpty_def Let_def q'_def em_def)
  have inv: "ioq_inv q'"
  proof -
    have "unat (nextPos (qtail q)) < 10" using n d(3) by (simp split: if_splits)
    then show ?thesis using d(1,2) by (simp add: ioq_inv_def q'_def em_def eq_commute [of "qhead q"])
  qed
  have cnt: "ioq_cnt q' = ioq_cnt q - 1"
    using ioq_invD(6) [OF inv] d(2-6) ne n ee pos unfolding ring_cnt_def q'_def
    by (auto split: if_splits)
  have sh: "(unat (nextPos (qtail q)) + i) mod 10 = (?t + Suc i) mod 10" for i
    unfolding unat_nextPos [OF d(3)] by (simp add: mod_add_left_eq)
  have "ioq_list q' = cs"
    unfolding ioq_list_def cnt c(2) by (simp add: q'_def sh)
  then show ?thesis using get inv by blast
qed

interpretation ioq: fifo ioq_holds "\<lambda>_ xs. length xs < IOQUEUE_BUF_SIZE" ioqPut ioqGet
proof unfold_locales
  fix q xs c
  assume h: "ioq_holds q xs" and l: "length xs < IOQUEUE_BUF_SIZE"
  then have q: "ioq_inv q" "ioq_list q = xs" by (simp_all add: ioq_holds_def)
  have "\<not> isFull q" using ioq_cnt_facts(2) [OF q(1)] l q(2) by (metis length_ioq_list nat_less_le)
  then show "\<exists>q'. ioqPut c q = Inr q' \<and> ioq_holds q' (xs @ [c])"
    using ioqPut_holds [OF q(1)] q(2) by (auto simp: ioq_holds_def)
next
  fix q c xs
  assume "ioq_holds q (c # xs)"
  then show "\<exists>q'. ioqGet q = Inr (c, q') \<and> ioq_holds q' xs"
    using ioqGet_holds by (auto simp: ioq_holds_def)
qed

section \<open>The operations with their lock\<close>

lemma intr_kio [simp]:
  "keyboardBuf (setIntrStatus st s) = keyboardBuf s" "keyboardBuf (disableIntr s) = keyboardBuf s"
  "keyboardBuf (updTask t f s) = keyboardBuf s" "keyboardBuf (updSema l g s) = keyboardBuf s"
  "keyboardBuf (setHolder l h n s) = keyboardBuf s"
  by (simp_all add: setIntrStatus_def enableIntr_def disableIntr_def updTask_def updSema_def setHolder_def)

text \<open>Notifying a lock wakes every waiter, the last one first in the ready list.\<close>

lemma notifyLoop_wakes:
  fixes s :: "'a kio_scheme"
  assumes "distinct ts" "\<And>t. t \<in> set ts \<Longrightarrow> statusOf s t = TASK_WAITING \<and> t \<notin> set (threadReadyList s)"
    "waitingList (semas s l) = ts"
  shows "\<exists>s'. notifyLoop l ts s = Inr s' \<and> threadReadyList s' = rev ts @ threadReadyList s \<and>
    semas s' = (semas s)(l := (semas s l)\<lparr>waitingList := []\<rparr>) \<and>
    (\<forall>t \<in> set ts. statusOf s' t = TASK_READY) \<and> (\<forall>t. t \<notin> set ts \<longrightarrow> tcb s' t = tcb s t) \<and>
    holder s' = holder s \<and> holderRepeatTimes s' = holderRepeatTimes s \<and> curThread s' = curThread s \<and>
    keyboardBuf s' = keyboardBuf s \<and> kstack s' = kstack s"
  using assms
proof (induction ts arbitrary: s)
  case Nil
  then have "(semas s)(l := (semas s l)\<lparr>waitingList := []\<rparr>) = semas s" by (cases "semas s l") auto
  then show ?case by simp
next
  case (Cons t ts)
  let ?u = "updSema l (\<lambda>q. q\<lparr>waitingList := ts\<rparr>) s"
  define s1 where "s1 = setIntrStatus (getIntrStatus s)
    ((updTask t (\<lambda>t. t\<lparr>status := TASK_READY\<rparr>) (disableIntr ?u))
      \<lparr>threadReadyList := t # threadReadyList s\<rparr>)"
  have t: "statusOf s t = TASK_WAITING" "t \<notin> set (threadReadyList s)" "t \<notin> set ts" using Cons.prems by auto
  have u: "threadUnblock t ?u = Inr s1" using t by (simp add: threadUnblock_def Let_def s1_def)
  have f: "threadReadyList s1 = t # threadReadyList s" "semas s1 = semas ?u" "tcb s1 = (tcb s)(t := (tcb s t)\<lparr>status := TASK_READY\<rparr>)"
    "holder s1 = holder s" "holderRepeatTimes s1 = holderRepeatTimes s" "curThread s1 = curThread s"
    "keyboardBuf s1 = keyboardBuf s" "kstack s1 = kstack s"
    by (simp_all add: s1_def)
  have "\<exists>s'. notifyLoop l ts s1 = Inr s' \<and> threadReadyList s' = rev ts @ threadReadyList s1 \<and>
    semas s' = (semas s1)(l := (semas s1 l)\<lparr>waitingList := []\<rparr>) \<and>
    (\<forall>t \<in> set ts. statusOf s' t = TASK_READY) \<and> (\<forall>t. t \<notin> set ts \<longrightarrow> tcb s' t = tcb s1 t) \<and>
    holder s' = holder s1 \<and> holderRepeatTimes s' = holderRepeatTimes s1 \<and> curThread s' = curThread s1 \<and>
    keyboardBuf s' = keyboardBuf s1 \<and> kstack s' = kstack s1"
    by (rule Cons.IH) (use Cons.prems t in \<open>auto simp: f\<close>)
  then obtain s' where s': "notifyLoop l ts s1 = Inr s'" "threadReadyList s' = rev ts @ threadReadyList s1"
    "semas s' = (semas s1)(l := (semas s1 l)\<lparr>waitingList := []\<rparr>)"
    "\<forall>t \<in> set ts. statusOf s' t = TASK_READY" "\<forall>t. t \<notin> set ts \<longrightarrow> tcb s' t = tcb s1 t"
    "holder s' = holder s1" "holderRepeatTimes s' = holderRepeatTimes s1" "curThread s' = curThread s1"
    "keyboardBuf s' = keyboardBuf s1" "kstack s' = kstack s1" by blast
  then show ?case using t(3) u f by (intro exI [of _ s']) simp
qed

text \<open>The lock is free: nobody holds it and nobody is blocked on it.\<close>

definition lockFree :: "semaid \<Rightarrow> 'a ksched_scheme \<Rightarrow> bool" where
  "lockFree l s \<longleftrightarrow> val (semas s l) = 1 \<and> blockedList (semas s l) = [] \<and> holder s l = 0 \<and>
     holderRepeatTimes s l = 0 \<and> curThread s \<noteq> 0"

text \<open>The threads waiting for a change of the queue.\<close>

definition waitersOk :: "semaid \<Rightarrow> 'a ksched_scheme \<Rightarrow> bool" where
  "waitersOk l s \<longleftrightarrow> distinct (waitingList (semas s l)) \<and>
     (\<forall>t \<in> set (waitingList (semas s l)). statusOf s t = TASK_WAITING \<and> t \<notin> set (threadReadyList s))"

lemma lockNow_free:
  "lockFree l s \<Longrightarrow> lockNow l s = Inr (setHolder l (curThread s) 1 (updSema l (\<lambda>q. q\<lparr>val := 0\<rparr>) s))"
  by (simp add: lockNow_def lockFree_def Let_def updSema_def)

lemma lockUnlock_last:
  assumes "val (semas s l) = 0" "blockedList (semas s l) = []" "holder s l = curThread s"
    "holderRepeatTimes s l = 1"
  shows "lockUnlock l s = Inr (setIntrStatus (getIntrStatus s) (updSema l (\<lambda>q. q\<lparr>blockedList := [], val := 1\<rparr>)
    (disableIntr (setHolder l 0 0 s))))"
  using assms by (simp add: lockUnlock_def lockRelease_def semaUp_def Let_def updSema_def)

lemma notify_unlock:
  fixes s :: "'a kio_scheme"
  assumes "lockFree l s" "waitersOk l s"
  shows "\<exists>s'. rbind (lockNotifyAll l ((setHolder l (curThread s) 1 (updSema l (\<lambda>q. q\<lparr>val := 0\<rparr>) s))\<lparr>keyboardBuf := q\<rparr>))
      (lockUnlock l) = Inr s' \<and> keyboardBuf s' = q \<and> lockFree l s' \<and> waitingList (semas s' l) = [] \<and>
      (\<forall>m. m \<noteq> l \<longrightarrow> semas s' m = semas s m \<and> holder s' m = holder s m) \<and>
      threadReadyList s' = rev (waitingList (semas s l)) @ threadReadyList s \<and>
      (\<forall>t \<in> set (waitingList (semas s l)). statusOf s' t = TASK_READY) \<and>
      (\<forall>t. t \<notin> set (waitingList (semas s l)) \<longrightarrow> tcb s' t = tcb s t)"
proof -
  let ?a = "(setHolder l (curThread s) 1 (updSema l (\<lambda>q. q\<lparr>val := 0\<rparr>) s))\<lparr>keyboardBuf := q\<rparr>"
  let ?ts = "waitingList (semas s l)"
  have fr: "val (semas s l) = 1" "blockedList (semas s l) = []" "holder s l = 0" "curThread s \<noteq> 0"
    using assms(1) by (simp_all add: lockFree_def)
  obtain b where b: "notifyLoop l ?ts (disableIntr ?a) = Inr b" "threadReadyList b = rev ?ts @ threadReadyList s"
    "semas b = (semas ?a)(l := (semas ?a l)\<lparr>waitingList := []\<rparr>)"
    "\<forall>t \<in> set ?ts. statusOf b t = TASK_READY" "\<forall>t. t \<notin> set ?ts \<longrightarrow> tcb b t = tcb s t"
    "holder b = holder ?a" "holderRepeatTimes b = holderRepeatTimes ?a" "curThread b = curThread s" "keyboardBuf b = q"
    using notifyLoop_wakes [of ?ts "disableIntr ?a" l] assms(2) by (auto simp: waitersOk_def)
  let ?c = "setIntrStatus (getIntrStatus ?a) b"
  have n: "lockNotifyAll l ?a = Inr ?c" using b(1) by (simp add: lockNotifyAll_def Let_def)
  let ?d = "setIntrStatus (getIntrStatus ?c) (updSema l (\<lambda>q. q\<lparr>blockedList := [], val := 1\<rparr>)
    (disableIntr (setHolder l 0 0 ?c)))"
  have "lockUnlock l ?c = Inr ?d"
    by (rule lockUnlock_last) (simp_all add: b fr)
  then show ?thesis
    unfolding n using b fr by (intro exI [of _ ?d]) (simp add: lockFree_def)
qed

lemma ioQueuePutChar_ok:
  fixes s :: "'a kio_scheme"
  assumes "lockFree KeyBoardLock s" "waitersOk KeyBoardLock s" "ioq_holds (keyboardBuf s) xs" "length xs < 10"
  shows "\<exists>s'. ioQueuePutChar c s = Inr s' \<and> ioq_holds (keyboardBuf s') (xs @ [c]) \<and>
    lockFree KeyBoardLock s' \<and> waitingList (semas s' KeyBoardLock) = [] \<and>
    (\<forall>t \<in> set (waitingList (semas s KeyBoardLock)). statusOf s' t = TASK_READY \<and> t \<in> set (threadReadyList s'))"
proof -
  obtain q where q: "ioqPut c (keyboardBuf s) = Inr q" "ioq_holds q (xs @ [c])"
    using ioq.put_R [OF assms(3), of c] assms(4) by auto
  show ?thesis
    using notify_unlock [OF assms(1,2), of q] q by (auto simp: ioQueuePutChar_def lockNow_free [OF assms(1)])
qed

lemma ioQueueGetChar_ok:
  fixes s :: "'a kio_scheme"
  assumes "lockFree KeyBoardLock s" "waitersOk KeyBoardLock s" "ioq_holds (keyboardBuf s) (c # xs)"
  shows "\<exists>s'. ioQueueGetChar s = Inr (c, s') \<and> ioq_holds (keyboardBuf s') xs \<and>
    lockFree KeyBoardLock s' \<and> waitingList (semas s' KeyBoardLock) = [] \<and>
    (\<forall>t \<in> set (waitingList (semas s KeyBoardLock)). statusOf s' t = TASK_READY \<and> t \<in> set (threadReadyList s'))"
proof -
  obtain q where q: "ioqGet (keyboardBuf s) = Inr (c, q)" "ioq_holds q xs"
    using ioq.get_R [OF assms(3)] by auto
  show ?thesis
    using notify_unlock [OF assms(1,2), of q] q
    by (auto simp: ioQueueGetChar_def lockNow_free [OF assms(1)] rbind_assoc [symmetric])
qed

section \<open>Properties of the queue\<close>

definition demoQueue :: IOQueue where
  "demoQueue = ioQueueInitData \<lparr>producer = 7, consumer = 7, qbuf = replicate 10 9, qhead = 3, qtail = 4,
     isFull = True, isEmpty = False\<rparr>"

lemma demoQueue_holds: "ioq_holds demoQueue []"
  by (simp add: ioq_holds_def ioq_inv_def ioq_list_def ioq_cnt_def demoQueue_def ioQueueInitData_def)

text \<open>C9: the ring buffer is a bounded queue of ten characters: what is put into it comes out in the same
  order, behind what it held before, for as long as it is not full.\<close>

theorem ioqueue_fifo_order:
  assumes "ioq_holds q xs" "length xs + length ys \<le> 10"
  shows "\<exists>q1 q2. ioq.put_all ys q = Inr q1 \<and> ioq.get_n (length xs + length ys) q1 = Inr (xs @ ys, q2) \<and>
    ioq_holds q2 []"
proof (rule ioq.put_get_order [OF assms(1)])
  show "ioq.ok_all ys xs" using assms(2) by (induction ys arbitrary: xs) auto
qed

theorem ioqueue_fifo_order_witness:
  "\<exists>q1 q2. ioq.put_all [1, 2, 3] demoQueue = Inr q1 \<and> ioq.get_n 3 q1 = Inr ([1, 2, 3], q2)"
proof -
  have n: "length [] + length [1, 2, 3 :: u8] = 3" "[] @ [1, 2, 3 :: u8] = [1, 2, 3]" by simp_all
  have "\<exists>q1 q2. ioq.put_all [1, 2, 3] demoQueue = Inr q1 \<and> ioq.get_n 3 q1 = Inr ([1, 2, 3], q2) \<and> ioq_holds q2 []"
    by (rule ioqueue_fifo_order [OF demoQueue_holds, of "[1, 2, 3]", unfolded n]) simp
  then show ?thesis by blast
qed

text \<open>C8: with the lock free, ioQueuePutChar on a queue that is not full and ioQueueGetChar on one that is
  not empty return with the lock free again, the queue changed as a queue, and every thread that waited
  for a change of the queue ready to run.\<close>

theorem ioqueue_ops_wake_waiters:
  fixes s :: "'a kio_scheme"
  assumes "lockFree KeyBoardLock s" "waitersOk KeyBoardLock s" "ioq_holds (keyboardBuf s) xs"
  shows "(length xs < 10 \<longrightarrow> (\<exists>s'. ioQueuePutChar c s = Inr s' \<and> ioq_holds (keyboardBuf s') (xs @ [c]) \<and>
       lockFree KeyBoardLock s' \<and> waitingList (semas s' KeyBoardLock) = [] \<and>
       (\<forall>t \<in> set (waitingList (semas s KeyBoardLock)). statusOf s' t = TASK_READY \<and> t \<in> set (threadReadyList s')))) \<and>
    (xs \<noteq> [] \<longrightarrow> (\<exists>s'. ioQueueGetChar s = Inr (hd xs, s') \<and> ioq_holds (keyboardBuf s') (tl xs) \<and>
       lockFree KeyBoardLock s' \<and> waitingList (semas s' KeyBoardLock) = [] \<and>
       (\<forall>t \<in> set (waitingList (semas s KeyBoardLock)). statusOf s' t = TASK_READY \<and> t \<in> set (threadReadyList s'))))"
  using ioQueuePutChar_ok [OF assms, of c] ioQueueGetChar_ok [OF assms(1,2), of "hd xs" "tl xs"] assms(3)
  by (cases xs) auto

definition demoKio :: kio where
  "demoKio = ksched.extend (ksched.truncate bootedState)
     \<lparr>keyboardBuf = demoQueue, ctrlStatus = False, shiftStatus = False, altStatus = False,
      capsLockStatus = False, extScanCode = False, screen = []\<rparr>"

theorem ioqueue_ops_wake_waiters_witness:
  "\<exists>s'. ioQueuePutChar 65 demoKio = Inr s' \<and> ioq_holds (keyboardBuf s') [65]"
proof -
  have "lockFree KeyBoardLock demoKio" "waitersOk KeyBoardLock demoKio" "ioq_holds (keyboardBuf demoKio) []"
    using demoQueue_holds by (simp_all add: lockFree_def waitersOk_def demoKio_def ksched.defs bootedState_def
        mainStart_def semaInit_def)
  from ioqueue_ops_wake_waiters [OF this] show ?thesis by auto
qed

end
