(* ===== verification/Keyboard.thy ===== *)
theory Keyboard
  imports IoQueue
begin

text \<open>
  The keyboard driver of device/keyboard.c: the translation table, the scan code state machine and
  the interrupt handler that feeds the keyboard queue.
\<close>

section \<open>The translation table\<close>

text \<open>\<open>keymap\<close>: for each scan code the character without and with shift.\<close>

definition keymap :: "(u8 \<times> u8) list" where
  "keymap = [
    (0, 0), (27, 27), (49, 33), (50, 64), (51, 35), (52, 36), (53, 37), (54, 94),
    (55, 38), (56, 42), (57, 40), (48, 41), (45, 95), (61, 43), (8, 8), (9, 9),
    (113, 81), (119, 87), (101, 69), (114, 82), (116, 84), (121, 89), (117, 85), (105, 73),
    (111, 79), (112, 80), (91, 123), (93, 125), (13, 13), (0, 0), (97, 65), (115, 83),
    (100, 68), (102, 70), (103, 71), (104, 72), (106, 74), (107, 75), (108, 76), (59, 58),
    (39, 34), (96, 126), (0, 0), (92, 124), (122, 90), (120, 88), (99, 67), (118, 86),
    (98, 66), (110, 78), (109, 77), (44, 60), (46, 62), (47, 63), (0, 0), (42, 42),
    (0, 0), (32, 32), (0, 0)
  ]"

section \<open>The scan code state machine\<close>

text \<open>The static flags of the driver.\<close>

record kbdFlags =
  ctrl :: bool
  shft :: bool
  alt :: bool
  caps :: bool
  ext :: bool

text \<open>The letter-free keys caps lock does not act on.\<close>

definition capsExempt :: "u16 \<Rightarrow> bool" where
  "capsExempt scanCode \<longleftrightarrow> scanCode < 0x0e \<or> scanCode = 0x29 \<or> scanCode = 0x1a \<or> scanCode = 0x1b \<or>
     scanCode = 0x2b \<or> scanCode = 0x27 \<or> scanCode = 0x28 \<or> scanCode = 0x33 \<or>
     scanCode = 0x34 \<or> scanCode = 0x35"

text \<open>The default branch of the switch: the character for an ordinary key.\<close>

definition keyChar :: "kbdFlags \<Rightarrow> u16 \<Rightarrow> u8 res" where
  "keyChar f scanCode =
     (let shift = False;
          shift = (if shft f then \<not> shift else shift);
          shift = (if caps f \<and> \<not> capsExempt scanCode then \<not> shift else shift);
          idx = (ucast (scanCode AND 0x00ff) :: u8)
      in rbind (rd keymap (unat idx)) (\<lambda>p.
         let c = (if shift then snd p else fst p);
             c = (if ctrl f \<and> (c = 108 \<or> c = 76) then 108 - 97 else c);
             c = (if ctrl f \<and> (c = 117 \<or> c = 85) then 117 - 97 else c)
         in Inr c))"

text \<open>\<open>intrKeyBoardHandler\<close> up to the call of \<open>ioQueuePutChar\<close>: the new flags and the character to
  put, 0 for none. The comparisons are those of the code, the unreachable ones included.\<close>

definition kbdStep :: "u8 \<Rightarrow> kbdFlags \<Rightarrow> (kbdFlags \<times> u8) res" where
  "kbdStep byte f =
     (let scanCode = (ucast byte :: u16) in
      if scanCode = 0xe0 then Inr (f\<lparr>ext := True\<rparr>, 0)
      else
       (let scanCode = (if ext f then 0xe800 OR scanCode else scanCode);
            f = (if ext f then f\<lparr>ext := False\<rparr> else f) in
        if scanCode AND 0x0080 \<noteq> 0 then
          (if scanCode = 0x9d \<or> scanCode = 0xe09d then Inr (f\<lparr>ctrl := False\<rparr>, 0)
           else if scanCode = 0xaa \<or> scanCode = 0xb6 then Inr (f\<lparr>shft := False\<rparr>, 0)
           else if scanCode = 0xb8 \<or> scanCode = 0xe0b8 then Inr (f\<lparr>alt := False\<rparr>, 0)
           else Inr (f, 0))
        else if (scanCode > 0x0 \<and> scanCode \<le> 0x3a) \<or> scanCode = 0xe01d \<or> scanCode = 0xe038 then
          (if scanCode = 0x2a \<or> scanCode = 0x36 then Inr (f\<lparr>shft := True\<rparr>, 0)
           else if scanCode = 0x1d \<or> scanCode = 0xe01d then Inr (f\<lparr>ctrl := True\<rparr>, 0)
           else if scanCode = 0x38 \<or> scanCode = 0xe038 then Inr (f\<lparr>alt := True\<rparr>, 0)
           else if scanCode = 0x3a then Inr (if \<not> caps f then f\<lparr>caps := True\<rparr> else f, 0)
           else if scanCode = 0xba then Inr (if caps f then f\<lparr>caps := False\<rparr> else f, 0)
           else rbind (keyChar f scanCode) (\<lambda>c. Inr (f, c)))
        else Inr (f, 0)))"

definition flagsOf :: "'a kio_scheme \<Rightarrow> kbdFlags" where
  "flagsOf s = \<lparr>ctrl = ctrlStatus s, shft = shiftStatus s, alt = altStatus s, caps = capsLockStatus s,
     ext = extScanCode s\<rparr>"

definition setFlags :: "kbdFlags \<Rightarrow> 'a kio_scheme \<Rightarrow> 'a kio_scheme" where
  "setFlags f s = s\<lparr>ctrlStatus := ctrl f, shiftStatus := shft f, altStatus := alt f,
     capsLockStatus := caps f, extScanCode := ext f\<rparr>"

definition intrKeyBoardHandler :: "u8 \<Rightarrow> 'a kio_scheme \<Rightarrow> 'a kio_scheme res" where
  "intrKeyBoardHandler byte s =
     rbind (kbdStep byte (flagsOf s)) (\<lambda>(f, c).
       if c \<noteq> 0 then ioQueuePutChar c (setFlags f s) else Inr (setFlags f s))"

definition keyBoardInit :: "'a kio_scheme \<Rightarrow> 'a kio_scheme" where
  "keyBoardInit s = ioQueueInit s"

text \<open>The driver over a sequence of bytes from the controller: the characters it would queue.\<close>

fun kbdRun :: "u8 list \<Rightarrow> kbdFlags \<Rightarrow> (kbdFlags \<times> u8 list) res" where
  "kbdRun [] f = Inr (f, [])"
| "kbdRun (b # bs) f = rbind (kbdStep b f) (\<lambda>(f, c). rbind (kbdRun bs f)
     (\<lambda>(f, cs). Inr (f, if c \<noteq> 0 then c # cs else cs)))"

section \<open>What the state machine does\<close>

lemma unat_less_u8: "unat (b :: u8) < 256"
  using unsigned_less [of b] by simp

lemma unat_ucast_u16: "unat (ucast (b :: u8) :: u16) = unat b"
  using unat_less_u8 [of b] by (simp add: unsigned_ucast_eq take_bit_nat_eq_self)

lemma ucast_u16_eq:
  assumes "n < 256"
  shows "(ucast (b :: u8) :: u16) = of_nat n \<longleftrightarrow> b = of_nat n"
proof -
  have "unat (of_nat n :: u16) = n" "unat (of_nat n :: u8) = n"
    using assms by (simp_all add: unat_of_nat take_bit_nat_eq_self)
  then show ?thesis using unat_ucast_u16 [of b] by (metis word_unat_eq_iff)
qed

text \<open>A code with the prefix is at least 0xe800, above every constant of the driver.\<close>

lemma ext_code_neq:
  assumes "c < 0xe800"
  shows "(0xe800 OR x :: u16) \<noteq> c" "\<not> (0xe800 OR x :: u16) \<le> c"
  using le_word_or2 [of "0xe800 :: u16" x] assms by auto

lemma kbdStep_ext:
  assumes "b \<noteq> 0xe0" "ext f"
  shows "kbdStep b f = Inr (f\<lparr>ext := False\<rparr>, 0)"
proof -
  have n: "(ucast b :: u16) \<noteq> 0xe0" using ucast_u16_eq [of 224 b] assms(1) by simp
  define y where "y = (0xe800 OR ucast b :: u16)"
  have c: "y \<noteq> 0x9d" "y \<noteq> 0xe09d" "y \<noteq> 0xaa" "y \<noteq> 0xb6" "y \<noteq> 0xb8" "y \<noteq> 0xe0b8" "\<not> y \<le> 0x3a"
    "y \<noteq> 0xe01d" "y \<noteq> 0xe038"
    unfolding y_def by (rule ext_code_neq; simp)+
  show ?thesis
    using n c assms(2) unfolding kbdStep_def Let_def y_def [symmetric] by simp
qed

text \<open>The codes of the modifier keys.\<close>

definition modifierCode :: "u8 \<Rightarrow> bool" where
  "modifierCode b \<longleftrightarrow> b \<in> {0x2a, 0x36, 0xaa, 0xb6, 0x1d, 0x9d, 0x38, 0xb8, 0x3a}"

lemma scan_break: "(ucast (b :: u8) :: u16) AND 0x80 \<noteq> 0 \<longleftrightarrow> 128 \<le> unat b"
proof -
  have m: "(0x80 :: u16) = push_bit 7 1" by simp
  have "(ucast b :: u16) AND 0x80 \<noteq> 0 \<longleftrightarrow> bit (ucast b :: u16) 7"
    unfolding m by (metis and_exp_eq_0_iff_not_bit push_bit_of_1)
  also have "\<dots> \<longleftrightarrow> bit (unat b) 7" by (simp add: bit_ucast_iff bit_unsigned_iff)
  also have "\<dots> \<longleftrightarrow> odd (unat b div 128)" by (simp add: bit_iff_odd)
  also have "\<dots> \<longleftrightarrow> 128 \<le> unat b"
  proof -
    have "unat b div 128 = (if 128 \<le> unat b then 1 else 0)" using unat_less_u8 [of b] by auto
    then show ?thesis by simp
  qed
  finally show ?thesis .
qed

lemma kbdStep_prefix: "kbdStep 0xe0 f = Inr (f\<lparr>ext := True\<rparr>, 0)"
  by (simp add: kbdStep_def Let_def)

text \<open>Without the prefix: breaks, modifiers, and ordinary keys.\<close>

lemma kbdStep_break:
  assumes "\<not> ext f" "b \<noteq> 0xe0" "128 \<le> unat b"
  shows "kbdStep b f = Inr (if b = 0x9d then f\<lparr>ctrl := False\<rparr> else if b = 0xaa \<or> b = 0xb6 then f\<lparr>shft := False\<rparr>
    else if b = 0xb8 then f\<lparr>alt := False\<rparr> else f, 0)"
proof -
  note e = ucast_u16_eq [of _ b]
  have k: "(ucast b :: u16) = 0xe0 \<longleftrightarrow> b = 0xe0" "(ucast b :: u16) = 0x9d \<longleftrightarrow> b = 0x9d"
    "(ucast b :: u16) = 0xaa \<longleftrightarrow> b = 0xaa" "(ucast b :: u16) = 0xb6 \<longleftrightarrow> b = 0xb6"
    "(ucast b :: u16) = 0xb8 \<longleftrightarrow> b = 0xb8"
    using e [of 224] e [of 157] e [of 170] e [of 182] e [of 184] by simp_all
  have u: "unat (ucast b :: u16) < 256" using unat_ucast_u16 [of b] unat_less_u8 [of b] by simp
  have x: "(ucast b :: u16) \<noteq> 0xe09d" "(ucast b :: u16) \<noteq> 0xe0b8"
    using u by (auto dest: arg_cong [where f = unat])
  show ?thesis using assms scan_break [of b] k x by (simp add: kbdStep_def Let_def)
qed

lemma kbdStep_make:
  assumes "\<not> ext f" "unat b < 128"
  shows "kbdStep b f =
    (if b = 0x2a \<or> b = 0x36 then Inr (f\<lparr>shft := True\<rparr>, 0)
     else if b = 0x1d then Inr (f\<lparr>ctrl := True\<rparr>, 0)
     else if b = 0x38 then Inr (f\<lparr>alt := True\<rparr>, 0)
     else if b = 0x3a then Inr (f\<lparr>caps := True\<rparr>, 0)
     else if b \<noteq> 0 \<and> unat b \<le> 0x3a then rbind (keyChar f (ucast b)) (\<lambda>c. Inr (f, c))
     else Inr (f, 0))"
proof -
  note e = ucast_u16_eq [of _ b]
  have k: "(ucast b :: u16) = 0xe0 \<longleftrightarrow> b = 0xe0" "(ucast b :: u16) = 0x2a \<longleftrightarrow> b = 0x2a"
    "(ucast b :: u16) = 0x36 \<longleftrightarrow> b = 0x36" "(ucast b :: u16) = 0x1d \<longleftrightarrow> b = 0x1d"
    "(ucast b :: u16) = 0x38 \<longleftrightarrow> b = 0x38" "(ucast b :: u16) = 0x3a \<longleftrightarrow> b = 0x3a"
    "(ucast b :: u16) = 0 \<longleftrightarrow> b = 0" "(ucast b :: u16) = 0xba \<longleftrightarrow> b = 0xba"
    using e [of 224] e [of 42] e [of 54] e [of 29] e [of 56] e [of 58] e [of 0] e [of 186] by simp_all
  have u: "unat (ucast b :: u16) < 256" using unat_ucast_u16 [of b] unat_less_u8 [of b] by simp
  have x: "(ucast b :: u16) \<noteq> 0xe01d" "(ucast b :: u16) \<noteq> 0xe038"
    using u by (auto dest: arg_cong [where f = unat])
  have l: "(ucast b :: u16) \<le> 0x3a \<longleftrightarrow> unat b \<le> 0x3a" "(0 :: u16) < ucast b \<longleftrightarrow> b \<noteq> 0"
    using k(7) by (simp_all add: word_le_nat_alt unat_ucast_u16 word_greater_zero_iff)
  have ne: "b \<noteq> 0xe0" "b \<noteq> 0xba" using assms(2) by auto
  have nb: "(ucast b :: u16) AND 0x80 = 0" using scan_break [of b] assms(2) by (metis not_le)
  have ct: "caps f \<Longrightarrow> f\<lparr>caps := True\<rparr> = f" by (cases f) simp
  show ?thesis
    using assms k x ne nb ct l unfolding kbdStep_def Let_def by (auto split: if_splits)
qed

text \<open>The table is long enough for every code that gets there.\<close>

lemma keyChar_ok:
  fixes b :: u8
  assumes "unat b \<le> 0x3a"
  shows "keyChar f (ucast b) = Inr
    (let p = keymap ! unat b; c = (if shft f \<noteq> (caps f \<and> \<not> capsExempt (ucast b)) then snd p else fst p);
         c = (if ctrl f \<and> (c = 108 \<or> c = 76) then 11 else c)
     in if ctrl f \<and> (c = 117 \<or> c = 85) then 20 else c)"
proof -
  have "(ucast (ucast b AND (0x00ff :: u16)) :: u8) = b"
  proof -
    have m: "(0xff :: u16) = mask 8" by (simp add: mask_eq_exp_minus_1)
    show ?thesis unfolding m by (rule bit_word_eqI) (auto simp: bit_ucast_iff bit_and_iff bit_mask_iff)
  qed
  moreover have "length keymap = 59" by (simp add: keymap_def)
  ultimately show ?thesis using assms by (auto simp: keyChar_def Let_def)
qed

text \<open>The codes the driver acts on: those that do not follow a prefix.\<close>

fun plainCodes :: "bool \<Rightarrow> u8 list \<Rightarrow> u8 list" where
  "plainCodes e [] = []"
| "plainCodes e (b # bs) =
     (if b = 0xe0 then plainCodes True bs else if e then plainCodes False bs else b # plainCodes False bs)"

definition held :: "u8 set \<Rightarrow> u8 set \<Rightarrow> bool \<Rightarrow> u8 list \<Rightarrow> bool" where
  "held mk bk init bs = foldl (\<lambda>h b. b \<in> mk \<or> h \<and> b \<notin> bk) init bs"

lemma held_simps [simp]:
  "held mk bk h [] = h" "held mk bk h (b # bs) = held mk bk (b \<in> mk \<or> h \<and> b \<notin> bk) bs"
  by (simp_all add: held_def)

lemma held_append: "held mk bk h (xs @ ys) = held mk bk (held mk bk h xs) ys"
  by (simp add: held_def)

lemma kbdStep_flags:
  assumes "\<not> ext f" "b \<noteq> 0xe0"
  shows "\<exists>f' c. kbdStep b f = Inr (f', c) \<and> \<not> ext f' \<and>
    shft f' = (b \<in> {0x2a, 0x36} \<or> shft f \<and> b \<notin> {0xaa, 0xb6}) \<and>
    ctrl f' = (b \<in> {0x1d} \<or> ctrl f \<and> b \<notin> {0x9d}) \<and>
    alt f' = (b \<in> {0x38} \<or> alt f \<and> b \<notin> {0xb8}) \<and> caps f' = (b = 0x3a \<or> caps f)"
proof (cases "128 \<le> unat b")
  case True
  then have "b \<noteq> 0x2a" "b \<noteq> 0x36" "b \<noteq> 0x1d" "b \<noteq> 0x38" "b \<noteq> 0x3a" by auto
  then show ?thesis using kbdStep_break [OF assms True] assms(1) by simp
next
  case False
  then have l: "unat b < 128" by simp
  then have "b \<noteq> 0xaa" "b \<noteq> 0xb6" "b \<noteq> 0x9d" "b \<noteq> 0xb8" by auto
  then show ?thesis using kbdStep_make [OF assms(1) l] keyChar_ok [of b f] assms(1) by simp
qed

section \<open>Properties of the keyboard driver\<close>

text \<open>the driver handles every sequence of bytes, and afterwards shift, left control and left alt
  are held exactly as their last make or break code without the prefix says; codes with the prefix 0xe0
  (right control and right alt among them) never change a flag, and caps lock, once set, stays set.\<close>

theorem keyboard_flags:
  "\<exists>f' cs. kbdRun bs f = Inr (f', cs) \<and>
     shft f' = held {0x2a, 0x36} {0xaa, 0xb6} (shft f) (plainCodes (ext f) bs) \<and>
     ctrl f' = held {0x1d} {0x9d} (ctrl f) (plainCodes (ext f) bs) \<and>
     alt f' = held {0x38} {0xb8} (alt f) (plainCodes (ext f) bs) \<and>
     caps f' = (caps f \<or> 0x3a \<in> set (plainCodes (ext f) bs))"
proof (induction bs arbitrary: f)
  case (Cons b bs)
  obtain g c where g: "kbdStep b f = Inr (g, c)"
    "plainCodes (ext f) (b # bs) = (if b = 0xe0 \<or> ext f then [] else [b]) @ plainCodes (ext g) bs"
    "shft g = held {0x2a, 0x36} {0xaa, 0xb6} (shft f) (if b = 0xe0 \<or> ext f then [] else [b])"
    "ctrl g = held {0x1d} {0x9d} (ctrl f) (if b = 0xe0 \<or> ext f then [] else [b])"
    "alt g = held {0x38} {0xb8} (alt f) (if b = 0xe0 \<or> ext f then [] else [b])"
    "caps g = (caps f \<or> 0x3a \<in> set (if b = 0xe0 \<or> ext f then [] else [b]))"
  proof (cases "b = 0xe0")
    case True
    then show ?thesis using that [of "f\<lparr>ext := True\<rparr>" 0] by (simp add: kbdStep_prefix)
  next
    case False
    show ?thesis
    proof (cases "ext f")
      case True
      then show ?thesis using that [of "f\<lparr>ext := False\<rparr>" 0] False by (simp add: kbdStep_ext)
    next
      case nx: False
      obtain g c where "kbdStep b f = Inr (g, c)" "\<not> ext g"
        "shft g = (b \<in> {0x2a, 0x36} \<or> shft f \<and> b \<notin> {0xaa, 0xb6})"
        "ctrl g = (b \<in> {0x1d} \<or> ctrl f \<and> b \<notin> {0x9d})"
        "alt g = (b \<in> {0x38} \<or> alt f \<and> b \<notin> {0xb8})" "caps g = (b = 0x3a \<or> caps f)"
        using kbdStep_flags [OF nx False] by blast
      then show ?thesis using that [of g c] nx False by (simp add: disj_commute)
    qed
  qed
  obtain f' cs where ih: "kbdRun bs g = Inr (f', cs)"
    "shft f' = held {0x2a, 0x36} {0xaa, 0xb6} (shft g) (plainCodes (ext g) bs)"
    "ctrl f' = held {0x1d} {0x9d} (ctrl g) (plainCodes (ext g) bs)"
    "alt f' = held {0x38} {0xb8} (alt g) (plainCodes (ext g) bs)"
    "caps f' = (caps g \<or> 0x3a \<in> set (plainCodes (ext g) bs))"
    using Cons by blast
  have "kbdRun (b # bs) f = Inr (f', if c \<noteq> 0 then c # cs else cs)" using g(1) ih(1) by simp
  then show ?case
    unfolding g(2) using ih(2-5) g(3-6)
    by (intro exI [of _ f'] exI [of _ "if c \<noteq> 0 then c # cs else cs"]) (simp add: held_append disj_assoc)
qed simp

text \<open>The keys whose two characters differ are the letters and the keys caps lock exempts.\<close>

definition letterKey :: "nat \<Rightarrow> bool" where
  "letterKey i \<longleftrightarrow> 97 \<le> fst (keymap ! i) \<and> fst (keymap ! i) \<le> 122"

lemma keymap_table:
  "\<forall>i \<in> set [0..<59]. (letterKey i \<longrightarrow> \<not> capsExempt (ucast (of_nat i :: u8)) \<and> snd (keymap ! i) + 32 = fst (keymap ! i)) \<and>
     (\<not> letterKey i \<longrightarrow> capsExempt (ucast (of_nat i :: u8)) \<or> fst (keymap ! i) = snd (keymap ! i))"
  by code_simp

text \<open>An ordinary key without control gives the first character of its entry in the key map, or the
  second one with shift; caps lock inverts shift for the letters only, whose second character is the
  upper case of the first.\<close>

theorem keyboard_characters:
  fixes b :: u8
  assumes "\<not> ext f" "\<not> ctrl f" "b \<noteq> 0" "unat b \<le> 0x3a" "\<not> modifierCode b"
  shows "kbdStep b f = Inr (f, if shft f \<noteq> (caps f \<and> letterKey (unat b)) then snd (keymap ! unat b)
      else fst (keymap ! unat b)) \<and>
    (letterKey (unat b) \<longrightarrow> snd (keymap ! unat b) + 32 = fst (keymap ! unat b))"
proof -
  have t: "letterKey (unat b) \<longrightarrow> \<not> capsExempt (ucast b) \<and> snd (keymap ! unat b) + 32 = fst (keymap ! unat b)"
    "\<not> letterKey (unat b) \<longrightarrow> capsExempt (ucast b) \<or> fst (keymap ! unat b) = snd (keymap ! unat b)"
    using keymap_table assms(4) by (auto dest!: bspec [where x = "unat b"])
  show ?thesis
    using kbdStep_make [OF assms(1), of b] keyChar_ok [OF assms(4), of f] assms t
    by (auto simp: modifierCode_def Let_def)
qed

theorem keyboard_characters_witness:
  "kbdStep 0x1e \<lparr>ctrl = False, shft = False, alt = False, caps = True, ext = False\<rparr> =
     Inr (\<lparr>ctrl = False, shft = False, alt = False, caps = True, ext = False\<rparr>, 65)"
  using keyboard_characters [of "\<lparr>ctrl = False, shft = False, alt = False, caps = True, ext = False\<rparr>" "0x1e"]
  by (simp add: modifierCode_def letterKey_def keymap_def)

end
