(* ===== verification/Paging.thy ===== *)
theory Paging
  imports Keyboard
begin

text \<open>
  Two-level paging as kernel/memory.c uses it: the processor's translation of an address, the
  window through which the kernel sees its own page tables (the last entry of a page directory
  points to the directory), and the functions that compute entry addresses and read, set and
  clear entries. Physical memory is a store of 32-bit words at byte addresses.
\<close>

section \<open>State\<close>

record PhysicalAddrPool =
  ppBitMap :: BitMap
  ppStart :: u32
  ppSize :: u32

datatype PoolFlag = PF_USER | PF_KERNEL

text \<open>An arena header at the start of a heap page; \<open>adesc\<close> is the index of its descriptor in the
  descriptor array of the pool, or None for NULL. \<open>arenas\<close> holds the headers by address.\<close>

record Arena =
  adesc :: "nat option"
  acnt :: u32
  alarge :: bool

record kmem = kio +
  pmem :: "u32 \<Rightarrow> u32"
  kernelPap :: PhysicalAddrPool
  userPap :: PhysicalAddrPool
  kernelVap :: VirtualAddrPool
  kmbdArr :: "MemBlockDesc list"
  arenas :: "u32 \<Rightarrow> Arena option"

section \<open>Address arithmetic (kernel/global.h, kernel/memory.c)\<close>

definition PDE_IDX :: "u32 \<Rightarrow> u32" where
  "PDE_IDX addr = drop_bit 22 (addr AND 0xffc00000)"

definition PTE_IDX :: "u32 \<Rightarrow> u32" where
  "PTE_IDX addr = drop_bit 12 (addr AND 0x003ff000)"

definition getPtePtr :: "u32 \<Rightarrow> u32" where
  "getPtePtr vaddr = 0xffc00000 + drop_bit 10 (vaddr AND 0xffc00000) + PTE_IDX vaddr * 4"

definition getPdePtr :: "u32 \<Rightarrow> u32" where
  "getPdePtr vaddr = 0xfffff000 + PDE_IDX vaddr * 4"

abbreviation frameOf :: "u32 \<Rightarrow> u32" where "frameOf e \<equiv> e AND 0xfffff000"
abbreviation pageOff :: "u32 \<Rightarrow> u32" where "pageOff a \<equiv> a AND 0x00000fff"
abbreviation entryBits :: u32 where "entryBits \<equiv> 7"  \<comment> \<open>\<open>PG_US_U | PG_RW_W | PG_P_1\<close>\<close>

section \<open>Memory accesses\<close>

text \<open>The translation the processor performs: directory entry, table entry, offset. A missing
  entry is a page fault, for which the kernel's handler prints a message and spins.\<close>

definition pdeAt :: "'a kmem_scheme \<Rightarrow> u32 \<Rightarrow> u32" where
  "pdeAt s va = pmem s (frameOf (cr3 s) + 4 * drop_bit 22 va)"

definition pteAt :: "'a kmem_scheme \<Rightarrow> u32 \<Rightarrow> u32" where
  "pteAt s va = pmem s (frameOf (pdeAt s va) + 4 * (drop_bit 12 va AND 0x3ff))"

definition mmu :: "'a kmem_scheme \<Rightarrow> u32 \<Rightarrow> u32 option" where
  "mmu s va =
     (if pdeAt s va AND 1 = 0 then None
      else if pteAt s va AND 1 = 0 then None
      else Some (frameOf (pteAt s va) + pageOff va))"

definition vread :: "u32 \<Rightarrow> 'a kmem_scheme \<Rightarrow> u32 res" where
  "vread va s = (case mmu s va of None \<Rightarrow> Inl (Panic ''#PF Page-Fault Exception'') | Some pa \<Rightarrow> Inr (pmem s pa))"

definition vwrite :: "u32 \<Rightarrow> u32 \<Rightarrow> 'a kmem_scheme \<Rightarrow> 'a kmem_scheme res" where
  "vwrite va v s = (case mmu s va of None \<Rightarrow> Inl (Panic ''#PF Page-Fault Exception'')
     | Some pa \<Rightarrow> Inr (s\<lparr>pmem := (pmem s)(pa := v)\<rparr>))"

text \<open>\<open>memset(va, 0, 4 * n)\<close>, a word at a time.\<close>

fun vclear :: "u32 \<Rightarrow> nat \<Rightarrow> 'a kmem_scheme \<Rightarrow> 'a kmem_scheme res" where
  "vclear va 0 s = Inr s"
| "vclear va (Suc n) s = rbind (vwrite va 0 s) (vclear (va + 4) n)"

definition addrV2P :: "u32 \<Rightarrow> 'a kmem_scheme \<Rightarrow> u32 res" where
  "addrV2P vaddr s =
     rbind (vread (getPtePtr vaddr) s) (\<lambda>pte. Inr (frameOf pte + pageOff vaddr))"

section \<open>Physical pages (kernel/memory.c)\<close>

definition papOf :: "PoolFlag \<Rightarrow> 'a kmem_scheme \<Rightarrow> PhysicalAddrPool" where
  "papOf pf s = (if pf = PF_KERNEL then kernelPap s else userPap s)"

definition setPapBits :: "PoolFlag \<Rightarrow> BitMap \<Rightarrow> 'a kmem_scheme \<Rightarrow> 'a kmem_scheme" where
  "setPapBits pf bm s =
     (if pf = PF_KERNEL then s\<lparr>kernelPap := (kernelPap s)\<lparr>ppBitMap := bm\<rparr>\<rparr>
      else s\<lparr>userPap := (userPap s)\<lparr>ppBitMap := bm\<rparr>\<rparr>)"

definition allocPhyAddr :: "PoolFlag \<Rightarrow> 'a kmem_scheme \<Rightarrow> (u32 \<times> 'a kmem_scheme) res" where
  "allocPhyAddr pf s =
     rbind (bitMapScan (ppBitMap (papOf pf s)) 1) (\<lambda>bitIdx.
     if bitIdx = - 1 then Inr (NULLPTR, s)
     else rbind (bitMapSet (ppBitMap (papOf pf s)) bitIdx True) (\<lambda>bm.
       Inr (bitIdx * PG_SIZE + ppStart (papOf pf s), setPapBits pf bm s)))"

definition freePhyAddr :: "u32 \<Rightarrow> 'a kmem_scheme \<Rightarrow> 'a kmem_scheme res" where
  "freePhyAddr phyPageAddr s =
     (let pf = (if phyPageAddr \<ge> ppStart (userPap s) then PF_USER else PF_KERNEL);
          bitIdx = (phyPageAddr - ppStart (papOf pf s)) div PG_SIZE
      in rbind (bitMapSet (ppBitMap (papOf pf s)) bitIdx False) (\<lambda>bm. Inr (setPapBits pf bm s)))"

section \<open>Mapping pages (kernel/memory.c)\<close>

definition mapPageTable :: "u32 \<Rightarrow> u32 \<Rightarrow> 'a kmem_scheme \<Rightarrow> 'a kmem_scheme res" where
  "mapPageTable va pa s =
     (let pde = getPdePtr va; pte = getPtePtr va in
      rbind (vread pde s) (\<lambda>d.
      if d AND 1 \<noteq> 0 then
        rbind (vread pte s) (\<lambda>t.
        if t AND 1 = 0 then vwrite pte (pa OR entryBits) s
        else Inl (Panic ''pte repeat''))
      else
        rbind (allocPhyAddr PF_KERNEL s) (\<lambda>(phyPageAddr, s).
        rbind (vwrite pde (phyPageAddr OR entryBits) s) (\<lambda>s.
        rbind (vclear (frameOf pte) 1024 s) (\<lambda>s.
        vwrite pte (pa OR entryBits) s)))))"

definition unmapPageTable :: "u32 \<Rightarrow> 'a kmem_scheme \<Rightarrow> 'a kmem_scheme res" where
  "unmapPageTable virPageAddr s =
     (let pte = getPtePtr virPageAddr in
      rbind (vread pte s) (\<lambda>t. vwrite pte (t AND NOT 1) s))"

section \<open>Bit fields of an address as numbers\<close>


lemma and_high: "(a :: u32) AND NOT (mask n) = push_bit n (drop_bit n a)"
  by (rule bit_word_eqI) (auto simp: bit_and_iff bit_not_iff bit_mask_iff bit_push_bit_iff bit_drop_bit_eq)

lemma unat_drop: "unat (drop_bit n (a :: u32)) = unat a div 2 ^ n"
proof -
  have "unat (drop_bit n a) = drop_bit n (take_bit 32 (unat a))"
    by (simp only: unsigned_drop_bit_eq) simp
  then show ?thesis by (simp add: take_bit_nat_eq_self drop_bit_eq_div del: take_bit_of_nat)
qed

lemma unat_and_high: "n < 32 \<Longrightarrow> unat ((a :: u32) AND NOT (mask n)) = unat a div 2 ^ n * 2 ^ n"
proof -
  assume n: "n < 32"
  have "unat a div 2 ^ n * 2 ^ n < 4294967296"
    using div_times_less_eq_dividend [of "unat a" "2 ^ n"] unat_less_u32 [of a] by linarith
  moreover have "unat (push_bit n (drop_bit n a)) = take_bit 32 (unat (drop_bit n a) * 2 ^ n)"
    unfolding unsigned_push_bit_eq by (simp add: push_bit_eq_mult)
  ultimately show ?thesis
    unfolding and_high by (simp only: unat_drop) (simp add: take_bit_nat_eq_self)
qed

lemma unat_and_low: "n < 32 \<Longrightarrow> unat ((a :: u32) AND mask n) = unat a mod 2 ^ n"
  by (simp add: take_bit_eq_mask [symmetric] unsigned_take_bit_eq take_bit_eq_mod del: take_bit_eq_mod)
    (simp add: take_bit_eq_mod)

lemma masks_u32: "(0xfffff000 :: u32) = NOT (mask 12)" "(0xffc00000 :: u32) = NOT (mask 22)"
  "(0xfff :: u32) = mask 12" "(0x3ff :: u32) = mask 10" "(0x003ff000 :: u32) = mask 22 AND NOT (mask 12)"
  by (simp_all add: mask_eq_exp_minus_1)

lemma unat_frame: "unat (frameOf a) = unat a div 4096 * 4096"
  unfolding masks_u32 using unat_and_high [of 12 a] by simp

lemma unat_off: "unat (pageOff a) = unat a mod 4096"
  unfolding masks_u32 using unat_and_low [of 12 a] by simp

lemma unat_ten: "unat ((a :: u32) AND 0x3ff) = unat a mod 1024"
  unfolding masks_u32 using unat_and_low [of 10 a] by simp

definition dIdx :: "u32 \<Rightarrow> nat" where "dIdx va = unat va div 4194304"
definition tIdx :: "u32 \<Rightarrow> nat" where "tIdx va = unat va div 4096 mod 1024"

lemma idx_bound [simp]: "dIdx va < 1024" "tIdx va < 1024"
  using unat_less_u32 [of va] by (simp_all add: dIdx_def tIdx_def less_mult_imp_div_less)

lemma idx_bound': "dIdx va < 1073741824" "tIdx va < 1073741824"
  by (rule less_trans [OF idx_bound(1)], simp) (rule less_trans [OF idx_bound(2)], simp)

lemma va_split: "unat va = dIdx va * 4194304 + tIdx va * 4096 + unat va mod 4096"
proof -
  have "unat va = unat va div 4096 * 4096 + unat va mod 4096" by simp
  moreover have "unat va div 4096 = unat va div 4096 div 1024 * 1024 + unat va div 4096 mod 1024" by simp
  moreover have "unat va div 4096 div 1024 = unat va div 4194304" by (simp add: div_mult2_eq [symmetric])
  ultimately show ?thesis unfolding dIdx_def tIdx_def by linarith
qed

lemma idx_of_split:
  assumes "unat va = d * 4194304 + t * 4096 + off" "t < 1024" "off < 4096"
  shows "dIdx va = d" "tIdx va = t" "unat va mod 4096 = off"
proof -
  have a: "unat va div 4096 = d * 1024 + t" "unat va mod 4096 = off"
    using assms div_mult_self1 [of 4096 off "d * 1024 + t"] mod_mult_self1 [of off "d * 1024 + t" 4096]
    by (simp_all add: assms(1) algebra_simps)
  then show "tIdx va = t" "unat va mod 4096 = off" using assms(2) by (simp_all add: tIdx_def)
  have "unat va div 4194304 = unat va div 4096 div 1024" by (simp add: div_mult2_eq [symmetric])
  then show "dIdx va = d" using a assms(2) by (simp add: dIdx_def)
qed

lemma unat_idx: "unat (drop_bit 22 va :: u32) = dIdx va" "unat (drop_bit 12 va AND 0x3ff :: u32) = tIdx va"
  by (simp_all add: unat_drop dIdx_def unat_ten tIdx_def)

lemma unat_PDE_IDX: "unat (PDE_IDX va) = dIdx va"
  unfolding PDE_IDX_def masks_u32 unat_drop using unat_and_high [of 22 va]
  by (simp add: dIdx_def)

lemma unat_PTE_IDX: "unat (PTE_IDX va) = tIdx va"
proof -
  have "unat (va AND 0x003ff000) = unat va mod 4194304 div 4096 * 4096"
    unfolding masks_u32 and.assoc [symmetric] using unat_and_low [of 22 va] unat_and_high [of 12 "va AND mask 22"] by simp
  moreover have "unat va mod 4194304 div 4096 = unat va div 4096 mod 1024"
    using mod_mult2_eq [of "unat va" 4096 1024] by (simp)
  ultimately show ?thesis unfolding PTE_IDX_def unat_drop tIdx_def by simp
qed

lemma unat_getPdePtr: "unat (getPdePtr va) = 0xfffff000 + 4 * dIdx va"
proof -
  have "unat (PDE_IDX va * 4) = 4 * dIdx va"
    by (subst unat_mult_small) (simp_all add: unat_PDE_IDX idx_bound')
  then show ?thesis unfolding getPdePtr_def using idx_bound(1) [of va]
    by (subst unat_add_small) simp_all
qed

lemma unat_getPtePtr: "unat (getPtePtr va) = 0xffc00000 + dIdx va * 4096 + 4 * tIdx va"
proof -
  have a: "unat (PTE_IDX va * 4) = 4 * tIdx va"
    by (subst unat_mult_small) (simp_all add: unat_PTE_IDX idx_bound')
  have "unat (va AND 0xffc00000) = dIdx va * 4194304"
    unfolding masks_u32 using unat_and_high [of 22 va] by (simp add: dIdx_def)
  then have b: "unat (drop_bit 10 (va AND 0xffc00000)) = dIdx va * 4096" unfolding unat_drop by simp
  have c: "unat (0xffc00000 + drop_bit 10 (va AND 0xffc00000)) = 0xffc00000 + dIdx va * 4096"
    using unat_add_small [of "0xffc00000" "drop_bit 10 (va AND 0xffc00000)"] idx_bound(1) [of va]
    unfolding b by simp
  have "0xffc00000 + dIdx va * 4096 + 4 * tIdx va < 4294967296" using idx_bound [of va] by linarith
  then show ?thesis unfolding getPtePtr_def
    using unat_add_small [of "0xffc00000 + drop_bit 10 (va AND 0xffc00000)" "PTE_IDX va * 4"]
    unfolding a c by blast
qed

lemma window_idx:
  "dIdx (getPdePtr va) = 1023" "tIdx (getPdePtr va) = 1023" "unat (getPdePtr va) mod 4096 = 4 * dIdx va"
  "dIdx (getPtePtr va) = 1023" "tIdx (getPtePtr va) = dIdx va" "unat (getPtePtr va) mod 4096 = 4 * tIdx va"
  using idx_of_split [of "getPdePtr va" 1023 1023 "4 * dIdx va"] idx_of_split [of "getPtePtr va" 1023 "dIdx va" "4 * tIdx va"]
    idx_bound [of va] by (simp_all add: unat_getPdePtr unat_getPtePtr)


section \<open>Entries of a page table\<close>

definition pgAligned :: "u32 \<Rightarrow> bool" where "pgAligned f \<longleftrightarrow> unat f mod 4096 = 0"

abbreviation present :: "u32 \<Rightarrow> bool" where "present e \<equiv> e AND 1 \<noteq> 0"

definition entry :: "u32 \<Rightarrow> nat \<Rightarrow> u32" where "entry f i = f + 4 * of_nat i"

lemma pgAligned_frame [simp]: "pgAligned (frameOf a)"
  by (simp add: pgAligned_def unat_frame)

lemma frame_eqI: "pgAligned f \<Longrightarrow> unat a = unat f + k \<Longrightarrow> k < 4096 \<Longrightarrow> frameOf a = f"
proof -
  assume a: "pgAligned f" "unat a = unat f + k" "k < 4096"
  then obtain m where m: "unat f = m * 4096" unfolding pgAligned_def by (metis mult.commute mod_0_imp_dvd dvdE)
  then have "unat (frameOf a) = unat f" using a(2,3) by (simp add: unat_frame)
  then show ?thesis by simp
qed

lemma pgAligned_room: "pgAligned f \<Longrightarrow> unat f + 4095 < 4294967296"
proof -
  assume "pgAligned f"
  then obtain m where m: "unat f = 4096 * m" unfolding pgAligned_def by (metis mod_0_imp_dvd dvdE)
  then have "m < 1048576" using unat_less_u32 [of f] by linarith
  then show ?thesis using m by linarith
qed

lemma frame_aligned: "pgAligned f \<Longrightarrow> frameOf f = f"
  by (rule frame_eqI [where k = 0]) simp_all

lemma frame_plus_off: "pgAligned f \<Longrightarrow> unat (f + pageOff a) = unat f + unat a mod 4096"
  using pgAligned_room [of f] unat_add_small [of f "pageOff a"] mod_less_divisor [of 4096 "unat a"]
  unfolding unat_off by simp

lemma unat_entry: "pgAligned f \<Longrightarrow> i < 1024 \<Longrightarrow> unat (entry f i) = unat f + 4 * i"
proof -
  assume a: "pgAligned f" "i < 1024"
  have i: "unat (of_nat i :: u32) = i" using a(2) by (intro unat_of_nat_small) simp
  then have "unat (4 * of_nat i :: u32) = 4 * i" using a(2) by (subst unat_mult_small) simp_all
  then show ?thesis unfolding entry_def using a(2) pgAligned_room [OF a(1)] by (subst unat_add_small) simp_all
qed

lemma frame_entry [simp]: "pgAligned f \<Longrightarrow> i < 1024 \<Longrightarrow> frameOf (entry f i) = f"
  by (rule frame_eqI [where k = "4 * i"]) (simp_all add: unat_entry)

lemma entry_inj: "pgAligned f \<Longrightarrow> pgAligned g \<Longrightarrow> i < 1024 \<Longrightarrow> j < 1024 \<Longrightarrow>
  entry f i = entry g j \<longleftrightarrow> f = g \<and> i = j"
  by (metis frame_entry unat_entry add_left_cancel nat_mult_eq_cancel1 zero_less_numeral)

lemma frame_same_page: "frameOf a = frameOf b \<longleftrightarrow> dIdx a = dIdx b \<and> tIdx a = tIdx b"
proof -
  have q: "unat a div 4096 = dIdx a * 1024 + tIdx a" for a
    using va_split [of a] by simp
  have "frameOf a = frameOf b \<longleftrightarrow> unat a div 4096 = unat b div 4096"
    by (simp add: word_unat_eq_iff unat_frame del: unat_inj_iff)
  also have "\<dots> \<longleftrightarrow> dIdx a = dIdx b \<and> tIdx a = tIdx b"
    unfolding q
  proof
    assume e: "dIdx a * 1024 + tIdx a = dIdx b * 1024 + tIdx b"
    have "unat a = dIdx b * 4194304 + tIdx b * 4096 + unat a mod 4096" using va_split [of a] e by linarith
    then show "dIdx a = dIdx b \<and> tIdx a = tIdx b" using idx_of_split(1,2) by simp
  qed simp
  finally show ?thesis .
qed

lemma entry_value:
  assumes "pgAligned pa"
  shows "frameOf (pa OR entryBits) = pa" "present (pa OR entryBits)"
proof -
  have b: "\<not> bit pa n" if "n < 12" for n
  proof -
    have "take_bit 12 pa = 0"
      using assms unat_and_low [of 12 pa] by (simp add: pgAligned_def take_bit_eq_mask word_unat_eq_iff del: unat_inj_iff)
    then show ?thesis using that by (metis bit_take_bit_iff bit_0_eq bot_apply bot_bool_def)
  qed
  have seven: "(7 :: u32) = mask 3" by (simp add: mask_eq_exp_minus_1)
  show "frameOf (pa OR entryBits) = pa"
    unfolding seven masks_u32
    by (rule bit_word_eqI) (use b not_less in \<open>auto simp: bit_and_iff bit_or_iff bit_not_iff bit_mask_iff\<close>)
  have "bit ((pa OR entryBits) AND 1) 0" unfolding seven by (simp add: bit_and_iff bit_or_iff bit_mask_iff)
  then show "present (pa OR entryBits)" by force
qed

section \<open>The window on the page tables\<close>

abbreviation pdFrame :: "'a kmem_scheme \<Rightarrow> u32" where "pdFrame s \<equiv> frameOf (cr3 s)"

definition pdEnt :: "'a kmem_scheme \<Rightarrow> nat \<Rightarrow> u32" where "pdEnt s i = pmem s (entry (pdFrame s) i)"
definition ptEnt :: "'a kmem_scheme \<Rightarrow> nat \<Rightarrow> nat \<Rightarrow> u32" where
  "ptEnt s d t = pmem s (entry (frameOf (pdEnt s d)) t)"

lemma pdeAt_pdEnt: "pdeAt s va = pdEnt s (dIdx va)"
  by (simp add: pdeAt_def pdEnt_def entry_def unat_idx(1) [symmetric])

lemma pteAt_ptEnt: "pteAt s va = ptEnt s (dIdx va) (tIdx va)"
proof -
  have "drop_bit 12 va AND 0x3ff = (of_nat (tIdx va) :: u32)" unfolding unat_idx(2) [symmetric] by simp
  then show ?thesis by (simp only: pteAt_def ptEnt_def entry_def pdeAt_pdEnt)
qed

lemma mmu_ent: "mmu s va =
  (if \<not> present (pdEnt s (dIdx va)) \<or> \<not> present (ptEnt s (dIdx va) (tIdx va)) then None
   else Some (frameOf (ptEnt s (dIdx va) (tIdx va)) + pageOff va))"
  by (simp add: mmu_def pdeAt_pdEnt pteAt_ptEnt)

text \<open>The page directory maps itself as its last table, and no frame serves as two tables.\<close>

definition pagingInv :: "'a kmem_scheme \<Rightarrow> bool" where
  "pagingInv s \<longleftrightarrow> present (pdEnt s 1023) \<and> frameOf (pdEnt s 1023) = pdFrame s \<and>
     (\<forall>i < 1024. \<forall>j < 1024. present (pdEnt s i) \<longrightarrow> present (pdEnt s j) \<longrightarrow>
        frameOf (pdEnt s i) = frameOf (pdEnt s j) \<longrightarrow> i = j)"

definition isTable :: "'a kmem_scheme \<Rightarrow> u32 \<Rightarrow> bool" where
  "isTable s f \<longleftrightarrow> (\<exists>i < 1024. present (pdEnt s i) \<and> frameOf (pdEnt s i) = f)"

lemma pagingInvD:
  assumes "pagingInv s"
  shows "present (pdEnt s 1023)" "frameOf (pdEnt s 1023) = pdFrame s"
    "i < 1024 \<Longrightarrow> j < 1024 \<Longrightarrow> present (pdEnt s i) \<Longrightarrow> present (pdEnt s j) \<Longrightarrow>
      frameOf (pdEnt s i) = frameOf (pdEnt s j) \<Longrightarrow> i = j"
  using assms unfolding pagingInv_def by blast+

lemma ptEnt_window: "pagingInv s \<Longrightarrow> ptEnt s 1023 d = pdEnt s d"
  by (simp add: ptEnt_def pagingInvD(2)) (simp add: pdEnt_def)

lemma entry_off: "pageOff va = 4 * of_nat i \<Longrightarrow> f + pageOff va = entry f i"
  by (simp add: entry_def)

lemma window_off: "pageOff (getPdePtr va) = 4 * of_nat (dIdx va)" "pageOff (getPtePtr va) = 4 * of_nat (tIdx va)"
proof -
  have o: "unat (4 * of_nat i :: u32) = 4 * i" if "i < 1024" for i
    using unat_entry [of 0 i] that by (simp add: entry_def pgAligned_def)
  show "pageOff (getPdePtr va) = 4 * of_nat (dIdx va)" "pageOff (getPtePtr va) = 4 * of_nat (tIdx va)"
    unfolding unat_inj_iff [symmetric] unat_off o [OF idx_bound(1)] o [OF idx_bound(2)]
    by (simp_all only: window_idx)
qed

lemma mmu_getPdePtr: "pagingInv s \<Longrightarrow> mmu s (getPdePtr va) = Some (entry (pdFrame s) (dIdx va))"
  unfolding mmu_ent window_idx by (simp add: ptEnt_window pagingInvD entry_off [OF window_off(1)])

lemma mmu_getPtePtr: "pagingInv s \<Longrightarrow> mmu s (getPtePtr va) =
  (if present (pdEnt s (dIdx va)) then Some (entry (frameOf (pdEnt s (dIdx va))) (tIdx va)) else None)"
  unfolding mmu_ent window_idx by (simp add: ptEnt_window pagingInvD entry_off [OF window_off(2)])

lemma addrV2P_mmu: "pagingInv s \<Longrightarrow> mmu s va = Some pa \<Longrightarrow> addrV2P va s = Inr pa"
  by (simp add: addrV2P_def vread_def mmu_getPtePtr) (auto simp: mmu_ent ptEnt_def split: if_splits)



section \<open>Changing entries\<close>

abbreviation setMem :: "u32 \<Rightarrow> u32 \<Rightarrow> 'a kmem_scheme \<Rightarrow> 'a kmem_scheme" where
  "setMem p v s \<equiv> s\<lparr>pmem := (pmem s)(p := v)\<rparr>"

lemma ents_upd [simp]:
  "pdEnt (s\<lparr>pmem := m\<rparr>) i = m (entry (pdFrame s) i)"
  "ptEnt (s\<lparr>pmem := m\<rparr>) d t = m (entry (frameOf (m (entry (pdFrame s) d))) t)"
  by (simp_all add: pdEnt_def ptEnt_def)

lemma table_neq_dir:
  "pagingInv s \<Longrightarrow> d < 1023 \<Longrightarrow> present (pdEnt s d) \<Longrightarrow> frameOf (pdEnt s d) \<noteq> pdFrame s"
  using pagingInvD(1,2) pagingInvD(3) [of s d 1023] by force

lemma setPte_pd:
  assumes "pagingInv s" "d < 1023" "t < 1024" "present (pdEnt s d)" "i < 1024"
  shows "pdEnt (setMem (entry (frameOf (pdEnt s d)) t) v s) i = pdEnt s i"
  using assms(3,5) table_neq_dir [OF assms(1,2,4)] by (simp add: entry_inj) (simp add: pdEnt_def)

lemma setPte_pt:
  assumes "pagingInv s" "d < 1023" "t < 1024" "present (pdEnt s d)" "i < 1024" "j < 1024" "present (pdEnt s i)"
  shows "ptEnt (setMem (entry (frameOf (pdEnt s d)) t) v s) i j = (if i = d \<and> j = t then v else ptEnt s i j)"
proof -
  have "frameOf (pdEnt s i) = frameOf (pdEnt s d) \<longleftrightarrow> i = d"
    using pagingInvD(3) [OF assms(1,5) _ assms(7,4)] assms(2) by auto
  then show ?thesis
    using assms(3,6) setPte_pd [OF assms(1-5)] by (simp add: ptEnt_def pdEnt_def entry_inj)
qed

lemma setPte_inv:
  assumes "pagingInv s" "d < 1023" "t < 1024" "present (pdEnt s d)"
  shows "pagingInv (setMem (entry (frameOf (pdEnt s d)) t) v s)"
  using assms(1) unfolding pagingInv_def by (simp add: setPte_pd [OF assms] del: ents_upd)

lemma setPte_mmu:
  assumes "pagingInv s" "d < 1023" "t < 1024" "present (pdEnt s d)"
  shows "mmu (setMem (entry (frameOf (pdEnt s d)) t) v s) va =
    (if dIdx va = d \<and> tIdx va = t then if present v then Some (frameOf v + pageOff va) else None else mmu s va)"
proof (cases "dIdx va = d \<and> tIdx va = t")
  case True
  then show ?thesis using assms(2-4) setPte_pd [OF assms] setPte_pt [OF assms]
    by (simp add: mmu_ent del: ents_upd)
next
  case False
  then show ?thesis using setPte_pd [OF assms idx_bound(1)] setPte_pt [OF assms idx_bound]
    by (cases "present (pdEnt s (dIdx va))") (simp_all add: mmu_ent del: ents_upd, blast?)
qed

text \<open>Clearing the page table behind window entry \<open>d\<close>.\<close>

lemma mmu_window:
  assumes inv: "pagingInv s" and p: "present (pdEnt s d)" and va: "unat va = 0xffc00000 + d * 4096 + 4 * j" "d < 1024" "j < 1024"
  shows "mmu s va = Some (entry (frameOf (pdEnt s d)) j)"
proof -
  have i: "dIdx va = 1023" "tIdx va = d" "unat va mod 4096 = 4 * j"
    using idx_of_split [of va 1023 d "4 * j"] va by simp_all
  have "unat (4 * of_nat j :: u32) = 4 * j"
    using unat_entry [of 0 j] va(3) by (simp add: entry_def pgAligned_def)
  then have "pageOff va = 4 * of_nat j" unfolding unat_inj_iff [symmetric] unat_off by (simp only: i)
  then show ?thesis unfolding mmu_ent i using p by (simp add: ptEnt_window [OF inv] pagingInvD [OF inv]) (simp add: entry_def)
qed

lemma setMem_pmem: "(setMem p v s)\<lparr>pmem := m\<rparr> = s\<lparr>pmem := m\<rparr>"
  by simp

lemma vclear_table:
  assumes "pagingInv s" "d < 1023" "present (pdEnt s d)" "unat va = 0xffc00000 + d * 4096 + 4 * j" "j + n \<le> 1024"
  shows "vclear va n s = Inr (s\<lparr>pmem := \<lambda>p. if p \<in> entry (frameOf (pdEnt s d)) ` {j..<j + n} then 0 else pmem s p\<rparr>)"
  using assms
proof (induction n arbitrary: va j s)
  case (Suc n)
  let ?f = "frameOf (pdEnt s d)"
  let ?s1 = "setMem (entry ?f j) 0 s"
  have w: "vwrite va 0 s = Inr ?s1"
    using mmu_window [OF Suc.prems(1,3,4)] Suc.prems(2,5) by (simp add: vwrite_def)
  have i1: "pagingInv ?s1" and p1: "pdEnt ?s1 d = pdEnt s d"
  proof -
    have j: "j < 1024" using Suc.prems(5) by simp
    show "pagingInv ?s1" by (rule setPte_inv [OF Suc.prems(1,2) j Suc.prems(3)])
    show "pdEnt ?s1 d = pdEnt s d" using Suc.prems(2) by (intro setPte_pd [OF Suc.prems(1,2) j Suc.prems(3)]) simp
  qed
  have u: "unat (va + 4) = 0xffc00000 + d * 4096 + 4 * Suc j"
    using Suc.prems(2,4,5) by (subst unat_add_small) simp_all
  have p2: "present (pdEnt ?s1 d)" and l: "Suc j + n \<le> 1024" using Suc.prems(3,5) p1 by simp_all
  note c = Suc.IH [OF i1 Suc.prems(2) p2 u l, unfolded p1]
  have "{j..<j + Suc n} = insert j {Suc j..<Suc j + n}" by auto
  then have e: "(\<lambda>p. if p \<in> entry ?f ` {Suc j..<Suc j + n} then 0 else pmem ?s1 p) =
    (\<lambda>p. if p \<in> entry ?f ` {j..<j + Suc n} then 0 else pmem s p)"
    by (intro ext) (simp only: image_insert, simp)
  show ?case by (simp only: vclear.simps w rbind_Inr c e setMem_pmem)
qed simp

lemma entry_image:
  "pgAligned f \<Longrightarrow> pgAligned g \<Longrightarrow> k < 1024 \<Longrightarrow> b \<le> 1024 \<Longrightarrow>
   entry g k \<in> entry f ` {a..<b} \<longleftrightarrow> g = f \<and> a \<le> k \<and> k < b"
  by (auto simp: entry_inj image_iff)

text \<open>Putting a fresh table into the directory.\<close>

definition withTable :: "u32 \<Rightarrow> nat \<Rightarrow> 'a kmem_scheme \<Rightarrow> 'a kmem_scheme" where
  "withTable f d s = s\<lparr>pmem := \<lambda>p. if p \<in> entry f ` {0..<1024} then 0
     else if p = entry (pdFrame s) d then f OR entryBits else pmem s p\<rparr>"

lemma newTable_inv:
  assumes inv: "pagingInv s" and d: "d < 1023" "\<not> present (pdEnt s d)" and f: "pgAligned f" "\<not> isTable s f"
    and c: "cr3 s' = cr3 s" and pd: "\<And>i. i < 1024 \<Longrightarrow> pdEnt s' i = (if i = d then f OR entryBits else pdEnt s i)"
  shows "pagingInv s'" and "isTable s' g \<longleftrightarrow> g = f \<or> isTable s g"
proof -
  have tf: "frameOf (pdEnt s i) \<noteq> f" if "i < 1024" "present (pdEnt s i)" for i
    using f(2) that unfolding isTable_def by blast
  have "i = j" if i: "i < 1024" "j < 1024" "present (pdEnt s' i)" "present (pdEnt s' j)"
    "frameOf (pdEnt s' i) = frameOf (pdEnt s' j)" for i j
  proof (cases "i = d \<or> j = d")
    case True
    then show ?thesis using i tf [of i] tf [of j] by (auto simp: pd entry_value [OF f(1)] split: if_splits)
  next
    case False
    then show ?thesis using i pagingInvD(3) [OF inv] by (simp add: pd)
  qed
  moreover have "pdEnt s' 1023 = pdEnt s 1023" using pd [of 1023] d(1) by simp
  ultimately show "pagingInv s'"
    using pagingInvD(1,2) [OF inv] c unfolding pagingInv_def by metis
  have "(\<exists>i < 1024. present (pdEnt s' i) \<and> frameOf (pdEnt s' i) = g) \<longleftrightarrow>
    g = f \<or> (\<exists>i < 1024. present (pdEnt s i) \<and> frameOf (pdEnt s i) = g)" (is "?l \<longleftrightarrow> ?r")
  proof
    assume ?l
    then show ?r by (auto simp: pd entry_value [OF f(1)] split: if_splits)
  next
    assume ?r
    then consider "g = f" | i where "i < 1024" "present (pdEnt s i)" "frameOf (pdEnt s i) = g" by blast
    then show ?l
    proof cases
      case 1
      then show ?thesis using d(1) by (intro exI [of _ d]) (simp add: pd entry_value [OF f(1)])
    next
      case (2 i)
      then show ?thesis using d(2) by (intro exI [of _ i]) (auto simp: pd)
    qed
  qed
  then show "isTable s' g \<longleftrightarrow> g = f \<or> isTable s g" by (simp only: isTable_def)
qed

lemma withTable_ents:
  assumes inv: "pagingInv s" and d: "d < 1023" "\<not> present (pdEnt s d)" and f: "pgAligned f" "\<not> isTable s f"
  shows "i < 1024 \<Longrightarrow> pdEnt (withTable f d s) i = (if i = d then f OR entryBits else pdEnt s i)"
    and "i < 1024 \<Longrightarrow> j < 1024 \<Longrightarrow> i \<noteq> 1023 \<Longrightarrow> i = d \<or> present (pdEnt s i) \<Longrightarrow> ptEnt (withTable f d s) i j = (if i = d then 0 else ptEnt s i j)"
    and "pagingInv (withTable f d s)"
proof -
  have "isTable s (pdFrame s)"
    unfolding isTable_def using pagingInvD(1,2) [OF inv] by (intro exI [of _ 1023]) simp
  then have nf: "f \<noteq> pdFrame s" using f(2) by blast
  have tf: "frameOf (pdEnt s i) \<noteq> f" if "i < 1024" "present (pdEnt s i)" for i
    using f(2) that unfolding isTable_def by blast
  show pd: "pdEnt (withTable f d s) i = (if i = d then f OR entryBits else pdEnt s i)" if "i < 1024" for i
    using that nf f(1) d(1) unfolding withTable_def by (auto simp: entry_image entry_inj) (simp_all add: pdEnt_def)
  show "ptEnt (withTable f d s) i j = (if i = d then 0 else ptEnt s i j)"
    if "i < 1024" "j < 1024" "i \<noteq> 1023" "i = d \<or> present (pdEnt s i)"
  proof (cases "i = d")
    case True
    then show ?thesis using pd [OF that(1)] that(2) f(1)
      by (auto simp: ptEnt_def entry_value) (auto simp: withTable_def entry_inj entry_image)
  next
    case False
    then have "present (pdEnt s i)" using that(4) by simp
    then have "frameOf (pdEnt s i) \<noteq> f" "frameOf (pdEnt s i) \<noteq> pdFrame s"
      using tf that table_neq_dir [OF inv] by simp_all
    then show ?thesis using pd [OF that(1)] False that(2) f(1) d(1)
      by (auto simp: ptEnt_def) (auto simp: withTable_def entry_inj entry_image)
  qed
  show "pagingInv (withTable f d s)"
    by (rule newTable_inv [OF inv d f]) (simp_all add: withTable_def pd [unfolded withTable_def] del: ents_upd)
qed



section \<open>The physical pools\<close>

definition papPage :: "PhysicalAddrPool \<Rightarrow> nat \<Rightarrow> u32" where
  "papPage p i = of_nat i * PG_SIZE + ppStart p"

abbreviation papCap :: "PhysicalAddrPool \<Rightarrow> nat" where "papCap p \<equiv> bm_cap (ppBitMap p)"
abbreviation papUsed :: "PhysicalAddrPool \<Rightarrow> nat \<Rightarrow> bool" where "papUsed p \<equiv> bm_used (ppBitMap p)"

definition papWf :: "PhysicalAddrPool \<Rightarrow> bool" where
  "papWf p \<longleftrightarrow> bm_wf (ppBitMap p) \<and> pgAligned (ppStart p) \<and> 0 < unat (ppStart p) \<and>
     unat (ppStart p) + 4096 * papCap p < 4294967296"

definition poolInv :: "'a kmem_scheme \<Rightarrow> bool" where
  "poolInv s \<longleftrightarrow> papWf (kernelPap s) \<and> papWf (userPap s) \<and>
     unat (ppStart (kernelPap s)) + 4096 * papCap (kernelPap s) \<le> unat (ppStart (userPap s))"

lemma unat_papPage:
  assumes "papWf p" "i < papCap p"
  shows "unat (papPage p i) = unat (ppStart p) + 4096 * i"
proof -
  have b: "unat (ppStart p) + 4096 * i < 4294967296" using assms by (simp add: papWf_def)
  then have "unat (of_nat i * PG_SIZE :: u32) = 4096 * i"
    by (subst unat_mult_small) (simp_all add: unat_of_nat_small)
  then show ?thesis unfolding papPage_def using b by (subst unat_add_small) simp_all
qed

lemma papPage_facts:
  assumes "papWf p" "i < papCap p"
  shows "pgAligned (papPage p i)" "papPage p i \<noteq> 0"
    and "j < papCap p \<Longrightarrow> papPage p i = papPage p j \<longleftrightarrow> i = j"
proof -
  show "pgAligned (papPage p i)" "papPage p i \<noteq> 0"
    using assms by (auto simp: pgAligned_def unat_papPage papWf_def simp flip: unat_eq_zero)
  show "papPage p i = papPage p j \<longleftrightarrow> i = j" if "j < papCap p"
    using unat_papPage [OF assms] unat_papPage [OF assms(1) that] by (metis add_left_cancel nat_mult_eq_cancel1 zero_less_numeral)
qed

lemma papOf_setPapBits [simp]:
  "papOf pf (setPapBits pf' bm s) = (if pf = pf' then (papOf pf s)\<lparr>ppBitMap := bm\<rparr> else papOf pf s)"
  by (cases pf; cases pf') (simp_all add: papOf_def setPapBits_def)

lemma setPapBits_fields [simp]:
  "pmem (setPapBits pf bm s) = pmem s" "cr3 (setPapBits pf bm s) = cr3 s"
  "kernelVap (setPapBits pf bm s) = kernelVap s" "tcb (setPapBits pf bm s) = tcb s"
  "curThread (setPapBits pf bm s) = curThread s" "arenas (setPapBits pf bm s) = arenas s"
  "kmbdArr (setPapBits pf bm s) = kmbdArr s"
  by (simp_all add: setPapBits_def)

lemma pap_papOf [simp]: "kernelPap s = papOf PF_KERNEL s" "userPap s = papOf PF_USER s"
  by (simp_all add: papOf_def)

text \<open>Marking page \<open>i\<close> of a pool used or free.\<close>

definition papMarked :: "PoolFlag \<Rightarrow> nat \<Rightarrow> bool \<Rightarrow> 'a kmem_scheme \<Rightarrow> 'a kmem_scheme \<Rightarrow> bool" where
  "papMarked pf i v s s' \<longleftrightarrow> (\<exists>bm. s' = setPapBits pf bm s \<and> bm_same_shape (ppBitMap (papOf pf s)) bm \<and>
     (\<forall>j. bm_used bm j = (if j = i then v else papUsed (papOf pf s) j)))"

lemma papMarkedD:
  assumes "papMarked pf i v s s'"
  shows "ppStart (papOf q s') = ppStart (papOf q s)" "papCap (papOf q s') = papCap (papOf q s)"
    "papUsed (papOf q s') j = (if q = pf \<and> j = i then v else papUsed (papOf q s) j)"
    "poolInv s \<Longrightarrow> poolInv s'" "pmem s' = pmem s" "cr3 s' = cr3 s" "tcb s' = tcb s" "kernelVap s' = kernelVap s"
    "curThread s' = curThread s" "papPage (papOf q s') j = papPage (papOf q s) j"
proof -
  obtain bm where b: "s' = setPapBits pf bm s" "bm_same_shape (ppBitMap (papOf pf s)) bm"
    "\<forall>j. bm_used bm j = (if j = i then v else papUsed (papOf pf s) j)"
    using assms unfolding papMarked_def by blast
  have c: "bm_cap bm = papCap (papOf pf s)" using bm_cap_same_shape [OF b(2)] by simp
  show st: "ppStart (papOf q s') = ppStart (papOf q s)" and cq: "papCap (papOf q s') = papCap (papOf q s)"
    "papUsed (papOf q s') j = (if q = pf \<and> j = i then v else papUsed (papOf q s) j)" for q
    using b c by auto
  show "papPage (papOf q s') j = papPage (papOf q s) j" by (simp add: papPage_def st)
  have w: "papWf (papOf q s')" if "papWf (papOf q s)" for q
    using that st [of q] cq(1) [of q] bm_wf_same_shape [OF b(2)] unfolding papWf_def b(1) by (auto simp: )
  show "poolInv s'" if "poolInv s" using that w st cq(1) unfolding poolInv_def by simp
  show "pmem s' = pmem s" "cr3 s' = cr3 s" "tcb s' = tcb s" "kernelVap s' = kernelVap s" "curThread s' = curThread s"
    using b(1) by simp_all
qed

lemma poolInv_wf: "poolInv s \<Longrightarrow> papWf (papOf pf s)"
  by (cases pf) (simp_all add: poolInv_def)

lemma pool_pages_distinct:
  assumes inv: "poolInv s" and i: "i < papCap (papOf p s)" "j < papCap (papOf q s)"
    and e: "papPage (papOf p s) i = papPage (papOf q s) j"
  shows "p = q \<and> i = j"
proof -
  have "unat (ppStart (papOf p s)) + 4096 * i = unat (ppStart (papOf q s)) + 4096 * j"
    using e unat_papPage [OF poolInv_wf [OF inv] i(1)] unat_papPage [OF poolInv_wf [OF inv] i(2)] by simp
  moreover have "unat (ppStart (papOf PF_KERNEL s)) + 4096 * papCap (papOf PF_KERNEL s) \<le> unat (ppStart (papOf PF_USER s))"
    using inv by (simp add: poolInv_def)
  ultimately show ?thesis using i by (cases p; cases q) auto
qed

lemma bm_room: "bm_wf bm \<Longrightarrow> n < bm_cap bm \<Longrightarrow> n div 8 < length (startAddr bm)"
  using less_mult_imp_div_less [of n "unat (bm_length bm)" 8]
  by (simp add: bm_wf_def bm_cap_def mult.commute)

lemma allocPhyAddr_ok:
  assumes inv: "poolInv s"
  shows "(\<forall>i < papCap (papOf pf s). papUsed (papOf pf s) i) \<and> allocPhyAddr pf s = Inr (NULLPTR, s) \<or>
    (\<exists>i s'. i < papCap (papOf pf s) \<and> \<not> papUsed (papOf pf s) i \<and>
       allocPhyAddr pf s = Inr (papPage (papOf pf s) i, s') \<and> papMarked pf i True s s')"
proof -
  let ?bm = "ppBitMap (papOf pf s)"
  have wf: "bm_wf ?bm" using poolInv_wf [OF inv] by (simp add: papWf_def)
  have scan: "bitMapScan ?bm 1 = Inr (case first_fit ?bm 1 of None \<Rightarrow> - 1 | Some n \<Rightarrow> of_nat n)"
    using bitMapScan_eq_first_fit [OF wf, of 1] by simp
  show ?thesis
  proof (cases "first_fit ?bm 1")
    case None
    then have "\<forall>i < papCap (papOf pf s). papUsed (papOf pf s) i" by (simp only: first_fit_1_None)
    then show ?thesis using None scan by (simp add: allocPhyAddr_def)
  next
    case (Some n)
    have n: "n < bm_cap ?bm" "n < 4294967295" "\<not> bm_used ?bm n"
      using first_fit_bound [OF wf, of 1 n] Some by (auto simp: first_fit_Some run_free_def)
    have u: "unat (of_nat n :: u32) = n" using n(2) by (simp add: unat_of_nat_small)
    have "unat (of_nat n :: u32) div 8 < length (startAddr ?bm)"
      unfolding u by (rule bm_room [OF wf n(1)])
    then obtain bm' where bm': "bitMapSet ?bm (of_nat n) True = Inr bm'" "bm_same_shape ?bm bm'"
      "\<And>j. bm_used bm' j = (if j = unat (of_nat n :: u32) then True else bm_used ?bm j)"
      by (rule bitMapSet_spec) blast
    have "papMarked pf n True s (setPapBits pf bm' s)"
      using bm'(2,3) unfolding papMarked_def u by blast
    moreover have "allocPhyAddr pf s = Inr (papPage (papOf pf s) n, setPapBits pf bm' s)"
      using scan Some bm'(1) of_nat_neq_minus1 [OF n(2)] by (simp add: allocPhyAddr_def papPage_def)
    ultimately show ?thesis using n(1,3) by blast
  qed
qed

lemma freePhyAddr_ok:
  assumes inv: "poolInv s" and i: "i < papCap (papOf pf s)"
  shows "\<exists>s'. freePhyAddr (papPage (papOf pf s) i) s = Inr s' \<and> papMarked pf i False s s'"
proof -
  let ?p = "papOf pf s"
  have wf: "papWf ?p" by (rule poolInv_wf [OF inv])
  note u = unat_papPage [OF wf i]
  have "papPage ?p i \<ge> ppStart (userPap s) \<longleftrightarrow> pf = PF_USER"
    using inv i u by (cases pf) (auto simp: word_le_nat_alt poolInv_def)
  then have pf: "(if papPage ?p i \<ge> ppStart (userPap s) then PF_USER else PF_KERNEL) = pf" by (cases pf) auto
  have idx: "unat ((papPage ?p i - ppStart ?p) div PG_SIZE) = i"
    using u by (simp add: unat_div unat_sub_small)
  have "unat ((papPage ?p i - ppStart ?p) div PG_SIZE) div 8 < length (startAddr (ppBitMap ?p))"
    using bm_room [of "ppBitMap ?p" i] i wf unfolding idx papWf_def by blast
  then obtain bm' where bm': "bitMapSet (ppBitMap ?p) ((papPage ?p i - ppStart ?p) div PG_SIZE) False = Inr bm'"
    "bm_same_shape (ppBitMap ?p) bm'" "\<And>j. bm_used bm' j = (if j = i then False else bm_used (ppBitMap ?p) j)"
    by (rule bitMapSet_spec) (simp only: idx, blast)
  have "freePhyAddr (papPage ?p i) s = Inr (setPapBits pf bm' s)"
    unfolding freePhyAddr_def pf using bm'(1) by simp
  then show ?thesis using bm'(2,3) unfolding papMarked_def by blast
qed



section \<open>Mapping and unmapping a page\<close>

text \<open>A frame that serves as a table is never a free page of a pool.\<close>

definition memInv :: "'a kmem_scheme \<Rightarrow> bool" where
  "memInv s \<longleftrightarrow> poolInv s \<and> pagingInv s \<and>
     (\<forall>pf. \<forall>i < papCap (papOf pf s). isTable s (papPage (papOf pf s) i) \<longrightarrow> papUsed (papOf pf s) i)"

lemma memInvD:
  assumes "memInv s"
  shows "poolInv s" "pagingInv s"
    "i < papCap (papOf pf s) \<Longrightarrow> \<not> papUsed (papOf pf s) i \<Longrightarrow> \<not> isTable s (papPage (papOf pf s) i)"
  using assms unfolding memInv_def by blast+

lemma isTable_cong:
  "(\<And>i. i < 1024 \<Longrightarrow> pdEnt s' i = pdEnt s i) \<Longrightarrow> isTable s' f = isTable s f"
  unfolding isTable_def by (metis (no_types, lifting))

lemma papOf_pmem [simp]: "papOf pf (s\<lparr>pmem := m\<rparr>) = papOf pf s"
  by (simp add: papOf_def del: pap_papOf)

lemma memInv_setPte:
  assumes inv: "memInv s" and d: "d < 1023" "t < 1024" "present (pdEnt s d)"
  shows "memInv (setMem (entry (frameOf (pdEnt s d)) t) v s)"
proof -
  have p: "pagingInv s" by (rule memInvD [OF inv])
  have "isTable (setMem (entry (frameOf (pdEnt s d)) t) v s) f = isTable s f" for f
    by (rule isTable_cong [OF setPte_pd [OF p d]])
  then show ?thesis
    using inv setPte_inv [OF p d] by (simp add: memInv_def poolInv_def)
qed

lemma memInv_marked:
  assumes inv: "memInv s" and m: "papMarked pf i True s s'"
  shows "memInv s'"
proof -
  have e: "pdEnt s' j = pdEnt s j" for j using papMarkedD(5,6) [OF m] by (simp add: pdEnt_def)
  then have t: "isTable s' f = isTable s f" for f by (intro isTable_cong) simp
  have "pagingInv s'" using memInvD(2) [OF inv] papMarkedD(6) [OF m] unfolding pagingInv_def by (simp add: e)
  then show ?thesis
    using inv papMarkedD(4) [OF m memInvD(1) [OF inv]] unfolding memInv_def
    by (simp add: papMarkedD(2,3,10) [OF m] t)
qed

definition tableRoom :: "u32 \<Rightarrow> 'a kmem_scheme \<Rightarrow> bool" where
  "tableRoom va s \<longleftrightarrow> present (pdEnt s (dIdx va)) \<or>
     (\<exists>i < papCap (papOf PF_KERNEL s). \<not> papUsed (papOf PF_KERNEL s) i)"

lemma frame_getPtePtr: "unat (frameOf (getPtePtr va)) = 0xffc00000 + dIdx va * 4096 + 4 * 0"
  using window_idx(6) [of va] unat_getPtePtr [of va] div_mult_mod_eq [of "unat (getPtePtr va)" 4096]
  unfolding unat_frame by linarith

lemma mapPageTable_present:
  assumes inv: "memInv s" and va: "dIdx va < 1023" "mmu s va = None" and pa: "pgAligned pa"
    and p: "present (pdEnt s (dIdx va))"
  shows "\<exists>s'. mapPageTable va pa s = Inr s' \<and> memInv s' \<and> (\<exists>m. s' = s\<lparr>pmem := m\<rparr>) \<and>
    (\<forall>i < 1024. pdEnt s' i = pdEnt s i) \<and>
    (\<forall>va'. mmu s' va' = (if frameOf va' = frameOf va then Some (pa + pageOff va') else mmu s va'))"
proof -
  have pg: "pagingInv s" by (rule memInvD [OF inv])
  let ?e = "entry (frameOf (pdEnt s (dIdx va))) (tIdx va)"
  let ?s' = "setMem ?e (pa OR entryBits) s"
  have "\<not> present (ptEnt s (dIdx va) (tIdx va))" using va(2) p by (auto simp: mmu_ent split: if_splits)
  then have t: "\<not> present (pmem s ?e)" by (simp add: ptEnt_def)
  have "mapPageTable va pa s = Inr ?s'"
    using p t unfolding mapPageTable_def Let_def vread_def vwrite_def mmu_getPdePtr [OF pg] mmu_getPtePtr [OF pg]
    by (simp flip: pdEnt_def)
  moreover have "mmu ?s' va' = (if frameOf va' = frameOf va then Some (pa + pageOff va') else mmu s va')" for va'
    unfolding frame_same_page setPte_mmu [OF pg va(1) idx_bound(2) p] using entry_value [OF pa] by simp
  moreover have "\<forall>i < 1024. pdEnt ?s' i = pdEnt s i" using setPte_pd [OF pg va(1) idx_bound(2) p] by blast
  ultimately show ?thesis using memInv_setPte [OF inv va(1) idx_bound(2) p] by blast
qed

lemma mapPageTable_new:
  assumes inv: "memInv s" and va: "dIdx va < 1023" and pa: "pgAligned pa"
    and p: "\<not> present (pdEnt s (dIdx va))"
    and room: "\<exists>i < papCap (papOf PF_KERNEL s). \<not> papUsed (papOf PF_KERNEL s) i"
  shows "\<exists>s'. mapPageTable va pa s = Inr s' \<and> memInv s' \<and>
    (\<forall>va'. dIdx va' \<noteq> 1023 \<longrightarrow> mmu s' va' = (if frameOf va' = frameOf va then Some (pa + pageOff va') else mmu s va'))"
proof -
  let ?d = "dIdx va" and ?t = "tIdx va"
  obtain i s1 where i: "i < papCap (papOf PF_KERNEL s)" "\<not> papUsed (papOf PF_KERNEL s) i"
    "allocPhyAddr PF_KERNEL s = Inr (papPage (papOf PF_KERNEL s) i, s1)" "papMarked PF_KERNEL i True s s1"
    using allocPhyAddr_ok [OF memInvD(1) [OF inv], of PF_KERNEL] room by blast
  define f where "f = papPage (papOf PF_KERNEL s) i"
  have f: "pgAligned f" unfolding f_def by (rule papPage_facts(1) [OF poolInv_wf [OF memInvD(1) [OF inv]] i(1)])
  have inv1: "memInv s1" by (rule memInv_marked [OF inv i(4)])
  note pg1 = memInvD(2) [OF inv1]
  have e1: "pdEnt s1 j = pdEnt s j" "ptEnt s1 j k = ptEnt s j k" for j k
    using papMarkedD(5,6) [OF i(4)] by (simp_all add: pdEnt_def ptEnt_def)
  have nf: "\<not> isTable s1 f"
    using memInvD(3) [OF inv i(1,2)] isTable_cong [of s1 s] e1 unfolding f_def by blast
  have p1: "\<not> present (pdEnt s1 ?d)" using p e1 by simp
  have d: "?d < 1024" using va by simp
  let ?s2 = "setMem (entry (pdFrame s1) ?d) (f OR entryBits) s1"
  have e2: "pdEnt ?s2 j = (if j = ?d then f OR entryBits else pdEnt s1 j)" if "j < 1024" for j
    using that d by (simp add: entry_inj) (simp add: pdEnt_def)
  have pg2: "pagingInv ?s2" by (rule newTable_inv(1) [OF pg1 va p1 f nf _ e2]) simp_all
  have "present (pdEnt ?s2 ?d)" "frameOf (pdEnt ?s2 ?d) = f"
    using entry_value [OF f] by (simp_all only: e2 [OF d] simp_thms if_True)
  then have "vclear (frameOf (getPtePtr va)) 1024 ?s2 = Inr (?s2\<lparr>pmem := \<lambda>q. if q \<in> entry f ` {0..<0 + 1024} then 0 else pmem ?s2 q\<rparr>)"
    using vclear_table [OF pg2 va _ frame_getPtePtr, of 1024] by simp
  also have "\<dots> = Inr (withTable f ?d s1)"
    by (simp add: withTable_def fun_upd_def cong: if_cong)
  finally have c: "vclear (frameOf (getPtePtr va)) 1024 ?s2 = Inr (withTable f ?d s1)" .
  let ?s3 = "withTable f ?d s1"
  note w3 = withTable_ents [OF pg1 va p1 f nf]
  have p3: "present (pdEnt ?s3 ?d)" "frameOf (pdEnt ?s3 ?d) = f"
    using w3(1) [OF d] entry_value [OF f] by simp_all
  let ?s4 = "setMem (entry f ?t) (pa OR entryBits) ?s3"
  have wr: "mapPageTable va pa s = Inr ?s4"
    unfolding mapPageTable_def Let_def vread_def mmu_getPdePtr [OF memInvD(2) [OF inv]]
    using p i(3) c p3 mmu_getPdePtr [OF pg1, of va] mmu_getPtePtr [OF w3(3), of va]
    by (simp add: vwrite_def f_def [symmetric] flip: pdEnt_def del: ents_upd)
  have pools3: "papOf q ?s3 = papOf q s1" for q by (simp add: withTable_def)
  have tab3: "isTable ?s3 g \<longleftrightarrow> g = f \<or> isTable s1 g" for g
    using newTable_inv(2) [OF pg1 va p1 f nf, of ?s3] w3(1) by (simp add: withTable_def)
  have "memInv ?s3"
    unfolding memInv_def pools3 tab3
  proof (intro conjI allI impI)
    show "poolInv ?s3" using memInvD(1) [OF inv1] by (simp add: poolInv_def pools3)
    show "pagingInv ?s3" by (rule w3(3))
    fix q j assume j: "j < papCap (papOf q s1)" "papPage (papOf q s1) j = f \<or> isTable s1 (papPage (papOf q s1) j)"
    show "papUsed (papOf q s1) j"
    proof (cases "papPage (papOf q s1) j = f")
      case True
      then have "q = PF_KERNEL \<and> j = i"
        using j(1) i(1) pool_pages_distinct [OF memInvD(1) [OF inv]] unfolding f_def papMarkedD(2,10) [OF i(4)] by blast
      then show ?thesis using papMarkedD(3) [OF i(4)] by simp
    next
      case False
      then show ?thesis using j memInvD(3) [OF inv1] by blast
    qed
  qed
  then have "memInv ?s4" using memInv_setPte [OF _ va idx_bound(2) p3(1)] p3(2) by simp
  moreover have "mmu ?s4 va' = (if frameOf va' = frameOf va then Some (pa + pageOff va') else mmu s va')" if w: "dIdx va' \<noteq> 1023" for va'
  proof -
    have "mmu ?s4 va' = (if frameOf va' = frameOf va then Some (pa + pageOff va') else mmu ?s3 va')"
      using setPte_mmu [OF w3(3) va idx_bound(2) p3(1), where v = "pa OR entryBits" and va = va'] entry_value [OF pa]
      unfolding p3(2) frame_same_page by simp
    moreover have "mmu ?s3 va' = mmu s va'"
    proof (cases "dIdx va' = ?d \<or> present (pdEnt s1 (dIdx va'))")
      case True
      then show ?thesis using w p e1 p3(1) by (auto simp: mmu_ent w3(1,2))
    next
      case False
      then show ?thesis using e1 by (simp add: mmu_ent w3(1))
    qed
    ultimately show ?thesis by simp
  qed
  ultimately show ?thesis using wr by blast
qed

end
