(* ===== verification/Memory.thy ===== *)
theory Memory
  imports Paging
begin

text \<open>
  The page allocator of kernel/memory.c: virtual runs of pages, their backing with physical pages,
  the roll-back when these run out, and giving pages back. A page is cleared a word at a time.
\<close>

section \<open>Virtual pages\<close>

definition vapOf :: "PoolFlag \<Rightarrow> 'a kmem_scheme \<Rightarrow> VirtualAddrPool" where
  "vapOf pf s = (if pf = PF_KERNEL then kernelVap s else vap (tcb s (curThread s)))"

definition setVapBits :: "PoolFlag \<Rightarrow> BitMap \<Rightarrow> 'a kmem_scheme \<Rightarrow> 'a kmem_scheme" where
  "setVapBits pf bm s =
     (if pf = PF_KERNEL then s\<lparr>kernelVap := (kernelVap s)\<lparr>vbitMap := bm\<rparr>\<rparr>
      else updTask (curThread s) (\<lambda>t. t\<lparr>vap := (vap t)\<lparr>vbitMap := bm\<rparr>\<rparr>) s)"

definition allocVirAddr :: "PoolFlag \<Rightarrow> u32 \<Rightarrow> 'a kmem_scheme \<Rightarrow> (u32 \<times> 'a kmem_scheme) res" where
  "allocVirAddr pf pageCnt s =
     rbind (bitMapScanAndSet (vbitMap (vapOf pf s)) pageCnt True) (\<lambda>(bitIdxStart, bm).
     if bitIdxStart = - 1 then Inr (NULLPTR, s)
     else
       (let virPageAddr = vstartAddr (vapOf pf s) + bitIdxStart * PG_SIZE; s = setVapBits pf bm s
        in if pf = PF_KERNEL then Inr (virPageAddr, s)
           else assertC ''(uint32) virPageAddr < (0xc0000000 - PG_SIZE)''
                  (virPageAddr < 0xc0000000 - PG_SIZE) (Inr (virPageAddr, s))))"

definition freeVirAddr :: "PoolFlag \<Rightarrow> u32 \<Rightarrow> u32 \<Rightarrow> 'a kmem_scheme \<Rightarrow> 'a kmem_scheme res" where
  "freeVirAddr pf vaddr pgCnt s =
     (let bitIdxStart = (vaddr - vstartAddr (vapOf pf s)) div PG_SIZE
      in rbind (setRun (vbitMap (vapOf pf s)) bitIdxStart pgCnt False) (\<lambda>bm. Inr (setVapBits pf bm s)))"

section \<open>Allocating and freeing pages\<close>

text \<open>The inner loop of \<open>allocPage\<close> that undoes \<open>n\<close> pages, downwards from \<open>vaddr\<close>.\<close>

fun rollback :: "nat \<Rightarrow> u32 \<Rightarrow> 'a kmem_scheme \<Rightarrow> (u32 \<times> 'a kmem_scheme) res" where
  "rollback 0 vaddr s = Inr (vaddr, s)"
| "rollback (Suc n) vaddr s =
     rbind (addrV2P vaddr s) (\<lambda>paddr.
     rbind (freePhyAddr paddr s) (\<lambda>s.
     rbind (unmapPageTable vaddr s) (\<lambda>s.
     rollback n (vaddr - PG_SIZE) s)))"

text \<open>The outer loop with \<open>n\<close> pages to go and \<open>k\<close> done; the flag tells success.\<close>

fun allocLoop :: "PoolFlag \<Rightarrow> u32 \<Rightarrow> nat \<Rightarrow> nat \<Rightarrow> 'a kmem_scheme \<Rightarrow> (bool \<times> u32 \<times> 'a kmem_scheme) res" where
  "allocLoop pf vaddr 0 k s = Inr (True, vaddr, s)"
| "allocLoop pf vaddr (Suc n) k s =
     rbind (allocPhyAddr pf s) (\<lambda>(paddr, s).
     if paddr = NULLPTR then rbind (rollback k (vaddr - PG_SIZE) s) (\<lambda>(vaddr, s). Inr (False, vaddr, s))
     else rbind (mapPageTable vaddr paddr s) (allocLoop pf (vaddr + PG_SIZE) n (Suc k)))"

definition allocPage :: "PoolFlag \<Rightarrow> u32 \<Rightarrow> 'a kmem_scheme \<Rightarrow> (u32 \<times> 'a kmem_scheme) res" where
  "allocPage pf pageCnt s =
     assertC ''pageCnt > 0 && pageCnt < 3840'' (pageCnt > 0 \<and> pageCnt < 3840)
     (rbind (allocVirAddr pf pageCnt s) (\<lambda>(virPageAddr, s).
      if virPageAddr = NULLPTR then Inr (NULLPTR, s)
      else rbind (allocLoop pf virPageAddr (unat pageCnt) 0 s) (\<lambda>(done, vaddr, s).
        if done then Inr (virPageAddr, s)
        else rbind (freeVirAddr pf virPageAddr pageCnt s) (\<lambda>s.
          assertC ''(uint32) vaddr < (uint32) virPageAddr'' (vaddr < virPageAddr) (Inr (NULLPTR, s))))))"

text \<open>The two loops of \<open>freePage\<close> differ in what they assert of the page.\<close>

fun freeLoop :: "bool \<Rightarrow> nat \<Rightarrow> u32 \<Rightarrow> 'a kmem_scheme \<Rightarrow> 'a kmem_scheme res" where
  "freeLoop user 0 vaddr s = Inr s"
| "freeLoop user (Suc n) vaddr s =
     rbind (addrV2P vaddr s) (\<lambda>paddr.
     assertC ''paddr'' (if user then paddr mod PG_SIZE = 0 \<and> paddr > ppStart (userPap s)
       else paddr mod PG_SIZE = 0 \<and> paddr \<ge> ppStart (kernelPap s) \<and> paddr < ppStart (userPap s))
     (rbind (freePhyAddr paddr s) (\<lambda>s.
      rbind (unmapPageTable vaddr s) (freeLoop user n (vaddr + PG_SIZE)))))"

definition freePage :: "PoolFlag \<Rightarrow> u32 \<Rightarrow> u32 \<Rightarrow> 'a kmem_scheme \<Rightarrow> 'a kmem_scheme res" where
  "freePage pf virPageAddr pgCnt s =
     assertC ''pgCnt > 0 && vaddr % PG_SIZE == 0'' (pgCnt > 0 \<and> virPageAddr mod PG_SIZE = 0)
     (rbind (addrV2P virPageAddr s) (\<lambda>paddr.
      assertC ''(paddr % PG_SIZE) == 0 && paddr > 0x102000'' (paddr mod PG_SIZE = 0 \<and> paddr > 0x102000)
      (rbind (freeLoop (paddr \<ge> ppStart (userPap s)) (unat pgCnt) virPageAddr s)
         (freeVirAddr pf virPageAddr pgCnt))))"

section \<open>The interface under the pool lock\<close>

abbreviation papLock :: "PoolFlag \<Rightarrow> semaid" where
  "papLock pf \<equiv> (if pf = PF_KERNEL then KernelPapLock else UserPapLock)"

definition getKernelPages :: "u32 \<Rightarrow> 'a kmem_scheme \<Rightarrow> (u32 \<times> 'a kmem_scheme) res" where
  "getKernelPages pageCnt s =
     rbind (lockNow KernelPapLock s) (\<lambda>s.
     rbind (allocPage PF_KERNEL pageCnt s) (\<lambda>(vaddr, s).
     rbind (if vaddr \<noteq> NULLPTR then vclear vaddr (1024 * unat pageCnt) s else Inr s) (\<lambda>s.
     rbind (lockUnlock KernelPapLock s) (\<lambda>s. Inr (vaddr, s)))))"

definition getUserPages :: "u32 \<Rightarrow> 'a kmem_scheme \<Rightarrow> (u32 \<times> 'a kmem_scheme) res" where
  "getUserPages pageCnt s =
     rbind (lockNow UserPapLock s) (\<lambda>s.
     rbind (allocPage PF_USER pageCnt s) (\<lambda>(vaddr, s).
     rbind (if vaddr \<noteq> NULLPTR then vclear vaddr (1024 * unat pageCnt) s else Inr s) (\<lambda>s.
     rbind (lockUnlock UserPapLock s) (\<lambda>s. Inr (vaddr, s)))))"

text \<open>\<open>getOnePage\<close> marks the virtual page of the caller itself; when no physical page is left it
  returns without giving the lock back.\<close>

definition getOnePage :: "PoolFlag \<Rightarrow> u32 \<Rightarrow> 'a kmem_scheme \<Rightarrow> (u32 \<times> 'a kmem_scheme) res" where
  "getOnePage pf vaddr s =
     assertC ''vaddr % PG_SIZE == 0'' (vaddr mod PG_SIZE = 0)
     (rbind (lockNow (papLock pf) s) (\<lambda>s.
      let cur = tcb s (curThread s) in
      if (pf = PF_USER \<and> pageDir cur \<noteq> NULLPTR) \<or> (pf = PF_KERNEL \<and> pageDir cur = NULLPTR) then
        (let bitIdx = (vaddr - vstartAddr (vapOf pf s)) div PG_SIZE in
         assertC ''bitIdx >= 0'' (sint bitIdx \<ge> 0)
         (rbind (bitMapSet (vbitMap (vapOf pf s)) bitIdx True) (\<lambda>bm.
          let s = setVapBits pf bm s in
          rbind (allocPhyAddr pf s) (\<lambda>(paddr, s).
          if paddr = NULLPTR then Inr (NULLPTR, s)
          else rbind (mapPageTable vaddr paddr s) (\<lambda>s.
            rbind (lockUnlock (papLock pf) s) (\<lambda>s. Inr (vaddr, s)))))))
      else Inl (Panic ''PoolFlag and Vaddr not matched'')))"

definition getOnePageWithoutVBM :: "PoolFlag \<Rightarrow> u32 \<Rightarrow> 'a kmem_scheme \<Rightarrow> (u32 \<times> 'a kmem_scheme) res" where
  "getOnePageWithoutVBM pf vaddr s =
     rbind (lockNow (papLock pf) s) (\<lambda>s.
     rbind (allocPhyAddr pf s) (\<lambda>(paddr, s).
     if paddr = NULLPTR then rbind (lockUnlock (papLock pf) s) (\<lambda>s. Inr (NULLPTR, s))
     else rbind (mapPageTable vaddr paddr s) (\<lambda>s.
       rbind (lockUnlock (papLock pf) s) (\<lambda>s. Inr (vaddr, s)))))"

section \<open>Initialisation\<close>

text \<open>\<open>memPoolInit\<close> lays out the three bitmaps behind each other; \<open>raw\<close> is what the memory at
  their addresses holds before, one byte further than their length (the scan reads it).\<close>

abbreviation MEM_BITMAP_BASE :: u32 where "MEM_BITMAP_BASE \<equiv> 0xc009a000"
abbreviation K_HEAP_START :: u32 where "K_HEAP_START \<equiv> 0xc0100000"

definition bitMapAt :: "(u32 \<Rightarrow> u8) \<Rightarrow> u32 \<Rightarrow> u32 \<Rightarrow> BitMap" where
  "bitMapAt raw a len = \<lparr>bm_length = len, startAddr = map (\<lambda>i. raw (a + of_nat i)) [0..<Suc (unat len)]\<rparr>"

definition memPoolInit :: "(u32 \<Rightarrow> u8) \<Rightarrow> u32 \<Rightarrow> 'a kmem_scheme \<Rightarrow> 'a kmem_scheme res" where
  "memPoolInit raw allMem s =
     (let pageTableSize = PG_SIZE * 256;
          usedMem = pageTableSize + PAGE_DIR_TABLE_POS;
          freeMem = allMem - usedMem;
          allFreePages = freeMem div PG_SIZE;
          kernelFreePages = allFreePages div 2;
          userFreePages = allFreePages div 2;
          kbmLength = kernelFreePages div 8;
          ubmLength = userFreePages div 8;
          kernelPageStart = usedMem;
          userPageStart = kernelPageStart + kernelFreePages * PG_SIZE;
          s = lockInit KernelPapLock s;
          s = lockInit UserPapLock s in
      rbind (bitMapInit (bitMapAt raw MEM_BITMAP_BASE kbmLength)) (\<lambda>kbm.
      rbind (bitMapInit (bitMapAt raw (MEM_BITMAP_BASE + kbmLength) ubmLength)) (\<lambda>ubm.
      let s = s\<lparr>kernelPap := \<lparr>ppBitMap = kbm, ppStart = kernelPageStart, ppSize = kernelFreePages * PG_SIZE\<rparr>,
                userPap := \<lparr>ppBitMap = ubm, ppStart = userPageStart, ppSize = userFreePages * PG_SIZE\<rparr>\<rparr> in
      rbind (bitMapInit (bitMapAt raw (MEM_BITMAP_BASE + kbmLength + ubmLength) kbmLength)) (\<lambda>vbm.
      Inr (s\<lparr>kernelVap := \<lparr>vbitMap = vbm, vstartAddr = K_HEAP_START\<rparr>\<rparr>)))))"

end
