(* ===== verification/MemoryInv.thy ===== *)
theory MemoryInv
  imports Memory
begin

text \<open>
  What the page allocator guarantees: \<open>allocPage\<close> backs a free virtual run with free physical
  pages and changes no other translation, undoes everything when the physical pages run out, and
  \<open>freePage\<close> gives back what it took; the layout of the pools; and where the allocator stops or
  keeps its lock.
\<close>


section \<open>Page numbers\<close>

definition pgNo :: "u32 \<Rightarrow> nat" where "pgNo va = unat va div 4096"

definition vpage :: "u32 \<Rightarrow> nat \<Rightarrow> u32" where "vpage v k = v + of_nat k * PG_SIZE"

lemma frameOf_pgNo: "frameOf a = frameOf b \<longleftrightarrow> pgNo a = pgNo b"
  by (simp add: word_unat_eq_iff unat_frame pgNo_def del: unat_inj_iff)

lemma unat_vpage: "unat v + 4096 * k < 4294967296 \<Longrightarrow> unat (vpage v k) = unat v + 4096 * k"
proof -
  assume a: "unat v + 4096 * k < 4294967296"
  then have "unat (of_nat k * PG_SIZE :: u32) = 4096 * k"
    by (subst unat_mult_small) (simp_all add: unat_of_nat_small)
  then show ?thesis unfolding vpage_def using a by (subst unat_add_small) simp_all
qed

lemma pgNo_vpage: "unat v + 4096 * k < 4294967296 \<Longrightarrow> pgNo (vpage v k) = pgNo v + k"
  by (simp add: pgNo_def unat_vpage)

lemma vpage_Suc: "vpage v k + PG_SIZE = vpage v (Suc k)" "vpage v (Suc k) - PG_SIZE = vpage v k" "vpage v 0 = v"
  by (simp_all add: vpage_def algebra_simps)

lemma pgAligned_vpage: "pgAligned v \<Longrightarrow> unat v + 4096 * k < 4294967296 \<Longrightarrow> pgAligned (vpage v k)"
  by (simp add: pgAligned_def unat_vpage)

section \<open>Pages handed out so far\<close>

text \<open>\<open>s\<close> differs from \<open>s0\<close> in that the pages from \<open>v\<close> on are backed by the pool pages \<open>is\<close>.\<close>

definition sameRest :: "'a kmem_scheme \<Rightarrow> 'a kmem_scheme \<Rightarrow> bool" where
  "sameRest s0 s \<longleftrightarrow> s0\<lparr>pmem := pmem s, kernelPap := kernelPap s, userPap := userPap s\<rparr> = s"

lemma sameRest_refl [simp]: "sameRest s s"
  by (simp add: sameRest_def del: pap_papOf)

lemma sameRest_trans: "sameRest s0 s1 \<Longrightarrow> sameRest s1 s2 \<Longrightarrow> sameRest s0 s2"
proof -
  assume a: "sameRest s0 s1" and b: "sameRest s1 s2"
  have "s1\<lparr>pmem := x, kernelPap := y, userPap := z\<rparr> = s0\<lparr>pmem := x, kernelPap := y, userPap := z\<rparr>" for x y z
    by (subst a [unfolded sameRest_def, symmetric]) (simp del: pap_papOf)
  then show ?thesis using b by (simp only: sameRest_def)
qed

lemma sameRest_steps [simp]:
  "sameRest s (s\<lparr>pmem := m\<rparr>)" "sameRest s (setPapBits pf bm s)"
  by (simp_all add: sameRest_def setPapBits_def del: pap_papOf)

definition grown :: "PoolFlag \<Rightarrow> u32 \<Rightarrow> nat list \<Rightarrow> 'a kmem_scheme \<Rightarrow> 'a kmem_scheme \<Rightarrow> bool" where
  "grown pf v is s0 s \<longleftrightarrow>
     sameRest s0 s \<and> poolInv s \<and> pagingInv s \<and>
     distinct is \<and> (\<forall>i \<in> set is. i < papCap (papOf pf s0) \<and> \<not> papUsed (papOf pf s0) i) \<and>
     (\<forall>q. ppStart (papOf q s) = ppStart (papOf q s0) \<and> papCap (papOf q s) = papCap (papOf q s0) \<and>
        (\<forall>j. papUsed (papOf q s) j = (papUsed (papOf q s0) j \<or> (q = pf \<and> j \<in> set is)))) \<and>
     (\<forall>i < 1024. pdEnt s i = pdEnt s0 i) \<and>
     (\<forall>va. mmu s va = (if pgNo v \<le> pgNo va \<and> pgNo va < pgNo v + length is
        then Some (papPage (papOf pf s0) (is ! (pgNo va - pgNo v)) + pageOff va) else mmu s0 va))"

lemma grownD:
  assumes "grown pf v is s0 s"
  shows "sameRest s0 s" "poolInv s" "pagingInv s" "distinct is"
    "i \<in> set is \<Longrightarrow> i < papCap (papOf pf s0) \<and> \<not> papUsed (papOf pf s0) i"
    "ppStart (papOf q s) = ppStart (papOf q s0)" "papCap (papOf q s) = papCap (papOf q s0)"
    "papUsed (papOf q s) j = (papUsed (papOf q s0) j \<or> (q = pf \<and> j \<in> set is))"
    "i < 1024 \<Longrightarrow> pdEnt s i = pdEnt s0 i"
    "mmu s va = (if pgNo v \<le> pgNo va \<and> pgNo va < pgNo v + length is
        then Some (papPage (papOf pf s0) (is ! (pgNo va - pgNo v)) + pageOff va) else mmu s0 va)"
    "papPage (papOf q s) j = papPage (papOf q s0) j"
proof -
  note g = assms [unfolded grown_def]
  show "sameRest s0 s" "poolInv s" "pagingInv s" "distinct is" using g by blast+
  have "\<forall>i \<in> set is. i < papCap (papOf pf s0) \<and> \<not> papUsed (papOf pf s0) i" using g by (elim conjE)
  then show "i \<in> set is \<Longrightarrow> i < papCap (papOf pf s0) \<and> \<not> papUsed (papOf pf s0) i" by blast
  have q: "\<forall>q. ppStart (papOf q s) = ppStart (papOf q s0) \<and> papCap (papOf q s) = papCap (papOf q s0) \<and>
        (\<forall>j. papUsed (papOf q s) j = (papUsed (papOf q s0) j \<or> (q = pf \<and> j \<in> set is)))" using g by (elim conjE)
  then show "ppStart (papOf q s) = ppStart (papOf q s0)" "papCap (papOf q s) = papCap (papOf q s0)"
    "papUsed (papOf q s) j = (papUsed (papOf q s0) j \<or> (q = pf \<and> j \<in> set is))" by blast+
  then show "papPage (papOf q s) j = papPage (papOf q s0) j" by (simp add: papPage_def)
  have "\<forall>i < 1024. pdEnt s i = pdEnt s0 i" using g by (elim conjE)
  then show "i < 1024 \<Longrightarrow> pdEnt s i = pdEnt s0 i" by blast
  have "\<forall>va. mmu s va = (if pgNo v \<le> pgNo va \<and> pgNo va < pgNo v + length is
        then Some (papPage (papOf pf s0) (is ! (pgNo va - pgNo v)) + pageOff va) else mmu s0 va)"
    using g by (elim conjE)
  then show "mmu s va = (if pgNo v \<le> pgNo va \<and> pgNo va < pgNo v + length is
        then Some (papPage (papOf pf s0) (is ! (pgNo va - pgNo v)) + pageOff va) else mmu s0 va)" by blast
qed

lemma grownI:
  assumes "sameRest s0 s" "poolInv s" "pagingInv s" "distinct is"
    "\<And>i. i \<in> set is \<Longrightarrow> i < papCap (papOf pf s0) \<and> \<not> papUsed (papOf pf s0) i"
    "\<And>q. ppStart (papOf q s) = ppStart (papOf q s0)" "\<And>q. papCap (papOf q s) = papCap (papOf q s0)"
    "\<And>q j. papUsed (papOf q s) j = (papUsed (papOf q s0) j \<or> (q = pf \<and> j \<in> set is))"
    "\<And>i. i < 1024 \<Longrightarrow> pdEnt s i = pdEnt s0 i"
    "\<And>va. mmu s va = (if pgNo v \<le> pgNo va \<and> pgNo va < pgNo v + length is
        then Some (papPage (papOf pf s0) (is ! (pgNo va - pgNo v)) + pageOff va) else mmu s0 va)"
  shows "grown pf v is s0 s"
  unfolding grown_def using assms by (intro conjI allI ballI impI) (blast dest: assms(5))+

lemma grown_refl: "memInv s \<Longrightarrow> grown pf v [] s s"
  using memInvD(1,2) by (intro grownI) auto

lemma grown_memInv:
  assumes "memInv s0" "grown pf v is s0 s"
  shows "memInv s"
proof -
  have "isTable s f = isTable s0 f" for f by (rule isTable_cong) (rule grownD(9) [OF assms(2)])
  then show ?thesis
    using assms(1) grownD(2,3) [OF assms(2)] unfolding memInv_def
    by (simp add: grownD(7,8,11) [OF assms(2)])
qed

lemma mmu_cong: "pmem s' = pmem s \<Longrightarrow> cr3 s' = cr3 s \<Longrightarrow> mmu s' va = mmu s va"
  by (simp add: mmu_def pdeAt_def pteAt_def)

lemma pagingInv_cong: "pmem s' = pmem s \<Longrightarrow> cr3 s' = cr3 s \<Longrightarrow> pagingInv s' = pagingInv s"
  by (simp add: pagingInv_def pdEnt_def)

text \<open>One more page.\<close>

lemma grow_step:
  assumes inv: "memInv s0" and g: "grown pf v is s0 s"
    and i: "i < papCap (papOf pf s)" "\<not> papUsed (papOf pf s) i" and m: "papMarked pf i True s s1"
    and v: "pgAligned v" "unat v + 4096 * length is < 4294967296"
    and va: "dIdx (vpage v (length is)) < 1023" "present (pdEnt s0 (dIdx (vpage v (length is))))"
      "mmu s0 (vpage v (length is)) = None"
  shows "\<exists>s2. mapPageTable (vpage v (length is)) (papPage (papOf pf s) i) s1 = Inr s2 \<and> grown pf v (is @ [i]) s0 s2"
proof -
  let ?va = "vpage v (length is)" and ?pa = "papPage (papOf pf s) i"
  have inv1: "memInv s1" by (rule memInv_marked [OF grown_memInv [OF inv g] m])
  have pd1: "pdEnt s1 j = pdEnt s j" for j using papMarkedD(5,6) [OF m] by (simp add: pdEnt_def)
  have mm1: "mmu s1 a = mmu s a" for a by (rule mmu_cong [OF papMarkedD(5,6) [OF m]])
  have pg: "pgNo ?va = pgNo v + length is" by (rule pgNo_vpage [OF v(2)])
  have p1: "present (pdEnt s1 (dIdx ?va))" "mmu s1 ?va = None"
    using va(2,3) grownD(9) [OF g, of "dIdx ?va"] grownD(10) [OF g, of ?va] pg by (simp_all add: pd1 mm1)
  have al: "pgAligned ?pa" by (rule papPage_facts(1) [OF poolInv_wf [OF grownD(2) [OF g]] i(1)])
  obtain s2 m where s2: "mapPageTable ?va ?pa s1 = Inr s2" "memInv s2" "s2 = s1\<lparr>pmem := m\<rparr>"
    "\<forall>i < 1024. pdEnt s2 i = pdEnt s1 i"
    "\<forall>va'. mmu s2 va' = (if frameOf va' = frameOf ?va then Some (?pa + pageOff va') else mmu s1 va')"
    using mapPageTable_present [OF inv1 va(1) p1(2) al p1(1)] by blast
  have pap2: "papOf q s2 = papOf q s1" for q unfolding s2(3) by (rule papOf_pmem)
  have "grown pf v (is @ [i]) s0 s2"
  proof (rule grownI)
    have "sameRest s s1" using m unfolding papMarked_def by auto
    then show "sameRest s0 s2" using sameRest_trans [OF grownD(1) [OF g]] sameRest_trans s2(3) by (metis sameRest_steps(1))
    show "poolInv s2" "pagingInv s2" using memInvD(1,2) [OF s2(2)] by blast+
    show "distinct (is @ [i])" using grownD(4) [OF g] i(2) grownD(8) [OF g, of pf i] by auto
    show "j < papCap (papOf pf s0) \<and> \<not> papUsed (papOf pf s0) j" if "j \<in> set (is @ [i])" for j
      using that grownD(5) [OF g, of j] i grownD(7) [OF g, of pf] grownD(8) [OF g, of pf i] by auto
    show "ppStart (papOf q s2) = ppStart (papOf q s0)" for q
      by (simp only: pap2 papMarkedD(1) [OF m] grownD(6) [OF g])
    show "papCap (papOf q s2) = papCap (papOf q s0)" for q
      by (simp only: pap2 papMarkedD(2) [OF m] grownD(7) [OF g])
    show "papUsed (papOf q s2) j = (papUsed (papOf q s0) j \<or> (q = pf \<and> j \<in> set (is @ [i])))" for q j
      using grownD(8) [OF g, of q j] papMarkedD(3) [OF m, of q j] unfolding pap2 by auto
    show "pdEnt s2 j = pdEnt s0 j" if "j < 1024" for j using s2(4) grownD(9) [OF g that] pd1 that by simp
    show "mmu s2 va = (if pgNo v \<le> pgNo va \<and> pgNo va < pgNo v + length (is @ [i])
        then Some (papPage (papOf pf s0) ((is @ [i]) ! (pgNo va - pgNo v)) + pageOff va) else mmu s0 va)" for va
      using s2(5) grownD(10) [OF g, of va] unfolding mm1 frameOf_pgNo pg grownD(11) [OF g]
      by (auto simp: nth_append)
  qed
  then show ?thesis using s2(1) by blast
qed

text \<open>One page less.\<close>

lemma unmapPageTable_ok:
  assumes pg: "pagingInv s" and va: "dIdx va < 1023" "present (pdEnt s (dIdx va))"
  shows "\<exists>m. unmapPageTable va s = Inr (s\<lparr>pmem := m\<rparr>) \<and> pagingInv (s\<lparr>pmem := m\<rparr>) \<and>
    (\<forall>i < 1024. pdEnt (s\<lparr>pmem := m\<rparr>) i = pdEnt s i) \<and>
    (\<forall>va'. mmu (s\<lparr>pmem := m\<rparr>) va' = (if frameOf va' = frameOf va then None else mmu s va'))"
proof -
  let ?e = "entry (frameOf (pdEnt s (dIdx va))) (tIdx va)"
  let ?v = "pmem s ?e AND NOT 1"
  have np: "?v AND 1 = 0" by (simp add: and.assoc)
  have "unmapPageTable va s = Inr (setMem ?e ?v s)"
    using va(2) by (simp add: unmapPageTable_def vread_def vwrite_def mmu_getPtePtr [OF pg])
  moreover note setPte_inv [OF pg va(1) idx_bound(2) [of va] va(2), of ?v]
    setPte_pd [OF pg va(1) idx_bound(2) [of va] va(2), of _ ?v]
    setPte_mmu [OF pg va(1) idx_bound(2) [of va] va(2), of ?v]
  ultimately show ?thesis unfolding frame_same_page using np
    by (intro exI [of _ "(pmem s)(?e := ?v)"]) (simp del: ents_upd)
qed

text \<open>Freeing the physical page behind \<open>va\<close> and unmapping it.\<close>

lemma unback_page:
  assumes inv: "poolInv s" "pagingInv s" and i: "i < papCap (papOf pf s)"
    and va: "dIdx va < 1023" "present (pdEnt s (dIdx va))" "mmu s va = Some (papPage (papOf pf s) i)"
  shows "\<exists>s1 s2. addrV2P va s = Inr (papPage (papOf pf s) i) \<and>
    freePhyAddr (papPage (papOf pf s) i) s = Inr s1 \<and> unmapPageTable va s1 = Inr s2 \<and>
    sameRest s s2 \<and> poolInv s2 \<and> pagingInv s2 \<and>
    (\<forall>q. ppStart (papOf q s2) = ppStart (papOf q s) \<and> papCap (papOf q s2) = papCap (papOf q s) \<and>
       (\<forall>j. papUsed (papOf q s2) j = (papUsed (papOf q s) j \<and> \<not> (q = pf \<and> j = i)))) \<and>
    (\<forall>j < 1024. pdEnt s2 j = pdEnt s j) \<and>
    (\<forall>x. mmu s2 x = (if pgNo x = pgNo va then None else mmu s x))"
proof -
  let ?pa = "papPage (papOf pf s) i"
  have a: "addrV2P va s = Inr ?pa" by (rule addrV2P_mmu [OF inv(2) va(3)])
  obtain s1 where s1: "freePhyAddr ?pa s = Inr s1" "papMarked pf i False s s1"
    using freePhyAddr_ok [OF inv(1) i] by blast
  have pd1: "pdEnt s1 j = pdEnt s j" for j using papMarkedD(5,6) [OF s1(2)] by (simp add: pdEnt_def)
  have mm1: "mmu s1 x = mmu s x" for x by (rule mmu_cong [OF papMarkedD(5,6) [OF s1(2)]])
  have pg1: "pagingInv s1" using pagingInv_cong [OF papMarkedD(5,6) [OF s1(2)]] inv(2) by simp
  have "present (pdEnt s1 (dIdx va))" using va(2) by (simp add: pd1)
  then obtain m where m: "unmapPageTable va s1 = Inr (s1\<lparr>pmem := m\<rparr>)" "pagingInv (s1\<lparr>pmem := m\<rparr>)"
    "\<forall>i < 1024. pdEnt (s1\<lparr>pmem := m\<rparr>) i = pdEnt s1 i"
    "\<forall>va'. mmu (s1\<lparr>pmem := m\<rparr>) va' = (if frameOf va' = frameOf va then None else mmu s1 va')"
    using unmapPageTable_ok [OF pg1 va(1)] by blast
  let ?s2 = "s1\<lparr>pmem := m\<rparr>"
  have "sameRest s s1" using s1(2) unfolding papMarked_def by auto
  then have "sameRest s ?s2" by (rule sameRest_trans) simp
  moreover have "poolInv ?s2" using papMarkedD(4) [OF s1(2) inv(1)] by (simp add: poolInv_def)
  moreover have "\<forall>q. ppStart (papOf q ?s2) = ppStart (papOf q s) \<and> papCap (papOf q ?s2) = papCap (papOf q s) \<and>
       (\<forall>j. papUsed (papOf q ?s2) j = (papUsed (papOf q s) j \<and> \<not> (q = pf \<and> j = i)))"
    unfolding papOf_pmem by (simp add: papMarkedD(1,2,3) [OF s1(2)])
  moreover have "\<forall>x. mmu ?s2 x = (if pgNo x = pgNo va then None else mmu s x)"
    using m(4) unfolding frameOf_pgNo mm1 .
  ultimately show ?thesis using a s1(1) m(1-3) unfolding pd1 by blast
qed

lemma shrink_step:
  assumes g: "grown pf v (js @ [i]) s0 s"
    and v: "pgAligned v" "unat v + 4096 * length js < 4294967296"
    and va: "dIdx (vpage v (length js)) < 1023" "present (pdEnt s0 (dIdx (vpage v (length js))))"
      "mmu s0 (vpage v (length js)) = None"
  shows "\<exists>s1 s2. addrV2P (vpage v (length js)) s = Inr (papPage (papOf pf s) i) \<and>
    freePhyAddr (papPage (papOf pf s) i) s = Inr s1 \<and> unmapPageTable (vpage v (length js)) s1 = Inr s2 \<and> grown pf v js s0 s2"
proof -
  let ?va = "vpage v (length js)"
  have pg: "pgNo ?va = pgNo v + length js" by (rule pgNo_vpage [OF v(2)])
  have "pageOff ?va = 0"
    using pgAligned_vpage [OF v] by (simp add: pgAligned_def unat_off flip: unat_eq_zero)
  then have b: "mmu s ?va = Some (papPage (papOf pf s) i)"
    using grownD(10) [OF g, of ?va] pg by (simp add: grownD(11) [OF g])
  have i: "i < papCap (papOf pf s)" "\<not> papUsed (papOf pf s0) i" "i \<notin> set js"
    using grownD(5) [OF g, of i] grownD(4,7) [OF g] by auto
  have "present (pdEnt s (dIdx ?va))" using va(2) grownD(9) [OF g, of "dIdx ?va"] by simp
  then obtain s1 s2 where s2: "addrV2P ?va s = Inr (papPage (papOf pf s) i)"
    "freePhyAddr (papPage (papOf pf s) i) s = Inr s1" "unmapPageTable ?va s1 = Inr s2"
    "sameRest s s2" "poolInv s2" "pagingInv s2"
    "\<forall>q. ppStart (papOf q s2) = ppStart (papOf q s) \<and> papCap (papOf q s2) = papCap (papOf q s) \<and>
       (\<forall>j. papUsed (papOf q s2) j = (papUsed (papOf q s) j \<and> \<not> (q = pf \<and> j = i)))"
    "\<forall>j < 1024. pdEnt s2 j = pdEnt s j" "\<forall>x. mmu s2 x = (if pgNo x = pgNo ?va then None else mmu s x)"
    using unback_page [OF grownD(2,3) [OF g] i(1) va(1) _ b] by blast
  have "grown pf v js s0 s2"
  proof (rule grownI)
    show "sameRest s0 s2" by (rule sameRest_trans [OF grownD(1) [OF g] s2(4)])
    show "poolInv s2" "pagingInv s2" "distinct js" using s2(5,6) grownD(4) [OF g] by simp_all
    show "j < papCap (papOf pf s0) \<and> \<not> papUsed (papOf pf s0) j" if "j \<in> set js" for j
      using that grownD(5) [OF g, of j] by simp
    show "ppStart (papOf q s2) = ppStart (papOf q s0)" "papCap (papOf q s2) = papCap (papOf q s0)"
      "papUsed (papOf q s2) j = (papUsed (papOf q s0) j \<or> (q = pf \<and> j \<in> set js))" for q j
      using s2(7) grownD(6-8) [OF g] i(2,3) by auto
    show "pdEnt s2 j = pdEnt s0 j" if "j < 1024" for j using s2(8) grownD(9) [OF g that] that by simp
    show "mmu s2 x = (if pgNo v \<le> pgNo x \<and> pgNo x < pgNo v + length js
        then Some (papPage (papOf pf s0) (js ! (pgNo x - pgNo v)) + pageOff x) else mmu s0 x)" for x
    proof (cases "pgNo x = pgNo ?va")
      case True
      then have "mmu s0 x = None" using va(2,3) unfolding frameOf_pgNo [symmetric] frame_same_page
        by (auto simp: mmu_ent split: if_splits)
      then show ?thesis using s2(9) True pg by simp
    next
      case False
      then show ?thesis using s2(9) grownD(10) [OF g, of x] pg by (auto simp: nth_append)
    qed
  qed
  then show ?thesis using s2(1-3) by blast
qed

text \<open>The same from the front, as \<open>freePage\<close> does.\<close>

lemma shrink_front:
  assumes g: "grown pf v (i # js) s0 s" and v: "pgAligned v" "unat v + 4096 < 4294967296"
    and va: "dIdx v < 1023" "present (pdEnt s0 (dIdx v))" "mmu s0 v = None"
  shows "\<exists>s1 s2. addrV2P v s = Inr (papPage (papOf pf s) i) \<and>
    freePhyAddr (papPage (papOf pf s) i) s = Inr s1 \<and> unmapPageTable v s1 = Inr s2 \<and> grown pf (v + PG_SIZE) js s0 s2"
proof -
  have pg: "pgNo (v + PG_SIZE) = pgNo v + 1" using pgNo_vpage [of v 1] v(2) by (simp add: vpage_def)
  have "pageOff v = 0" using v(1) by (simp add: pgAligned_def unat_off flip: unat_eq_zero)
  then have b: "mmu s v = Some (papPage (papOf pf s) i)"
    using grownD(10) [OF g, of v] by (simp add: grownD(11) [OF g])
  have i: "i < papCap (papOf pf s)" "\<not> papUsed (papOf pf s0) i" "i \<notin> set js"
    using grownD(5) [OF g, of i] grownD(4,7) [OF g] by auto
  have "present (pdEnt s (dIdx v))" using va(2) grownD(9) [OF g, of "dIdx v"] by simp
  then obtain s1 s2 where s2: "addrV2P v s = Inr (papPage (papOf pf s) i)"
    "freePhyAddr (papPage (papOf pf s) i) s = Inr s1" "unmapPageTable v s1 = Inr s2"
    "sameRest s s2" "poolInv s2" "pagingInv s2"
    "\<forall>q. ppStart (papOf q s2) = ppStart (papOf q s) \<and> papCap (papOf q s2) = papCap (papOf q s) \<and>
       (\<forall>j. papUsed (papOf q s2) j = (papUsed (papOf q s) j \<and> \<not> (q = pf \<and> j = i)))"
    "\<forall>j < 1024. pdEnt s2 j = pdEnt s j" "\<forall>x. mmu s2 x = (if pgNo x = pgNo v then None else mmu s x)"
    using unback_page [OF grownD(2,3) [OF g] i(1) va(1) _ b] by blast
  have "grown pf (v + PG_SIZE) js s0 s2"
  proof (rule grownI)
    show "sameRest s0 s2" by (rule sameRest_trans [OF grownD(1) [OF g] s2(4)])
    show "poolInv s2" "pagingInv s2" "distinct js" using s2(5,6) grownD(4) [OF g] by simp_all
    show "j < papCap (papOf pf s0) \<and> \<not> papUsed (papOf pf s0) j" if "j \<in> set js" for j
      using that grownD(5) [OF g, of j] by simp
    show "ppStart (papOf q s2) = ppStart (papOf q s0)" "papCap (papOf q s2) = papCap (papOf q s0)"
      "papUsed (papOf q s2) j = (papUsed (papOf q s0) j \<or> (q = pf \<and> j \<in> set js))" for q j
      using s2(7) grownD(6-8) [OF g] i(2,3) by auto
    show "pdEnt s2 j = pdEnt s0 j" if "j < 1024" for j using s2(8) grownD(9) [OF g that] that by simp
    show "mmu s2 x = (if pgNo (v + PG_SIZE) \<le> pgNo x \<and> pgNo x < pgNo (v + PG_SIZE) + length js
        then Some (papPage (papOf pf s0) (js ! (pgNo x - pgNo (v + PG_SIZE))) + pageOff x) else mmu s0 x)" for x
    proof (cases "pgNo x = pgNo v")
      case True
      then have "mmu s0 x = None" using va(2,3) unfolding frameOf_pgNo [symmetric] frame_same_page
        by (auto simp: mmu_ent split: if_splits)
      then show ?thesis using s2(9) True pg by simp
    next
      case False
      then show ?thesis using s2(9) grownD(10) [OF g, of x] pg by (auto simp: nth_Cons')
    qed
  qed
  then show ?thesis using s2(1-3) by blast
qed

section \<open>The loops of \<open>allocPage\<close>\<close>

text \<open>\<open>n\<close> pages from \<open>v\<close> on that lie below the window, are not mapped and have their tables.\<close>

definition vrange :: "u32 \<Rightarrow> nat \<Rightarrow> 'a kmem_scheme \<Rightarrow> bool" where
  "vrange v n s \<longleftrightarrow> pgAligned v \<and> 4096 \<le> unat v \<and> unat v + 4096 * n \<le> 0xffc00000 \<and>
     (\<forall>k < n. present (pdEnt s (dIdx (vpage v k))) \<and> mmu s (vpage v k) = None)"

lemma vrangeD:
  assumes "vrange v n s" "k < n"
  shows "pgAligned v" "unat v + 4096 * k < 4294967296" "dIdx (vpage v k) < 1023"
    "present (pdEnt s (dIdx (vpage v k)))" "mmu s (vpage v k) = None"
proof -
  show *: "pgAligned v" "unat v + 4096 * k < 4294967296" "present (pdEnt s (dIdx (vpage v k)))" "mmu s (vpage v k) = None"
    using assms unfolding vrange_def by auto
  have "unat (vpage v k) < 1023 * 4194304" using assms unat_vpage [OF *(2)] unfolding vrange_def by simp
  then show "dIdx (vpage v k) < 1023" unfolding dIdx_def by (simp add: less_mult_imp_div_less)
qed

lemma rollback_ok:
  assumes "memInv s0" "vrange v n s0" "length is \<le> n" "grown pf v is s0 s"
  shows "\<exists>s'. rollback (length is) (vpage v (length is) - PG_SIZE) s = Inr (v - PG_SIZE, s') \<and> grown pf v [] s0 s'"
  using assms(3,4)
proof (induction "is" arbitrary: s rule: rev_induct)
  case (snoc i js)
  have k: "length js < n" using snoc.prems by simp
  note r = vrangeD [OF assms(2) k]
  obtain s1 s2 where s: "addrV2P (vpage v (length js)) s = Inr (papPage (papOf pf s) i)"
    "freePhyAddr (papPage (papOf pf s) i) s = Inr s1" "unmapPageTable (vpage v (length js)) s1 = Inr s2" "grown pf v js s0 s2"
    using shrink_step [OF snoc.prems(2) r] by blast
  then show ?case using snoc.IH [OF _ s(4)] k by (simp add: vpage_Suc)
qed (auto simp: vpage_Suc)

definition poolFull :: "PoolFlag \<Rightarrow> nat list \<Rightarrow> 'a kmem_scheme \<Rightarrow> bool" where
  "poolFull pf is s \<longleftrightarrow> (\<forall>i < papCap (papOf pf s). papUsed (papOf pf s) i \<or> i \<in> set is)"

lemma allocLoop_ok:
  assumes inv: "memInv s0" and r: "vrange v (length is + n) s0" and g: "grown pf v is s0 s"
  shows "(\<exists>js s'. length js = n \<and> grown pf v (is @ js) s0 s' \<and>
       allocLoop pf (vpage v (length is)) n (length is) s = Inr (True, vpage v (length is + n), s')) \<or>
     (\<exists>js s'. length js < n \<and> distinct (is @ js) \<and> set (is @ js) \<subseteq> {i. i < papCap (papOf pf s0) \<and> \<not> papUsed (papOf pf s0) i} \<and>
       poolFull pf (is @ js) s0 \<and> grown pf v [] s0 s' \<and>
       allocLoop pf (vpage v (length is)) n (length is) s = Inr (False, v - PG_SIZE, s'))"
  using r g
proof (induction n arbitrary: "is" s)
  case 0
  then show ?case by auto
next
  case (Suc n)
  have k: "length is < length is + Suc n" by simp
  note va = vrangeD [OF Suc.prems(1) k]
  from allocPhyAddr_ok [OF grownD(2) [OF Suc.prems(2)], of pf]
  show ?case
  proof
    assume a: "(\<forall>i < papCap (papOf pf s). papUsed (papOf pf s) i) \<and> allocPhyAddr pf s = Inr (0, s)"
    obtain s' where s': "rollback (length is) (vpage v (length is) - PG_SIZE) s = Inr (v - PG_SIZE, s')" "grown pf v [] s0 s'"
      using rollback_ok [OF inv Suc.prems(1) _ Suc.prems(2)] by auto
    have "poolFull pf is s0"
      using a unfolding poolFull_def by (simp add: grownD(7,8) [OF Suc.prems(2)])
    moreover have "distinct is" "set is \<subseteq> {i. i < papCap (papOf pf s0) \<and> \<not> papUsed (papOf pf s0) i}"
      using grownD(4,5) [OF Suc.prems(2)] by auto
    ultimately show ?thesis using a s' by (intro disjI2 exI [of _ "[]"] exI [of _ s']) simp
  next
    assume "\<exists>i s'. i < papCap (papOf pf s) \<and> \<not> papUsed (papOf pf s) i \<and>
       allocPhyAddr pf s = Inr (papPage (papOf pf s) i, s') \<and> papMarked pf i True s s'"
    then obtain i s1 where i: "i < papCap (papOf pf s)" "\<not> papUsed (papOf pf s) i"
      "allocPhyAddr pf s = Inr (papPage (papOf pf s) i, s1)" "papMarked pf i True s s1" by blast
    obtain s2 where s2: "mapPageTable (vpage v (length is)) (papPage (papOf pf s) i) s1 = Inr s2" "grown pf v (is @ [i]) s0 s2"
      using grow_step [OF inv Suc.prems(2) i(1,2,4) va] by blast
    have nz: "papPage (papOf pf s) i \<noteq> 0" by (rule papPage_facts(2) [OF poolInv_wf [OF grownD(2) [OF Suc.prems(2)]] i(1)])
    have e: "allocLoop pf (vpage v (length is)) (Suc n) (length is) s =
      allocLoop pf (vpage v (length (is @ [i]))) n (length (is @ [i])) s2"
      using i(3) nz s2(1) by (simp add: vpage_Suc)
    have "vrange v (length (is @ [i]) + n) s0" using Suc.prems(1) by simp
    from Suc.IH [OF this s2(2)] show ?thesis
    proof
      assume "\<exists>js s'. length js = n \<and> grown pf v ((is @ [i]) @ js) s0 s' \<and>
        allocLoop pf (vpage v (length (is @ [i]))) n (length (is @ [i])) s2 = Inr (True, vpage v (length (is @ [i]) + n), s')"
      then obtain js s' where "length js = n" "grown pf v ((is @ [i]) @ js) s0 s'"
        "allocLoop pf (vpage v (length (is @ [i]))) n (length (is @ [i])) s2 = Inr (True, vpage v (length (is @ [i]) + n), s')" by blast
      then show ?thesis unfolding e by (intro disjI1 exI [of _ "i # js"] exI [of _ s']) simp
    next
      assume "\<exists>js s'. length js < n \<and> distinct ((is @ [i]) @ js) \<and>
       set ((is @ [i]) @ js) \<subseteq> {i. i < papCap (papOf pf s0) \<and> \<not> papUsed (papOf pf s0) i} \<and>
       poolFull pf ((is @ [i]) @ js) s0 \<and> grown pf v [] s0 s' \<and>
       allocLoop pf (vpage v (length (is @ [i]))) n (length (is @ [i])) s2 = Inr (False, v - PG_SIZE, s')"
      then obtain js s' where "length js < n" "distinct ((is @ [i]) @ js)"
       "set ((is @ [i]) @ js) \<subseteq> {i. i < papCap (papOf pf s0) \<and> \<not> papUsed (papOf pf s0) i}"
       "poolFull pf ((is @ [i]) @ js) s0" "grown pf v [] s0 s'"
       "allocLoop pf (vpage v (length (is @ [i]))) n (length (is @ [i])) s2 = Inr (False, v - PG_SIZE, s')" by blast
      then show ?thesis unfolding e by (intro disjI2 exI [of _ "i # js"] exI [of _ s']) simp
    qed
  qed
qed



section \<open>The virtual side\<close>

lemma setVapBits_fields [simp]:
  "pmem (setVapBits pf bm s) = pmem s" "cr3 (setVapBits pf bm s) = cr3 s"
  "papOf q (setVapBits pf bm s) = papOf q s" "curThread (setVapBits pf bm s) = curThread s"
  "vapOf pf (setVapBits pf bm s) = (vapOf pf s)\<lparr>vbitMap := bm\<rparr>"
  by (simp_all add: setVapBits_def papOf_def vapOf_def updTask_def del: pap_papOf)

lemma memInv_setVapBits [simp]: "memInv (setVapBits pf bm s) = memInv s"
proof -
  have t: "isTable (setVapBits pf bm s) f = isTable s f" for f by (rule isTable_cong) (simp add: pdEnt_def)
  have "poolInv (setVapBits pf bm s) = poolInv s" by (simp add: poolInv_def)
  then show ?thesis unfolding memInv_def t using pagingInv_cong [of "setVapBits pf bm s" s] by simp
qed

lemma mmu_setVapBits [simp]: "mmu (setVapBits pf bm s) va = mmu s va"
  by (rule mmu_cong) simp_all

lemma pdEnt_setVapBits [simp]: "pdEnt (setVapBits pf bm s) i = pdEnt s i"
  by (simp add: pdEnt_def)

lemma sameRest_vapOf: "sameRest s0 s \<Longrightarrow> vapOf pf s = vapOf pf s0"
proof -
  assume a: "sameRest s0 s"
  have "vapOf pf (s0\<lparr>pmem := m, kernelPap := k, userPap := u\<rparr>) = vapOf pf s0" for m k u
    by (simp add: vapOf_def)
  then show ?thesis using a unfolding sameRest_def by metis
qed

definition vapWf :: "PoolFlag \<Rightarrow> 'a kmem_scheme \<Rightarrow> bool" where
  "vapWf pf s \<longleftrightarrow> bm_wf (vbitMap (vapOf pf s)) \<and> pgAligned (vstartAddr (vapOf pf s)) \<and>
     4096 \<le> unat (vstartAddr (vapOf pf s)) \<and>
     unat (vstartAddr (vapOf pf s)) + 4096 * bm_cap (vbitMap (vapOf pf s)) \<le> (if pf = PF_USER then 0xbffff000 else 0xffc00000) \<and>
     (\<forall>k < bm_cap (vbitMap (vapOf pf s)). \<not> bm_used (vbitMap (vapOf pf s)) k \<longrightarrow>
        present (pdEnt s (dIdx (vpage (vstartAddr (vapOf pf s)) k))) \<and> mmu s (vpage (vstartAddr (vapOf pf s)) k) = None)"

lemma vpage_vpage: "vpage (vpage v i) k = vpage v (i + k)"
  by (simp add: vpage_def algebra_simps)

lemma vrange_of_vapWf:
  assumes "vapWf pf s" "run_free (vbitMap (vapOf pf s)) i n" "0 < n"
  shows "vrange (vpage (vstartAddr (vapOf pf s)) i) n s"
proof -
  let ?v = "vstartAddr (vapOf pf s)"
  have b: "i + n \<le> bm_cap (vbitMap (vapOf pf s))" "\<And>k. k < n \<Longrightarrow> \<not> bm_used (vbitMap (vapOf pf s)) (i + k)"
    using assms(2) by (auto simp: run_free_def)
  have w: "pgAligned ?v" "4096 \<le> unat ?v" "unat ?v + 4096 * bm_cap (vbitMap (vapOf pf s)) \<le> 0xffc00000"
    "\<And>k. k < bm_cap (vbitMap (vapOf pf s)) \<Longrightarrow> \<not> bm_used (vbitMap (vapOf pf s)) k \<Longrightarrow>
        present (pdEnt s (dIdx (vpage ?v k))) \<and> mmu s (vpage ?v k) = None"
    using assms(1) unfolding vapWf_def by (auto split: if_splits)
  have l: "unat ?v + 4096 * (i + n) \<le> 0xffc00000" using w(3) mult_le_mono2 [OF b(1), of 4096] by linarith
  then have u: "unat (vpage ?v i) = unat ?v + 4096 * i" by (intro unat_vpage) simp
  show ?thesis
    unfolding vrange_def vpage_vpage u
    using w(1,2,4) l b pgAligned_vpage [OF w(1), of i] by auto
qed

definition freePages :: "PoolFlag \<Rightarrow> 'a kmem_scheme \<Rightarrow> nat set" where
  "freePages pf s = {i. i < papCap (papOf pf s) \<and> \<not> papUsed (papOf pf s) i}"

lemma bm_cap_div: "bm_wf bm \<Longrightarrow> s + n \<le> bm_cap bm \<Longrightarrow> s < 4294967295 \<or> n = 0"
  by (auto simp: bm_wf_def)

text \<open>The three ways \<open>allocPage\<close> ends: no virtual run, a run with all its pages, or a roll-back.\<close>

lemma allocPage_cases:
  assumes inv: "memInv s" and wf: "vapWf pf s" and cnt: "0 < cnt" "cnt < 3840"
  shows "(first_fit (vbitMap (vapOf pf s)) (unat cnt) = None \<and> allocPage pf cnt s = Inr (0, s)) \<or>
    (\<exists>i is s1 s'. first_fit (vbitMap (vapOf pf s)) (unat cnt) = Some i \<and> length is = unat cnt \<and>
       grown pf (vpage (vstartAddr (vapOf pf s)) i) is s1 s' \<and> (\<exists>bm. s1 = setVapBits pf bm s) \<and>
       bm_same_shape (vbitMap (vapOf pf s)) (vbitMap (vapOf pf s1)) \<and>
       (\<forall>j. bm_used (vbitMap (vapOf pf s1)) j = (bm_used (vbitMap (vapOf pf s)) j \<or> (i \<le> j \<and> j < i + unat cnt))) \<and>
       allocPage pf cnt s = Inr (vpage (vstartAddr (vapOf pf s)) i, s')) \<or>
    (\<exists>v s1 s2 bm. card (freePages pf s) < unat cnt \<and> (\<exists>bm. s1 = setVapBits pf bm s) \<and> grown pf v [] s1 s2 \<and>
       (\<forall>j. bm_used bm j = bm_used (vbitMap (vapOf pf s)) j) \<and> bm_same_shape (vbitMap (vapOf pf s)) bm \<and>
       allocPage pf cnt s = Inr (0, setVapBits pf bm s2))"
proof -
  let ?vb = "vbitMap (vapOf pf s)" and ?st = "vstartAddr (vapOf pf s)"
  have c0: "0 < unat cnt" using cnt(1) by (simp add: word_less_nat_alt)
  have bwf: "bm_wf ?vb" using wf by (simp add: vapWf_def)
  show ?thesis
  proof (cases "first_fit ?vb (unat cnt)")
    case None
    then show ?thesis
      using cnt bitMapScanAndSet_none [OF bwf c0 None] by (simp add: allocPage_def allocVirAddr_def)
  next
    case (Some i)
    obtain bm where bm: "bitMapScanAndSet ?vb cnt True = Inr (of_nat i, bm)" "bm_same_shape ?vb bm"
      "\<And>j. bm_used bm j = (if i \<le> j \<and> j < i + unat cnt then True else bm_used ?vb j)"
      using bitMapScanAndSet_some [OF bwf c0 Some] by blast
    have fit: "i + unat cnt \<le> bm_cap ?vb" "i < 4294967295" "run_free ?vb i (unat cnt)"
      using first_fit_bound [OF bwf c0 Some] Some first_fit_Some [of ?vb "unat cnt" i] by blast+
    let ?s1 = "setVapBits pf bm s" and ?v = "vpage ?st i"
    have vr: "vrange ?v (unat cnt) s" by (rule vrange_of_vapWf [OF wf fit(3) c0])
    have vr1: "vrange ?v (length ([] :: nat list) + unat cnt) ?s1"
      using vr by (simp add: vrange_def)
    have inv1: "memInv ?s1" using inv by simp
    have v0: "?v \<noteq> 0" "4096 \<le> unat ?v" using vr by (auto simp: vrange_def)
    have vU: "pf = PF_USER \<Longrightarrow> ?v < 0xbffff000"
    proof -
      assume "pf = PF_USER"
      then have l: "unat ?st + 4096 * bm_cap ?vb \<le> 0xbffff000" using wf by (simp add: vapWf_def)
      then have "unat ?v = unat ?st + 4096 * i" using fit(1) by (intro unat_vpage) linarith
      then show ?thesis using l fit(1) c0 by (simp add: word_less_nat_alt)
    qed
    have av: "allocVirAddr pf cnt s = Inr (?v, ?s1)"
      using bm(1) of_nat_neq_minus1 [OF fit(2)] vU by (cases pf) (simp_all add: allocVirAddr_def vpage_def add.commute)
    from allocLoop_ok [OF inv1 vr1 grown_refl [OF inv1]]
    show ?thesis
    proof
      assume "\<exists>js s'. length js = unat cnt \<and> grown pf ?v ([] @ js) ?s1 s' \<and>
        allocLoop pf (vpage ?v (length ([] :: nat list))) (unat cnt) (length ([] :: nat list)) ?s1 = Inr (True, vpage ?v (length ([] :: nat list) + unat cnt), s')"
      then obtain js s' where js: "length js = unat cnt" "grown pf ?v js ?s1 s'"
        "allocLoop pf ?v (unat cnt) 0 ?s1 = Inr (True, vpage ?v (unat cnt), s')"
        by (auto simp: vpage_Suc)
      have "allocPage pf cnt s = Inr (?v, s')" using cnt av v0(1) js(3) by (simp add: allocPage_def)
      moreover have "bm_used (vbitMap (vapOf pf ?s1)) j = (bm_used ?vb j \<or> (i \<le> j \<and> j < i + unat cnt))" for j
        using bm(3) [of j] by auto
      moreover have "bm_same_shape ?vb (vbitMap (vapOf pf ?s1))" using bm(2) by simp
      ultimately show ?thesis using Some js(1,2) by blast
    next
      assume "\<exists>js s'. length js < unat cnt \<and> distinct ([] @ js) \<and>
        set ([] @ js) \<subseteq> {i. i < papCap (papOf pf ?s1) \<and> \<not> papUsed (papOf pf ?s1) i} \<and>
        poolFull pf ([] @ js) ?s1 \<and> grown pf ?v [] ?s1 s' \<and>
        allocLoop pf (vpage ?v (length ([] :: nat list))) (unat cnt) (length ([] :: nat list)) ?s1 = Inr (False, ?v - PG_SIZE, s')"
      then obtain js s2 where js: "length js < unat cnt" "distinct js"
        "set js \<subseteq> {i. i < papCap (papOf pf s) \<and> \<not> papUsed (papOf pf s) i}" "poolFull pf js ?s1"
        "grown pf ?v [] ?s1 s2" "allocLoop pf ?v (unat cnt) 0 ?s1 = Inr (False, ?v - PG_SIZE, s2)"
        by (auto simp: vpage_Suc)
      have "set js = freePages pf s" using js(3,4) by (auto simp: freePages_def poolFull_def)
      then have card: "card (freePages pf s) < unat cnt" using distinct_card [OF js(2)] js(1) by simp
      have v2: "vapOf pf s2 = vapOf pf ?s1" by (rule sameRest_vapOf [OF grownD(1) [OF js(5)]])
      have lt: "?v - PG_SIZE < ?v" using v0(2) by (simp add: word_less_nat_alt unat_sub_small)
      have idx: "(?v - ?st) div PG_SIZE = of_nat i"
      proof -
        have "unat ?st + 4096 * i < 4294967296" using wf fit(1) by (auto simp: vapWf_def split: if_splits)
        then have "unat (?v - ?st) = 4096 * i" using unat_vpage by (simp add: unat_sub_small)
        then have "unat ((?v - ?st) div PG_SIZE) = i" by (simp add: unat_div)
        then show ?thesis by (metis word_unat_eq_iff unat_of_nat_small fit(2) less_trans_Suc unat_less_u32)
      qed
      have u: "unat (of_nat i :: u32) = i" using fit(2) by (simp add: unat_of_nat_small)
      have "bm_wf bm" "i + unat cnt \<le> bm_cap bm"
        using bm_wf_same_shape [OF bm(2)] bm_cap_same_shape [OF bm(2)] bwf fit(1) by simp_all
      then obtain bm' where bm': "setRun bm (of_nat i) cnt False = Inr bm'" "bm_same_shape bm bm'"
        "\<forall>j. bm_used bm' j = (if i \<le> j \<and> j < i + unat cnt then False else bm_used bm j)"
        using setRun_spec [of bm "of_nat i" cnt False] u by auto
      have same: "bm_used bm' j = bm_used ?vb j" for j
        using bm'(3) bm(3) fit(3) by (auto simp: run_free_def)
      have "freeVirAddr pf ?v cnt s2 = Inr (setVapBits pf bm' s2)"
        unfolding freeVirAddr_def v2 using bm'(1) idx by simp
      then have "allocPage pf cnt s = Inr (0, setVapBits pf bm' s2)"
        using cnt av v0(1) js(6) lt by (simp add: allocPage_def)
      then show ?thesis using card js(5) same bm_same_shape_trans [OF bm(2) bm'(2)] by blast
    qed
  qed
qed



lemma freePages_finite [simp]: "finite (freePages pf s)"
  by (simp add: freePages_def)

lemma grown_Nil: "grown pf v [] s0 s \<Longrightarrow> mmu s va = mmu s0 va"
proof -
  assume g: "grown pf v [] s0 s"
  have "\<not> (pgNo v \<le> pgNo va \<and> pgNo va < pgNo v + length ([] :: nat list))" by simp
  then show ?thesis using grownD(10) [OF g, of va] by (simp only: if_False)
qed

lemma grown_card:
  assumes "grown pf v is s1 s'" "s1 = setVapBits pf bm s"
  shows "length is \<le> card (freePages pf s)"
proof -
  have "set is \<subseteq> freePages pf s" using grownD(5) [OF assms(1)] assms(2) by (auto simp: freePages_def)
  then have "card (set is) \<le> card (freePages pf s)" by (intro card_mono) simp
  then show ?thesis using distinct_card [OF grownD(4) [OF assms(1)]] by simp
qed

lemma allocPage_success:
  assumes "memInv s" "vapWf pf s" "0 < cnt" "cnt < 3840"
    and fit: "first_fit (vbitMap (vapOf pf s)) (unat cnt) = Some i" and room: "unat cnt \<le> card (freePages pf s)"
  shows "\<exists>s' is. allocPage pf cnt s = Inr (vpage (vstartAddr (vapOf pf s)) i, s') \<and> memInv s' \<and>
    length is = unat cnt \<and> distinct is \<and> set is \<subseteq> freePages pf s \<and> freePages pf s' = freePages pf s - set is \<and>
    (\<forall>j. bm_used (vbitMap (vapOf pf s')) j = (bm_used (vbitMap (vapOf pf s)) j \<or> (i \<le> j \<and> j < i + unat cnt))) \<and>
    (\<forall>va. let k = pgNo va - pgNo (vpage (vstartAddr (vapOf pf s)) i) in
       mmu s' va = (if pgNo (vpage (vstartAddr (vapOf pf s)) i) \<le> pgNo va \<and> k < unat cnt
         then Some (papPage (papOf pf s) (is ! k) + pageOff va) else mmu s va))"
  using allocPage_cases [OF assms(1-4)]
proof (elim disjE exE conjE)
  assume "first_fit (vbitMap (vapOf pf s)) (unat cnt) = None"
  then show ?thesis using fit by simp
next
  fix v s1 s2 bm assume "card (freePages pf s) < unat cnt"
  then show ?thesis using room by simp
next
  fix i' "is" s1 s' bm
  assume a: "first_fit (vbitMap (vapOf pf s)) (unat cnt) = Some i'" "length is = unat cnt"
    "grown pf (vpage (vstartAddr (vapOf pf s)) i') is s1 s'" "s1 = setVapBits pf bm s"
    "\<forall>j. bm_used (vbitMap (vapOf pf s1)) j = (bm_used (vbitMap (vapOf pf s)) j \<or> i' \<le> j \<and> j < i' + unat cnt)"
    "allocPage pf cnt s = Inr (vpage (vstartAddr (vapOf pf s)) i', s')"
  have i: "i' = i" using a(1) fit by simp
  have inv1: "memInv s1" using assms(1) a(4) by simp
  have sub: "set is \<subseteq> freePages pf s" using grownD(5) [OF a(3)] a(4) by (auto simp: freePages_def)
  have "freePages pf s' = freePages pf s - set is"
    unfolding freePages_def by (auto simp: grownD(7,8) [OF a(3)] a(4))
  moreover have "vapOf pf s' = vapOf pf s1" by (rule sameRest_vapOf [OF grownD(1) [OF a(3)]])
  moreover have "let k = pgNo va - pgNo (vpage (vstartAddr (vapOf pf s)) i) in
       mmu s' va = (if pgNo (vpage (vstartAddr (vapOf pf s)) i) \<le> pgNo va \<and> k < unat cnt
         then Some (papPage (papOf pf s) (is ! k) + pageOff va) else mmu s va)" for va
    using grownD(10) [OF a(3), of va] a(2,4) i unfolding Let_def by auto
  ultimately show ?thesis
    using grown_memInv [OF inv1 a(3)] grownD(4) [OF a(3)] a(2,5,6) sub i by (intro exI [of _ s'] exI [of _ "is"]) simp
qed

lemma allocPage_fails:
  assumes "memInv s" "vapWf pf s" "0 < cnt" "cnt < 3840" and few: "card (freePages pf s) < unat cnt"
  shows "\<exists>s'. allocPage pf cnt s = Inr (0, s') \<and> memInv s' \<and> freePages pf s' = freePages pf s \<and>
    (\<forall>j. bm_used (vbitMap (vapOf pf s')) j = bm_used (vbitMap (vapOf pf s)) j) \<and> (\<forall>va. mmu s' va = mmu s va)"
  using allocPage_cases [OF assms(1-4)]
proof (elim disjE exE conjE)
  assume "allocPage pf cnt s = Inr (0, s)"
  then show ?thesis using assms(1) by auto
next
  fix i' "is" s1 s' bm
  assume "length is = unat cnt" "grown pf (vpage (vstartAddr (vapOf pf s)) i') is s1 s'" "s1 = setVapBits pf bm s"
  then show ?thesis using grown_card few by fastforce
next
  fix v s1 s2 bm bm'
  assume a: "s1 = setVapBits pf bm' s" "grown pf v [] s1 s2" "\<forall>j. bm_used bm j = bm_used (vbitMap (vapOf pf s)) j"
    "allocPage pf cnt s = Inr (0, setVapBits pf bm s2)"
  have "memInv s2" using grown_memInv [OF _ a(2)] a(1) assms(1) by simp
  moreover have "freePages pf (setVapBits pf bm s2) = freePages pf s"
    unfolding freePages_def by (simp add: grownD(7,8) [OF a(2)] a(1))
  moreover have "mmu s2 va = mmu s va" for va using grown_Nil [OF a(2)] a(1) by simp
  ultimately show ?thesis using a(3,4) by (intro exI [of _ "setVapBits pf bm s2"]) simp
qed


section \<open>The layout of the pools\<close>

lemma bitMapInit_at:
  assumes "8 * unat len < 4294967296"
  shows "\<exists>bm. bitMapInit (bitMapAt raw a len) = Inr bm \<and> bm_length bm = len \<and> bm_wf bm \<and> (\<forall>j < 8 * unat len. \<not> bm_used bm j)"
proof -
  let ?bm = "(bitMapAt raw a len)\<lparr>startAddr := overlay (startAddr (bitMapAt raw a len)) 0 (replicate (unat len) 0)\<rparr>"
  have l: "length (startAddr (bitMapAt raw a len)) = Suc (unat len)" "bm_length (bitMapAt raw a len) = len"
    by (simp_all add: bitMapAt_def)
  have u: "startAddr ?bm ! i = 0" if "i < unat len" for i
    using that l(1) by (simp add: nth_overlay)
  have "\<not> bm_used ?bm j" if "j < 8 * unat len" for j
    using u [of "j div 8"] that by (simp add: bm_used_def less_mult_imp_div_less mult.commute)
  moreover have "bitMapInit (bitMapAt raw a len) = Inr ?bm" using l by (simp add: bitMapInit_def)
  moreover have "bm_wf ?bm" using l assms by (simp add: bm_wf_def bm_cap_def)
  ultimately show ?thesis using l(2) by (intro exI [of _ ?bm]) simp
qed

lemma pool_sizes:
  fixes allMem :: u32
  defines "n \<equiv> (unat allMem - 2097152) div 4096 div 2"
  assumes "2097152 \<le> unat allMem"
  shows "unat ((allMem - 2097152) div 4096 div 2) = n" "unat ((allMem - 2097152) div 4096 div 2 div 8) = n div 8"
    "unat (2097152 + (allMem - 2097152) div 4096 div 2 * 4096) = 2097152 + 4096 * n" "n < 1048576"
    "2097152 + 2 * (4096 * n) \<le> unat allMem"
proof -
  have s: "unat (allMem - 2097152) = unat allMem - 2097152" using assms(2) by (simp add: unat_sub_small)
  show 1: "unat ((allMem - 2097152) div 4096 div 2) = n" by (simp add: unat_div s n_def)
  then show "unat ((allMem - 2097152) div 4096 div 2 div 8) = n div 8" by (simp add: unat_div)
  have m: "8192 * n \<le> unat allMem - 2097152"
    unfolding n_def div_mult2_eq [symmetric] using times_div_less_eq_dividend [of 8192] by simp
  then show le: "2097152 + 2 * (4096 * n) \<le> unat allMem" using assms(2) by linarith
  then show nb: "n < 1048576" using unat_less_u32 [of allMem] by linarith
  have nb2: "n < 1048064" using le unat_less_u32 [of allMem] by linarith
  have "unat ((allMem - 2097152) div 4096 div 2 * 4096) = 4096 * n"
    using 1 nb by (subst unat_mult_small) (simp_all add: mult.commute)
  then show "unat (2097152 + (allMem - 2097152) div 4096 div 2 * 4096) = 2097152 + 4096 * n"
    using nb2 by (subst unat_add_small) simp_all
qed

lemma papWfI:
  "bm_wf b \<Longrightarrow> pgAligned st \<Longrightarrow> 0 < unat st \<Longrightarrow> unat st + 4096 * bm_cap b < 4294967296 \<Longrightarrow>
   papWf \<lparr>ppBitMap = b, ppStart = st, ppSize = z\<rparr>"
  by (simp add: papWf_def)

lemma memPoolInit_ok:
  assumes m: "2097152 \<le> unat allMem"
  shows "\<exists>s'. memPoolInit raw allMem s = Inr s' \<and> poolInv s' \<and>
    (\<forall>pf. papCap (papOf pf s') = 8 * ((unat allMem - 2097152) div 4096 div 2 div 8) \<and>
       freePages pf s' = {i. i < papCap (papOf pf s')}) \<and>
    unat (ppStart (kernelPap s')) = 2097152 \<and>
    unat (ppStart (userPap s')) + 4096 * papCap (userPap s') \<le> unat allMem"
proof -
  let ?n = "(unat allMem - 2097152) div 4096 div 2"
  let ?k = "(allMem - 2097152) div 4096 div 2"
  note p = pool_sizes [OF m]
  have n8: "8 * (?n div 8) \<le> ?n" by simp
  have c: "8 * unat (?k div 8) < 4294967296" using p(2,4) n8 by linarith
  note init = bitMapInit_at [OF c, of raw]
  obtain b1 where b1: "bitMapInit (bitMapAt raw MEM_BITMAP_BASE (?k div 8)) = Inr b1"
      "bm_length b1 = ?k div 8" "bm_wf b1" "\<forall>j < 8 * unat (?k div 8). \<not> bm_used b1 j" using init by blast
  obtain b2 where b2: "bitMapInit (bitMapAt raw (MEM_BITMAP_BASE + ?k div 8) (?k div 8)) = Inr b2"
      "bm_length b2 = ?k div 8" "bm_wf b2" "\<forall>j < 8 * unat (?k div 8). \<not> bm_used b2 j" using init by blast
  obtain b3 where b3: "bitMapInit (bitMapAt raw (MEM_BITMAP_BASE + ?k div 8 + ?k div 8) (?k div 8)) = Inr b3"
    using init by blast
  let ?s' = "lockInit UserPapLock (lockInit KernelPapLock s)\<lparr>
      kernelPap := \<lparr>ppBitMap = b1, ppStart = 2097152, ppSize = ?k * PG_SIZE\<rparr>,
      userPap := \<lparr>ppBitMap = b2, ppStart = 2097152 + ?k * PG_SIZE, ppSize = ?k * PG_SIZE\<rparr>,
      kernelVap := \<lparr>vbitMap = b3, vstartAddr = K_HEAP_START\<rparr>\<rparr>"
  have r: "memPoolInit raw allMem s = Inr ?s'" using b1(1) b2(1) b3 by (simp add: memPoolInit_def Let_def)
  have K: "papOf PF_KERNEL ?s' = \<lparr>ppBitMap = b1, ppStart = 2097152, ppSize = ?k * PG_SIZE\<rparr>"
    and U: "papOf PF_USER ?s' = \<lparr>ppBitMap = b2, ppStart = 2097152 + ?k * PG_SIZE, ppSize = ?k * PG_SIZE\<rparr>"
    by (simp_all add: papOf_def del: pap_papOf)
  have caps: "bm_cap b1 = 8 * (?n div 8)" "bm_cap b2 = 8 * (?n div 8)"
    using b1(2) b2(2) p(2) by (simp_all add: bm_cap_def)
  have "4096 * (512 + ?n) mod 4096 = 0" by simp
  then have al: "pgAligned (2097152 + ?k * PG_SIZE)" unfolding pgAligned_def p(3) by simp
  have bound: "unat (2097152 + ?k * PG_SIZE) + 4096 * (8 * (?n div 8)) \<le> unat allMem"
    using p(5) n8 unfolding p(3) by linarith
  have mx: "unat allMem < 4294967296" by simp
  have low: "2097152 + 4096 * (8 * (?n div 8)) \<le> unat allMem" using p(5) n8 by linarith
  have "papWf (papOf PF_KERNEL ?s')"
    unfolding K
  proof (rule papWfI [OF b1(3)])
    show "unat (2097152 :: u32) + 4096 * bm_cap b1 < 4294967296"
      using le_less_trans [OF low mx] unfolding caps(1) by simp
  qed (simp_all add: pgAligned_def)
  moreover have "papWf (papOf PF_USER ?s')"
    unfolding U
  proof (rule papWfI [OF b2(3) al])
    show "unat (2097152 + ?k * PG_SIZE) + 4096 * bm_cap b2 < 4294967296"
      unfolding caps(2) by (rule le_less_trans [OF bound mx])
    show "0 < unat (2097152 + ?k * PG_SIZE)" unfolding p(3) by simp
  qed
  moreover have "unat (2097152 :: u32) + 4096 * (8 * (?n div 8)) \<le> unat (2097152 + ?k * PG_SIZE)"
    unfolding p(3) using n8 by simp
  ultimately have "poolInv ?s'" unfolding poolInv_def pap_papOf K U using caps by simp
  moreover have "papCap (papOf pf ?s') = 8 * (?n div 8) \<and> freePages pf ?s' = {i. i < papCap (papOf pf ?s')}" for pf
    using b1(4) b2(4) caps p(2) by (cases pf) (auto simp: freePages_def K U simp del: pap_papOf)
  moreover have "unat (ppStart (papOf PF_KERNEL ?s')) = 2097152" unfolding K by simp
  moreover have "unat (ppStart (papOf PF_USER ?s')) + 4096 * papCap (papOf PF_USER ?s') \<le> unat allMem"
    unfolding U using bound caps by simp
  ultimately show ?thesis using r unfolding pap_papOf by blast
qed

section \<open>\<open>freePage\<close> after \<open>allocPage\<close>\<close>

lemma freeLoop_ok:
  assumes inv: "memInv s0" and r: "vrange v (length is) s0" and g: "grown pf v is s0 s"
    and user: "pf = PF_USER \<Longrightarrow> 0 \<notin> set is"
  shows "\<exists>v' s'. freeLoop (pf = PF_USER) (length is) v s = Inr s' \<and> grown pf v' [] s0 s'"
  using r g user
proof (induction "is" arbitrary: v s)
  case (Cons i js)
  have r0: "pgAligned v" "unat v + 4096 < 4294967296" "dIdx v < 1023" "present (pdEnt s0 (dIdx v))" "mmu s0 v = None"
    using vrangeD [OF Cons.prems(1), of 0] Cons.prems(1) by (simp_all add: vpage_Suc vrange_def)
  obtain s1 s2 where s2: "addrV2P v s = Inr (papPage (papOf pf s) i)"
    "freePhyAddr (papPage (papOf pf s) i) s = Inr s1" "unmapPageTable v s1 = Inr s2" "grown pf (v + PG_SIZE) js s0 s2"
    using shrink_front [OF Cons.prems(2) r0] by blast
  have i: "i < papCap (papOf pf s)" using grownD(5) [OF Cons.prems(2), of i] grownD(7) [OF Cons.prems(2)] by simp
  note pi = grownD(2) [OF Cons.prems(2)]
  note u = unat_papPage [OF poolInv_wf [OF pi] i]
  have al: "papPage (papOf pf s) i mod PG_SIZE = 0"
    using papPage_facts(1) [OF poolInv_wf [OF pi] i] by (simp add: pgAligned_def word_unat_eq_iff unat_mod del: unat_inj_iff)
  have ok: "if pf = PF_USER then papPage (papOf pf s) i mod PG_SIZE = 0 \<and> papPage (papOf pf s) i > ppStart (userPap s)
       else papPage (papOf pf s) i mod PG_SIZE = 0 \<and> papPage (papOf pf s) i \<ge> ppStart (kernelPap s) \<and> papPage (papOf pf s) i < ppStart (userPap s)"
  proof (cases pf)
    case PF_USER
    then have "0 < i" using Cons.prems(3) by (cases i) auto
    then show ?thesis using PF_USER al u by (simp add: word_less_nat_alt)
  next
    case PF_KERNEL
    then show ?thesis using al u i pi by (simp add: word_less_nat_alt word_le_nat_alt poolInv_def)
  qed
  have r': "vrange (v + PG_SIZE) (length js) s0"
  proof -
    have u: "unat (vpage v 1) = unat v + 4096" using unat_vpage [of v 1] r0(2) by simp
    have "pgAligned (vpage v 1)" using pgAligned_vpage [OF r0(1), of 1] r0(2) by simp
    moreover have "present (pdEnt s0 (dIdx (vpage v (1 + k)))) \<and> mmu s0 (vpage v (1 + k)) = None" if "k < length js" for k
      using vrangeD(4,5) [OF Cons.prems(1), of "1 + k"] that by simp
    moreover have "unat (vpage v 1) + 4096 * length js \<le> 0xffc00000" "4096 \<le> unat (vpage v 1)"
      using Cons.prems(1) unfolding u vrange_def by simp_all
    moreover have e: "v + PG_SIZE = vpage v 1" by (simp add: vpage_def)
    ultimately show ?thesis unfolding vrange_def e vpage_vpage by blast
  qed
  obtain v' s' where "freeLoop (pf = PF_USER) (length js) (v + PG_SIZE) s2 = Inr s'" "grown pf v' [] s0 s'"
    using Cons.IH [OF r' s2(4)] Cons.prems(3) by auto
  moreover have "freeLoop (pf = PF_USER) (length (i # js)) v s = freeLoop (pf = PF_USER) (length js) (v + PG_SIZE) s2"
    using ok s2(1-3) by (simp del: pap_papOf)
  ultimately show ?case by (intro exI [of _ v'] exI [of _ s']) simp
qed auto


text \<open>What \<open>freePage\<close> asserts of the first page: the pools lie above 0x102000.\<close>

lemma freePage_grown:
  assumes inv: "memInv s0" and r: "vrange v (unat cnt) s0" and g: "grown pf v is s0 s" and l: "length is = unat cnt" "0 < unat cnt"
    and user: "pf = PF_USER \<Longrightarrow> 0 \<notin> set is" and low: "0x102000 < unat (ppStart (kernelPap s0))"
    and run: "bm_wf (vbitMap (vapOf pf s0))" "v = vpage (vstartAddr (vapOf pf s0)) i"
      "i + unat cnt \<le> bm_cap (vbitMap (vapOf pf s0))" "unat (vstartAddr (vapOf pf s0)) + 4096 * i < 4294967296"
  shows "\<exists>v' s2 bm. freePage pf v cnt s = Inr (setVapBits pf bm s2) \<and> grown pf v' [] s0 s2 \<and>
    bm_same_shape (vbitMap (vapOf pf s0)) bm \<and>
    (\<forall>j. bm_used bm j = (bm_used (vbitMap (vapOf pf s0)) j \<and> \<not> (i \<le> j \<and> j < i + unat cnt)))"
proof -
  let ?vb = "vbitMap (vapOf pf s0)" and ?st = "vstartAddr (vapOf pf s0)"
  obtain i0 js where "is": "is = i0 # js" using l by (cases "is") auto
  have r0: "pgAligned v" "unat v + 4096 < 4294967296" "dIdx v < 1023" "present (pdEnt s0 (dIdx v))" "mmu s0 v = None"
    using vrangeD [OF r, of 0] l r by (simp_all add: vpage_Suc vrange_def)
  have a: "addrV2P v s = Inr (papPage (papOf pf s) i0)"
    using shrink_front [OF g [unfolded "is"] r0] by blast
  have i0: "i0 < papCap (papOf pf s)" using grownD(5) [OF g, of i0] grownD(7) [OF g] "is" by simp
  note pi = grownD(2) [OF g]
  note u = unat_papPage [OF poolInv_wf [OF pi] i0]
  have al: "papPage (papOf pf s) i0 mod PG_SIZE = 0"
    using papPage_facts(1) [OF poolInv_wf [OF pi] i0] by (simp add: pgAligned_def word_unat_eq_iff unat_mod del: unat_inj_iff)
  have hi: "papPage (papOf pf s) i0 > 0x102000"
    using low u pi grownD(6) [OF g, of PF_KERNEL] by (cases pf) (simp_all add: word_less_nat_alt poolInv_def)
  have br: "(papPage (papOf pf s) i0 \<ge> ppStart (userPap s)) = (pf = PF_USER)"
    using u pi i0 by (cases pf) (auto simp: word_le_nat_alt poolInv_def)
  obtain v' s2 where s2: "freeLoop (pf = PF_USER) (unat cnt) v s = Inr s2" "grown pf v' [] s0 s2"
    using freeLoop_ok [OF inv _ g user] r l(1) by auto
  have v2: "vapOf pf s2 = vapOf pf s0" by (rule sameRest_vapOf [OF grownD(1) [OF s2(2)]])
  have i: "i < 536870912 * 8" using run(1,3) l(2) unfolding bm_wf_def by simp
  have idx: "unat ((v - ?st) div PG_SIZE) = i"
    unfolding run(2) using run(4) unat_vpage [OF run(4)] by (simp add: unat_div unat_sub_small)
  obtain bm' where bm': "setRun ?vb ((v - ?st) div PG_SIZE) cnt False = Inr bm'" "bm_same_shape ?vb bm'"
    "\<forall>j. bm_used bm' j = (if i \<le> j \<and> j < i + unat cnt then False else bm_used ?vb j)"
    using setRun_spec [OF run(1), of "(v - ?st) div PG_SIZE" cnt False] run(3) unfolding idx by blast
  have "v mod PG_SIZE = 0" using r0(1) by (simp add: pgAligned_def word_unat_eq_iff unat_mod del: unat_inj_iff)
  moreover have "0 < cnt" using l(2) by (simp add: word_less_nat_alt)
  ultimately have "freePage pf v cnt s = Inr (setVapBits pf bm' s2)"
    unfolding freePage_def using a al hi br s2(1) bm'(1) by (simp add: freeVirAddr_def v2 del: pap_papOf)
  then show ?thesis using s2(2) bm'(2,3) by (intro exI [of _ v'] exI [of _ s2] exI [of _ bm']) simp
qed

text \<open>Giving back what \<open>allocPage\<close> took leaves pools, translation and virtual bits as they were.\<close>

lemma alloc_free_page:
  assumes inv: "memInv s" and wf: "vapWf pf s" and cnt: "0 < cnt" "cnt < 3840"
    and fit: "first_fit (vbitMap (vapOf pf s)) (unat cnt) = Some i" and room: "unat cnt \<le> card (freePages pf s)"
    and first: "pf = PF_USER \<Longrightarrow> 0 \<notin> freePages PF_USER s" and low: "0x102000 < unat (ppStart (kernelPap s))"
  shows "\<exists>v s1 s2. allocPage pf cnt s = Inr (v, s1) \<and> freePage pf v cnt s1 = Inr s2 \<and> memInv s2 \<and>
    freePages pf s2 = freePages pf s \<and> (\<forall>va. mmu s2 va = mmu s va) \<and>
    (\<forall>j. bm_used (vbitMap (vapOf pf s2)) j = bm_used (vbitMap (vapOf pf s)) j)"
  using allocPage_cases [OF assms(1-4)]
proof (elim disjE exE conjE)
  assume "first_fit (vbitMap (vapOf pf s)) (unat cnt) = None"
  then show ?thesis using fit by simp
next
  fix v s1 s2 bm assume "card (freePages pf s) < unat cnt"
  then show ?thesis using room by simp
next
  fix i' "is" s1 s' bm
  let ?v = "vpage (vstartAddr (vapOf pf s)) i'"
  assume a: "first_fit (vbitMap (vapOf pf s)) (unat cnt) = Some i'" "length is = unat cnt"
    "grown pf ?v is s1 s'" "s1 = setVapBits pf bm s" "bm_same_shape (vbitMap (vapOf pf s)) (vbitMap (vapOf pf s1))"
    "\<forall>j. bm_used (vbitMap (vapOf pf s1)) j = (bm_used (vbitMap (vapOf pf s)) j \<or> i' \<le> j \<and> j < i' + unat cnt)"
    "allocPage pf cnt s = Inr (?v, s')"
  have c0: "0 < unat cnt" using cnt(1) by (simp add: word_less_nat_alt)
  have bwf: "bm_wf (vbitMap (vapOf pf s))" using wf by (simp add: vapWf_def)
  have fit': "i' + unat cnt \<le> bm_cap (vbitMap (vapOf pf s))" "run_free (vbitMap (vapOf pf s)) i' (unat cnt)"
    using first_fit_bound [OF bwf c0 a(1)] a(1) first_fit_Some [of "vbitMap (vapOf pf s)" "unat cnt" i'] by blast+
  have vr: "vrange ?v (unat cnt) s1"
    using vrange_of_vapWf [OF wf fit'(2) c0] by (simp add: a(4) vrange_def)
  have inv1: "memInv s1" using inv a(4) by simp
  have st: "vstartAddr (vapOf pf s1) = vstartAddr (vapOf pf s)" by (simp add: a(4))
  have lo: "unat (vstartAddr (vapOf pf s1)) + 4096 * i' < 4294967296"
    using wf fit'(1) unfolding st by (auto simp: vapWf_def split: if_splits)
  have us: "pf = PF_USER \<Longrightarrow> 0 \<notin> set is"
    using first grownD(5) [OF a(3)] by (auto simp: freePages_def a(4))
  have low1: "0x102000 < unat (ppStart (kernelPap s1))" using low by (simp add: a(4))
  have w1: "bm_wf (vbitMap (vapOf pf s1))" "i' + unat cnt \<le> bm_cap (vbitMap (vapOf pf s1))"
    using bm_wf_same_shape [OF a(5)] bm_cap_same_shape [OF a(5)] bwf fit'(1) by simp_all
  obtain v' s2 bm2 where f: "freePage pf ?v cnt s' = Inr (setVapBits pf bm2 s2)" "grown pf v' [] s1 s2"
    "\<forall>j. bm_used bm2 j = (bm_used (vbitMap (vapOf pf s1)) j \<and> \<not> (i' \<le> j \<and> j < i' + unat cnt))"
    using freePage_grown [OF inv1 vr a(3,2) c0 us low1 w1(1) _ w1(2) lo] st by auto
  have "memInv (setVapBits pf bm2 s2)" using grown_memInv [OF inv1 f(2)] by simp
  moreover have "freePages pf (setVapBits pf bm2 s2) = freePages pf s"
    unfolding freePages_def by (simp add: grownD(7,8) [OF f(2)] a(4))
  moreover have "mmu (setVapBits pf bm2 s2) va = mmu s va" for va using grown_Nil [OF f(2)] a(4) by simp
  moreover have "bm_used (vbitMap (vapOf pf (setVapBits pf bm2 s2))) j = bm_used (vbitMap (vapOf pf s)) j" for j
    using f(3) a(6) fit'(2) by (auto simp: run_free_def)
  ultimately show ?thesis using a(7) f(1) by (intro exI [of _ ?v] exI [of _ s'] exI [of _ "setVapBits pf bm2 s2"]) simp
qed


section \<open>Where the allocator stops or keeps its lock\<close>

lemma freePage_first_user:
  assumes "pagingInv s" "mmu s va = Some (ppStart (userPap s))" "va mod PG_SIZE = 0" "0 < n"
    "ppStart (userPap s) mod PG_SIZE = 0" "0x102000 < ppStart (userPap s)"
  shows "freePage pf va n s = Inl (Panic ''paddr'')"
proof -
  have "addrV2P va s = Inr (ppStart (userPap s))" by (rule addrV2P_mmu [OF assms(1,2)])
  moreover obtain m where "unat n = Suc m" using assms(4) by (cases "unat n") (auto simp: unat_eq_0)
  ultimately show ?thesis using assms(3-6) by (simp add: freePage_def del: pap_papOf)
qed

lemma allocPhyAddr_none:
  "poolInv s \<Longrightarrow> freePages pf s = {} \<Longrightarrow> allocPhyAddr pf s = Inr (0, s)"
  using allocPhyAddr_ok [of s pf] by (auto simp: freePages_def)

lemma poolInv_cong: "(\<And>q. papOf q s' = papOf q s) \<Longrightarrow> poolInv s' = poolInv s"
  by (simp add: poolInv_def)

lemma getOnePage_none:
  assumes l: "lockFree UserPapLock s" and inv: "poolInv s" "freePages PF_USER s = {}"
    and va: "va mod PG_SIZE = 0" "pageDir (tcb s (curThread s)) \<noteq> 0"
    and room: "unat ((va - vstartAddr (vapOf PF_USER s)) div PG_SIZE) < bm_cap (vbitMap (vapOf PF_USER s))"
      "bm_wf (vbitMap (vapOf PF_USER s))"
  shows "\<exists>s'. getOnePage PF_USER va s = Inr (0, s') \<and> val (semas s' UserPapLock) = 0 \<and> holder s' UserPapLock = curThread s"
proof -
  let ?i = "(va - vstartAddr (vapOf PF_USER s)) div PG_SIZE"
  let ?s1 = "setHolder UserPapLock (curThread s) 1 (updSema UserPapLock (\<lambda>q. q\<lparr>val := 0\<rparr>) s)"
  have v1: "vapOf PF_USER ?s1 = vapOf PF_USER s" by (simp add: vapOf_def)
  have pos: "sint ?i \<ge> 0"
  proof -
    have "unat ?i < 1048576" unfolding unat_div by (rule less_mult_imp_div_less) simp
    then have "int (unat ?i) < int 1048576" by (simp only: of_nat_less_iff)
    moreover have "uint ?i = int (unat ?i)" by (rule uint_nat)
    ultimately have "uint ?i < 2147483648" by linarith
    then have "sint ?i = uint ?i"
      unfolding sint_uint by (intro signed_take_bit_int_eq_self) (use order_trans [OF _ uint_ge_0 [of ?i]] in simp_all)
    then show ?thesis by simp
  qed
  obtain bm where bm: "bitMapSet (vbitMap (vapOf PF_USER s)) ?i True = Inr bm"
    using bitMapSet_spec [of ?i "vbitMap (vapOf PF_USER s)" True] bm_room [OF room(2,1)] by metis
  have p1: "papOf q (setVapBits PF_USER bm ?s1) = papOf q s" for q
    by (cases q) (simp_all add: papOf_def setHolder_def updSema_def setVapBits_def updTask_def del: pap_papOf)
  have "allocPhyAddr PF_USER (setVapBits PF_USER bm ?s1) = Inr (0, setVapBits PF_USER bm ?s1)"
  proof (rule allocPhyAddr_none)
    show "poolInv (setVapBits PF_USER bm ?s1)" by (rule poolInv_cong [OF p1, THEN iffD2]) (rule inv)
    show "freePages PF_USER (setVapBits PF_USER bm ?s1) = {}" using inv(2) unfolding freePages_def p1 .
  qed
  then have "getOnePage PF_USER va s = Inr (0, setVapBits PF_USER bm ?s1)"
    unfolding getOnePage_def using lockNow_free [OF l] va pos bm by (simp add: v1 Let_def)
  moreover have "semas (setVapBits PF_USER bm ?s1) UserPapLock = (semas s UserPapLock)\<lparr>val := 0\<rparr>"
    "holder (setVapBits PF_USER bm ?s1) UserPapLock = curThread s" by (simp_all add: setVapBits_def)
  ultimately show ?thesis by (intro exI [of _ "setVapBits PF_USER bm ?s1"]) simp
qed

section \<open>A machine with two small pools\<close>

text \<open>A page directory at 0x100000 with one kernel page table; eight pages in each pool and sixteen
  virtual kernel pages.\<close>

definition demoPmem :: "u32 \<Rightarrow> u32" where
  "demoPmem p = (if p = 0x100ffc then 0x100007 else if p = 0x100c00 then 0x101007 else 0)"

definition demoMem :: kmem where
  "demoMem = kio.extend demoKio
     \<lparr>pmem = demoPmem,
      kernelPap = \<lparr>ppBitMap = \<lparr>bm_length = 1, startAddr = [0, 0]\<rparr>, ppStart = 0x200000, ppSize = 0x8000\<rparr>,
      userPap = \<lparr>ppBitMap = \<lparr>bm_length = 1, startAddr = [0, 0]\<rparr>, ppStart = 0x208000, ppSize = 0x8000\<rparr>,
      kernelVap = \<lparr>vbitMap = \<lparr>bm_length = 2, startAddr = [0, 0, 0]\<rparr>, vstartAddr = K_HEAP_START\<rparr>,
      kmbdArr = [], arenas = (\<lambda>_. None)\<rparr>"

lemma demoMem_fields:
  "pmem demoMem = demoPmem" "cr3 demoMem = 0x100000" "curThread demoMem = 1"
  "papOf PF_KERNEL demoMem = \<lparr>ppBitMap = \<lparr>bm_length = 1, startAddr = [0, 0]\<rparr>, ppStart = 0x200000, ppSize = 0x8000\<rparr>"
  "papOf PF_USER demoMem = \<lparr>ppBitMap = \<lparr>bm_length = 1, startAddr = [0, 0]\<rparr>, ppStart = 0x208000, ppSize = 0x8000\<rparr>"
  "kernelVap demoMem = \<lparr>vbitMap = \<lparr>bm_length = 2, startAddr = [0, 0, 0]\<rparr>, vstartAddr = K_HEAP_START\<rparr>"
  by (simp_all add: demoMem_def demoKio_def kio.defs ksched.defs bootedState_def mainStart_def papOf_def del: pap_papOf)

lemma demo_entry: "i < 1024 \<Longrightarrow> pdEnt demoMem i = (if i = 1023 then 0x100007 else if i = 768 then 0x101007 else 0)"
proof -
  assume i: "i < 1024"
  have f: "frameOf (cr3 demoMem) = 0x100000" "pgAligned 0x100000" by (simp_all add: demoMem_fields pgAligned_def)
  have e: "0x100ffc = entry 0x100000 1023" "0x100c00 = entry 0x100000 768" by (simp_all add: entry_def)
  show ?thesis
    using i unfolding pdEnt_def demoMem_fields(1) f(1) demoPmem_def e by (simp add: entry_inj [OF f(2) f(2)])
qed

lemma demo_paging: "pagingInv demoMem"
  unfolding pagingInv_def by (auto simp: demo_entry demoMem_fields split: if_splits)

lemma demo_memInv: "memInv demoMem"
proof -
  have "poolInv demoMem"
    by (simp add: poolInv_def papWf_def demoMem_fields bm_wf_def bm_cap_def pgAligned_def)
  moreover have "isTable demoMem f \<Longrightarrow> f = 0x100000 \<or> f = 0x101000" for f
    unfolding isTable_def by (auto simp: demo_entry split: if_splits)
  moreover have "papPage (papOf pf demoMem) i \<noteq> 0x100000 \<and> papPage (papOf pf demoMem) i \<noteq> 0x101000"
    if "i < papCap (papOf pf demoMem)" for pf i
  proof -
    have "unat (papPage (papOf pf demoMem) i) = unat (ppStart (papOf pf demoMem)) + 4096 * i"
      by (rule unat_papPage [OF poolInv_wf [OF calculation(1)] that])
    then have "unat (papPage (papOf pf demoMem) i) \<ge> 0x200000" by (cases pf) (simp_all add: demoMem_fields)
    then show ?thesis by auto
  qed
  ultimately show ?thesis using demo_paging unfolding memInv_def by blast
qed

lemma demo_free: "freePages pf demoMem = {i. i < 8}"
proof -
  have "\<not> bm_used \<lparr>bm_length = 1, startAddr = [0, 0]\<rparr> i" if "i < 8" for i using that by (simp add: bm_used_def)
  then show ?thesis by (cases pf) (auto simp: freePages_def demoMem_fields bm_cap_def)
qed

lemma demo_heap_pages: "k < 16 \<Longrightarrow> unat (vpage K_HEAP_START k) = 0xc0100000 + 4096 * k"
  by (subst unat_vpage) simp_all

lemma demo_vap: "vapWf PF_KERNEL demoMem"
proof -
  have "present (pdEnt demoMem (dIdx (vpage K_HEAP_START k))) \<and> mmu demoMem (vpage K_HEAP_START k) = None" if k: "k < 16" for k
  proof -
    have u: "unat (vpage K_HEAP_START k) = 768 * 4194304 + (256 + k) * 4096 + 0" using demo_heap_pages [OF k] by simp
    have i: "dIdx (vpage K_HEAP_START k) = 768" "tIdx (vpage K_HEAP_START k) = 256 + k"
      using idx_of_split [OF u] k by simp_all
    have al: "pgAligned 0x100000" "pgAligned 0x101000" by (simp_all add: pgAligned_def)
    have e: "0x100ffc = entry 0x100000 1023" "0x100c00 = entry 0x100000 768" by (simp_all add: entry_def)
    have "ptEnt demoMem 768 (256 + k) = 0"
      using k unfolding ptEnt_def demoMem_fields demoPmem_def e by (simp add: demo_entry entry_inj al)
    then show ?thesis unfolding mmu_ent i by (simp add: demo_entry)
  qed
  then show ?thesis
    unfolding vapWf_def vapOf_def by (simp add: demoMem_fields bm_wf_def bm_cap_def pgAligned_def)
qed

lemma demo_fit: "0 < n \<Longrightarrow> n \<le> 16 \<Longrightarrow> first_fit (vbitMap (vapOf PF_KERNEL demoMem)) n = Some 0"
proof -
  have u: "\<not> bm_used \<lparr>bm_length = 2, startAddr = [0, 0, 0]\<rparr> i" if "i < 16" for i
  proof -
    have "i div 8 = 0 \<or> i div 8 = 1" using that by auto
    then have "[0, 0, 0 :: u8] ! (i div 8) = 0" by auto
    then show ?thesis by (simp add: bm_used_def)
  qed
  assume "0 < n" "n \<le> 16"
  then show ?thesis using u by (simp add: first_fit_Some run_free_def vapOf_def demoMem_fields bm_cap_def)
qed


lemma mapPageTable_ok:
  assumes "memInv s" "dIdx va < 1023" "mmu s va = None" "pgAligned pa" "tableRoom va s"
  shows "\<exists>s'. mapPageTable va pa s = Inr s' \<and> memInv s' \<and>
    (\<forall>va'. dIdx va' \<noteq> 1023 \<longrightarrow>
       mmu s' va' = (if frameOf va' = frameOf va then Some (pa + pageOff va') else mmu s va'))"
proof (cases "present (pdEnt s (dIdx va))")
  case True
  then show ?thesis using mapPageTable_present [OF assms(1-4)] by blast
next
  case False
  then show ?thesis using mapPageTable_new [OF assms(1,2,4)] assms(5) by (auto simp: tableRoom_def)
qed

section \<open>Properties of the page allocator\<close>

text \<open>C13: with the page directory mapped into itself, addrV2P computes the processor's own translation
  of every mapped address.\<close>

theorem addrV2P_is_translation:
  assumes "pagingInv s" "mmu s va = Some pa"
  shows "addrV2P va s = Inr pa"
  using addrV2P_mmu assms .

theorem addrV2P_is_translation_witness: "addrV2P (getPdePtr 0xc0000000) demoMem = Inr 0x100c00"
  by (rule addrV2P_is_translation [OF demo_paging])
    (simp add: mmu_getPdePtr [OF demo_paging] demoMem_fields dIdx_def entry_def)









text \<open>C18: memPoolInit lays out two pools of equal size above 2 MB that do not overlap, lie inside the
  memory and are free.\<close>

theorem memPoolInit_pools:
  assumes "2097152 \<le> unat allMem"
  shows "\<exists>s'. memPoolInit raw allMem s = Inr s' \<and> poolInv s' \<and>
    (\<forall>pf. papCap (papOf pf s') = 8 * ((unat allMem - 2097152) div 4096 div 2 div 8) \<and>
       freePages pf s' = {i. i < papCap (papOf pf s')}) \<and>
    unat (ppStart (kernelPap s')) = 2097152 \<and>
    unat (ppStart (userPap s')) + 4096 * papCap (userPap s') \<le> unat allMem"
  using memPoolInit_ok assms .

theorem memPoolInit_pools_witness:
  "\<exists>s'. memPoolInit (\<lambda>_. 0xff) 0x2000000 demoMem = Inr s' \<and> papCap (papOf PF_USER s') = 3840"
  using memPoolInit_pools [of "0x2000000" "\<lambda>_. 0xff" demoMem] by auto

text \<open>freePage panics on pages backed by the first page of the user pool: its assertion demands an
  address above the start of the pool.\<close>

theorem freePage_panics_on_first_user_page:
  assumes "pagingInv s" "mmu s va = Some (ppStart (userPap s))" "va mod PG_SIZE = 0" "0 < n"
    "ppStart (userPap s) mod PG_SIZE = 0" "0x102000 < ppStart (userPap s)"
  shows "freePage pf va n s = Inl (Panic ''paddr'')"
  using freePage_first_user assms .

theorem freePage_panics_on_first_user_page_witness:
  "\<exists>s'. mapPageTable 0xc0100000 0x208000 demoMem = Inr s' \<and> freePage PF_KERNEL 0xc0100000 1 s' = Inl (Panic ''paddr'')"
proof -
  have i: "dIdx 0xc0100000 = 768" by (simp add: dIdx_def)
  have n: "mmu demoMem 0xc0100000 = None"
    using demo_vap unfolding vapWf_def vapOf_def by (auto simp: demoMem_fields bm_cap_def bm_used_def vpage_def dest: spec [of _ 0])
  obtain s' m where s': "mapPageTable 0xc0100000 0x208000 demoMem = Inr s'" "memInv s'" "s' = demoMem\<lparr>pmem := m\<rparr>"
    "mmu s' 0xc0100000 = Some (0x208000 + pageOff 0xc0100000)"
    using mapPageTable_present [OF demo_memInv, of "0xc0100000" "0x208000"] n i by (auto simp: pgAligned_def demo_entry)
  have "papOf PF_USER s' = papOf PF_USER demoMem" unfolding s'(3) by (rule papOf_pmem)
  then have "freePage PF_KERNEL 0xc0100000 1 s' = Inl (Panic ''paddr'')"
    using s'(4) by (intro freePage_panics_on_first_user_page [OF memInvD(2) [OF s'(2)]]) (simp_all add: demoMem_fields)
  then show ?thesis using s'(1) by blast
qed

text \<open>getOnePage of a process, when no physical page is left, returns NULL but keeps the lock of the
  user pool: the lock is held by the thread and its semaphore is taken.\<close>

theorem getOnePage_keeps_lock:
  assumes "lockFree UserPapLock s" "poolInv s" "freePages PF_USER s = {}" "va mod PG_SIZE = 0"
    "pageDir (tcb s (curThread s)) \<noteq> 0"
    "unat ((va - vstartAddr (vapOf PF_USER s)) div PG_SIZE) < bm_cap (vbitMap (vapOf PF_USER s))"
    "bm_wf (vbitMap (vapOf PF_USER s))"
  shows "\<exists>s'. getOnePage PF_USER va s = Inr (0, s') \<and> val (semas s' UserPapLock) = 0 \<and>
    holder s' UserPapLock = curThread s"
  using getOnePage_none assms .

definition demoUser :: kmem where
  "demoUser = demoMem\<lparr>userPap := \<lparr>ppBitMap = \<lparr>bm_length = 0, startAddr = [0]\<rparr>, ppStart = 0x208000, ppSize = 0\<rparr>,
     tcb := (\<lambda>_. worker\<lparr>pageDir := 0xc0101000, vap := \<lparr>vbitMap = \<lparr>bm_length = 1, startAddr = [0, 0]\<rparr>, vstartAddr = 0x8000\<rparr>\<rparr>)\<rparr>"

theorem getOnePage_keeps_lock_witness:
  "\<exists>s'. getOnePage PF_USER 0xa000 demoUser = Inr (0, s') \<and> val (semas s' UserPapLock) = 0"
proof -
  have p: "papOf PF_KERNEL demoUser = papOf PF_KERNEL demoMem"
    "papOf PF_USER demoUser = \<lparr>ppBitMap = \<lparr>bm_length = 0, startAddr = [0]\<rparr>, ppStart = 0x208000, ppSize = 0\<rparr>"
    by (simp_all add: demoUser_def papOf_def del: pap_papOf)
  have "lockFree UserPapLock demoUser"
    by (simp add: lockFree_def demoUser_def demoMem_def demoKio_def kio.defs ksched.defs bootedState_def mainStart_def semaInit_def)
  moreover have "poolInv demoUser"
    by (simp add: poolInv_def p demoMem_fields papWf_def bm_wf_def bm_cap_def pgAligned_def)
  moreover have "freePages PF_USER demoUser = {}" by (simp add: freePages_def p bm_cap_def)
  moreover have "vapOf PF_USER demoUser = \<lparr>vbitMap = \<lparr>bm_length = 1, startAddr = [0, 0]\<rparr>, vstartAddr = 0x8000\<rparr>"
    by (simp add: vapOf_def demoUser_def)
  moreover have "pageDir (tcb demoUser (curThread demoUser)) \<noteq> 0" by (simp add: demoUser_def)
  ultimately show ?thesis using getOnePage_keeps_lock [of demoUser "0xa000"] by (auto simp: bm_cap_def bm_wf_def)
qed

end
