(* ===== verification/Heap.thy ===== *)
theory Heap
  imports MemoryInv
begin

text \<open>
  The heap of kernel/memory.c: sysMalloc cuts pages (arenas) into blocks of seven sizes, or gives
  whole pages to large requests; sysFree puts a block back and releases an arena whose blocks are
  all free. The headers and the free lists live in the pages themselves; the model keeps them as
  typed state beside the words of physical memory.
\<close>

section \<open>Descriptors\<close>

abbreviation (input) MEM_BLOCK_DESC_CNT :: nat where "MEM_BLOCK_DESC_CNT \<equiv> 7"
abbreviation (input) sizeofArena :: u32 where "sizeofArena \<equiv> 12"

fun descInitLoop :: "nat \<Rightarrow> u32 \<Rightarrow> MemBlockDesc list" where
  "descInitLoop 0 bs = []"
| "descInitLoop (Suc n) bs =
     \<lparr>blockSize = bs, blocksPerArena = (PG_SIZE - sizeofArena) div bs, freeList = []\<rparr> # descInitLoop n (bs * 2)"

definition memBlockDescInit :: "MemBlockDesc list" where
  "memBlockDescInit = descInitLoop MEM_BLOCK_DESC_CNT 16"

definition memInit :: "(u32 \<Rightarrow> u8) \<Rightarrow> u32 \<Rightarrow> 'a kmem_scheme \<Rightarrow> 'a kmem_scheme res" where
  "memInit raw memBytesTotal s =
     rbind (memPoolInit raw memBytesTotal s) (\<lambda>s. Inr (s\<lparr>kmbdArr := memBlockDescInit\<rparr>))"

definition mbdArrOf :: "PoolFlag \<Rightarrow> 'a kmem_scheme \<Rightarrow> MemBlockDesc list" where
  "mbdArrOf pf s = (if pf = PF_KERNEL then kmbdArr s else umbdArr (tcb s (curThread s)))"

definition setFreeList :: "PoolFlag \<Rightarrow> nat \<Rightarrow> u32 list \<Rightarrow> 'a kmem_scheme \<Rightarrow> 'a kmem_scheme" where
  "setFreeList pf d bs s =
     (let arr = (mbdArrOf pf s)[d := (mbdArrOf pf s ! d)\<lparr>freeList := bs\<rparr>]
      in if pf = PF_KERNEL then s\<lparr>kmbdArr := arr\<rparr>
         else updTask (curThread s) (\<lambda>t. t\<lparr>umbdArr := arr\<rparr>) s)"

definition setArena :: "u32 \<Rightarrow> Arena option \<Rightarrow> 'a kmem_scheme \<Rightarrow> 'a kmem_scheme" where
  "setArena a h s = s\<lparr>arenas := (arenas s)(a := h)\<rparr>"

definition arenaToBlock :: "u32 \<Rightarrow> u32 \<Rightarrow> u32 \<Rightarrow> u32" where
  "arenaToBlock a bsize idx = a + sizeofArena + idx * bsize"

definition blockToArena :: "u32 \<Rightarrow> u32" where
  "blockToArena b = b AND 0xfffff000"

section \<open>sysMalloc\<close>

text \<open>The search for the first descriptor whose blocks are large enough.\<close>

fun findDesc :: "u32 \<Rightarrow> MemBlockDesc list \<Rightarrow> nat" where
  "findDesc sz [] = 0"
| "findDesc sz (d # ds) = (if sz \<le> blockSize d then 0 else Suc (findDesc sz ds))"

text \<open>The loop that puts the blocks of a new arena on the free list, \<open>n\<close> to go from index \<open>i\<close>.\<close>

fun fillFree :: "u32 \<Rightarrow> u32 \<Rightarrow> nat \<Rightarrow> u32 \<Rightarrow> u32 list \<Rightarrow> u32 list res" where
  "fillFree arena bsize 0 i fl = Inr fl"
| "fillFree arena bsize (Suc n) i fl =
     (let block = arenaToBlock arena bsize i
      in assertC ''!listElemExist(&arena->desc->freeList, &block->freeElem)'' (block \<notin> set fl)
           (fillFree arena bsize n (i + 1) (fl @ [block])))"

definition mallocLarge :: "PoolFlag \<Rightarrow> u32 \<Rightarrow> 'a kmem_scheme \<Rightarrow> (u32 \<times> 'a kmem_scheme) res" where
  "mallocLarge pf sz s =
     (let pgCnt = DIV_ROUND_UP (sz + sizeofArena) PG_SIZE in
      rbind (allocPage pf pgCnt s) (\<lambda>(arena, s).
      if arena \<noteq> NULLPTR then
        rbind (vclear arena (1024 * unat pgCnt) s) (\<lambda>s.
        let s = setArena arena (Some \<lparr>adesc = None, acnt = pgCnt, alarge = True\<rparr>) s in
        rbind (lockUnlock (papLock pf) s) (\<lambda>s. Inr (arena + sizeofArena, s)))
      else rbind (lockUnlock (papLock pf) s) (\<lambda>s. Inr (NULLPTR, s))))"

text \<open>A new arena for descriptor \<open>d\<close>; the flag is False when no page could be had.\<close>

definition newArena :: "PoolFlag \<Rightarrow> nat \<Rightarrow> 'a kmem_scheme \<Rightarrow> (bool \<times> 'a kmem_scheme) res" where
  "newArena pf d s =
     rbind (allocPage pf 1 s) (\<lambda>(arena, s).
     if arena = NULLPTR then Inr (False, s)
     else
       rbind (vclear arena 1024 s) (\<lambda>s.
       let mbd = mbdArrOf pf s ! d;
           s = setArena arena (Some \<lparr>adesc = Some d, acnt = blocksPerArena mbd, alarge = False\<rparr>) s in
       rbind (fillFree arena (blockSize mbd) (unat (blocksPerArena mbd)) 0 (freeList mbd)) (\<lambda>fl.
       Inr (True, setFreeList pf d fl s))))"

text \<open>Taking the first free block of descriptor \<open>d\<close>.\<close>

definition takeBlock :: "PoolFlag \<Rightarrow> nat \<Rightarrow> 'a kmem_scheme \<Rightarrow> (u32 \<times> 'a kmem_scheme) res" where
  "takeBlock pf d s =
     (case freeList (mbdArrOf pf s ! d) of
        [] \<Rightarrow> Inl OutOfBounds
      | block # fl \<Rightarrow>
          (let s = setFreeList pf d fl s in
           rbind (vclear block (unat (blockSize (mbdArrOf pf s ! d)) div 4) s) (\<lambda>s.
           case arenas s (blockToArena block) of
             None \<Rightarrow> Inl OutOfBounds
           | Some h \<Rightarrow> Inr (block, setArena (blockToArena block) (Some (h\<lparr>acnt := acnt h - 1\<rparr>)) s))))"

definition heapPool :: "'a kmem_scheme \<Rightarrow> PoolFlag" where
  "heapPool s = (if pageDir (tcb s (curThread s)) = NULLPTR then PF_KERNEL else PF_USER)"

definition sysMalloc :: "u32 \<Rightarrow> 'a kmem_scheme \<Rightarrow> (u32 \<times> 'a kmem_scheme) res" where
  "sysMalloc sz s =
     (let pf = heapPool s; poolSize = ppSize (papOf pf s) in
      if \<not> (sz > 0 \<and> sz < poolSize) then Inr (NULLPTR, s)
      else rbind (lockNow (papLock pf) s) (\<lambda>s.
        if sz > 1024 then mallocLarge pf sz s
        else
          (let d = findDesc sz (mbdArrOf pf s) in
           if d \<ge> length (mbdArrOf pf s) then Inl OutOfBounds
           else
             rbind (if freeList (mbdArrOf pf s ! d) = [] then newArena pf d s else Inr (True, s)) (\<lambda>(ok, s).
             if \<not> ok then rbind (lockUnlock (papLock pf) s) (\<lambda>s. Inr (NULLPTR, s))
             else rbind (takeBlock pf d s) (\<lambda>(block, s).
               rbind (lockUnlock (papLock pf) s) (\<lambda>s. Inr (block, s)))))))"

section \<open>sysFree\<close>

text \<open>The loop that takes the \<open>n\<close> blocks of an arena from index \<open>i\<close> on off the free list.\<close>

fun dropBlocks :: "u32 \<Rightarrow> u32 \<Rightarrow> nat \<Rightarrow> u32 \<Rightarrow> u32 list \<Rightarrow> u32 list res" where
  "dropBlocks arena bsize 0 i fl = Inr fl"
| "dropBlocks arena bsize (Suc n) i fl =
     (let block = arenaToBlock arena bsize i
      in assertC ''listElemExist(&arena->desc->freeList, &block->freeElem)'' (block \<in> set fl)
           (dropBlocks arena bsize n (i + 1) (remove1 block fl)))"

definition freeBlock :: "PoolFlag \<Rightarrow> u32 \<Rightarrow> u32 \<Rightarrow> Arena \<Rightarrow> nat \<Rightarrow> 'a kmem_scheme \<Rightarrow> 'a kmem_scheme res" where
  "freeBlock pf arena block h d s =
     (let mbd = mbdArrOf pf s ! d;
          s = setFreeList pf d (freeList mbd @ [block]) s;
          h = h\<lparr>acnt := acnt h + 1\<rparr>;
          s = setArena arena (Some h) s in
      if acnt h = blocksPerArena mbd then
        rbind (dropBlocks arena (blockSize mbd) (unat (blocksPerArena mbd)) 0 (freeList mbd @ [block])) (\<lambda>fl.
        rbind (freePage pf arena 1 (setFreeList pf d fl s)) (\<lambda>s. Inr (setArena arena None s)))
      else Inr s)"

definition sysFree :: "u32 \<Rightarrow> 'a kmem_scheme \<Rightarrow> 'a kmem_scheme res" where
  "sysFree ptr s =
     assertC ''ptr != NULL'' (ptr \<noteq> NULLPTR)
     (let pf = heapPool s in
      rbind (lockNow (papLock pf) s) (\<lambda>s.
      let arena = blockToArena ptr in
      rbind (case arenas s arena of None \<Rightarrow> Inl OutOfBounds
        | Some h \<Rightarrow>
            (case adesc h of
               None \<Rightarrow>
                 if alarge h then rbind (freePage pf arena (acnt h) s) (\<lambda>s. Inr (setArena arena None s))
                 else Inl OutOfBounds
             | Some d \<Rightarrow> freeBlock pf arena ptr h d s))
        (lockUnlock (papLock pf))))"

end
