(* ===== verification/Disk.thy ===== *)
theory Disk
  imports Heap
begin

text \<open>
  The state of the file system (fs/), the disk as sectors, and the records the file system keeps on
  it, with their byte layout. Reading and writing sectors is the contract of device/ide.c that the
  theory Ide shows its port protocol to meet. The results of sysMalloc are an input, in the order
  of the calls: \<open>allocResult\<close> gives the address the next call returns, 0 for NULL; the buffers that
  are handed out and not yet given back are in \<open>bufs\<close>. \<open>heapAfter\<close> is what the heap holds behind a sector
  buffer, which one loop of the directory code reads, and \<open>stackJunk\<close> what a local variable of the given name
  holds before it is written.
\<close>

section \<open>Data (fs/inode.h, fs/dir.h, fs/file.h, fs/super_block.h, device/ide.h)\<close>

record Inode =
  ino :: u32
  isize :: u32
  openCnt :: u32
  writeDeny :: bool
  block :: "u32 list"

record DirEntry =
  fileName :: "u8 list"
  dino :: u32
  fileType :: u32

abbreviation (input) FT_UNKNOWN :: u32 where "FT_UNKNOWN \<equiv> 0"
abbreviation (input) FT_REGULAR :: u32 where "FT_REGULAR \<equiv> 1"
abbreviation (input) FT_DIRECTORY :: u32 where "FT_DIRECTORY \<equiv> 2"

record Dir =
  dinode :: u32
  dirPos :: u32
  dirBuf :: "u8 list"

record File =
  fdPos :: u32
  fdFlag :: u32
  fdInode :: u32

record SuperBlock =
  magicNum :: u32
  sbSecCnt :: u32
  inodeCnt :: u32
  partLbaStart :: u32
  blockBitMapLbaStart :: u32
  blockBitMapSecCnt :: u32
  inodeBitMapLbaStart :: u32
  inodeBitMapSecCnt :: u32
  inodeTableLbaStart :: u32
  inodeTableSecCnt :: u32
  dataLbaStart :: u32
  rootInodeNo :: u32
  dirEntrySize :: u32
  emptyByte :: "u8 list"

record Partition =
  lbaStart :: u32
  secCnt :: u32
  pdisk :: nat
  superBlock :: SuperBlock
  pname :: "u8 list"
  blockBitMap :: BitMap
  inodeBitMap :: BitMap
  openInodes :: "u32 list"

text \<open>The state. Inodes and directory objects are kept by address; \<open>curPart\<close> and the members of
  \<open>partitionList\<close> are names of partitions; \<open>klog\<close> holds the messages given to printk, newest first.\<close>

record kfs = kmem +
  disks :: "nat \<Rightarrow> u32 \<Rightarrow> u8 list"
  parts :: "nat \<Rightarrow> Partition"
  partitionList :: "nat list"
  curPart :: nat
  inodes :: "u32 \<Rightarrow> Inode"
  dirs :: "u32 \<Rightarrow> Dir"
  rootDir :: u32
  fileTable :: "File list"
  allocResult :: "nat \<Rightarrow> u32"
  allocCnt :: nat
  bufs :: "u32 list"
  heapAfter :: "u8 list"
  stackJunk :: "string \<Rightarrow> nat \<Rightarrow> u8"
  klog :: "string list"

section \<open>Sectors\<close>

abbreviation (input) SECTOR_BYTE_SIZE :: nat where "SECTOR_BYTE_SIZE \<equiv> 512"
abbreviation (input) BLOCK_BYTE_SIZE :: nat where "BLOCK_BYTE_SIZE \<equiv> 512"
abbreviation (input) MAX_LBA :: u32 where "MAX_LBA \<equiv> 163839"  \<comment> \<open>\<open>80 * 1024 * 1024 / 512 - 1\<close>\<close>

text \<open>The start of every chunk of 256 sectors is checked by \<open>selectSector\<close>.\<close>

definition chunksOk :: "u32 \<Rightarrow> nat \<Rightarrow> bool" where
  "chunksOk lba n \<longleftrightarrow> list_all (\<lambda>k. lba + of_nat (256 * k) < MAX_LBA) [0..<(n + 255) div 256]"

definition readSectors :: "(u32 \<Rightarrow> u8 list) \<Rightarrow> u32 \<Rightarrow> nat \<Rightarrow> u8 list" where
  "readSectors d lba n = concat (map (\<lambda>i. d (lba + of_nat i)) [0..<n])"

fun writeSectors :: "u32 \<Rightarrow> nat \<Rightarrow> u8 list \<Rightarrow> (u32 \<Rightarrow> u8 list) \<Rightarrow> (u32 \<Rightarrow> u8 list)" where
  "writeSectors lba 0 buf d = d"
| "writeSectors lba (Suc n) buf d = writeSectors (lba + 1) n (drop 512 buf) (d(lba := take 512 buf))"

definition ideRead :: "nat \<Rightarrow> u32 \<Rightarrow> nat \<Rightarrow> 'a kfs_scheme \<Rightarrow> u8 list res" where
  "ideRead dv lba n s =
     assertC ''lba < MAX_LBA'' (lba < MAX_LBA)
     (assertC ''secCnt > 0'' (n > 0)
     (assertC ''lba < MAX_LBA'' (chunksOk lba n)
     (Inr (readSectors (disks s dv) lba n))))"

definition ideWrite :: "nat \<Rightarrow> u32 \<Rightarrow> u8 list \<Rightarrow> nat \<Rightarrow> 'a kfs_scheme \<Rightarrow> 'a kfs_scheme res" where
  "ideWrite dv lba buf n s =
     assertC ''lba < MAX_LBA'' (lba < MAX_LBA)
     (assertC ''secCnt > 0'' (n > 0)
     (assertC ''lba < MAX_LBA'' (chunksOk lba n)
     (if 512 * n \<le> length buf
      then Inr (s\<lparr>disks := (disks s)(dv := writeSectors lba n buf (disks s dv))\<rparr>)
      else Inl OutOfBounds)))"

section \<open>Memory\<close>

definition fsMalloc :: "'a kfs_scheme \<Rightarrow> u32 \<times> 'a kfs_scheme" where
  "fsMalloc s =
     (let p = allocResult s (allocCnt s)
      in (p, s\<lparr>allocCnt := allocCnt s + 1, bufs := (if p = NULLPTR then bufs s else p # bufs s)\<rparr>))"

definition fsFree :: "u32 \<Rightarrow> 'a kfs_scheme \<Rightarrow> 'a kfs_scheme res" where
  "fsFree p s =
     assertC ''ptr != NULL'' (p \<noteq> NULLPTR)
     (if p \<in> set (bufs s) then Inr (s\<lparr>bufs := remove1 p (bufs s)\<rparr>) else Inl OutOfBounds)"

definition logk :: "string \<Rightarrow> 'a kfs_scheme \<Rightarrow> 'a kfs_scheme" where
  "logk msg s = s\<lparr>klog := msg # klog s\<rparr>"

definition junkBytes :: "string \<Rightarrow> nat \<Rightarrow> 'a kfs_scheme \<Rightarrow> u8 list" where
  "junkBytes v n s = map (stackJunk s v) [0..<n]"

text \<open>A pointer that is dereferenced.\<close>

definition deref :: "u32 \<Rightarrow> 'b res \<Rightarrow> 'b res" where
  "deref p k = (if p = NULLPTR then Inl OutOfBounds else k)"

definition updInode :: "u32 \<Rightarrow> (Inode \<Rightarrow> Inode) \<Rightarrow> 'a kfs_scheme \<Rightarrow> 'a kfs_scheme" where
  "updInode p f s = s\<lparr>inodes := (inodes s)(p := f (inodes s p))\<rparr>"

definition updDir :: "u32 \<Rightarrow> (Dir \<Rightarrow> Dir) \<Rightarrow> 'a kfs_scheme \<Rightarrow> 'a kfs_scheme" where
  "updDir p f s = s\<lparr>dirs := (dirs s)(p := f (dirs s p))\<rparr>"

definition updPart :: "nat \<Rightarrow> (Partition \<Rightarrow> Partition) \<Rightarrow> 'a kfs_scheme \<Rightarrow> 'a kfs_scheme" where
  "updPart p f s = s\<lparr>parts := (parts s)(p := f (parts s p))\<rparr>"

definition updFile :: "nat \<Rightarrow> (File \<Rightarrow> File) \<Rightarrow> 'a kfs_scheme \<Rightarrow> 'a kfs_scheme" where
  "updFile i f s = s\<lparr>fileTable := (fileTable s)[i := f (fileTable s ! i)]\<rparr>"

abbreviation curp :: "'a kfs_scheme \<Rightarrow> Partition" where "curp s \<equiv> parts s (curPart s)"
abbreviation cursb :: "'a kfs_scheme \<Rightarrow> SuperBlock" where "cursb s \<equiv> superBlock (parts s (curPart s))"
abbreviation curhd :: "'a kfs_scheme \<Rightarrow> nat" where "curhd s \<equiv> pdisk (parts s (curPart s))"

section \<open>Byte layout\<close>

text \<open>Little-endian 32-bit words.\<close>

definition le32 :: "u32 \<Rightarrow> u8 list" where
  "le32 w = [ucast w, ucast (drop_bit 8 w), ucast (drop_bit 16 w), ucast (drop_bit 24 w)]"

definition rd32 :: "u8 list \<Rightarrow> nat \<Rightarrow> u32" where
  "rd32 bs i = ucast (bs ! i) OR push_bit 8 (ucast (bs ! (i + 1))) OR push_bit 16 (ucast (bs ! (i + 2)))
     OR push_bit 24 (ucast (bs ! (i + 3)))"

definition wordsOf :: "u8 list \<Rightarrow> u32 list" where
  "wordsOf bs = map (\<lambda>i. rd32 bs (4 * i)) [0..<length bs div 4]"

definition bytesOf :: "u32 list \<Rightarrow> u8 list" where
  "bytesOf ws = concat (map le32 ws)"

text \<open>An inode is 76 bytes: three words, a flag with padding, 13 block addresses and the two pointers
  of its list element, which are NULL on disk.\<close>

abbreviation (input) inodeSize :: nat where "inodeSize \<equiv> 76"

definition encInode :: "Inode \<Rightarrow> u8 list" where
  "encInode i = le32 (ino i) @ le32 (isize i) @ le32 (openCnt i) @
     [if writeDeny i then 1 else 0, 0, 0, 0] @ bytesOf (block i) @ replicate 8 0"

definition decInode :: "u8 list \<Rightarrow> Inode" where
  "decInode bs = \<lparr>ino = rd32 bs 0, isize = rd32 bs 4, openCnt = rd32 bs 8, writeDeny = (bs ! 12 \<noteq> 0),
     block = map (\<lambda>i. rd32 bs (16 + 4 * i)) [0..<13]\<rparr>"

text \<open>A directory entry is 24 bytes.\<close>

abbreviation (input) deSize :: nat where "deSize \<equiv> 24"
abbreviation (input) MAX_FILE_NAME_LEN :: nat where "MAX_FILE_NAME_LEN \<equiv> 16"

definition encDe :: "DirEntry \<Rightarrow> u8 list" where
  "encDe de = fileName de @ le32 (dino de) @ le32 (fileType de)"

definition decDe :: "u8 list \<Rightarrow> DirEntry" where
  "decDe bs = \<lparr>fileName = take 16 bs, dino = rd32 bs 16, fileType = rd32 bs 20\<rparr>"

text \<open>Entry \<open>k\<close> of a sector of entries.\<close>

definition deAt :: "u8 list \<Rightarrow> nat \<Rightarrow> DirEntry" where
  "deAt buf k = decDe (take 24 (drop (24 * k) buf))"

definition zeroDe :: DirEntry where
  "zeroDe = \<lparr>fileName = replicate 16 0, dino = 0, fileType = FT_UNKNOWN\<rparr>"

definition encSuper :: "SuperBlock \<Rightarrow> u8 list" where
  "encSuper sb = bytesOf [magicNum sb, sbSecCnt sb, inodeCnt sb, partLbaStart sb, blockBitMapLbaStart sb,
     blockBitMapSecCnt sb, inodeBitMapLbaStart sb, inodeBitMapSecCnt sb, inodeTableLbaStart sb,
     inodeTableSecCnt sb, dataLbaStart sb, rootInodeNo sb, dirEntrySize sb] @ emptyByte sb"

definition decSuper :: "u8 list \<Rightarrow> SuperBlock" where
  "decSuper bs = \<lparr>magicNum = rd32 bs 0, sbSecCnt = rd32 bs 4, inodeCnt = rd32 bs 8, partLbaStart = rd32 bs 12,
     blockBitMapLbaStart = rd32 bs 16, blockBitMapSecCnt = rd32 bs 20, inodeBitMapLbaStart = rd32 bs 24,
     inodeBitMapSecCnt = rd32 bs 28, inodeTableLbaStart = rd32 bs 32, inodeTableSecCnt = rd32 bs 36,
     dataLbaStart = rd32 bs 40, rootInodeNo = rd32 bs 44, dirEntrySize = rd32 bs 48, emptyByte = drop 52 bs\<rparr>"

end
