(* ===== verification/Inode.thy ===== *)
theory Inode
  imports Disk
begin

text \<open>
  Inodes and the two bitmaps of a partition: fs/inode.c and the bitmap functions of fs/file.c.
\<close>

section \<open>Bitmaps (fs/file.c)\<close>

datatype BitMapType = INODE_BITMAP | BLOCK_BITMAP

definition inodeBitMapAlloc :: "nat \<Rightarrow> 'a kfs_scheme \<Rightarrow> (u32 \<times> 'a kfs_scheme) res" where
  "inodeBitMapAlloc pt s =
     rbind (bitMapScanAndSet (inodeBitMap (parts s pt)) 1 True) (\<lambda>(bitIdx, bm).
     if bitIdx = - 1 then Inr (- 1, s)
     else Inr (bitIdx, updPart pt (\<lambda>p. p\<lparr>inodeBitMap := bm\<rparr>) s))"

definition blockBitMapAlloc :: "nat \<Rightarrow> 'a kfs_scheme \<Rightarrow> (u32 \<times> 'a kfs_scheme) res" where
  "blockBitMapAlloc pt s =
     rbind (bitMapScanAndSet (blockBitMap (parts s pt)) 1 True) (\<lambda>(bitIdx, bm).
     if bitIdx = - 1 then Inr (- 1, s)
     else Inr (dataLbaStart (superBlock (parts s pt)) + bitIdx, updPart pt (\<lambda>p. p\<lparr>blockBitMap := bm\<rparr>) s))"

text \<open>\<open>bitMapSync\<close> is to write the sector of the bitmap that holds the bit. The macro \<open>BITS_PER_SECTOR\<close> of
  fs/fs.h is \<open>SECTOR_BYTE_SIZE*8\<close> without parentheses, so \<open>bitIdx / BITS_PER_SECTOR\<close> is
  \<open>bitIdx / 512 * 8\<close>.\<close>

definition bitMapSync :: "nat \<Rightarrow> u32 \<Rightarrow> BitMapType \<Rightarrow> 'a kfs_scheme \<Rightarrow> 'a kfs_scheme res" where
  "bitMapSync pt bitIdx btype s =
     (let secOffset = bitIdx div 512 * 8;
          byteOffset = secOffset * 512;
          sb = superBlock (parts s pt);
          (secLba, bm) = (case btype of
             INODE_BITMAP \<Rightarrow> (inodeBitMapLbaStart sb + secOffset, inodeBitMap (parts s pt))
           | BLOCK_BITMAP \<Rightarrow> (blockBitMapLbaStart sb + secOffset, blockBitMap (parts s pt)))
      in ideWrite (pdisk (parts s pt)) secLba (drop (unat byteOffset) (startAddr bm)) 1 s)"

definition blockLbaToBitMapIdx :: "u32 \<Rightarrow> 'a kfs_scheme \<Rightarrow> u32" where
  "blockLbaToBitMapIdx blockLba s = blockLba - dataLbaStart (cursb s)"

definition clearBit :: "BitMapType \<Rightarrow> nat \<Rightarrow> u32 \<Rightarrow> 'a kfs_scheme \<Rightarrow> 'a kfs_scheme res" where
  "clearBit btype pt bitIdx s =
     (case btype of
        INODE_BITMAP \<Rightarrow> rbind (bitMapSet (inodeBitMap (parts s pt)) bitIdx False)
          (\<lambda>bm. Inr (updPart pt (\<lambda>p. p\<lparr>inodeBitMap := bm\<rparr>) s))
      | BLOCK_BITMAP \<Rightarrow> rbind (bitMapSet (blockBitMap (parts s pt)) bitIdx False)
          (\<lambda>bm. Inr (updPart pt (\<lambda>p. p\<lparr>blockBitMap := bm\<rparr>) s)))"

section \<open>Inodes (fs/inode.c)\<close>

record InodePosition =
  crossSec :: bool
  secLba :: u32
  byteOffset :: nat

definition inodeLocate :: "nat \<Rightarrow> u32 \<Rightarrow> 'a kfs_scheme \<Rightarrow> InodePosition res" where
  "inodeLocate pt i s =
     assertC ''ino < 4096'' (i < 4096)
     (let inodeTableLba = inodeTableLbaStart (superBlock (parts s pt));
          byteOff = i * 76;
          secOffset = byteOff div 512;
          byteOffsetInSec = byteOff mod 512;
          leftInSec = 512 - byteOffsetInSec
      in Inr \<lparr>crossSec = (leftInSec < 76), secLba = inodeTableLba + secOffset,
              byteOffset = unat byteOffsetInSec\<rparr>)"

text \<open>\<open>inodeSync\<close> of an inode given as a value, through the caller's buffer.\<close>

definition inodeSync :: "nat \<Rightarrow> Inode \<Rightarrow> 'a kfs_scheme \<Rightarrow> 'a kfs_scheme res" where
  "inodeSync pt inode s =
     rbind (inodeLocate pt (ino inode) s) (\<lambda>ip.
     assertC ''ip.secLba <= (part->lbaStart + part->secCnt)''
       (secLba ip \<le> lbaStart (parts s pt) + secCnt (parts s pt))
     (let pureInode = inode\<lparr>openCnt := 0, writeDeny := False\<rparr>;
          n = (if crossSec ip then 2 else 1)
      in rbind (ideRead (pdisk (parts s pt)) (secLba ip) n s) (\<lambda>inodeBuf.
         if byteOffset ip + 76 \<le> length inodeBuf then
           ideWrite (pdisk (parts s pt)) (secLba ip)
             (overlay inodeBuf (byteOffset ip) (encInode pureInode)) n s
         else Inl OutOfBounds)))"

text \<open>The search of \<open>inodeOpen\<close> along the list of open inodes.\<close>

definition inodeOpen :: "nat \<Rightarrow> u32 \<Rightarrow> 'a kfs_scheme \<Rightarrow> (u32 \<times> 'a kfs_scheme) res" where
  "inodeOpen pt i s =
     (case find (\<lambda>p. ino (inodes s p) = i) (openInodes (parts s pt)) of
        Some p \<Rightarrow> Inr (p, updInode p (\<lambda>n. n\<lparr>openCnt := openCnt n + 1\<rparr>) s)
      | None \<Rightarrow>
          rbind (inodeLocate pt i s) (\<lambda>ip.
          let (inodeFound, s) = fsMalloc s;
              (inodeBuf, s) = fsMalloc s;
              n = (if crossSec ip then 2 else 1)
          in deref inodeBuf (rbind (ideRead (pdisk (parts s pt)) (secLba ip) n s) (\<lambda>bytes.
             deref inodeFound
             (let s = updInode inodeFound (\<lambda>_. (decInode (take 76 (drop (byteOffset ip) bytes)))\<lparr>openCnt := 1\<rparr>) s;
                  s = updPart pt (\<lambda>p. p\<lparr>openInodes := inodeFound # openInodes p\<rparr>) s
              in rbind (fsFree inodeBuf s) (\<lambda>s. Inr (inodeFound, s)))))))"

definition inodeClose :: "u32 \<Rightarrow> 'a kfs_scheme \<Rightarrow> 'a kfs_scheme res" where
  "inodeClose p s =
     deref p
     (let intrStatus = getIntrStatus s; s = disableIntr s;
          s = updInode p (\<lambda>n. n\<lparr>openCnt := openCnt n - 1\<rparr>) s
      in if openCnt (inodes s p) = 0 then
           (let s = s\<lparr>parts := (\<lambda>pt. (parts s pt)\<lparr>openInodes := remove1 p (openInodes (parts s pt))\<rparr>)\<rparr>
            in rbind (fsFree p s) (\<lambda>s. Inr (setIntrStatus intrStatus s)))
         else Inr (setIntrStatus intrStatus s))"

definition inodeInit :: "u32 \<Rightarrow> Inode" where
  "inodeInit i = \<lparr>ino = i, isize = 0, openCnt = 0, writeDeny = False, block = replicate 13 0\<rparr>"

text \<open>The array of 140 block addresses: 12 of the inode and, when there is an indirect block, the 128
  of that block. A heap buffer is zero at first.\<close>

definition loadBlocks :: "nat \<Rightarrow> Inode \<Rightarrow> 'a kfs_scheme \<Rightarrow> u32 list res" where
  "loadBlocks pt i s =
     (if block i ! 12 \<noteq> 0 then
        rbind (ideRead (pdisk (parts s pt)) (block i ! 12) 1 s) (\<lambda>bytes. Inr (take 12 (block i) @ wordsOf bytes))
      else Inr (take 12 (block i) @ replicate 128 0))"

text \<open>Freeing a data block.\<close>

definition freeBlockBit :: "nat \<Rightarrow> u32 \<Rightarrow> 'a kfs_scheme \<Rightarrow> 'a kfs_scheme res" where
  "freeBlockBit pt lba s =
     (let blockBitMapIdx = blockLbaToBitMapIdx lba s in
      assertC ''blockBitMapIdx>0'' (blockBitMapIdx > 0)
      (rbind (clearBit BLOCK_BITMAP pt blockBitMapIdx s) (bitMapSync pt blockBitMapIdx BLOCK_BITMAP)))"

fun releaseLoop :: "nat \<Rightarrow> u32 list \<Rightarrow> 'a kfs_scheme \<Rightarrow> 'a kfs_scheme res" where
  "releaseLoop pt [] s = Inr s"
| "releaseLoop pt (b # bs) s =
     rbind (if b \<noteq> 0 then freeBlockBit pt b s else Inr s) (releaseLoop pt bs)"

text \<open>\<open>inodeRelease\<close> frees the blocks of the first 12 slots; the indirect block itself is freed, the
  blocks it lists are read but not visited, since \<open>blockCnt\<close> stays 12.\<close>

definition inodeRelease :: "nat \<Rightarrow> u32 \<Rightarrow> 'a kfs_scheme \<Rightarrow> 'a kfs_scheme res" where
  "inodeRelease pt i s =
     rbind (inodeOpen pt i s) (\<lambda>(p, s).
     assertC ''inodeToDel->ino == ino'' (ino (inodes s p) = i)
     (let (allBlocks, s) = fsMalloc s in
      deref allBlocks
      (rbind (loadBlocks pt (inodes s p) s) (\<lambda>blocks.
       rbind (if block (inodes s p) ! 12 \<noteq> 0 then freeBlockBit pt (block (inodes s p) ! 12) s else Inr s) (\<lambda>s.
       rbind (releaseLoop pt (take 12 blocks) s) (\<lambda>s.
       rbind (clearBit INODE_BITMAP pt i s) (\<lambda>s.
       rbind (bitMapSync pt i INODE_BITMAP s) (\<lambda>s.
       rbind (fsFree allBlocks s) (inodeClose p)))))))))"

end
