(* ===== verification/Dir.thy ===== *)
theory Dir
  imports Inode
begin

text \<open>
  Directories: fs/dir.c. A directory is an inode whose blocks hold entries of 24 bytes, 21 to a
  sector; an entry with type 0 is free.
\<close>

section \<open>Opening, closing and entries\<close>

definition openRootDir :: "nat \<Rightarrow> 'a kfs_scheme \<Rightarrow> 'a kfs_scheme res" where
  "openRootDir pt s =
     rbind (inodeOpen pt (rootInodeNo (superBlock (parts s pt))) s) (\<lambda>(p, s).
     Inr (updDir (rootDir s) (\<lambda>_. \<lparr>dinode = p, dirPos = 0, dirBuf = replicate 512 0\<rparr>) s))"

definition dirOpen :: "nat \<Rightarrow> u32 \<Rightarrow> 'a kfs_scheme \<Rightarrow> (u32 \<times> 'a kfs_scheme) res" where
  "dirOpen pt i s =
     (let (d, s) = fsMalloc s in
      rbind (inodeOpen pt i s) (\<lambda>(p, s).
      deref d (Inr (d, updDir d (\<lambda>_. \<lparr>dinode = p, dirPos = 0, dirBuf = replicate 512 0\<rparr>) s))))"

abbreviation dirInode :: "u32 \<Rightarrow> 'a kfs_scheme \<Rightarrow> Inode" where
  "dirInode d s \<equiv> inodes s (dinode (dirs s d))"

definition updDirInode :: "u32 \<Rightarrow> (Inode \<Rightarrow> Inode) \<Rightarrow> 'a kfs_scheme \<Rightarrow> 'a kfs_scheme" where
  "updDirInode d f s = updInode (dinode (dirs s d)) f s"

abbreviation entrySize :: "'a kfs_scheme \<Rightarrow> nat" where
  "entrySize s \<equiv> unat (dirEntrySize (cursb s))"

definition dirClose :: "u32 \<Rightarrow> 'a kfs_scheme \<Rightarrow> 'a kfs_scheme res" where
  "dirClose d s =
     (if d = rootDir s then Inr s
      else deref d (rbind (inodeClose (dinode (dirs s d)) s) (fsFree d)))"

definition createDirEntry :: "u8 list \<Rightarrow> u32 \<Rightarrow> u32 \<Rightarrow> DirEntry \<Rightarrow> DirEntry res" where
  "createDirEntry nm i ft de =
     (rbind (strlen nm) (\<lambda>n.
     assertC ''strlen(fileName) <= MAX_FILE_NAME_LEN'' (n \<le> 16) (
     rbind (memcpy (fileName de) nm n) (\<lambda>nm'.
     Inr (de\<lparr>fileName := nm', dino := i, fileType := ft\<rparr>)))))"

section \<open>Searching a directory\<close>

text \<open>The inner loop: the entries at \<open>raw\<close>, \<open>n\<close> of them from the \<open>k\<close>th on. The loop of the code runs
  to the entry size, not to the number of entries in a sector, so it reads behind the buffer.\<close>

fun searchEntries :: "nat \<Rightarrow> u8 list \<Rightarrow> u8 list \<Rightarrow> nat \<Rightarrow> nat \<Rightarrow> u8 list option res" where
  "searchEntries sz raw nm 0 k = Inr None"
| "searchEntries sz raw nm (Suc n) k =
     rbind (strcmp (drop (24 * k) raw) nm) (\<lambda>c.
     if c = 0 then
       (if 24 * k + sz \<le> length raw then Inr (Some (take sz (drop (24 * k) raw))) else Inl OutOfBounds)
     else searchEntries sz raw nm n (Suc k))"

fun searchBlocks :: "nat \<Rightarrow> u32 \<Rightarrow> u8 list \<Rightarrow> u32 list \<Rightarrow> 'a kfs_scheme \<Rightarrow> u8 list option res" where
  "searchBlocks pt buf nm [] s = Inr None"
| "searchBlocks pt buf nm (b # bs) s =
     (if b = 0 then searchBlocks pt buf nm bs s
      else deref buf (rbind (ideRead (pdisk (parts s pt)) b 1 s) (\<lambda>bytes.
        rbind (searchEntries (unat (dirEntrySize (superBlock (parts s pt)))) (bytes @ heapAfter s) nm
          (unat (dirEntrySize (superBlock (parts s pt)))) 0) (\<lambda>r.
        case r of Some e \<Rightarrow> Inr (Some e) | None \<Rightarrow> searchBlocks pt buf nm bs s))))"

definition searchDirEntry :: "nat \<Rightarrow> u32 \<Rightarrow> u8 list \<Rightarrow> 'a kfs_scheme \<Rightarrow> (DirEntry option \<times> 'a kfs_scheme) res" where
  "searchDirEntry pt d nm s =
     ((let (ab, s) = fsMalloc s in
     (if ab = NULLPTR then Inr (None, logk ''searchDirEntry: sysMalloc for allBlocks failed'' s) else
     rbind (loadBlocks pt (dirInode d s) s) (\<lambda>blocks.
     (let (buf, s) = fsMalloc s in
     rbind (searchBlocks pt buf nm blocks s) (\<lambda>r.
     rbind (fsFree buf s) (\<lambda>s.
     rbind (fsFree ab s) (\<lambda>s.
     Inr (map_option decDe r, s)))))))))"

section \<open>Adding an entry\<close>

fun freeSlot :: "u8 list \<Rightarrow> nat \<Rightarrow> nat \<Rightarrow> nat option" where
  "freeSlot buf 0 k = None"
| "freeSlot buf (Suc n) k =
     (if fileType (deAt buf k) = FT_UNKNOWN then Some k else freeSlot buf n (Suc k))"

definition setBlock :: "u32 \<Rightarrow> nat \<Rightarrow> u32 \<Rightarrow> 'a kfs_scheme \<Rightarrow> 'a kfs_scheme" where
  "setBlock d k lba s = updDirInode d (\<lambda>n. n\<lparr>block := (block n)[k := lba]\<rparr>) s"

text \<open>Allocating a block and writing the bitmap sector that shows it.\<close>

definition allocSynced :: "'a kfs_scheme \<Rightarrow> (u32 \<times> 'a kfs_scheme) res" where
  "allocSynced s =
     (rbind (blockBitMapAlloc (curPart s) s) (\<lambda>(lba, s).
     (if lba = - 1 then Inr (- 1, s) else
     (let idx = blockLbaToBitMapIdx lba s in
     assertC ''blockBitMapIdx != -1'' (idx \<noteq> - 1) (
     rbind (bitMapSync (curPart s) idx BLOCK_BITMAP s) (\<lambda>s.
     Inr (lba, s)))))))"

text \<open>The branch of \<open>syncDirEntry\<close> for a slot \<open>k\<close> without a block: it returns the array with the new
  block in it, or None when no block is left.\<close>

definition growDir :: "u32 \<Rightarrow> nat \<Rightarrow> u32 list \<Rightarrow> 'a kfs_scheme \<Rightarrow> (u32 list option \<times> 'a kfs_scheme) res" where
  "growDir d k blocks s =
     (rbind (allocSynced s) (\<lambda>(lba, s).
     (if lba = - 1 then Inr (None, logk ''syncDirEntry blockBitMapAlloc failed 11'' s) else
     (if k < 12 then Inr (Some (blocks[k := lba]), setBlock d k lba s) else
     (if k = 12 then ((let s = setBlock d 12 lba s in
       rbind (allocSynced s) (\<lambda>(lba, s).
       (if lba = - 1 then ((let idx = blockLbaToBitMapIdx (block (dirInode d s) ! 12) s in
         rbind (clearBit BLOCK_BITMAP (curPart s) idx s) (\<lambda>s.
         (let s = setBlock d 12 0 s in
         rbind (bitMapSync (curPart s) idx BLOCK_BITMAP s) (\<lambda>s.
         Inr (None, logk ''syncDirEntry blockBitMapAlloc failed 22'' s)))))) else
       (let blocks = blocks[12 := lba] in
       rbind (ideWrite (curhd s) (block (dirInode d s) ! 12) (bytesOf (drop 12 blocks)) 1 s) (\<lambda>s.
       Inr (Some blocks, s))))))) else
     (let blocks = blocks[k := lba] in
     rbind (ideWrite (curhd s) (block (dirInode d s) ! 12) (bytesOf (drop 12 blocks)) 1 s) (\<lambda>s.
     Inr (Some blocks, s))))))))"

definition addSize :: "u32 \<Rightarrow> 'a kfs_scheme \<Rightarrow> 'a kfs_scheme" where
  "addSize d s = updDirInode d (\<lambda>n. n\<lparr>isize := isize n + dirEntrySize (cursb s)\<rparr>) s"

fun syncLoop :: "u32 \<Rightarrow> DirEntry \<Rightarrow> u32 list \<Rightarrow> nat \<Rightarrow> nat \<Rightarrow> 'a kfs_scheme \<Rightarrow> (bool \<times> 'a kfs_scheme) res" where
  "syncLoop d de blocks 0 k s = Inr (False, logk ''directory is full'' s)"
| "syncLoop d de blocks (Suc n) k s =
     (if blocks ! k = 0 then
        (rbind (growDir d k blocks s) (\<lambda>(r, s).
        case r of None \<Rightarrow> Inr (False, s)
        | Some blocks \<Rightarrow>
            (rbind (ideWrite (curhd s) (blocks ! k)
              (overlay (replicate 512 0) 0 (take (entrySize s) (encDe de))) 1 s) (\<lambda>s.
            Inr (True, addSize d s)))))
      else
        (rbind (ideRead (curhd s) (blocks ! k) 1 s) (\<lambda>ioBuf.
        case freeSlot ioBuf (512 div entrySize s) 0 of
          None \<Rightarrow> syncLoop d de blocks n (Suc k) s
        | Some i \<Rightarrow>
            (rbind (ideWrite (curhd s) (blocks ! k)
              (overlay ioBuf (24 * i) (take (entrySize s) (encDe de))) 1 s) (\<lambda>s.
            Inr (True, addSize d s))))))"

definition syncDirEntry :: "u32 \<Rightarrow> DirEntry \<Rightarrow> 'a kfs_scheme \<Rightarrow> (bool \<times> 'a kfs_scheme) res" where
  "syncDirEntry d de s =
     (assertC ''dirSize % dirEntrySize == 0'' (unat (isize (dirInode d s)) mod entrySize s = 0) (
     (let (ab, s) = fsMalloc s in
     (if ab = NULLPTR then Inr (False, logk ''searchDirEntry: sysMalloc for allBlocks failed'' s) else
     rbind (loadBlocks (curPart s) (dirInode d s) s) (\<lambda>blocks.
     rbind (syncLoop d de blocks 140 0 s) (\<lambda>(ok, s).
     rbind (fsFree ab s) (\<lambda>s.
     Inr (ok, s))))))))"

section \<open>Removing an entry\<close>

definition dot :: "u8 list" where "dot = bytes ''.'' @ [0]"

text \<open>The scan of one sector: whether it is the first block of a directory, how many entries it has
  besides \<open>.\<close>, and which of them has the inode.\<close>

fun scanEntries :: "u8 list \<Rightarrow> u32 \<Rightarrow> nat \<Rightarrow> nat \<Rightarrow> bool \<times> nat \<times> nat option \<Rightarrow> (bool \<times> nat \<times> nat option) res" where
  "scanEntries buf i 0 k r = Inr r"
| "scanEntries buf i (Suc n) k (isFirst, cnt, found) =
     (if fileType (deAt buf k) \<noteq> FT_UNKNOWN then
        (rbind (strcmp (drop (24 * k) buf) dot) (\<lambda>c.
        (if c = 0 then scanEntries buf i n (Suc k) (True, cnt, found) else
        (if dino (deAt buf k) = i then (assertC ''deFound == NULL'' (found = None) (
          scanEntries buf i n (Suc k) (isFirst, Suc cnt, Some k))) else
        scanEntries buf i n (Suc k) (isFirst, Suc cnt, found)))))
      else scanEntries buf i n (Suc k) (isFirst, cnt, found))"

text \<open>Giving the block in slot \<open>k\<close> back. When it was the last one of the indirect block, the code
  clears the bit of the first indirect entry instead of the indirect block's own.\<close>

definition dropBlock :: "nat \<Rightarrow> u32 \<Rightarrow> nat \<Rightarrow> u32 list \<Rightarrow> 'a kfs_scheme \<Rightarrow> 'a kfs_scheme res" where
  "dropBlock pt d k blocks s =
     ((let idx = blockLbaToBitMapIdx (blocks ! k) s in
     rbind (clearBit BLOCK_BITMAP pt idx s) (\<lambda>s.
     rbind (bitMapSync pt idx BLOCK_BITMAP s) (\<lambda>s.
     (if k < 12 then Inr (setBlock d k 0 s) else
     (let n = length (filter (\<lambda>b. b \<noteq> 0) (drop 12 blocks)) in
     assertC ''indirectBlocksCnt >= 1'' (n \<ge> 1) (
     (if n > 1 then ideWrite (pdisk (parts s pt)) (block (dirInode d s) ! 12) (bytesOf (drop 12 (blocks[k := 0]))) 1 s else
     (let idx = blockLbaToBitMapIdx (blocks ! 12) s in
     rbind (clearBit BLOCK_BITMAP pt idx s) (\<lambda>s.
     rbind (bitMapSync pt idx BLOCK_BITMAP s) (\<lambda>s.
     Inr (setBlock d 12 0 s))))))))))))"

fun deleteLoop :: "nat \<Rightarrow> u32 \<Rightarrow> u32 \<Rightarrow> u32 list \<Rightarrow> nat \<Rightarrow> nat \<Rightarrow> 'a kfs_scheme \<Rightarrow> (bool \<times> 'a kfs_scheme) res" where
  "deleteLoop pt d i blocks 0 k s = Inr (False, s)"
| "deleteLoop pt d i blocks (Suc n) k s =
     (if blocks ! k = 0 then deleteLoop pt d i blocks n (Suc k) s
      else
        (rbind (ideRead (pdisk (parts s pt)) (blocks ! k) 1 s) (\<lambda>ioBuf.
        rbind (scanEntries ioBuf i (512 div unat (dirEntrySize (superBlock (parts s pt)))) 0 (False, 0, None)) (\<lambda>(isFirst, cnt, found).
        case found of
          None \<Rightarrow> deleteLoop pt d i blocks n (Suc k) s
        | Some j \<Rightarrow>
            (assertC ''dirEntryCnt >= 1'' (cnt \<ge> 1) (
            rbind (if cnt = 1 \<and> \<not> isFirst then dropBlock pt d k blocks s
                 else ideWrite (pdisk (parts s pt)) (blocks ! k)
                   (overlay ioBuf (24 * j) (replicate (unat (dirEntrySize (superBlock (parts s pt)))) 0)) 1 s) (\<lambda>s.
            assertC ''dirInode->size >= dirEntrySize'' (isize (dirInode d s) \<ge> dirEntrySize (superBlock (parts s pt))) (
            (let s = updDirInode d (\<lambda>m. m\<lparr>isize := isize m - dirEntrySize (superBlock (parts s pt))\<rparr>) s in
            rbind (inodeSync pt (dirInode d s) s) (\<lambda>s.
            Inr (True, s)))))))))))"

definition deleteDirEntry :: "nat \<Rightarrow> u32 \<Rightarrow> u32 \<Rightarrow> 'a kfs_scheme \<Rightarrow> (bool \<times> 'a kfs_scheme) res" where
  "deleteDirEntry pt d i s =
     ((let (ab, s) = fsMalloc s in
     deref ab
       (rbind (loadBlocks pt (dirInode d s) s) (\<lambda>blocks.
       deleteLoop pt d i blocks 140 0 s))))"

section \<open>Reading a directory\<close>

text \<open>The scan of the sector in the directory's buffer for the entry at \<open>dirPos\<close>; the sum counts the
  entries passed.\<close>

fun readScan :: "u32 \<Rightarrow> u8 list \<Rightarrow> u32 \<Rightarrow> nat \<Rightarrow> nat \<Rightarrow> u32 \<Rightarrow> (u32 + nat) res" where
  "readScan sz buf dpos 0 k cur = Inr (Inl cur)"
| "readScan sz buf dpos (Suc n) k cur =
     (if fileType (deAt buf k) \<noteq> FT_UNKNOWN then
        (if cur < dpos then readScan sz buf dpos n (Suc k) (cur + sz)
         else assertC ''curDirEntryPos == dir->dirPos'' (cur = dpos) (Inr (Inr k)))
      else readScan sz buf dpos n (Suc k) cur)"

fun readLoop :: "u32 \<Rightarrow> u32 list \<Rightarrow> u32 \<Rightarrow> 'a kfs_scheme \<Rightarrow> (DirEntry option \<times> 'a kfs_scheme) res" where
  "readLoop d [] cur s = Inr (None, s)"
| "readLoop d (b # bs) cur s =
     (if \<not> dirPos (dirs s d) < isize (dirInode d s) then Inr (None, s)
      else if b = 0 then readLoop d bs cur s
      else
        (rbind (ideRead (curhd s) b 1 s) (\<lambda>buf.
        (let s = updDir d (\<lambda>x. x\<lparr>dirBuf := buf\<rparr>) s in
        rbind (readScan (dirEntrySize (cursb s)) buf (dirPos (dirs s d)) (512 div entrySize s) 0 cur) (\<lambda>r.
        case r of
          Inl cur \<Rightarrow> readLoop d bs cur s
        | Inr k \<Rightarrow> Inr (Some (deAt buf k), updDir d (\<lambda>x. x\<lparr>dirPos := dirPos x + dirEntrySize (cursb s)\<rparr>) s))))))"

definition dirRead :: "u32 \<Rightarrow> 'a kfs_scheme \<Rightarrow> (DirEntry option \<times> 'a kfs_scheme) res" where
  "dirRead d s =
     ((let (ab, s) = fsMalloc s in
     (if ab = NULLPTR then Inr (None, logk ''dirRead: sysMalloc for allBlocks failed'' s) else
     rbind (loadBlocks (curPart s) (dirInode d s) s) (\<lambda>blocks.
     (let blockCnt = (if block (dirInode d s) ! 12 \<noteq> 0 then 140 else 12) in
     assertC ''dirSize % dirEntrySize == 0'' (unat (isize (dirInode d s)) mod entrySize s = 0) (
     readLoop d (take blockCnt blocks) 0 s))))))"

definition dirIsEmpty :: "u32 \<Rightarrow> 'a kfs_scheme \<Rightarrow> bool" where
  "dirIsEmpty d s = (isize (dirInode d s) = dirEntrySize (cursb s) * 2)"

definition dirRemove :: "u32 \<Rightarrow> u32 \<Rightarrow> 'a kfs_scheme \<Rightarrow> (u32 \<times> 'a kfs_scheme) res" where
  "dirRemove parent child s =
     (assertC ''childDirInode->block[blockIdx]==0'' (list_all (\<lambda>k. block (dirInode child s) ! k = 0) [1..<13]) (
     (let (ioBuf, s) = fsMalloc s in
     (if ioBuf = NULLPTR then Inr (- 1, logk ''dirRemove: ioBuf = sysMalloc(SECTOR_BYTE_SIZE * 2) failed'' s) else
     (let i = ino (dirInode child s) in
     rbind (deleteDirEntry (curPart s) parent i s) (\<lambda>(ok, s).
     rbind (inodeRelease (curPart s) i s) (\<lambda>s.
     rbind (fsFree ioBuf s) (\<lambda>s.
     Inr (0, s)))))))))"

end
