(* ===== verification/File.thy ===== *)
theory File
  imports Dir
begin

text \<open>
  Open files: fs/file.c. \<open>fileTable\<close> is shared by all processes, \<open>fdTable\<close> of a process holds
  indices into it; a file is written at its end only and read at \<open>fdPos\<close>. Descriptors, inode numbers and
  block addresses are \<open>u32\<close> with -1 as the code's error value.
\<close>

section \<open>Descriptors\<close>

abbreviation (input) MAX_FILE_OPEN_ALL :: nat where "MAX_FILE_OPEN_ALL \<equiv> 32"
abbreviation (input) O_WRONLY :: u32 where "O_WRONLY \<equiv> 1"
abbreviation (input) O_RDWR :: u32 where "O_RDWR \<equiv> 2"
abbreviation (input) O_CREAT :: u32 where "O_CREAT \<equiv> 4"

definition getFreeSlotInGlobal :: "'a kfs_scheme \<Rightarrow> u32 \<times> 'a kfs_scheme" where
  "getFreeSlotInGlobal s =
     (case find (\<lambda>i. fdInode (fileTable s ! i) = NULLPTR) [3..<MAX_FILE_OPEN_ALL] of
        None \<Rightarrow> (- 1, logk ''getFreeSlotInGlobal() exceed max open files'' s)
      | Some i \<Rightarrow> (of_nat i, s))"

definition pcbFdInstall :: "u32 \<Rightarrow> 'a kfs_scheme \<Rightarrow> u32 \<times> 'a kfs_scheme" where
  "pcbFdInstall globalFdIdx s =
     (let cur = curThread s in
      case find (\<lambda>i. fdTable (tcb s cur) ! i = - 1) [3..<MAX_FILE_OPEN_PER_PROC] of
        None \<Rightarrow> (- 1, logk ''pcbFdInstall() exceed max open files per proc'' s)
      | Some i \<Rightarrow> (of_nat i, updTask cur (\<lambda>t. t\<lparr>fdTable := (fdTable t)[i := globalFdIdx]\<rparr>) s))"

section \<open>Creating, opening and closing\<close>

text \<open>The \<open>rollback\<close> label of \<open>fileCreate\<close>: the cases fall through from 3 to 1.\<close>

definition fileCreateRollback ::
  "nat \<Rightarrow> u32 \<Rightarrow> nat \<Rightarrow> u32 \<Rightarrow> u32 \<Rightarrow> 'a kfs_scheme \<Rightarrow> (u32 \<times> 'a kfs_scheme) res" where
  "fileCreateRollback step i fdIdx newFileInode ioBuf s =
     ((let s = (if step \<ge> 3 then updFile fdIdx (\<lambda>_. \<lparr>fdPos = 0, fdFlag = 0, fdInode = NULLPTR\<rparr>) s else s) in
     rbind (if step \<ge> 2 then fsFree newFileInode s else Inr s) (\<lambda>s.
     rbind (if step \<ge> 1 then clearBit INODE_BITMAP (curPart s) i s else Inr s) (\<lambda>s.
     rbind (fsFree ioBuf s) (\<lambda>s.
     Inr (- 1, s))))))"

definition fileCreate :: "u32 \<Rightarrow> u8 list \<Rightarrow> u32 \<Rightarrow> 'a kfs_scheme \<Rightarrow> (u32 \<times> 'a kfs_scheme) res" where
  "fileCreate parentDir nm flag s =
     ((let (ioBuf, s) = fsMalloc s in
     (if ioBuf = NULLPTR then Inr (- 1, logk ''fileCreate ioBuf = sysMalloc(1024) failed'' s) else
     rbind (inodeBitMapAlloc (curPart s) s) (\<lambda>(i, s).
     (if i = - 1 then Inr (- 1, logk ''ino = inodeBitMapAlloc(curPart) failed'' s) else
     (let (newFileInode, s) = fsMalloc s in
     (if newFileInode = NULLPTR then fileCreateRollback 1 i 0 newFileInode ioBuf
       (logk ''newFileInode = (Inode*) sysMalloc(sizeof(Inode)) failed'' s) else
     (let s = updInode newFileInode (\<lambda>_. inodeInit i) s in
     (let (fdIdx, s) = getFreeSlotInGlobal s in
     (if fdIdx = - 1 then fileCreateRollback 2 i 0 newFileInode ioBuf
       (logk ''fdIdx = getFreeSlotInGlobal() file number exceeded'' s) else
     (let s = updFile (unat fdIdx) (\<lambda>_. \<lparr>fdPos = 0, fdFlag = flag, fdInode = newFileInode\<rparr>) s in
     (let s = updInode newFileInode (\<lambda>n. n\<lparr>writeDeny := False\<rparr>) s in
     rbind (createDirEntry nm i FT_REGULAR zeroDe) (\<lambda>newDirEntry.
     rbind (syncDirEntry parentDir newDirEntry s) (\<lambda>(ok, s).
     (if \<not> ok then fileCreateRollback 3 i (unat fdIdx) newFileInode ioBuf
       (logk ''syncDirEntry(parentDir, &newDirEntry, ioBuf) failed'' s) else
     rbind (inodeSync (curPart s) (dirInode parentDir s) s) (\<lambda>s.
     rbind (inodeSync (curPart s) (inodes s newFileInode) s) (\<lambda>s.
     rbind (bitMapSync (curPart s) i INODE_BITMAP s) (\<lambda>s.
     (let s = updPart (curPart s) (\<lambda>p. p\<lparr>openInodes := newFileInode # openInodes p\<rparr>) s in
     (let s = updInode newFileInode (\<lambda>n. n\<lparr>openCnt := 1\<rparr>) s in
     rbind (fsFree ioBuf s) (\<lambda>s.
     Inr (pcbFdInstall fdIdx s))))))))))))))))))))))"

definition writeFlag :: "u32 \<Rightarrow> bool" where
  "writeFlag flag \<longleftrightarrow> flag AND O_WRONLY \<noteq> 0 \<or> flag AND O_RDWR \<noteq> 0"

definition fileOpen :: "u32 \<Rightarrow> u32 \<Rightarrow> 'a kfs_scheme \<Rightarrow> (u32 \<times> 'a kfs_scheme) res" where
  "fileOpen i flag s =
     ((let (fdIdx, s) = getFreeSlotInGlobal s in
     (if fdIdx = - 1 then Inr (- 1, logk ''fileOpen:exceed max open files'' s) else
     rbind (inodeOpen (curPart s) i s) (\<lambda>(p, s).
     (let s = updFile (unat fdIdx) (\<lambda>_. \<lparr>fdPos = 0, fdFlag = flag, fdInode = p\<rparr>) s in
     (if \<not> writeFlag flag then Inr (pcbFdInstall fdIdx s) else
     (let intrStatus = getIntrStatus s in
     (let s = disableIntr s in
     (if \<not> writeDeny (inodes s p) then Inr (pcbFdInstall fdIdx (setIntrStatus intrStatus (updInode p (\<lambda>n. n\<lparr>writeDeny := True\<rparr>) s))) else
     rbind (inodeClose p s) (\<lambda>s.
     (let s = updFile (unat fdIdx) (\<lambda>f. f\<lparr>fdInode := NULLPTR\<rparr>) s in
     Inr (- 1, logk ''file can't be written now!'' (setIntrStatus intrStatus s)))))))))))))"

text \<open>\<open>fileClose\<close> of an entry of the file table.\<close>

definition fileClose :: "nat \<Rightarrow> 'a kfs_scheme \<Rightarrow> (u32 \<times> 'a kfs_scheme) res" where
  "fileClose fi s =
     (let p = fdInode (fileTable s ! fi) in
      deref p ((let s = updInode p (\<lambda>n. n\<lparr>writeDeny := False\<rparr>) s in
        rbind (inodeClose p s) (\<lambda>s.
        Inr (0, updFile fi (\<lambda>f. f\<lparr>fdInode := NULLPTR\<rparr>) s)))))"

section \<open>Writing\<close>

definition setInodeBlock :: "u32 \<Rightarrow> nat \<Rightarrow> u32 \<Rightarrow> 'a kfs_scheme \<Rightarrow> 'a kfs_scheme" where
  "setInodeBlock p k lba s = updInode p (\<lambda>n. n\<lparr>block := (block n)[k := lba]\<rparr>) s"

text \<open>The block every file gets with its first write; the flag is False when there is none.\<close>

definition firstBlock :: "u32 \<Rightarrow> 'a kfs_scheme \<Rightarrow> (bool \<times> 'a kfs_scheme) res" where
  "firstBlock p s =
     ((if block (inodes s p) ! 0 \<noteq> 0 then Inr (True, s) else
     rbind (blockBitMapAlloc (curPart s) s) (\<lambda>(lba, s).
     (if lba = - 1 then Inr (False, logk ''fileWrite:blockLba = blockBitMapAlloc(curPart) failed'' s) else
     (let s = setInodeBlock p 0 lba s in
     (let idx = blockLbaToBitMapIdx lba s in
     assertC ''blockBitMapIdx != 0'' (idx \<noteq> 0) (
     rbind (bitMapSync (curPart s) idx BLOCK_BITMAP s) (\<lambda>s.
     Inr (True, s)))))))))"

text \<open>The loops that add \<open>n\<close> blocks from index \<open>k\<close> on, into the array of all blocks (None when the
  disk is full): below 12 (situation 1), across 12 (situation 3), above (situation 4).\<close>

fun addDirect :: "u32 \<Rightarrow> u32 list \<Rightarrow> nat \<Rightarrow> nat \<Rightarrow> 'a kfs_scheme \<Rightarrow> (u32 list option \<times> 'a kfs_scheme) res" where
  "addDirect p blocks 0 k s = Inr (Some blocks, s)"
| "addDirect p blocks (Suc n) k s =
     (rbind (blockBitMapAlloc (curPart s) s) (\<lambda>(lba, s).
     (if lba = - 1 then Inr (None, logk ''fileWrite:blockLba = blockBitMapAlloc(curPart) situation 1 failed'' s) else
     rbind (rd (block (inodes s p)) k) (\<lambda>b.
     assertC ''file->fdInode->block[blockIdx] == 0'' (b = 0) (
     rbind (wr blocks k lba) (\<lambda>blocks.
     (let s = setInodeBlock p k lba s in
     (let idx = blockLbaToBitMapIdx lba s in
     assertC ''blockBitMapIdx != 0'' (idx \<noteq> 0) (
     rbind (bitMapSync (curPart s) idx BLOCK_BITMAP s) (\<lambda>s.
     addDirect p blocks n (Suc k) s))))))))))"

fun addAcross :: "u32 \<Rightarrow> u32 list \<Rightarrow> nat \<Rightarrow> nat \<Rightarrow> 'a kfs_scheme \<Rightarrow> (u32 list option \<times> 'a kfs_scheme) res" where
  "addAcross p blocks 0 k s = Inr (Some blocks, s)"
| "addAcross p blocks (Suc n) k s =
     (rbind (blockBitMapAlloc (curPart s) s) (\<lambda>(lba, s).
     (if lba = - 1 then Inr (None, logk ''fileWrite:blockLba = blockBitMapAlloc(curPart) situation 3 failed'' s) else
     rbind (if k < 12 then assertC ''file->fdInode->block[blockIdx] == 0'' (block (inodes s p) ! k = 0)
            (Inr (setInodeBlock p k lba s)) else Inr s) (\<lambda>s.
     rbind (wr blocks k lba) (\<lambda>blocks.
     rbind (bitMapSync (curPart s) (blockLbaToBitMapIdx lba s) BLOCK_BITMAP s) (\<lambda>s.
     addAcross p blocks n (Suc k) s))))))"

fun addIndirect :: "u32 list \<Rightarrow> nat \<Rightarrow> nat \<Rightarrow> 'a kfs_scheme \<Rightarrow> (u32 list option \<times> 'a kfs_scheme) res" where
  "addIndirect blocks 0 k s = Inr (Some blocks, s)"
| "addIndirect blocks (Suc n) k s =
     (rbind (blockBitMapAlloc (curPart s) s) (\<lambda>(lba, s).
     (if lba = - 1 then Inr (None, logk ''fileWrite:blockLba = blockBitMapAlloc(curPart) situation 4 failed'' s) else
     rbind (wr blocks k lba) (\<lambda>blocks.
     rbind (bitMapSync (curPart s) (blockLbaToBitMapIdx lba s) BLOCK_BITMAP s) (\<lambda>s.
     addIndirect blocks n (Suc k) s)))))"

text \<open>Taking the block at \<open>k\<close> of the inode over into the array; the block must be there.\<close>

definition loadDirect :: "u32 \<Rightarrow> nat \<Rightarrow> u32 list \<Rightarrow> 'a kfs_scheme \<Rightarrow> u32 list res" where
  "loadDirect p k blocks s =
     (rbind (rd (block (inodes s p)) k) (\<lambda>b.
     assertC ''file->fdInode->block[blockIdx] != 0'' (b \<noteq> 0) (
     wr blocks k b)))"

definition loadIndirect :: "u32 \<Rightarrow> u32 list \<Rightarrow> 'a kfs_scheme \<Rightarrow> u32 list res" where
  "loadIndirect lba blocks s =
     rbind (ideRead (curhd s) lba 1 s) (\<lambda>bytes. Inr (take 12 blocks @ wordsOf bytes))"

definition storeIndirect :: "u32 \<Rightarrow> u32 list \<Rightarrow> 'a kfs_scheme \<Rightarrow> 'a kfs_scheme res" where
  "storeIndirect lba blocks s = ideWrite (curhd s) lba (bytesOf (drop 12 blocks)) 1 s"

text \<open>The blocks a write of \<open>count\<close> bytes uses: those it adds are allocated here.\<close>

definition writeBlocks :: "u32 \<Rightarrow> u32 \<Rightarrow> 'a kfs_scheme \<Rightarrow> (u32 list option \<times> 'a kfs_scheme) res" where
  "writeBlocks p count s =
     ((let has = unat (isize (inodes s p) div 512) in
     (let will = unat ((isize (inodes s p) + count) div 512) in
     (let blocks = replicate 140 0 in
     assertC ''fileWillUseBlocks < 140'' (will < 140) (
     (if will = has then (if will < 12 then rbind (loadDirect p has blocks s) (\<lambda>blocks. Inr (Some blocks, s))
        else assertC ''file->fdInode->block[12] != 0'' (block (inodes s p) ! 12 \<noteq> 0)
          (rbind (loadIndirect (block (inodes s p) ! 12) blocks s) (\<lambda>blocks. Inr (Some blocks, s)))) else
     (if will < 12 then rbind (loadDirect p has blocks s) (\<lambda>blocks. addDirect p blocks (will - has) (has + 1) s) else
     (if has < 12 then (rbind (loadDirect p has blocks s) (\<lambda>blocks.
       rbind (blockBitMapAlloc (curPart s) s) (\<lambda>(lba, s).
       (if lba = - 1 then Inr (None, logk ''fileWrite:blockLba = blockBitMapAlloc(curPart) situation 2 failed'' s) else
       assertC ''file->fdInode->block[12] == 0'' (block (inodes s p) ! 12 = 0) (
       (let s = setInodeBlock p 12 lba s in
       rbind (addAcross p blocks (will - has) (has + 1) s) (\<lambda>(r, s).
       case r of None \<Rightarrow> Inr (None, s)
       | Some blocks \<Rightarrow> rbind (storeIndirect lba blocks s) (\<lambda>s. Inr (Some blocks, s))))))))) else
     (let table = block (inodes s p) ! 12 in
     assertC ''file->fdInode->block[12] != 0'' (table \<noteq> 0) (
     rbind (loadIndirect table blocks s) (\<lambda>blocks.
     rbind (addIndirect blocks (will - has) (has + 1) s) (\<lambda>(r, s).
     case r of None \<Rightarrow> Inr (None, s)
     | Some blocks \<Rightarrow> rbind (storeIndirect table blocks s) (\<lambda>s. Inr (Some blocks, s))))))))))))))"

text \<open>The loop that writes \<open>left\<close> more bytes of \<open>src\<close> at the end of the file. Only the first sector is
  read before it is written.\<close>

function writeLoop :: "nat \<Rightarrow> u32 \<Rightarrow> u32 list \<Rightarrow> u8 list \<Rightarrow> bool \<Rightarrow> nat \<Rightarrow> 'a kfs_scheme \<Rightarrow> 'a kfs_scheme res" where
  "writeLoop fi p blocks src firstWriteBlock left s =
     (if left = 0 then Inr s else
       ((let sz = unat (isize (inodes s p)) in
       rbind (rd blocks (sz div 512)) (\<lambda>secLba.
       (let secOffBytes = sz mod 512 in
       (let chunkSize = min left (512 - secOffBytes) in
       rbind (if firstWriteBlock then ideRead (curhd s) secLba 1 s else Inr (replicate 512 0)) (\<lambda>ioBuf.
       (if chunkSize > length src then Inl OutOfBounds else
       rbind (ideWrite (curhd s) secLba (overlay ioBuf secOffBytes (take chunkSize src)) 1 s) (\<lambda>s.
       (let s = updInode p (\<lambda>n. n\<lparr>isize := isize n + of_nat chunkSize\<rparr>) s in
       (let s = updFile fi (\<lambda>f. f\<lparr>fdPos := fdPos f + of_nat chunkSize\<rparr>) s in
       writeLoop fi p blocks (drop chunkSize src) False (left - chunkSize) s)))))))))))"
  by pat_completeness auto
termination by (relation "measure (\<lambda>(_, _, _, _, _, left, _). left)") auto

declare writeLoop.simps [simp del]

definition fileWrite :: "nat \<Rightarrow> u8 list \<Rightarrow> u32 \<Rightarrow> 'a kfs_scheme \<Rightarrow> (u32 \<times> 'a kfs_scheme) res" where
  "fileWrite fi buf count s =
     (let p = fdInode (fileTable s ! fi) in
      deref p ((if isize (inodes s p) + count > 512 * 140 then Inr (- 1, logk ''exceed max file size 71680 byte, write file failed'' s) else
        (let (ioBuf, s) = fsMalloc s in
        (if ioBuf = NULLPTR then Inr (- 1, logk ''fileWrite: ioBuf = sysMalloc(SECTOR_BYTE_SIZE) failed'' s) else
        (let (allBlocks, s) = fsMalloc s in
        (if allBlocks = NULLPTR then Inr (- 1, logk ''fileWrite: allBlocks = (uint32*) sysMalloc(560) failed'' s) else
        rbind (firstBlock p s) (\<lambda>(ok, s).
        (if \<not> ok then Inr (- 1, s) else
        rbind (writeBlocks p count s) (\<lambda>(r, s).
        case r of None \<Rightarrow> Inr (- 1, s)
        | Some blocks \<Rightarrow>
            ((let s = updFile fi (\<lambda>f. f\<lparr>fdPos := isize (inodes s p) - 1\<rparr>) s in
            rbind (writeLoop fi p blocks buf True (unat count) s) (\<lambda>s.
            rbind (inodeSync (curPart s) (inodes s p) s) (\<lambda>s.
            rbind (fsFree ioBuf s) (\<lambda>s.
            rbind (fsFree allBlocks s) (\<lambda>s.
            Inr (count, s)))))))))))))))))"

section \<open>Reading\<close>

text \<open>Taking the blocks \<open>k\<close>, ..., \<open>k + n - 1\<close> of the inode over into the array.\<close>

fun copyDirect :: "u32 list \<Rightarrow> nat \<Rightarrow> nat \<Rightarrow> u32 list \<Rightarrow> u32 list res" where
  "copyDirect ib 0 k blocks = Inr blocks"
| "copyDirect ib (Suc n) k blocks = rbind (rd ib k) (\<lambda>b. rbind (wr blocks k b) (copyDirect ib n (Suc k)))"

definition readBlockTable :: "u32 \<Rightarrow> nat \<Rightarrow> nat \<Rightarrow> 'a kfs_scheme \<Rightarrow> u32 list res" where
  "readBlockTable p start stop s =
     (let ib = block (inodes s p); blocks = replicate 140 0 in
      if start = stop then
        (if stop < 12 then copyDirect ib 1 stop blocks else loadIndirect (ib ! 12) blocks s)
      else if stop < 12 then copyDirect ib (stop + 1 - start) start blocks
      else if start < 12 then
        (rbind (copyDirect ib (12 - start) start blocks) (\<lambda>blocks.
        assertC ''file->fdInode->block[12] != 0'' (ib ! 12 \<noteq> 0) (
        loadIndirect (ib ! 12) blocks s)))
      else assertC ''file->fdInode->block[12] != 0'' (ib ! 12 \<noteq> 0) (loadIndirect (ib ! 12) blocks s))"

text \<open>The loop that reads \<open>left\<close> more bytes into the caller's buffer from \<open>at\<close> on.\<close>

function fileReadLoop :: "nat \<Rightarrow> u32 list \<Rightarrow> u8 list \<Rightarrow> nat \<Rightarrow> nat \<Rightarrow> 'a kfs_scheme \<Rightarrow> (u8 list \<times> 'a kfs_scheme) res" where
  "fileReadLoop fi blocks dst at left s =
     (if left = 0 then Inr (dst, s) else
       ((let pos = unat (fdPos (fileTable s ! fi)) in
       rbind (rd blocks (pos div 512)) (\<lambda>secLba.
       (let secOffBytes = pos mod 512 in
       (let chunkSize = min left (512 - secOffBytes) in
       rbind (ideRead (curhd s) secLba 1 s) (\<lambda>ioBuf.
       (if at + chunkSize > length dst then Inl OutOfBounds else
       (let s = updFile fi (\<lambda>f. f\<lparr>fdPos := fdPos f + of_nat chunkSize\<rparr>) s in
       fileReadLoop fi blocks (overlay dst at (take chunkSize (drop secOffBytes ioBuf))) (at + chunkSize)
         (left - chunkSize) s)))))))))"
  by pat_completeness auto
termination by (relation "measure (\<lambda>(_, _, _, _, left, _). left)") auto

declare fileReadLoop.simps [simp del]

definition fileRead :: "nat \<Rightarrow> u8 list \<Rightarrow> u32 \<Rightarrow> 'a kfs_scheme \<Rightarrow> (u32 \<times> u8 list \<times> 'a kfs_scheme) res" where
  "fileRead fi buf count s =
     (let p = fdInode (fileTable s ! fi); pos = fdPos (fileTable s ! fi) in
      deref p ((let size = (if pos + count > isize (inodes s p) then isize (inodes s p) - pos else count) in
        (if pos + count > isize (inodes s p) \<and> size = 0 then Inr (- 1, buf, s) else
        (let (ioBuf, s) = fsMalloc s in
        (if ioBuf = NULLPTR then Inr (- 1, buf, logk ''fileRead: ioBuf = sysMalloc(BLOCK_BYTE_SIZE) failed'' s) else
        (let (allBlocks, s) = fsMalloc s in
        (if allBlocks = NULLPTR then Inr (- 1, buf, logk ''fileRead: allBlocks = (uint32*) sysMalloc(560) failed'' s) else
        (let start = unat (pos div 512) in
        (let stop = unat ((pos + size) div 512) in
        assertC ''blockReadStartIdx < 140 && blockReadEndIdx < 140'' (start < 140 \<and> stop < 140) (
        rbind (readBlockTable p start stop s) (\<lambda>blocks.
        rbind (fileReadLoop fi blocks buf 0 (unat size) s) (\<lambda>(buf, s).
        Inr (size, buf, s))))))))))))))"

end
