(* ===== verification/Path.thy ===== *)
theory Path
  imports File
begin

text \<open>
  Paths: splitting a path into names, counting its depth and walking it from the root directory
  (pathParse, pathDepthCnt and searchFile of fs/fs.c). A path is the memory from its first byte on.
\<close>

section \<open>Names in a path\<close>

definition slash :: u8 where "slash = 47"

text \<open>The loop that copies one name into \<open>nm\<close> from index \<open>k\<close> on.\<close>

fun nameLoop :: "u8 list \<Rightarrow> u8 list \<Rightarrow> nat \<Rightarrow> (u8 list \<times> u8 list) res" where
  "nameLoop [] nm k = Inl OutOfBounds"
| "nameLoop (c # cs) nm k =
     (if c \<noteq> slash \<and> c \<noteq> 0 then rbind (wr nm k c) (\<lambda>nm. nameLoop cs nm (Suc k)) else Inr (c # cs, nm))"

definition pathParse :: "u8 list \<Rightarrow> u8 list \<Rightarrow> (u8 list option \<times> u8 list) res" where
  "pathParse pathName nameStore =
     (rbind (rd pathName 0) (\<lambda>c.
     rbind (nameLoop (if c = slash then dropWhile (\<lambda>c. c = slash) pathName else pathName) nameStore 0) (\<lambda>(p, nm).
     rbind (rd p 0) (\<lambda>c.
     Inr (if c = 0 then None else Some p, nm)))))"

lemma nameLoop_shorter: "nameLoop p nm k = Inr (q, nm') \<Longrightarrow> length q \<le> length p"
proof (induction p nm k rule: nameLoop.induct)
  case (2 c cs nm k)
  then show ?case by (auto split: if_splits simp: rbind_eq_Inr le_SucI)
qed simp

lemma nameLoop_step:
  assumes "nameLoop p nm k = Inr (q, nm')" "p \<noteq> []" "hd p \<noteq> slash" "hd p \<noteq> 0"
  shows "length q < length p"
proof -
  obtain c cs where p: "p = c # cs" using assms(2) by (cases p) auto
  with assms obtain nm1 where "nameLoop cs nm1 (Suc k) = Inr (q, nm')" by (auto simp: rbind_eq_Inr)
  then show ?thesis using nameLoop_shorter p by fastforce
qed

lemma pathParse_shorter:
  assumes "pathParse p nm = Inr (Some q, nm')"
  shows "length q < length p"
proof (cases "p \<noteq> [] \<and> hd p = slash")
  case True
  then obtain cs where p: "p = slash # cs" by (cases p) auto
  from assms p obtain nm1 where "nameLoop (dropWhile (\<lambda>c. c = slash) cs) nm 0 = Inr (q, nm1)"
    by (auto simp: pathParse_def rbind_eq_Inr split: if_splits)
  from nameLoop_shorter [OF this] have "length q \<le> length cs"
    using length_dropWhile_le order_trans by blast
  then show ?thesis by (simp add: p)
next
  case False
  with assms obtain c cs where p: "p = c # cs" "c \<noteq> slash"
    by (cases p) (auto simp: pathParse_def rbind_eq_Inr rd_def)
  with assms obtain nm1 where n: "nameLoop p nm 0 = Inr (q, nm1)" and q: "q ! 0 \<noteq> 0" "q \<noteq> []"
    by (auto simp: pathParse_def rbind_eq_Inr rd_def split: if_splits)
  then have "c \<noteq> 0" using p by auto
  then show ?thesis using nameLoop_step [OF n] p by simp
qed

text \<open>The loop of \<open>pathDepthCnt\<close>; after the last name it stops, since the buffer is cleared.\<close>

function depthLoop :: "u8 list option \<Rightarrow> u8 list \<Rightarrow> nat \<Rightarrow> nat res" where
  "depthLoop p nm depth =
     (rbind (rd nm 0) (\<lambda>c.
     (if c = 0 then Inr depth else
     case p of
       None \<Rightarrow> Inr (Suc depth)
     | Some p \<Rightarrow> rbind (pathParse p (replicate 16 0)) (\<lambda>(q, nm). depthLoop q nm (Suc depth)))))"
  by pat_completeness auto
termination
  by (relation "measure (\<lambda>(p, _, _). case p of None \<Rightarrow> 0 | Some p \<Rightarrow> Suc (length p))")
     (auto dest: pathParse_shorter split: option.splits)

declare depthLoop.simps [simp del]

definition pathDepthCnt :: "u8 list \<Rightarrow> 'a kfs_scheme \<Rightarrow> nat res" where
  "pathDepthCnt pathName s =
     (rbind (pathParse pathName (junkBytes ''name'' 16 s)) (\<lambda>(p, nm).
     depthLoop p nm 0))"

section \<open>Walking a path\<close>

record PathSearchRecord =
  searchPath :: "u8 list"
  parentDir :: u32
  psFileType :: u32

definition emptyRecord :: PathSearchRecord where
  "emptyRecord = \<lparr>searchPath = replicate 512 0, parentDir = NULLPTR, psFileType = FT_UNKNOWN\<rparr>"

text \<open>The next name of what is left of the path; the buffer is cleared first.\<close>

definition nextName :: "u8 list option \<Rightarrow> (u8 list option \<times> u8 list) res" where
  "nextName sub = (case sub of None \<Rightarrow> Inr (None, replicate 16 0) | Some p \<Rightarrow> pathParse p (replicate 16 0))"

lemma nextName_less:
  assumes "nextName sub = Inr (q, nm)" "nm ! 0 \<noteq> 0 \<or> sub \<noteq> None"
  shows "(case q of None \<Rightarrow> 0 | Some p \<Rightarrow> Suc (length p)) <
    (case sub of None \<Rightarrow> 0 | Some p \<Rightarrow> Suc (length p))"
  using assms by (auto simp: nextName_def dest: pathParse_shorter split: option.splits)

function searchLoop :: "u8 list option \<Rightarrow> u8 list \<Rightarrow> u32 \<Rightarrow> u32 \<Rightarrow> PathSearchRecord \<Rightarrow> DirEntry \<Rightarrow>
    'a kfs_scheme \<Rightarrow> (u32 \<times> PathSearchRecord \<times> 'a kfs_scheme) res" where
  "searchLoop sub nm dir parentIno record de s =
     (rbind (rd nm 0) (\<lambda>c.
     (if c = 0 then (rbind (dirClose (parentDir record) s) (\<lambda>s.
       rbind (dirOpen (curPart s) parentIno s) (\<lambda>(d, s).
       Inr (dino de, record\<lparr>parentDir := d, psFileType := FT_DIRECTORY\<rparr>, s)))) else
     rbind (strlen (searchPath record)) (\<lambda>n.
     assertC ''strlen(record->searchPath) < 512'' (n < 512) (
     rbind (strcat (searchPath record) [slash, 0]) (\<lambda>sp.
     rbind (strcat sp nm) (\<lambda>sp.
     (let record = record\<lparr>searchPath := sp\<rparr> in
     rbind (searchDirEntry (curPart s) dir nm s) (\<lambda>(r, s).
     case r of
       None \<Rightarrow> Inr (- 1, record, s)
     | Some de \<Rightarrow>
         (rbind (nextName sub) (\<lambda>(sub, nm).
         (if fileType de = FT_DIRECTORY then ((let parentIno = ino (dirInode dir s) in
           rbind (if dir \<noteq> rootDir s then dirClose dir s else Inr s) (\<lambda>s.
           rbind (dirOpen (curPart s) (dino de) s) (\<lambda>(d, s).
           searchLoop sub nm d parentIno (record\<lparr>parentDir := d\<rparr>) de s)))) else
         (if fileType de = FT_REGULAR then Inr (dino de, record\<lparr>psFileType := FT_REGULAR\<rparr>, s) else
         searchLoop sub nm dir parentIno record de s)))))))))))))"
  by pat_completeness auto
termination
proof (relation "measures [(\<lambda>(sub, nm, _). case sub of None \<Rightarrow> 0 | Some p \<Rightarrow> Suc (length p)),
     (\<lambda>(sub, nm, _). if nm ! 0 = 0 then 0 else 1)]", goal_cases)
  case 1
  then show ?case by simp
qed (auto simp: nextName_def rd_def dest: pathParse_shorter split: option.splits if_splits)

declare searchLoop.simps [simp del]

definition isRootName :: "u8 list \<Rightarrow> bool res" where
  "isRootName pathName =
     (rbind (strcmp pathName (bytes ''/'' @ [0])) (\<lambda>a.
     (if a = 0 then Inr True else
     rbind (strcmp pathName (bytes ''/.'' @ [0])) (\<lambda>b.
     (if b = 0 then Inr True else
     rbind (strcmp pathName (bytes ''/..'' @ [0])) (\<lambda>c.
     Inr (c = 0)))))))"

definition searchFile ::
  "u8 list \<Rightarrow> PathSearchRecord \<Rightarrow> 'a kfs_scheme \<Rightarrow> (u32 \<times> PathSearchRecord \<times> 'a kfs_scheme) res" where
  "searchFile pathName record s =
     (rbind (isRootName pathName) (\<lambda>r.
     (if r then rbind (wr (searchPath record) 0 0) (\<lambda>sp.
       Inr (0, record\<lparr>parentDir := rootDir s, psFileType := FT_DIRECTORY, searchPath := sp\<rparr>, s)) else
     rbind (strlen pathName) (\<lambda>pathLen.
     assertC ''pathName[0] == slash && pathLen > 0 && pathLen < MAX_PATH_LEN'' (pathName ! 0 = slash \<and> pathLen > 0 \<and> pathLen < 512) (
     rbind (pathParse pathName (replicate 16 0)) (\<lambda>(sub, nm).
     searchLoop sub nm (rootDir s) 0 (record\<lparr>parentDir := rootDir s, psFileType := FT_UNKNOWN\<rparr>)
       (decDe (junkBytes ''de'' 24 s)) s))))))"

end
