(* ===== verification/Format.thy ===== *)
theory Format
  imports Path
begin

text \<open>
  Making and mounting a file system: partitionFormat, mountPartition and fsInit of fs/fs.c.
\<close>

section \<open>Formatting\<close>

abbreviation (input) SUPER_BLOCK_MAGIC_NUM :: u32 where "SUPER_BLOCK_MAGIC_NUM \<equiv> 0x20212021"
abbreviation (input) MAX_FILE_PER_PART :: u32 where "MAX_FILE_PER_PART \<equiv> 4096"

text \<open>The super block of a partition that starts at sector \<open>start\<close> and has \<open>n\<close> sectors, with the number
  of bits of the block bitmap; \<open>rest\<close> is what the unused bytes hold.\<close>

definition formatSuper :: "u32 \<Rightarrow> u32 \<Rightarrow> u8 list \<Rightarrow> SuperBlock \<times> u32" where
  "formatSuper start n rest =
     (let bootSecCnt = 1; superBlockSecCnt = 1;
          inodeBitMapSecs = DIV_ROUND_UP MAX_FILE_PER_PART (512 * 8);
          inodeTableSecs = DIV_ROUND_UP (76 * MAX_FILE_PER_PART) 512;
          usedSecCnt = bootSecCnt + superBlockSecCnt + inodeBitMapSecs + inodeTableSecs;
          freeSecCnt = n - usedSecCnt;
          blockBitMapSecs = DIV_ROUND_UP freeSecCnt (512 * 8);
          blockBitMapBitCnt = freeSecCnt - blockBitMapSecs;
          blockBitMapSecs = DIV_ROUND_UP blockBitMapBitCnt (512 * 8);
          blockBitMapLba = start + 2;
          inodeBitMapLba = blockBitMapLba + blockBitMapSecs;
          inodeTableLba = inodeBitMapLba + inodeBitMapSecs
      in (\<lparr>magicNum = SUPER_BLOCK_MAGIC_NUM, sbSecCnt = n, inodeCnt = MAX_FILE_PER_PART, partLbaStart = start,
           blockBitMapLbaStart = blockBitMapLba, blockBitMapSecCnt = blockBitMapSecs,
           inodeBitMapLbaStart = inodeBitMapLba, inodeBitMapSecCnt = inodeBitMapSecs,
           inodeTableLbaStart = inodeTableLba, inodeTableSecCnt = inodeTableSecs,
           dataLbaStart = inodeTableLba + inodeTableSecs, rootInodeNo = 0, dirEntrySize = 24,
           emptyByte = rest\<rparr>, blockBitMapBitCnt))"

text \<open>The block bitmap in a buffer of \<open>n\<close> zero bytes: the first block, which holds the root directory, is
  in use, and so is everything from bit \<open>cnt\<close> to the end of its sector.\<close>

definition formatBlockMap :: "nat \<Rightarrow> u32 \<Rightarrow> u8 list res" where
  "formatBlockMap n cnt =
     ((let buf = replicate n 0 in
     rbind (rd buf 0) (\<lambda>b.
     (let buf = buf[0 := b OR 1] in
     (let lastByte = unat (cnt div 8) in
     (let lastBit = unat (cnt mod 8) in
     (let lastSize = 512 - lastByte mod 512 in
     (if lastByte + lastSize > length buf then Inl OutOfBounds else
     (let buf = overlay buf lastByte (replicate lastSize 0xff) in
     Inr (buf[lastByte := fold (\<lambda>i b. b AND NOT (push_bit i 1)) [0..<lastBit] (buf ! lastByte)]))))))))))"

definition rootInode :: "SuperBlock \<Rightarrow> Inode" where
  "rootInode sb = \<lparr>ino = 0, isize = dirEntrySize sb * 2, openCnt = 0, writeDeny = False,
     block = (replicate 13 0)[0 := dataLbaStart sb]\<rparr>"

definition dotEntry :: "string \<Rightarrow> u32 \<Rightarrow> DirEntry" where
  "dotEntry nm i = \<lparr>fileName = overlay (replicate 16 0) 0 (bytes nm), dino = i, fileType = FT_DIRECTORY\<rparr>"

definition partitionFormat :: "nat \<Rightarrow> 'a kfs_scheme \<Rightarrow> 'a kfs_scheme res" where
  "partitionFormat pt s =
     (let p = parts s pt; hd = pdisk p;
          (sb, blockBitMapBitCnt) = formatSuper (lbaStart p) (secCnt p) (junkBytes ''sb.emptyByte'' 460 s);
          s = logk ''info'' s in
      (rbind (ideWrite hd (lbaStart p + 1) (encSuper sb) 1 s) (\<lambda>s.
      (let bufSecs = (if blockBitMapSecCnt sb \<ge> inodeBitMapSecCnt sb then blockBitMapSecCnt sb else inodeBitMapSecCnt sb) in
      (let bufSize = unat ((if bufSecs \<ge> inodeTableSecCnt sb then bufSecs else inodeTableSecCnt sb) * 512) in
      (let (buf, s) = fsMalloc s in
      (let s = logk ''buf size'' s in
      (if buf = NULLPTR then Inl OutOfBounds else
      rbind (formatBlockMap bufSize blockBitMapBitCnt) (\<lambda>bm.
      rbind (ideWrite hd (blockBitMapLbaStart sb) bm (unat (blockBitMapSecCnt sb)) s) (\<lambda>s.
      (let zeros = replicate bufSize 0 in
      rbind (ideWrite hd (inodeBitMapLbaStart sb) (zeros[0 := 1]) (unat (inodeBitMapSecCnt sb)) s) (\<lambda>s.
      rbind (ideWrite hd (inodeTableLbaStart sb) (overlay zeros 0 (encInode (rootInode sb))) (unat (inodeTableSecCnt sb)) s) (\<lambda>s.
      rbind (ideWrite hd (dataLbaStart sb) (overlay zeros 0 (encDe (dotEntry ''.'' 0) @ encDe (dotEntry ''..'' 0))) 1 s) (\<lambda>s.
      fsFree buf (logk ''format done'' s)))))))))))))))"

section \<open>Mounting\<close>

text \<open>The bytes of a bitmap that was read into a heap buffer; the scan of a full bitmap reads on
  behind the buffer.\<close>

definition mountedMap :: "u8 list \<Rightarrow> u32 \<Rightarrow> 'a kfs_scheme \<Rightarrow> BitMap" where
  "mountedMap raw secs s = \<lparr>bm_length = secs * 512, startAddr = raw @ heapAfter s\<rparr>"

definition mountPartition :: "u8 list \<Rightarrow> nat \<Rightarrow> 'a kfs_scheme \<Rightarrow> (bool \<times> 'a kfs_scheme) res" where
  "mountPartition partName pt s =
     (rbind (strcmp (pname (parts s pt)) partName) (\<lambda>c.
     (if c \<noteq> 0 then Inr (False, s) else
     (let s = s\<lparr>curPart := pt\<rparr> in
     (let hd = pdisk (parts s pt) in
     (let (buf, s) = fsMalloc s in
     (let (sbp, s) = fsMalloc s in
     assertC ''malloc curPart->superBlock failed'' (sbp \<noteq> NULLPTR) (
     (if buf = NULLPTR then Inl OutOfBounds else
     rbind (ideRead hd (lbaStart (parts s pt) + 1) 1 s) (\<lambda>bytes.
     (let sb = decSuper bytes in
     (let s = updPart pt (\<lambda>p. p\<lparr>superBlock := sb\<rparr>) s in
     (let (bb, s) = fsMalloc s in
     assertC ''malloc curPart->blockBitMap.startAddr failed'' (bb \<noteq> NULLPTR) (
     rbind (ideRead hd (blockBitMapLbaStart sb) (unat (blockBitMapSecCnt sb)) s) (\<lambda>bytes.
     (let s = updPart pt (\<lambda>p. p\<lparr>blockBitMap := mountedMap bytes (blockBitMapSecCnt sb) s\<rparr>) s in
     (let (ib, s) = fsMalloc s in
     assertC ''malloc curPart->inodeBitMap.startAddr failed'' (ib \<noteq> NULLPTR) (
     rbind (ideRead hd (inodeBitMapLbaStart sb) (unat (inodeBitMapSecCnt sb)) s) (\<lambda>bytes.
     (let s = updPart pt (\<lambda>p. p\<lparr>inodeBitMap := mountedMap bytes (inodeBitMapSecCnt sb) s, openInodes := []\<rparr>) s in
     Inr (True, logk ''mount done'' s)))))))))))))))))))))"

text \<open>\<open>listTraversal\<close> with \<open>mountPartition\<close>: up to the first partition for which it returns true.\<close>

fun mountFirst :: "u8 list \<Rightarrow> nat list \<Rightarrow> 'a kfs_scheme \<Rightarrow> (bool \<times> 'a kfs_scheme) res" where
  "mountFirst nm [] s = Inr (False, s)"
| "mountFirst nm (pt # pts) s =
     rbind (mountPartition nm pt s) (\<lambda>(found, s). if found then Inr (True, s) else mountFirst nm pts s)"

text \<open>Both branches of the test for the magic number format the partition.\<close>

fun formatAll :: "u32 \<Rightarrow> nat list \<Rightarrow> 'a kfs_scheme \<Rightarrow> 'a kfs_scheme res" where
  "formatAll sb [] s = Inr s"
| "formatAll sb (pt # pts) s =
     (rbind (ideRead (pdisk (parts s pt)) (lbaStart (parts s pt) + 1) 1 s) (\<lambda>bytes.
     rbind (if sb = NULLPTR then Inl OutOfBounds
       else if magicNum (decSuper bytes) = SUPER_BLOCK_MAGIC_NUM then partitionFormat pt (logk ''has fileSystem'' s)
       else partitionFormat pt (logk ''format'' s)) (\<lambda>s.
     formatAll sb pts s)))"

definition fsInit :: "'a kfs_scheme \<Rightarrow> 'a kfs_scheme res" where
  "fsInit s =
     (let (sb, s) = fsMalloc s in
      (rbind (formatAll sb (partitionList s) s) (\<lambda>s.
      rbind (mountFirst (bytes ''sdb1'' @ replicate 4 0) (partitionList s) s) (\<lambda>(found, s).
      (if \<not> found then Inl OutOfBounds else
      rbind (openRootDir (curPart s) s) (\<lambda>s.
      Inr (s\<lparr>fileTable := map (\<lambda>f. f\<lparr>fdInode := NULLPTR\<rparr>) (fileTable s)\<rparr>)))))))"

end
