(* ===== verification/Fs.thy ===== *)
theory Fs
  imports Format
begin

text \<open>
  The system calls of the file system: the sys functions of fs/fs.c.
\<close>

section \<open>Files\<close>

definition fdLocalToGlobal :: "u32 \<Rightarrow> 'a kfs_scheme \<Rightarrow> nat res" where
  "fdLocalToGlobal localFd s =
     (rbind (rd (fdTable (tcb s (curThread s))) (unat localFd)) (\<lambda>globalFd.
     assertC ''globalFd >= 0 && globalFd < MAX_FILE_OPEN_ALL'' (0 \<le> sint globalFd \<and> sint globalFd < 32) (
     Inr (unat globalFd))))"

text \<open>The error exits of the calls: a message, the parent directory closed, -1.\<close>

definition giveUp :: "string \<Rightarrow> PathSearchRecord \<Rightarrow> 'a kfs_scheme \<Rightarrow> (u32 \<times> 'a kfs_scheme) res" where
  "giveUp msg record s = rbind (dirClose (parentDir record) (logk msg s)) (\<lambda>s. Inr (- 1, s))"

text \<open>\<open>strrchr(record.searchPath, '/') + 1\<close>.\<close>

definition lastName :: "PathSearchRecord \<Rightarrow> u8 list res" where
  "lastName record =
     rbind (strrchr (searchPath record) slash) (\<lambda>r.
     case r of None \<Rightarrow> Inl OutOfBounds | Some k \<Rightarrow> Inr (drop (k + 1) (searchPath record)))"

definition sysOpen :: "u8 list \<Rightarrow> u32 \<Rightarrow> 'a kfs_scheme \<Rightarrow> (u32 \<times> 'a kfs_scheme) res" where
  "sysOpen pathName flags s =
     (rbind (strlen pathName) (\<lambda>n.
     (if n = 0 then Inl OutOfBounds else
     (if pathName ! (n - 1) = slash then Inr (- 1, logk ''can't open directory with open(), use openDir() instead'' s) else
     assertC ''flags <= 7'' (flags \<le> 7) (
     rbind (pathDepthCnt pathName s) (\<lambda>pathNameDepth.
     rbind (searchFile pathName emptyRecord s) (\<lambda>(i, record, s).
     (let found = (i \<noteq> - 1) in
     (if psFileType record = FT_DIRECTORY then giveUp ''can't open directory with open(), use openDir() instead'' record s else
     rbind (pathDepthCnt (searchPath record) s) (\<lambda>pathSearchedDepth.
     (if pathNameDepth \<noteq> pathSearchedDepth then giveUp ''cannot access: Not a directory, subpath isn't exist'' record s else
     rbind (lastName record) (\<lambda>fileName.
     (if \<not> found \<and> flags AND O_CREAT = 0 then giveUp ''file isn't exist'' record s else
     (if found \<and> flags AND O_CREAT \<noteq> 0 then giveUp ''already exist!'' record s else
     rbind (if flags AND O_CREAT \<noteq> 0 then fileCreate (parentDir record) fileName flags s
       else fileOpen i flags s) (\<lambda>(fd, s).
     rbind (dirClose (parentDir record) s) (\<lambda>s.
     Inr (fd, s)))))))))))))))))"

definition sysClose :: "u32 \<Rightarrow> 'a kfs_scheme \<Rightarrow> (u32 \<times> 'a kfs_scheme) res" where
  "sysClose fd s =
     (if sint fd > 2 then
       (rbind (fdLocalToGlobal fd s) (\<lambda>globalFd.
       rbind (fileClose globalFd s) (\<lambda>(ret, s).
       Inr (ret, updTask (curThread s) (\<lambda>t. t\<lparr>fdTable := (fdTable t)[unat fd := - 1]\<rparr>) s))))
      else Inr (- 1, s))"

text \<open>Standard output goes through a buffer of 1024 bytes.\<close>

definition sysWrite :: "u32 \<Rightarrow> u8 list \<Rightarrow> u32 \<Rightarrow> 'a kfs_scheme \<Rightarrow> (u32 \<times> 'a kfs_scheme) res" where
  "sysWrite fd buf count s =
     (if sint fd < 0 then Inr (- 1, logk ''sysWrite error: fd<0'' s)
      else if fd = 1 \<or> fd = 2 then
        (assertC ''count<=1024'' (count \<le> 1024) (
        rbind (memcpy (replicate 1024 0) buf (unat count)) (\<lambda>tmpBuf.
        rbind (consolePutString tmpBuf s) (\<lambda>s.
        Inr (count, s)))))
      else
        (rbind (fdLocalToGlobal fd s) (\<lambda>globalFd.
        (if writeFlag (fdFlag (fileTable s ! globalFd)) then fileWrite globalFd buf count s else
        rbind (consolePutString (bytes ''sysWrite: not allowed to write'' @ [10, 0]) s) (\<lambda>s.
        Inr (- 1, s))))))"

text \<open>Reading \<open>n\<close> characters of the keyboard into the buffer from \<open>at\<close> on; on an empty queue the
  caller waits.\<close>

fun readKeys :: "nat \<Rightarrow> u8 list \<Rightarrow> nat \<Rightarrow> 'a kfs_scheme \<Rightarrow> (u8 list \<times> 'a kfs_scheme) res" where
  "readKeys 0 dst at s = Inr (dst, s)"
| "readKeys (Suc n) dst at s =
     (rbind (ioQueueGetChar s) (\<lambda>(c, s).
     rbind (wr dst at c) (\<lambda>dst.
     readKeys n dst (Suc at) s)))"

definition sysRead :: "u32 \<Rightarrow> u8 list \<Rightarrow> u32 \<Rightarrow> 'a kfs_scheme \<Rightarrow> (u32 \<times> u8 list \<times> 'a kfs_scheme) res" where
  "sysRead fd buf count s =
     (if sint fd < 0 \<or> fd = 1 \<or> fd = 2 then
        Inr (- 1, buf, logk ''sysRead error: fd < 0 || fd == stdout || fd == stderr'' s)
      else if fd = 0 then
        (rbind (readKeys (unat count) buf 0 s) (\<lambda>(buf, s).
        Inr (if count = 0 then - 1 else count, buf, s)))
      else
        (rbind (fdLocalToGlobal fd s) (\<lambda>globalFd.
        fileRead globalFd buf count s)))"

definition sysLseek :: "u32 \<Rightarrow> u32 \<Rightarrow> u8 \<Rightarrow> 'a kfs_scheme \<Rightarrow> (u32 \<times> 'a kfs_scheme) res" where
  "sysLseek fd offset seekFlag s =
     (if sint fd < 0 then Inr (- 1, logk ''sysLseek error: fd<0'' s)
      else
        (assertC ''seekFlag > 0 && seekFlag < 4'' (seekFlag > 0 \<and> seekFlag < 4) (
        rbind (fdLocalToGlobal fd s) (\<lambda>globalFd.
        (let f = fileTable s ! globalFd in
        deref (fdInode f)
          ((let fileSize = isize (inodes s (fdInode f)) in
          (let newPos = (if seekFlag = 1 then offset else if seekFlag = 2 then fdPos f + offset else fileSize + offset) in
          (if sint newPos < 0 \<or> sint newPos > sint (fileSize - 1) then Inr (- 1, s) else
          Inr (newPos, updFile globalFd (\<lambda>f. f\<lparr>fdPos := newPos\<rparr>) s))))))))))"

definition sysUnlink :: "u8 list \<Rightarrow> 'a kfs_scheme \<Rightarrow> (u32 \<times> 'a kfs_scheme) res" where
  "sysUnlink pathName s =
     (rbind (strlen pathName) (\<lambda>n.
     assertC ''strlen(pathName) < MAX_PATH_LEN'' (n < 512) (
     rbind (searchFile pathName emptyRecord s) (\<lambda>(i, record, s).
     assertC ''ino != 0'' (i \<noteq> 0) (
     (if i = - 1 then giveUp ''file not found!'' record s else
     (if psFileType record = FT_DIRECTORY then giveUp ''can't delete a directory with unlink(), use rmdir() instead'' record s else
     (if list_ex (\<lambda>f. fdInode f \<noteq> NULLPTR \<and> ino (inodes s (fdInode f)) = i) (fileTable s) then giveUp ''file is in use, not allowed to delete'' record s else
     (let (ioBuf, s) = fsMalloc s in
     (if ioBuf = NULLPTR then giveUp ''sysUnlink: ioBuf = sysMalloc(2 * SECTOR_BYTE_SIZE) failed'' record s else
     rbind (deleteDirEntry (curPart s) (parentDir record) i s) (\<lambda>(ok, s).
     rbind (inodeRelease (curPart s) i s) (\<lambda>s.
     rbind (fsFree ioBuf s) (\<lambda>s.
     rbind (dirClose (parentDir record) s) (\<lambda>s.
     Inr (0, s)))))))))))))))"

section \<open>Directories\<close>

text \<open>The \<open>rollback\<close> label of \<open>sysMkdir\<close>.\<close>

definition mkdirRollback :: "nat \<Rightarrow> u32 \<Rightarrow> PathSearchRecord \<Rightarrow> u32 \<Rightarrow> 'a kfs_scheme \<Rightarrow> (u32 \<times> 'a kfs_scheme) res" where
  "mkdirRollback step i record ioBuf s =
     (rbind (if step = 2 then clearBit INODE_BITMAP (curPart s) i s else dirClose (parentDir record) s) (\<lambda>s.
     rbind (fsFree ioBuf s) (\<lambda>s.
     Inr (- 1, s))))"

text \<open>What \<open>sysMkdir\<close> does once the name is known to be new: an inode and a block for the directory,
  its two entries, and the entry in the parent.\<close>

definition makeDir :: "u8 list \<Rightarrow> PathSearchRecord \<Rightarrow> u32 \<Rightarrow> 'a kfs_scheme \<Rightarrow> (u32 \<times> 'a kfs_scheme) res" where
  "makeDir dirName record ioBuf s =
     (rbind (inodeBitMapAlloc (curPart s) s) (\<lambda>(i, s).
     (if i = - 1 then mkdirRollback 1 i record ioBuf (logk ''sysMkdir: ino = inodeBitMapAlloc(curPart) failed'' s) else
     (let newDirInode = inodeInit i in
     rbind (blockBitMapAlloc (curPart s) s) (\<lambda>(lba, s).
     (if lba = - 1 then mkdirRollback 2 i record ioBuf (logk ''sysMkdir: blockLba = blockBitMapAlloc(curPart) failed'' s) else
     (let newDirInode = newDirInode\<lparr>block := (block newDirInode)[0 := lba]\<rparr> in
     (let idx = blockLbaToBitMapIdx lba s in
     assertC ''blockBitMapIdx != 0'' (idx \<noteq> 0) (
     rbind (bitMapSync (curPart s) idx BLOCK_BITMAP s) (\<lambda>s.
     (let dots = encDe (dotEntry ''.'' i) @ encDe (dotEntry ''..'' (ino (dirInode (parentDir record) s))) in
     rbind (ideWrite (curhd s) lba (overlay (replicate 1024 0) 0 dots) 1 s) (\<lambda>s.
     (let newDirInode = newDirInode\<lparr>isize := 2 * dirEntrySize (cursb s)\<rparr> in
     rbind (createDirEntry dirName i FT_DIRECTORY zeroDe) (\<lambda>newDirEntry.
     rbind (syncDirEntry (parentDir record) newDirEntry s) (\<lambda>(ok, s).
     (if \<not> ok then mkdirRollback 2 i record ioBuf (logk ''sysMkdir: syncDirEntry(parentDir, &newDirEntry, ioBuf) failed'' s) else
     rbind (inodeSync (curPart s) (dirInode (parentDir record) s) s) (\<lambda>s.
     rbind (inodeSync (curPart s) newDirInode s) (\<lambda>s.
     rbind (bitMapSync (curPart s) i INODE_BITMAP s) (\<lambda>s.
     rbind (fsFree ioBuf s) (\<lambda>s.
     rbind (dirClose (parentDir record) s) (\<lambda>s.
     Inr (0, s))))))))))))))))))))))"

definition sysMkdir :: "u8 list \<Rightarrow> 'a kfs_scheme \<Rightarrow> (u32 \<times> 'a kfs_scheme) res" where
  "sysMkdir pathName s =
     ((let (ioBuf, s) = fsMalloc s in
     (if ioBuf = NULLPTR then Inr (- 1, logk ''sysMkdir: ioBuf = sysMalloc(SECTOR_BYTE_SIZE * 2) failed'' s) else
     rbind (searchFile pathName emptyRecord s) (\<lambda>(i, record, s).
     assertC ''ino != 0'' (i \<noteq> 0) (
     (if i \<noteq> - 1 then mkdirRollback 1 i record ioBuf (logk ''sysMkdir: file or directory already exist!'' s) else
     rbind (pathDepthCnt pathName s) (\<lambda>pathNameDepth.
     rbind (pathDepthCnt (searchPath record) s) (\<lambda>pathSearchedDepth.
     (if pathNameDepth \<noteq> pathSearchedDepth then mkdirRollback 1 i record ioBuf (logk ''sysMkdir: can't make, subpath isn't exist!'' s) else
     rbind (lastName record) (\<lambda>dirName.
     makeDir dirName record ioBuf s))))))))))"

text \<open>\<open>sysOpenDir\<close> takes every path that starts with \<open>/.\<close> for the root directory. The path is read as
  far as its second byte.\<close>

definition sysOpenDir :: "u8 list \<Rightarrow> 'a kfs_scheme \<Rightarrow> (u32 \<times> 'a kfs_scheme) res" where
  "sysOpenDir pathName s =
     (rbind (strlen pathName) (\<lambda>n.
     assertC ''strlen(pathName) <= MAX_PATH_LEN'' (n \<le> 512) (
     (if pathName ! 0 = slash \<and> (pathName ! 1 = 0 \<or> pathName ! 1 = 46) then Inr (rootDir s, s) else
     rbind (searchFile pathName emptyRecord s) (\<lambda>(i, record, s).
     (if i \<noteq> - 1 \<and> psFileType record = FT_DIRECTORY then dirOpen (curPart s) i s else
     Inr (NULLPTR, s)))))))"

definition sysCloseDir :: "u32 \<Rightarrow> 'a kfs_scheme \<Rightarrow> (u32 \<times> 'a kfs_scheme) res" where
  "sysCloseDir d s = (if d \<noteq> NULLPTR then rbind (dirClose d s) (\<lambda>s. Inr (0, s)) else Inr (- 1, s))"

definition sysReadDir :: "u32 \<Rightarrow> 'a kfs_scheme \<Rightarrow> (DirEntry option \<times> 'a kfs_scheme) res" where
  "sysReadDir d s = assertC ''dir != NULL'' (d \<noteq> NULLPTR) (dirRead d s)"

definition sysRewindDir :: "u32 \<Rightarrow> 'a kfs_scheme \<Rightarrow> 'a kfs_scheme res" where
  "sysRewindDir d s = assertC ''dir != NULL'' (d \<noteq> NULLPTR) (Inr (updDir d (\<lambda>x. x\<lparr>dirPos := 0\<rparr>) s))"

definition sysRmdir :: "u8 list \<Rightarrow> 'a kfs_scheme \<Rightarrow> (u32 \<times> 'a kfs_scheme) res" where
  "sysRmdir pathName s =
     (rbind (searchFile pathName emptyRecord s) (\<lambda>(i, record, s).
     rbind (if i = - 1 then Inr (- 1, logk ''sysRmdir: directory isn't existing'' s)
       else if i = 0 then Inr (- 1, logk ''sysRmdir: can't delete root directory'' s)
       else
         (rbind (dirOpen (curPart s) i s) (\<lambda>(d, s).
         rbind (if \<not> dirIsEmpty d s then Inr (- 1, logk ''sysRmdir: can't remove directory, isn't empty'' s)
           else rbind (dirRemove (parentDir record) d s) (\<lambda>(r, s). Inr (if r = 0 then 0 else - 1, s))) (\<lambda>(ret, s).
         rbind (dirClose d s) (\<lambda>s.
         Inr (ret, s)))))) (\<lambda>(ret, s).
     rbind (dirClose (parentDir record) s) (\<lambda>s.
     Inr (ret, s)))))"

section \<open>The working directory\<close>

definition getParentDirIno :: "u32 \<Rightarrow> 'a kfs_scheme \<Rightarrow> (u32 \<times> u8 list \<times> 'a kfs_scheme) res" where
  "getParentDirIno childIno s =
     (rbind (inodeOpen (curPart s) childIno s) (\<lambda>(p, s).
     (let blockLba = block (inodes s p) ! 0 in
     assertC ''blockLba >= curPart->superBlock->dataLbaStart'' (blockLba \<ge> dataLbaStart (cursb s)) (
     rbind (inodeClose p s) (\<lambda>s.
     rbind (ideRead (curhd s) blockLba 1 s) (\<lambda>ioBuf.
     (let de = deAt ioBuf 1 in
     assertC ''de[1].ino < 4096 && de[1].fileType == FT_DIRECTORY'' (dino de < 4096 \<and> fileType de = FT_DIRECTORY) (
     Inr (dino de, ioBuf, s)))))))))"

text \<open>The search for an entry with the inode number, \<open>n\<close> entries from the \<open>k\<close>th on.\<close>

definition findIno :: "u8 list \<Rightarrow> u32 \<Rightarrow> nat \<Rightarrow> nat option" where
  "findIno ioBuf childIno n = find (\<lambda>k. dino (deAt ioBuf k) = childIno) [0..<n]"

fun childNameLoop :: "u32 list \<Rightarrow> u32 \<Rightarrow> u8 list \<Rightarrow> 'a kfs_scheme \<Rightarrow> u8 list option res" where
  "childNameLoop [] childIno path s = Inr None"
| "childNameLoop (b # bs) childIno path s =
     (if b = 0 then childNameLoop bs childIno path s
      else
        (rbind (ideRead (curhd s) b 1 s) (\<lambda>ioBuf.
        case findIno ioBuf childIno (512 div entrySize s) of
          None \<Rightarrow> childNameLoop bs childIno path s
        | Some k \<Rightarrow>
            (rbind (strcat path [slash, 0]) (\<lambda>path.
            rbind (strcat path (drop (24 * k) ioBuf)) (\<lambda>path.
            Inr (Some path)))))))"

text \<open>The result is the extended path, or None for -1.\<close>

definition getChildDirName :: "u32 \<Rightarrow> u32 \<Rightarrow> u8 list \<Rightarrow> 'a kfs_scheme \<Rightarrow> (u8 list option \<times> 'a kfs_scheme) res" where
  "getChildDirName parentIno childIno path s =
     (rbind (inodeOpen (curPart s) parentIno s) (\<lambda>(p, s).
     (let (allBlocks, s) = fsMalloc s in
     (if allBlocks = NULLPTR then Inr (None, logk ''getChildDirName: allBlocks = (uint32*) sysMalloc(560); failed'' s) else
     rbind (loadBlocks (curPart s) (inodes s p) s) (\<lambda>blocks.
     (let blockCnt = (if block (inodes s p) ! 12 \<noteq> 0 then 140 else 12) in
     rbind (inodeClose p s) (\<lambda>s.
     rbind (childNameLoop (take blockCnt blocks) childIno path s) (\<lambda>r.
     rbind (fsFree allBlocks s) (\<lambda>s.
     Inr (r, s))))))))))"

text \<open>The climb to the root. Every round makes the path longer, so it ends: the path's buffer of 512
  bytes runs out if the parents form a cycle.\<close>

definition roomLeft :: "u8 list \<Rightarrow> nat" where
  "roomLeft path = length path - length (cstr path)"

lemma strcat_inv:
  "strcat dst src = Inr d \<Longrightarrow> is_cstr dst \<and> is_cstr src \<and> length (cstr dst) + length (cstr src) < length dst"
proof (induction dst src arbitrary: d rule: strcat.induct)
  case (2 x dst src)
  show ?case
  proof (cases "x = 0")
    case True
    then show ?thesis using 2 strcpy_out [of src "x # dst"] by fastforce
  next
    case False
    then show ?thesis using 2 by (auto simp: rbind_eq_Inr)
  qed
qed simp

lemma strcat_room:
  assumes "strcat path src = Inr path'"
  shows "roomLeft path' + length (cstr src) = roomLeft path" "is_cstr path" "is_cstr src"
  using strcat_inv [OF assms] assms strcat_ok [of path src] cstr_append_0 [of "cstr path @ cstr src"]
  by (auto simp: roomLeft_def cstr_nonzero)

lemma childNameLoop_room:
  "childNameLoop bs i path s = Inr (Some path') \<Longrightarrow> roomLeft path' < roomLeft path"
proof (induction bs i path s rule: childNameLoop.induct)
  case (2 b bs childIno path s)
  have one: "roomLeft q < roomLeft path"
    if "strcat path [slash, 0] = Inr p" "strcat p src = Inr q" for p q src
    using strcat_room(1) [OF that(1)] strcat_room(1) [OF that(2)] by (simp add: slash_def)
  show ?case
    using 2 by (auto simp: rbind_eq_Inr split: if_splits option.split_asm dest: one)
qed simp

lemma getChildDirName_room:
  "getChildDirName q i path s = Inr (Some path', s') \<Longrightarrow> roomLeft path' < roomLeft path"
  by (auto simp: getChildDirName_def Let_def rbind_eq_Inr case_prod_beta split: if_split_asm
      dest: childNameLoop_room)

function climb :: "u32 \<Rightarrow> u8 list \<Rightarrow> 'a kfs_scheme \<Rightarrow> (u8 list option \<times> 'a kfs_scheme) res" where
  "climb childIno path s =
     (if childIno = 0 then Inr (Some path, s)
      else
        (rbind (getParentDirIno childIno s) (\<lambda>(parentIno, ioBuf, s).
        rbind (getChildDirName parentIno childIno path s) (\<lambda>(r, s).
        case r of None \<Rightarrow> Inr (None, s) | Some path \<Rightarrow> climb parentIno path s))))"
  by pat_completeness auto
termination
  by (relation "measure (\<lambda>(_, path, _). roomLeft path)") (auto dest: getChildDirName_room)

declare climb.simps [simp del]

lemma strrchrLoop_bound:
  "strrchrLoop m c pos lc = Inr (Some k) \<Longrightarrow> lc = Some k \<or> pos \<le> k \<and> k - pos < length (cstr m)"
proof (induction m c pos lc rule: strrchrLoop.induct)
  case (2 x str c pos lc)
  then show ?case by (cases "x = 0") (auto split: if_splits)
qed simp

lemma cstr_cut: "k < length m \<Longrightarrow> length (cstr (m[k := 0])) \<le> k"
proof (induction m arbitrary: k)
  case (Cons c m)
  show ?case
  proof (cases k)
    case (Suc j)
    then show ?thesis using Cons by (cases "c = 0") auto
  qed simp
qed simp

lemma strrchr_cut:
  assumes "strrchr m c = Inr (Some k)"
  shows "length (cstr (m[k := 0])) < length (cstr m)"
proof -
  have k: "k < length (cstr m)" using assms strrchrLoop_bound by (fastforce simp: strrchr_def)
  then have "k < length m" by (metis cstr_def length_takeWhile_le order_less_le_trans)
  with cstr_cut [of k m] k show ?thesis by simp
qed

text \<open>The reversal: the components are taken off the end of the collected path and appended to the
  caller's buffer.\<close>

function revLoop :: "u8 list \<Rightarrow> u8 list \<Rightarrow> u8 list res" where
  "revLoop path buf =
     (rbind (strrchr path slash) (\<lambda>r.
     case r of
       None \<Rightarrow> Inr buf
     | Some k \<Rightarrow>
         (rbind (strlen buf) (\<lambda>len.
         rbind (strcpy (drop (len mod 65536) buf) (drop k path)) (\<lambda>d.
         revLoop (path[k := 0]) (take (len mod 65536) buf @ d))))))"
  by pat_completeness auto
termination
proof (relation "measure (\<lambda>(path, _). length (cstr path))", goal_cases)
  case 1
  then show ?case by simp
next
  case (2 path buf r k len d)
  then show ?case by (simp add: strrchr_cut)
qed

declare revLoop.simps [simp del]

definition sysGetCwd :: "u8 list \<Rightarrow> u32 \<Rightarrow> 'a kfs_scheme \<Rightarrow> (bool \<times> u8 list \<times> 'a kfs_scheme) res" where
  "sysGetCwd buf bufSize s =
     ((let (ioBuf, s) = fsMalloc s in
     (if ioBuf = NULLPTR then Inr (False, buf, s) else
     (let childIno = cwdIno (tcb s (curThread s)) in
     assertC ''childIno >= 0 && childIno < 4096'' (0 \<le> sint childIno \<and> sint childIno < 4096) (
     (if childIno = 0 then rbind (memcpy buf [slash, 0] 2) (\<lambda>buf. Inr (True, buf, s)) else
     rbind (climb childIno (replicate 512 0) s) (\<lambda>(r, s).
     case r of
       None \<Rightarrow> rbind (fsFree ioBuf s) (\<lambda>s. Inr (False, buf, s))
     | Some path \<Rightarrow>
         (rbind (memset buf 0 (unat bufSize)) (\<lambda>buf.
         rbind (strlen path) (\<lambda>n.
         assertC ''strlen(filePathReverse) <= size'' (n \<le> unat bufSize) (
         rbind (revLoop path buf) (\<lambda>buf.
         rbind (fsFree ioBuf s) (\<lambda>s.
         Inr (True, buf, s))))))))))))))"

definition sysChDir :: "u8 list \<Rightarrow> 'a kfs_scheme \<Rightarrow> (u32 \<times> 'a kfs_scheme) res" where
  "sysChDir pathName s =
     (rbind (searchFile pathName emptyRecord s) (\<lambda>(i, record, s).
     (let (ret, s) = (if i \<noteq> - 1 then
         (if psFileType record = FT_DIRECTORY then (0, updTask (curThread s) (\<lambda>t. t\<lparr>cwdIno := i\<rparr>) s)
          else (- 1, logk ''sysChDir: is a file, not directory'' s))
       else (- 1, s)) in
     rbind (dirClose (parentDir record) s) (\<lambda>s.
     Inr (ret, s)))))"

record Stat =
  stIno :: u32
  stSize :: u32
  stFileType :: u32

definition sysStat :: "u8 list \<Rightarrow> Stat \<Rightarrow> 'a kfs_scheme \<Rightarrow> (u32 \<times> Stat \<times> 'a kfs_scheme) res" where
  "sysStat path stat s =
     (rbind (isRootName path) (\<lambda>r.
     (if r then Inr (0, stat\<lparr>stFileType := FT_DIRECTORY, stIno := 0, stSize := isize (dirInode (rootDir s) s)\<rparr>, s) else
     rbind (searchFile path emptyRecord s) (\<lambda>(i, record, s).
     rbind (if i \<noteq> - 1 then
         (rbind (inodeOpen (curPart s) i s) (\<lambda>(p, s).
         (let stat = stat\<lparr>stSize := isize (inodes s p)\<rparr> in
         rbind (inodeClose p s) (\<lambda>s.
         Inr (0, stat\<lparr>stFileType := psFileType record, stIno := i\<rparr>, s)))))
       else Inr (- 1, stat, s)) (\<lambda>(ret, stat, s).
     rbind (dirClose (parentDir record) s) (\<lambda>s.
     Inr (ret, stat, s)))))))"

end
