(* ===== verification/Shell.thy ===== *)
theory Shell
  imports Fs
begin

text \<open>
  The command line: shell/shell.c and shell/buildin_cmd.c. A built-in command gets the line and the
  offsets of its words in it, as \<open>argv\<close> points into \<open>cmdLine\<close>; a system call is the kernel function it
  reaches (theory Syscall). The characters that \<open>read\<close> of standard input returns are an input; when
  they end the shell waits (\<open>Blocks\<close>).
\<close>

section \<open>Output\<close>

definition sysPutChar :: "u8 \<Rightarrow> 'a kfs_scheme \<Rightarrow> 'a kfs_scheme" where
  "sysPutChar c s = s\<lparr>screen := screen s @ [c]\<rparr>"

definition sysClear :: "'a kfs_scheme \<Rightarrow> 'a kfs_scheme" where
  "sysClear s = s\<lparr>screen := []\<rparr>"

text \<open>\<open>printf\<close> of lib/user/stdio.c with its \<open>write\<close>.\<close>

definition uprintf :: "u8 list \<Rightarrow> va_arg list \<Rightarrow> 'a kfs_scheme \<Rightarrow> 'a kfs_scheme res" where
  "uprintf fmt args s =
     (rbind (printf fmt args) (\<lambda>text.
     rbind (sysWrite 1 (text @ [0]) (of_nat (length text)) s) (\<lambda>(r, s).
     Inr s)))"

abbreviation fmt :: "string \<Rightarrow> u8 list" where "fmt str \<equiv> bytes str @ [0]"
abbreviation fmtln :: "string \<Rightarrow> u8 list" where "fmtln str \<equiv> bytes str @ [10, 0]"

abbreviation (input) MAX_PATH_LEN :: nat where "MAX_PATH_LEN \<equiv> 512"

section \<open>The path of an argument (shell/buildin_cmd.c)\<close>

text \<open>The loop of \<open>washPath\<close> over the names of the path; only the first 16 bytes of \<open>nm\<close> are cleared between them.\<close>

function washLoop :: "u8 list option \<Rightarrow> u8 list \<Rightarrow> u8 list \<Rightarrow> u8 list res" where
  "washLoop sub nm new =
     (rbind (rd nm 0) (\<lambda>c.
     (if c = 0 then Inr new else
     rbind (strcmp (fmt ''..'') nm) (\<lambda>up.
     rbind (strcmp (fmt ''.'') nm) (\<lambda>dot.
     rbind (if up = 0 then
         (rbind (strrchr new slash) (\<lambda>r.
         case r of None \<Rightarrow> Inl OutOfBounds
         | Some k \<Rightarrow> if k \<noteq> 0 then wr new k 0 else wr new (k + 1) 0))
       else if dot \<noteq> 0 then
         (rbind (strcmp new (fmt ''/'')) (\<lambda>root.
         rbind (if root \<noteq> 0 then strcat new (fmt ''/'') else Inr new) (\<lambda>new.
         strcat new nm)))
       else Inr new) (\<lambda>new.
     rbind (memset nm 0 16) (\<lambda>nm.
     case sub of
       None \<Rightarrow> washLoop None nm new
     | Some p \<Rightarrow> rbind (pathParse p nm) (\<lambda>(sub, nm). washLoop sub nm new))))))))"
  by pat_completeness auto
termination
proof (relation "measures [(\<lambda>(sub, nm, _). case sub of None \<Rightarrow> 0 | Some p \<Rightarrow> Suc (length p)),
     (\<lambda>(sub, nm, _). if nm ! 0 = 0 then 0 else 1)]", goal_cases)
  case 1
  then show ?case by simp
next
  case (2 sub nm new c up dot new' nm')
  then have "nm' ! 0 = 0" by (cases nm) (auto simp: numeral_eq_Suc rbind_eq_Inr rd_def split: if_splits)
  then show ?case using 2 by (auto simp: rd_def split: if_splits)
next
  case (3 sub nm new c up dot new' nm' p z sub' nm'')
  then show ?case by (auto dest: pathParse_shorter split: option.splits)
qed

declare washLoop.simps [simp del]

definition washPath :: "u8 list \<Rightarrow> u8 list \<Rightarrow> 'a kfs_scheme \<Rightarrow> (u8 list \<times> 'a kfs_scheme) res" where
  "washPath oldAbsPath newAbsPath s =
     (rbind (rd oldAbsPath 0) (\<lambda>c.
     (if c \<noteq> slash then rbind (uprintf (fmtln ''failed to washPath'') [] s) (\<lambda>s. Inr (newAbsPath, s)) else
     rbind (pathParse oldAbsPath (replicate MAX_PATH_LEN 0)) (\<lambda>(sub, nm).
     rbind (rd nm 0) (\<lambda>c.
     (if c = 0 then rbind (memcpy newAbsPath [slash, 0] 2) (\<lambda>new. Inr (new, s)) else
     rbind (wr newAbsPath 0 0) (\<lambda>new.
     rbind (strcat new (fmt ''/'')) (\<lambda>new.
     rbind (washLoop sub nm new) (\<lambda>new.
     Inr (new, s))))))))))"

definition makeClearAbsPath :: "u8 list \<Rightarrow> u8 list \<Rightarrow> 'a kfs_scheme \<Rightarrow> (u8 list \<times> 'a kfs_scheme) res" where
  "makeClearAbsPath path finalPath s =
     (rbind (rd path 0) (\<lambda>c.
     rbind (if c \<noteq> slash then
         (rbind (sysGetCwd (replicate MAX_PATH_LEN 0) 512 s) (\<lambda>(ok, absPath, s).
         rbind (if ok \<and> \<not> (absPath ! 0 = slash \<and> absPath ! 1 = 0) then strcat absPath (fmt ''/'') else Inr absPath) (\<lambda>absPath.
         Inr (absPath, s))))
       else Inr (replicate MAX_PATH_LEN 0, s)) (\<lambda>(absPath, s).
     rbind (strcat absPath path) (\<lambda>absPath.
     washPath absPath finalPath s))))"

section \<open>Words of the line (shell/shell.c)\<close>

abbreviation (input) MAX_ARG_NUM :: nat where "MAX_ARG_NUM \<equiv> 16"

definition skipWhile :: "(u8 \<Rightarrow> bool) \<Rightarrow> u8 list \<Rightarrow> nat \<Rightarrow> nat" where
  "skipWhile p cmd next = next + length (takeWhile p (drop next cmd))"

lemma skipWhile_le: "nxt \<le> skipWhile p cmd nxt"
  by (simp add: skipWhile_def)

lemma skipWhile_stop: "skipWhile p cmd nxt < length cmd \<Longrightarrow> \<not> p (cmd ! skipWhile p cmd nxt)"
  using nth_length_takeWhile [of p "drop nxt cmd"] by (simp add: skipWhile_def less_diff_conv2 nth_drop)

lemma skipWhile_less: "nxt < length cmd \<Longrightarrow> p (cmd ! nxt) \<Longrightarrow> nxt < skipWhile p cmd nxt"
  by (simp add: skipWhile_def Cons_nth_drop_Suc [symmetric])

text \<open>The loop of \<open>cmdParse\<close>. The number of words is checked after the word has been stored.\<close>

function parseLoop :: "u8 \<Rightarrow> u8 list \<Rightarrow> nat \<Rightarrow> nat option list \<Rightarrow> nat \<Rightarrow> (int \<times> u8 list \<times> nat option list) res" where
  "parseLoop tok cmd nxt argv argc =
     (rbind (rd cmd nxt) (\<lambda>c.
     (if c = 0 then Inr (int argc, cmd, argv) else
     (let nxt = skipWhile (\<lambda>c. c = tok) cmd nxt in
     rbind (rd cmd nxt) (\<lambda>c.
     (if c = 0 then Inr (int argc, cmd, argv) else
     rbind (wr argv argc (Some nxt)) (\<lambda>argv.
     (let stop = skipWhile (\<lambda>c. c \<noteq> 0 \<and> c \<noteq> tok) cmd nxt in
     rbind (rd cmd stop) (\<lambda>c.
     (let (cmd, nxt) = (if c \<noteq> 0 then (cmd[stop := 0], stop + 1) else (cmd, stop)) in
     (if argc > MAX_ARG_NUM then Inr (- 1, cmd, argv) else
     parseLoop tok cmd nxt argv (argc + 1))))))))))))"
  by pat_completeness auto
termination
proof (relation "measure (\<lambda>(tok, cmd, nxt, argv, argc). length cmd - nxt)", goal_cases)
  case 1
  then show ?case by simp
next
  case (2 tok cmd nxt argv argc c1 start c2 argv' stop c3 r cmd' nxt')
  then have start: "start < length cmd" "cmd ! start \<noteq> 0" by (auto simp: rd_def split: if_splits)
  then have "cmd ! start \<noteq> tok" using skipWhile_stop [of "\<lambda>c. c = tok" cmd nxt] 2 by simp
  then have "start < stop" using skipWhile_less [of start cmd] start 2 by simp
  moreover have "nxt \<le> start" using skipWhile_le 2 by simp
  ultimately have "nxt < nxt'" "length cmd' = length cmd" using 2 by (auto split: if_splits)
  then show ?case using start(1) \<open>nxt \<le> start\<close> by simp
qed

declare parseLoop.simps [simp del]

definition cmdParse :: "u8 list \<Rightarrow> u8 \<Rightarrow> (int \<times> u8 list \<times> nat option list) res" where
  "cmdParse cmdStr tok = parseLoop tok cmdStr 0 (replicate MAX_ARG_NUM None) 0"

text \<open>The word \<open>argv[k]\<close>; a null pointer is not followed.\<close>

definition argStr :: "u8 list \<Rightarrow> nat option list \<Rightarrow> nat \<Rightarrow> u8 list res" where
  "argStr cmd argv k = rbind (rd argv k) (\<lambda>a. case a of None \<Rightarrow> Inl OutOfBounds | Some off \<Rightarrow> Inr (drop off cmd))"

section \<open>Reading a line\<close>

definition printPrompt :: "u8 list \<Rightarrow> 'a kfs_scheme \<Rightarrow> (u8 list \<times> 'a kfs_scheme) res" where
  "printPrompt cwdCache s =
     (rbind (sysGetCwd cwdCache 512 s) (\<lambda>(ok, cwdCache, s).
     rbind (uprintf (fmt ''[pyro %s]$ '') [VStr cwdCache] s) (\<lambda>s.
     Inr (cwdCache, s))))"

text \<open>Ctrl-U: one backspace for every character before \<open>pos\<close>.\<close>

fun eraseLoop :: "u8 list \<Rightarrow> nat \<Rightarrow> 'a kfs_scheme \<Rightarrow> u8 list \<times> 'a kfs_scheme" where
  "eraseLoop buf 0 s = (buf, s)"
| "eraseLoop buf (Suc p) s = eraseLoop (buf[Suc p := 0]) p (sysPutChar 8 s)"

text \<open>The loop of \<open>readLine\<close>. A character is stored before the room is checked. The result has the buffer,
  the cached path and the characters that are left.\<close>

fun lineLoop :: "nat \<Rightarrow> u8 list \<Rightarrow> nat \<Rightarrow> u8 list \<Rightarrow> u8 list \<Rightarrow> 'a kfs_scheme \<Rightarrow>
    (u8 list \<times> u8 list \<times> u8 list \<times> 'a kfs_scheme) res" where
  "lineLoop count buf pos cwd [] s = Inl Blocks"
| "lineLoop count buf pos cwd (c # keys) s =
     (rbind (wr buf pos c) (\<lambda>buf.
     if \<not> pos < count then
       (rbind (uprintf (fmt ''readline:shell input out of length'') [] s) (\<lambda>s. Inr (buf, cwd, keys, s)))
     else if c = 10 \<or> c = 13 then Inr (buf[pos := 0], cwd, keys, sysPutChar 10 s)
     else if c = 8 then
       (if buf ! 0 \<noteq> 8 then lineLoop count buf (pos - 1) cwd keys (sysPutChar 8 s) else lineLoop count buf pos cwd keys s)
     else if c = 11 then
       ((let buf = buf[pos := 0] in
       rbind (printPrompt cwd (sysClear s)) (\<lambda>(cwd, s).
       rbind (uprintf (fmt ''%s'') [VStr buf] s) (\<lambda>s.
       lineLoop count buf pos cwd keys s))))
     else if c = 20 then (let (buf, s) = eraseLoop buf pos s in lineLoop count buf 0 cwd keys s)
     else lineLoop count buf (pos + 1) cwd keys (sysPutChar c s)))"

definition readLine :: "u8 list \<Rightarrow> nat \<Rightarrow> u8 list \<Rightarrow> u8 list \<Rightarrow> 'a kfs_scheme \<Rightarrow>
    (u8 list \<times> u8 list \<times> u8 list \<times> 'a kfs_scheme) res" where
  "readLine buf count cwd keys s =
     (if \<not> count > 0 then
        (rbind (uprintf (fmtln ''failed to readline'') [] s) (\<lambda>s. Inr (buf, cwd, keys, s)))
      else lineLoop count buf 0 cwd keys s)"

section \<open>Built-in commands (shell/buildin_cmd.c)\<close>

abbreviation (input) pathBuf :: "u8 list" where "pathBuf \<equiv> replicate 512 0"

text \<open>The absolute path of the word \<open>argv[1]\<close>.\<close>

definition argPath :: "u8 list \<Rightarrow> nat option list \<Rightarrow> 'a kfs_scheme \<Rightarrow> (u8 list \<times> 'a kfs_scheme) res" where
  "argPath cmd argv s = rbind (argStr cmd argv 1) (\<lambda>a. makeClearAbsPath a pathBuf s)"

definition buildinPwd :: "int \<Rightarrow> 'a kfs_scheme \<Rightarrow> 'a kfs_scheme res" where
  "buildinPwd argc s =
     (if argc \<noteq> 1 then uprintf (fmtln ''pwd: no argument support'') [] s
      else
        (rbind (sysGetCwd pathBuf 512 s) (\<lambda>(ok, finalPath, s).
        if ok then uprintf (fmtln ''%s'') [VStr finalPath] s
        else uprintf (fmtln ''pwd: get current work directory failed'') [] s)))"

definition buildinCd :: "int \<Rightarrow> u8 list \<Rightarrow> nat option list \<Rightarrow> 'a kfs_scheme \<Rightarrow> (int \<times> 'a kfs_scheme) res" where
  "buildinCd argc cmd argv s =
     (if argc > 2 then rbind (uprintf (fmtln ''cd: only support 1 argument!'') [] s) (\<lambda>s. Inr (- 1, s))
      else
        (rbind (if argc = 1 then Inr (pathBuf[0 := slash, 1 := 0], s) else argPath cmd argv s) (\<lambda>(finalPath, s).
        rbind (sysChDir finalPath s) (\<lambda>(r, s).
        if r = - 1 then rbind (uprintf (fmtln ''cd: no such directory %s'') [VStr finalPath] s) (\<lambda>s. Inr (- 1, s))
        else Inr (0, s)))))"

text \<open>One line of \<open>ls\<close>. The buffer of 16 bytes is followed on the stack by what \<open>stackJunk\<close> holds, as
  \<open>sprintf\<close> measures the text it has made with \<open>strlen\<close>.\<close>

definition sprintStack :: "u8 list \<Rightarrow> u8 list \<Rightarrow> va_arg list \<Rightarrow> 'a kfs_scheme \<Rightarrow> u8 list res" where
  "sprintStack buf format args s = rbind (sprintf (buf @ junkBytes ''buf'' 512 s) format args) (\<lambda>b. Inr (take (length buf) b))"

definition lsEntry :: "u8 list \<Rightarrow> DirEntry \<Rightarrow> 'a kfs_scheme \<Rightarrow> 'a kfs_scheme res" where
  "lsEntry dirPath de s =
     (rbind (sprintStack (replicate 11 32 @ replicate 5 0) (fmt ''%d'') [VInt (dino de)] s) (\<lambda>buf.
     rbind (sysWrite 1 buf 11 s) (\<lambda>(r, s).
     rbind (if fileType de = FT_UNKNOWN then sysWrite 1 (fmt ''UNKNOWN     '') 13 s
       else if fileType de = FT_DIRECTORY then sysWrite 1 (fmt ''DIRECTORY   '') 13 s
       else if fileType de = FT_REGULAR then sysWrite 1 (fmt ''FILE        '') 13 s else Inr (0, s)) (\<lambda>(r, s).
     rbind (sprintStack (replicate 16 32) (fmt ''%s'') [VStr (fileName de @ le32 (dino de) @ le32 (fileType de))] s) (\<lambda>buf.
     rbind (sysWrite 1 (map (\<lambda>c. if c = 0 then 32 else c) buf) 16 s) (\<lambda>(r, s).
     rbind (strcat pathBuf dirPath) (\<lambda>filePath.
     rbind (strcat filePath (fmt ''/'')) (\<lambda>filePath.
     rbind (strcat filePath (fileName de @ le32 (dino de) @ le32 (fileType de))) (\<lambda>filePath.
     rbind (sysStat filePath \<lparr>stIno = rd32 (junkBytes ''s'' 12 s) 0, stSize = rd32 (junkBytes ''s'' 12 s) 4,
       stFileType = rd32 (junkBytes ''s'' 12 s) 8\<rparr> s) (\<lambda>(r, st, s).
     rbind (sprintStack (replicate 16 32) (fmt ''%d'') [VInt (stSize st)] s) (\<lambda>buf.
     rbind (sysWrite 1 buf 11 s) (\<lambda>(r, s).
     rbind (sysWrite 1 [10, 0] 1 s) (\<lambda>(r, s).
     Inr s)))))))))))))"

text \<open>The loops of \<open>ls\<close> and \<open>rf\<close>, run with fuel: None when it ends before the directory or the file.\<close>

fun lsLoop :: "nat \<Rightarrow> u8 list \<Rightarrow> u32 \<Rightarrow> 'a kfs_scheme \<Rightarrow> 'a kfs_scheme res option" where
  "lsLoop 0 dirPath d s = None"
| "lsLoop (Suc fuel) dirPath d s =
     (case sysReadDir d s of Inl e \<Rightarrow> Some (Inl e)
      | Inr (None, s) \<Rightarrow> Some (Inr s)
      | Inr (Some de, s) \<Rightarrow>
          (case lsEntry dirPath de s of Inl e \<Rightarrow> Some (Inl e) | Inr s \<Rightarrow> lsLoop fuel dirPath d s))"

definition buildinLs :: "nat \<Rightarrow> int \<Rightarrow> u8 list \<Rightarrow> nat option list \<Rightarrow> 'a kfs_scheme \<Rightarrow> 'a kfs_scheme res option" where
  "buildinLs fuel argc cmd argv s =
     (if argc > 2 then Some (uprintf (fmtln ''ls: only support 1 argument!'') [] s)
      else
        (case
          (rbind (if argc = 2 then argPath cmd argv s
            else rbind (sysGetCwd pathBuf 512 s) (\<lambda>(ok, p, s). Inr (p, s))) (\<lambda>(dirPath, s).
          rbind (sysOpenDir dirPath s) (\<lambda>(d, s).
          if d = NULLPTR then
            (rbind (uprintf (fmtln ''ls: %s is not a directory or not existed'') [VStr dirPath] s) (\<lambda>s. Inr (d, dirPath, s)))
          else
            (rbind (strcmp dirPath (fmt ''/'')) (\<lambda>r.
            rbind (if r = 0 then sysRewindDir d s else Inr s) (\<lambda>s.
            rbind (sysWrite 1 (fmtln ''INO        TYPE        NAME            SIZE'') 44 s) (\<lambda>(w, s).
            Inr (d, dirPath, s))))))))
         of Inl e \<Rightarrow> Some (Inl e)
         | Inr (d, dirPath, s) \<Rightarrow>
             (if d = NULLPTR then Some (Inr s)
              else (case lsLoop fuel dirPath d s of None \<Rightarrow> None | Some (Inl e) \<Rightarrow> Some (Inl e)
                | Some (Inr s) \<Rightarrow> Some (rbind (sysCloseDir d s) (\<lambda>(r, s). Inr s))))))"

definition buildinClear :: "int \<Rightarrow> 'a kfs_scheme \<Rightarrow> 'a kfs_scheme res" where
  "buildinClear argc s =
     (if argc \<noteq> 1 then uprintf (fmtln ''clear: no argument support'') [] s else Inr (sysClear s))"

definition buildinMkdir :: "int \<Rightarrow> u8 list \<Rightarrow> nat option list \<Rightarrow> 'a kfs_scheme \<Rightarrow> 'a kfs_scheme res" where
  "buildinMkdir argc cmd argv s =
     (if argc \<noteq> 2 then uprintf (fmtln ''mkdir: only support 1 argument'') [] s
      else
        (rbind (argPath cmd argv s) (\<lambda>(finalPath, s).
        rbind (strcmp (fmt ''/'') finalPath) (\<lambda>root.
        (if root = 0 then Inr s else
        rbind (sysMkdir finalPath s) (\<lambda>(r, s).
        if r = - 1 then uprintf (fmtln ''mkdir: create directory %s failed'') [VStr finalPath] s else Inr s))))))"

definition buildinRmdir :: "int \<Rightarrow> u8 list \<Rightarrow> nat option list \<Rightarrow> 'a kfs_scheme \<Rightarrow> 'a kfs_scheme res" where
  "buildinRmdir argc cmd argv s =
     (if argc \<noteq> 2 then uprintf (fmtln ''rmdir: only support 1 argument'') [] s
      else
        (rbind (argPath cmd argv s) (\<lambda>(finalPath, s).
        rbind (strcmp (fmt ''/'') finalPath) (\<lambda>root.
        (if root = 0 then uprintf (fmtln ''rmdir: can't delete /'') [] s else
        rbind (sysGetCwd (junkBytes ''buf'' 512 s) 512 s) (\<lambda>(ok, buf, s).
        rbind (strcmp buf finalPath) (\<lambda>same.
        (if same = 0 then uprintf (fmtln ''rmdir: can't delete current working directory'') [] s else
        rbind (sysRmdir finalPath s) (\<lambda>(r, s).
        if r = - 1 then uprintf (fmtln ''rmdir: remove directory %s failed'') [VStr finalPath] s else Inr s)))))))))"

definition buildinTouch :: "int \<Rightarrow> u8 list \<Rightarrow> nat option list \<Rightarrow> 'a kfs_scheme \<Rightarrow> 'a kfs_scheme res" where
  "buildinTouch argc cmd argv s =
     (if argc \<noteq> 2 then uprintf (fmtln ''touch: only support 1 argument'') [] s
      else
        (rbind (argPath cmd argv s) (\<lambda>(finalPath, s).
        rbind (sysOpen finalPath O_CREAT s) (\<lambda>(fd, s).
        if fd = - 1 then uprintf (fmtln ''touch: create file %s failed'') [VStr finalPath] s
        else rbind (sysClose fd s) (\<lambda>(r, s). Inr s)))))"

definition buildinRm :: "int \<Rightarrow> u8 list \<Rightarrow> nat option list \<Rightarrow> 'a kfs_scheme \<Rightarrow> 'a kfs_scheme res" where
  "buildinRm argc cmd argv s =
     (if argc \<noteq> 2 then uprintf (fmtln ''rm: only support 1 argument'') [] s
      else
        (rbind (argPath cmd argv s) (\<lambda>(finalPath, s).
        rbind (sysUnlink finalPath s) (\<lambda>(r, s).
        if r = - 1 then uprintf (fmtln ''rm: delete file %s failed'') [VStr finalPath] s else Inr s))))"

definition buildinWf :: "int \<Rightarrow> u8 list \<Rightarrow> nat option list \<Rightarrow> 'a kfs_scheme \<Rightarrow> 'a kfs_scheme res" where
  "buildinWf argc cmd argv s =
     (if argc \<noteq> 3 then uprintf (fmtln ''wf: only support 2 argument'') [] s
      else
        (rbind (argPath cmd argv s) (\<lambda>(finalPath, s).
        rbind (sysOpen finalPath O_WRONLY s) (\<lambda>(fd, s).
        (if fd = - 1 then uprintf (fmtln ''wf: open file %s failed'') [VStr finalPath] s else
        rbind (argStr cmd argv 2) (\<lambda>text.
        rbind (strlen text) (\<lambda>n.
        rbind (sysWrite fd text (of_nat n) s) (\<lambda>(r, s).
        rbind (sysClose fd s) (\<lambda>(r, s).
        Inr s)))))))))"

fun rfLoop :: "nat \<Rightarrow> u32 \<Rightarrow> u8 list \<Rightarrow> 'a kfs_scheme \<Rightarrow> 'a kfs_scheme res option" where
  "rfLoop 0 fd buf s = None"
| "rfLoop (Suc fuel) fd buf s =
     (case sysRead fd buf 1024 s of Inl e \<Rightarrow> Some (Inl e)
      | Inr (cnt, buf, s) \<Rightarrow>
          (if cnt = - 1 then Some (rbind (sysClose fd s) (\<lambda>(r, s). Inr s))
           else (case sysWrite 1 buf cnt s of Inl e \<Rightarrow> Some (Inl e) | Inr (r, s) \<Rightarrow> rfLoop fuel fd buf s)))"

definition buildinRf :: "nat \<Rightarrow> int \<Rightarrow> u8 list \<Rightarrow> nat option list \<Rightarrow> 'a kfs_scheme \<Rightarrow> 'a kfs_scheme res option" where
  "buildinRf fuel argc cmd argv s =
     (if argc \<noteq> 2 then Some (uprintf (fmtln ''rf: only support 1 argument'') [] s)
      else (case
          (rbind (argPath cmd argv s) (\<lambda>(finalPath, s).
          rbind (sysOpen finalPath 0 s) (\<lambda>(fd, s).
          if fd = - 1 then rbind (uprintf (fmtln ''rf: open file %s failed'') [VStr finalPath] s) (\<lambda>s. Inr (fd, s))
          else Inr (fd, s))))
        of Inl e \<Rightarrow> Some (Inl e)
        | Inr (fd, s) \<Rightarrow> (if fd = - 1 then Some (Inr s) else rfLoop fuel fd (junkBytes ''buf'' 1024 s) s)))"

section \<open>The shell\<close>

text \<open>What one round of \<open>myShell\<close> asks for besides its own work: \<open>ps\<close>, whose table the theory Proc prints,
  or the program to fork and execute.\<close>

datatype shellJob = Builtin | Ps int | Program "u8 list" "u8 list" "nat option list"

text \<open>The commands in the order of the tests; \<open>nm\<close> is \<open>argv[0]\<close>.\<close>

fun matchCmd :: "string list \<Rightarrow> u8 list \<Rightarrow> string option res" where
  "matchCmd [] nm = Inr None"
| "matchCmd (c # cs) nm = rbind (strcmp (fmt c) nm) (\<lambda>r. if r = 0 then Inr (Some c) else matchCmd cs nm)"

definition shellCmds :: "string list" where
  "shellCmds = [''pwd'', ''cd'', ''ls'', ''ps'', ''clear'', ''mkdir'', ''rmdir'', ''touch'', ''rm'', ''wf'', ''rf'', ''cat'']"

definition findProgram :: "u8 list \<Rightarrow> u8 list \<Rightarrow> nat option list \<Rightarrow> 'a kfs_scheme \<Rightarrow> (shellJob \<times> 'a kfs_scheme) res" where
  "findProgram nm cmd argv s =
     (rbind (makeClearAbsPath nm (junkBytes ''finalPath'' 512 s) s) (\<lambda>(finalPath, s).
     rbind (sysStat finalPath \<lparr>stIno = 0, stSize = 0, stFileType = 0\<rparr> s) (\<lambda>(r, st, s).
     if r = - 1 then rbind (uprintf (fmtln ''shell: no such file %s'') [VStr finalPath] s) (\<lambda>s. Inr (Builtin, s))
     else Inr (Program finalPath cmd argv, s))))"

definition shellExec :: "nat \<Rightarrow> int \<Rightarrow> u8 list \<Rightarrow> nat option list \<Rightarrow> 'a kfs_scheme \<Rightarrow> (shellJob \<times> 'a kfs_scheme) res option" where
  "shellExec fuel argc cmd argv s =
     (let ok = (\<lambda>r. rbind r (\<lambda>s. Inr (Builtin, s))) in
      case rbind (argStr cmd argv 0) (\<lambda>nm. rbind (matchCmd shellCmds nm) (\<lambda>c. Inr (nm, c))) of
        Inl e \<Rightarrow> Some (Inl e)
      | Inr (nm, None) \<Rightarrow> Some (findProgram nm cmd argv s)
      | Inr (nm, Some c) \<Rightarrow>
          (if c = ''pwd'' then Some (ok (buildinPwd argc s))
           else if c = ''cd'' then Some (rbind (buildinCd argc cmd argv s) (\<lambda>(r, s). Inr (Builtin, s)))
           else if c = ''ls'' then map_option ok (buildinLs fuel argc cmd argv s)
           else if c = ''ps'' then Some (Inr (Ps argc, s))
           else if c = ''clear'' then Some (ok (buildinClear argc s))
           else if c = ''mkdir'' then Some (ok (buildinMkdir argc cmd argv s))
           else if c = ''rmdir'' then Some (ok (buildinRmdir argc cmd argv s))
           else if c = ''touch'' then Some (ok (buildinTouch argc cmd argv s))
           else if c = ''rm'' then Some (ok (buildinRm argc cmd argv s))
           else if c = ''wf'' then Some (ok (buildinWf argc cmd argv s))
           else map_option ok (buildinRf fuel argc cmd argv s)))"

text \<open>One round of the loop of \<open>myShell\<close>, with the characters typed; the result has the job, the cached path and
  what is left of the input.\<close>

definition shellRound :: "nat \<Rightarrow> u8 list \<Rightarrow> u8 list \<Rightarrow> 'a kfs_scheme \<Rightarrow>
    (shellJob \<times> u8 list \<times> u8 list \<times> 'a kfs_scheme) res option" where
  "shellRound fuel cwd keys s =
     (case
        (rbind (printPrompt cwd s) (\<lambda>(cwd, s).
        rbind (readLine (replicate 128 0) 128 cwd keys s) (\<lambda>(line, cwd, keys, s).
        (if line ! 0 = 0 then Inr (None, cwd, keys, s) else
        rbind (cmdParse line 32) (\<lambda>(argc, cmd, argv).
        (if argc = - 1 then rbind (uprintf (fmtln '' num of arg exceeded!'') [] s) (\<lambda>s. Inr (None, cwd, keys, s)) else
        Inr (Some (argc, cmd, argv), cwd, keys, s)))))))
      of Inl e \<Rightarrow> Some (Inl e)
      | Inr (None, cwd, keys, s) \<Rightarrow> Some (Inr (Builtin, cwd, keys, s))
      | Inr (Some (argc, cmd, argv), cwd, keys, s) \<Rightarrow>
          map_option (\<lambda>r. rbind r (\<lambda>(job, s). Inr (job, cwd, keys, s))) (shellExec fuel argc cmd argv s))"

end
