(* ===== verification/Process.thy ===== *)
theory Process
  imports Shell
begin

text \<open>
  User processes: kernel/user/process.c and kernel/user/fork.c. The TaskStructs, the bitmaps and the
  interrupt frames on the kernel stacks are typed state beside the words of memory; the pages of a process,
  its page directory and its page tables are words of physical memory, reached through the page tables.
\<close>

section \<open>State\<close>

text \<open>The registers that the entry code saves (\<open>IntrStack\<close> of kernel/thread/thread.h).\<close>

record IntrStack =
  vecNo :: u32
  edi :: u32
  esi :: u32
  ebp :: u32
  espDummy :: u32
  ebx :: u32
  edx :: u32
  ecx :: u32
  eax :: u32
  gs :: u32
  fs :: u32
  es :: u32
  ds :: u32
  errCode :: u32
  eip :: u32
  cs :: u32
  ieflags :: u32
  esp :: u32
  ss :: u32

abbreviation (input) sizeofIntrStack :: u32 where "sizeofIntrStack \<equiv> 76"
abbreviation (input) sizeofThreadStack :: u32 where "sizeofThreadStack \<equiv> 32"

text \<open>The saved registers by the address of the structure, the address of the bitmap of a process's pages
  (\<open>vap.bitMap.startAddr\<close>) by thread, and the entry point of a process that has not run yet.\<close>

record kproc = kfs +
  intrStacks :: "u32 \<Rightarrow> IntrStack"
  vbmAddr :: "u32 \<Rightarrow> u32"
  userEntry :: "u32 \<Rightarrow> u32 option"

definition updIntrStack :: "u32 \<Rightarrow> (IntrStack \<Rightarrow> IntrStack) \<Rightarrow> 'a kproc_scheme \<Rightarrow> 'a kproc_scheme" where
  "updIntrStack a f s = s\<lparr>intrStacks := (intrStacks s)(a := f (intrStacks s a))\<rparr>"

text \<open>The jump to \<open>intrExit\<close> with the stack pointer at the structure: iret loads the flags from it, and what
  the kernel stack held is gone.\<close>

definition intrExit :: "u32 \<Rightarrow> 'a kproc_scheme \<Rightarrow> 'a kproc_scheme" where
  "intrExit a s = s\<lparr>eflags := ieflags (intrStacks s a), kstack := (kstack s)(curThread s := [])\<rparr>"

text \<open>\<open>memcpy\<close> between pages, a word at a time.\<close>

fun vcopy :: "u32 \<Rightarrow> u32 \<Rightarrow> nat \<Rightarrow> 'a kmem_scheme \<Rightarrow> 'a kmem_scheme res" where
  "vcopy dst src 0 s = Inr s"
| "vcopy dst src (Suc n) s =
     (rbind (vread src s) (\<lambda>v.
     rbind (vwrite dst v s) (\<lambda>s.
     vcopy (dst + 4) (src + 4) n s)))"

section \<open>Starting a process (kernel/user/process.c)\<close>

abbreviation (input) USER_STACK_VADDR :: u32 where "USER_STACK_VADDR \<equiv> 0xc0000000 - 0x1000"
abbreviation (input) USER_VADDR_START :: u32 where "USER_VADDR_START \<equiv> 0x8000"
abbreviation (input) SELECTOR_U_CODE :: u32 where "SELECTOR_U_CODE \<equiv> 0x2b"
abbreviation (input) SELECTOR_U_DATA :: u32 where "SELECTOR_U_DATA \<equiv> 0x33"
abbreviation (input) USER_EFLAGS :: u32 where "USER_EFLAGS \<equiv> 0x202"  \<comment> \<open>\<open>EFLAGS_IOPL_0 | EFLAGS_MBS | EFLAGS_IF_1\<close>\<close>

definition vbmPgCnt :: u32 where
  "vbmPgCnt = DIV_ROUND_UP ((0xc0000000 - USER_VADDR_START) div PG_SIZE div 8) PG_SIZE"

definition vbmLength :: u32 where
  "vbmLength = (0xc0000000 - USER_VADDR_START) div PG_SIZE div 8"

definition pageDirCreate :: "'a kmem_scheme \<Rightarrow> (u32 \<times> 'a kmem_scheme) res" where
  "pageDirCreate s =
     (rbind (getKernelPages 1 s) (\<lambda>(pageDirVaddr, s).
     (if pageDirVaddr = NULLPTR then (rbind (consolePutString (fmtln ''pageDirCreate: getKernelPages failed'') s) (\<lambda>s. Inr (NULLPTR, s))) else
     rbind (vcopy (pageDirVaddr + 0x300 * 4) (0xfffff000 + 0x300 * 4) 256 s) (\<lambda>s.
     rbind (addrV2P pageDirVaddr s) (\<lambda>pageDirRaddr.
     rbind (vwrite (pageDirVaddr + 4 * 1023) (pageDirRaddr OR entryBits) s) (\<lambda>s.
     Inr (pageDirVaddr, s)))))))"

definition userVaddrBitMapInit :: "u32 \<Rightarrow> 'a kproc_scheme \<Rightarrow> 'a kproc_scheme res" where
  "userVaddrBitMapInit ts s =
     (rbind (getKernelPages vbmPgCnt s) (\<lambda>(a, s).
     (if a = NULLPTR then Inl OutOfBounds else
     rbind (bitMapInit \<lparr>bm_length = vbmLength, startAddr = replicate (4096 * unat vbmPgCnt) 0\<rparr>) (\<lambda>bm.
     (let s = s\<lparr>vbmAddr := (vbmAddr s)(ts := a)\<rparr> in
     Inr (updTask ts (\<lambda>t. t\<lparr>vap := \<lparr>vbitMap = bm, vstartAddr = USER_VADDR_START\<rparr>\<rparr>) s))))))"

text \<open>\<open>processStart\<close>: the stack of the new thread makes it run \<open>userThread\<close>, which enters
  \<open>processExecute\<close> with the function.\<close>

definition processStart :: "u32 \<Rightarrow> u8 list \<Rightarrow> 'a kproc_scheme \<Rightarrow> 'a kproc_scheme res" where
  "processStart func nm s =
     (rbind (getKernelPages 1 s) (\<lambda>(ts, s).
     (if ts = NULLPTR then Inl OutOfBounds else
     rbind (threadCreate ts nm 4 s) (\<lambda>s.
     rbind (userVaddrBitMapInit ts s) (\<lambda>s.
     (let s = updTask ts (\<lambda>t. t\<lparr>umbdArr := memBlockDescInit\<rparr>) s in
     rbind (pageDirCreate s) (\<lambda>(d, s).
     (let s = updTask ts (\<lambda>t. t\<lparr>pageDir := d\<rparr>) s in
     (let s = s\<lparr>kstack := (kstack s)(ts := []), userEntry := (userEntry s)(ts := Some func)\<rparr> in
     (let intrStatus = getIntrStatus s in
     rbind (threadEnqueue ts (disableIntr s)) (\<lambda>s.
     Inr (setIntrStatus intrStatus s))))))))))))"

text \<open>\<open>processExecute\<close> on the kernel stack of the new process. The pointer moves in units of four bytes.\<close>

definition processExecute :: "u32 \<Rightarrow> 'a kproc_scheme \<Rightarrow> 'a kproc_scheme res" where
  "processExecute func s =
     ((let cur = curThread s in
     (let s = updTask cur (\<lambda>t. t\<lparr>selfKnlStack := selfKnlStack t + 4 * sizeofThreadStack\<rparr>) s in
     (let procStack = selfKnlStack (tcb s cur) in
     (let s = updIntrStack procStack (\<lambda>p. p\<lparr>edi := 0, esi := 0, ebp := 0, espDummy := 0, ebx := 0, edx := 0, ecx := 0,
       eax := 0, gs := 0, ds := SELECTOR_U_DATA, es := SELECTOR_U_DATA, fs := SELECTOR_U_DATA, eip := func,
       cs := SELECTOR_U_CODE, ieflags := USER_EFLAGS\<rparr>) s in
     rbind (getOnePage PF_USER USER_STACK_VADDR s) (\<lambda>(page, s).
     (let s = updIntrStack procStack (\<lambda>p. p\<lparr>esp := page + PG_SIZE\<rparr>) s in
     assertC ''procStack->esp != NULL'' (page + PG_SIZE \<noteq> NULLPTR) (
     (let s = updIntrStack procStack (\<lambda>p. p\<lparr>ss := SELECTOR_U_DATA\<rparr>) s in
     Inr (intrExit procStack s))))))))))"

section \<open>fork (kernel/user/fork.c)\<close>

text \<open>\<open>memcpy(childThread, parentThread, PG_SIZE)\<close>: the TaskStruct and the kernel stack with the saved
  registers on it.\<close>

definition copyPcb :: "u32 \<Rightarrow> u32 \<Rightarrow> 'a kproc_scheme \<Rightarrow> 'a kproc_scheme" where
  "copyPcb child parent s =
     s\<lparr>tcb := (tcb s)(child := tcb s parent), vbmAddr := (vbmAddr s)(child := vbmAddr s parent),
       intrStacks := (\<lambda>a. if a - child < PG_SIZE then intrStacks s (a - child + parent) else intrStacks s a)\<rparr>"

definition copyPcbVaddrBitMapStack0 :: "u32 \<Rightarrow> u32 \<Rightarrow> 'a kproc_scheme \<Rightarrow> (u32 \<times> 'a kproc_scheme) res" where
  "copyPcbVaddrBitMapStack0 child parent s =
     ((let s = copyPcb child parent s in
     rbind (forkPid s) (\<lambda>(p, s).
     (let s = updTask child (\<lambda>t. t\<lparr>pid := p, elapsedTicks := 0, status := TASK_READY, ticks := priority t,
       parentPid := pid (tcb s parent), umbdArr := memBlockDescInit\<rparr>) s in
     rbind (getKernelPages vbmPgCnt s) (\<lambda>(a, s).
     (if a = NULLPTR then Inr (- 1, s) else
     (let s = s\<lparr>vbmAddr := (vbmAddr s)(child := a)\<rparr> in
     (let s = updTask child (\<lambda>t. t\<lparr>vap := (vap t)\<lparr>vbitMap := vbitMap (vap (tcb s parent))\<rparr>\<rparr>) s in
     rbind (strlen (name (tcb s child))) (\<lambda>n.
     assertC ''strlen(childThread->name) < 11'' (n < 11) (
     rbind (strcat (name (tcb s child)) (fmt ''_fork'')) (\<lambda>nm.
     Inr (0, updTask child (\<lambda>t. t\<lparr>name := nm\<rparr>) s))))))))))))"

text \<open>Switching to the page directory of a thread, with the translation the page tables give.\<close>

definition loadPageDir :: "u32 \<Rightarrow> 'a kmem_scheme \<Rightarrow> 'a kmem_scheme res" where
  "loadPageDir ts s =
     (rbind (if pageDir (tcb s ts) \<noteq> NULLPTR then addrV2P (pageDir (tcb s ts)) s else Inr PAGE_DIR_TABLE_POS) (\<lambda>p.
     Inr (s\<lparr>cr3 := p\<rparr>)))"

lemma loadPageDir_pageDirActivate:
  "pageDir (tcb s ts) = NULLPTR \<or> addrV2P (pageDir (tcb s ts)) s = Inr (kv2p s (pageDir (tcb s ts))) \<Longrightarrow>
   loadPageDir ts s = Inr (pageDirActivate ts s)"
  by (auto simp: loadPageDir_def pageDirActivate_def)

text \<open>The page of bit \<open>idxBit\<close> of byte \<open>idxByte\<close> goes to the child through the buffer page. The result of
  \<open>getOnePageWithoutVBM\<close> is not looked at.\<close>

definition copyPage :: "u32 \<Rightarrow> u32 \<Rightarrow> u32 \<Rightarrow> u32 \<Rightarrow> 'a kmem_scheme \<Rightarrow> 'a kmem_scheme res" where
  "copyPage child parent bufPage progVaddr s =
     (rbind (vcopy bufPage progVaddr 1024 s) (\<lambda>s.
     rbind (loadPageDir child s) (\<lambda>s.
     rbind (getOnePageWithoutVBM PF_USER progVaddr s) (\<lambda>(r, s).
     rbind (vcopy progVaddr bufPage 1024 s) (\<lambda>s.
     loadPageDir parent s)))))"

text \<open>The pages whose bits are set, in the order of the two loops.\<close>

definition bodyPages :: "BitMap \<Rightarrow> u32 \<Rightarrow> u32 list res" where
  "bodyPages bm vstart =
     (if unat (bm_length bm) \<le> length (startAddr bm) then
        Inr (concat (map (\<lambda>idxByte. map (\<lambda>idxBit. (of_nat idxByte * 8 + of_nat idxBit) * PG_SIZE + vstart)
          (filter (\<lambda>idxBit. push_bit idxBit 1 AND (ucast (startAddr bm ! idxByte) :: u32) \<noteq> 0) [0..<8]))
          [0..<unat (bm_length bm)]))
      else Inl OutOfBounds)"

fun copyPages :: "u32 \<Rightarrow> u32 \<Rightarrow> u32 \<Rightarrow> u32 list \<Rightarrow> 'a kmem_scheme \<Rightarrow> 'a kmem_scheme res" where
  "copyPages child parent bufPage [] s = Inr s"
| "copyPages child parent bufPage (va # vas) s =
     (rbind (copyPage child parent bufPage va s) (\<lambda>s. copyPages child parent bufPage vas s))"

definition copyBodyStack3 :: "u32 \<Rightarrow> u32 \<Rightarrow> u32 \<Rightarrow> 'a kmem_scheme \<Rightarrow> 'a kmem_scheme res" where
  "copyBodyStack3 child parent bufPage s =
     (rbind (bodyPages (vbitMap (vap (tcb s parent))) (vstartAddr (vap (tcb s parent)))) (\<lambda>vas.
     copyPages child parent bufPage vas s))"

text \<open>The child's first switch returns into \<open>intrExit\<close> with the parent's registers and 0 in eax.\<close>

definition buildChildStack :: "u32 \<Rightarrow> 'a kproc_scheme \<Rightarrow> 'a kproc_scheme" where
  "buildChildStack child s =
     (let intr0Stack = child + PG_SIZE - sizeofIntrStack;
          s = updIntrStack intr0Stack (\<lambda>p. p\<lparr>eax := 0\<rparr>) s;
          st = (if ieflags (intrStacks s intr0Stack) AND EFLAGS_IF \<noteq> 0 then INTR_ON else INTR_OFF);
          s = s\<lparr>kstack := (kstack s)(child := [FIret st])\<rparr>
      in updTask child (\<lambda>t. t\<lparr>selfKnlStack := intr0Stack - 5 * 4\<rparr>) s)"

fun incOpenCnt :: "u32 list \<Rightarrow> 'a kfs_scheme \<Rightarrow> 'a kfs_scheme res" where
  "incOpenCnt [] s = Inr s"
| "incOpenCnt (globalFd # fds) s =
     (assertC ''globalFd < MAX_FILE_OPEN_ALL'' (sint globalFd < 32) (
     rbind (if globalFd \<noteq> - 1 then
         (rbind (rd (fileTable s) (unat globalFd)) (\<lambda>f.
         deref (fdInode f) (Inr (updInode (fdInode f) (\<lambda>i. i\<lparr>openCnt := openCnt i + 1\<rparr>) s))))
       else Inr s) (\<lambda>s.
     incOpenCnt fds s)))"

definition updateInodeOpenCnt :: "u32 \<Rightarrow> 'a kfs_scheme \<Rightarrow> 'a kfs_scheme res" where
  "updateInodeOpenCnt thread s = incOpenCnt (drop 3 (fdTable (tcb s thread))) s"

definition copyProcess :: "u32 \<Rightarrow> u32 \<Rightarrow> 'a kproc_scheme \<Rightarrow> (u32 \<times> 'a kproc_scheme) res" where
  "copyProcess child parent s =
     (rbind (getKernelPages 1 s) (\<lambda>(bufPage, s).
     (if bufPage = NULLPTR then Inr (- 1, s) else
     rbind (copyPcbVaddrBitMapStack0 child parent s) (\<lambda>(r, s).
     (if r = - 1 then Inr (- 1, s) else
     rbind (pageDirCreate s) (\<lambda>(d, s).
     (let s = updTask child (\<lambda>t. t\<lparr>pageDir := d\<rparr>) s in
     (if d = NULLPTR then Inr (- 1, s) else
     rbind (copyBodyStack3 child parent bufPage s) (\<lambda>s.
     (let s = buildChildStack child s in
     rbind (updateInodeOpenCnt child s) (\<lambda>s.
     rbind (freePage PF_KERNEL bufPage 1 s) (\<lambda>s.
     Inr (0, s)))))))))))))"

definition sysFork :: "'a kproc_scheme \<Rightarrow> (u32 \<times> 'a kproc_scheme) res" where
  "sysFork s =
     ((let parent = curThread s in
     rbind (getKernelPages 1 s) (\<lambda>(child, s).
     (if child = NULLPTR then Inr (- 1, s) else
     assertC ''getIntrStatus()==INTR_OFF'' (getIntrStatus s = INTR_OFF) (
     assertC ''parentThread->pageDir!=NULL'' (pageDir (tcb s parent) \<noteq> NULLPTR) (
     rbind (copyProcess child parent s) (\<lambda>(r, s).
     (if r = - 1 then Inr (- 1, s) else
     assertC ''!listElemExist(&threadReadyList,&childThread->generalTag)'' (child \<notin> set (threadReadyList s)) (
     (let s = s\<lparr>threadReadyList := threadReadyList s @ [child]\<rparr> in
     assertC ''!listElemExist(&threadReadyList,&childThread->allListTag)'' (True) (
     (let s = s\<lparr>threadAllList := threadAllList s @ [child]\<rparr> in
     Inr (pid (tcb s child), s)))))))))))))"

end
