(* ===== verification/Exec.thy ===== *)
theory Exec
  imports Process
begin

text \<open>
  Executing a program: kernel/user/exec.c. The ELF headers are decoded from the bytes that \<open>sysRead\<close> returns;
  the bytes of a segment are stored in memory a byte at a time.
\<close>

section \<open>Bytes in memory\<close>

definition vreadByte :: "u32 \<Rightarrow> 'a kmem_scheme \<Rightarrow> u8 res" where
  "vreadByte va s =
     rbind (vread (va AND NOT 3) s) (\<lambda>w. Inr (ucast (drop_bit (8 * unat (va AND 3)) w)))"

definition vwriteByte :: "u32 \<Rightarrow> u8 \<Rightarrow> 'a kmem_scheme \<Rightarrow> 'a kmem_scheme res" where
  "vwriteByte va b s =
     (let k = 8 * unat (va AND 3) in
      rbind (vread (va AND NOT 3) s) (\<lambda>w.
      vwrite (va AND NOT 3) (w AND NOT (push_bit k 0xff) OR push_bit k (ucast b)) s))"

fun vstore :: "u32 \<Rightarrow> u8 list \<Rightarrow> 'a kmem_scheme \<Rightarrow> 'a kmem_scheme res" where
  "vstore va [] s = Inr s"
| "vstore va (b # bs) s = rbind (vwriteByte va b s) (vstore (va + 1) bs)"

section \<open>ELF headers\<close>

definition rd16 :: "u8 list \<Rightarrow> nat \<Rightarrow> u16" where
  "rd16 bs i = ucast (bs ! i) OR push_bit 8 (ucast (bs ! (i + 1)))"

record Elf32_Ehdr =
  e_ident :: "u8 list"
  e_type :: u16
  e_machine :: u16
  e_version :: u32
  e_entry :: u32
  e_phoff :: u32
  e_phentsize :: u16
  e_phnum :: u16

definition decEhdr :: "u8 list \<Rightarrow> Elf32_Ehdr" where
  "decEhdr b = \<lparr>e_ident = take 16 b, e_type = rd16 b 16, e_machine = rd16 b 18, e_version = rd32 b 20,
     e_entry = rd32 b 24, e_phoff = rd32 b 28, e_phentsize = rd16 b 42, e_phnum = rd16 b 44\<rparr>"

record Elf32_Phdr =
  p_type :: u32
  p_offset :: u32
  p_vaddr :: u32
  p_filesz :: u32

definition decPhdr :: "u8 list \<Rightarrow> Elf32_Phdr" where
  "decPhdr b = \<lparr>p_type = rd32 b 0, p_offset = rd32 b 4, p_vaddr = rd32 b 8, p_filesz = rd32 b 16\<rparr>"

abbreviation (input) PT_LOAD :: u32 where "PT_LOAD \<equiv> 1"
abbreviation (input) sizeofEhdr :: nat where "sizeofEhdr \<equiv> 52"
abbreviation (input) sizeofPhdr :: nat where "sizeofPhdr \<equiv> 32"
abbreviation (input) elfMagic :: "u8 list" where "elfMagic \<equiv> [0x7f, 0x45, 0x4c, 0x46, 1, 1, 1]"

definition elfOk :: "Elf32_Ehdr \<Rightarrow> bool" where
  "elfOk h \<longleftrightarrow> memcmp (e_ident h) elfMagic 7 = Inr 0 \<and> e_type h = 2 \<and> e_machine h = 3 \<and> e_version h = 1 \<and>
     e_phnum h \<le> 1024 \<and> e_phentsize h = of_nat sizeofPhdr"

section \<open>Loading a segment\<close>

definition occupyPages :: "u32 \<Rightarrow> u32 \<Rightarrow> u32" where
  "occupyPages fileSize vaddr =
     (let sizeInFirstPage = PG_SIZE - (vaddr AND 0x00000fff)
      in if fileSize > sizeInFirstPage then DIV_ROUND_UP (fileSize - sizeInFirstPage) PG_SIZE + 1 else 1)"

text \<open>The test of the loop looks at the entries of \<open>vaddr\<close>, not of the page it is about to allocate.\<close>

definition vaddrMapped :: "u32 \<Rightarrow> 'a kmem_scheme \<Rightarrow> bool res" where
  "vaddrMapped vaddr s =
     (rbind (vread (getPdePtr vaddr) s) (\<lambda>d.
     (if d AND 1 = 0 then Inr False else
     rbind (vread (getPtePtr vaddr) s) (\<lambda>t.
     Inr (t AND 1 \<noteq> 0)))))"

fun segmentPages :: "u32 \<Rightarrow> nat \<Rightarrow> u32 \<Rightarrow> 'a kmem_scheme \<Rightarrow> (bool \<times> 'a kmem_scheme) res" where
  "segmentPages vaddr 0 vaddrPage s = Inr (True, s)"
| "segmentPages vaddr (Suc n) vaddrPage s =
     (rbind (vaddrMapped vaddr s) (\<lambda>m.
     rbind (if m then Inr (True, s)
       else (rbind (getOnePage PF_USER vaddrPage s) (\<lambda>(p, s). Inr (p \<noteq> NULLPTR, s)))) (\<lambda>(ok, s).
     (if \<not> ok then Inr (False, s) else
     segmentPages vaddr n (vaddrPage + PG_SIZE) s))))"

text \<open>The results of \<open>sysLseek\<close> and \<open>sysRead\<close> are not looked at; what is read goes to memory.\<close>

definition segmentLoad :: "u32 \<Rightarrow> u32 \<Rightarrow> u32 \<Rightarrow> u32 \<Rightarrow> 'a kfs_scheme \<Rightarrow> (bool \<times> 'a kfs_scheme) res" where
  "segmentLoad fd offset fileSize vaddr s =
     (rbind (segmentPages vaddr (unat (occupyPages fileSize vaddr)) (vaddr AND 0xfffff000) s) (\<lambda>(ok, s).
     (if \<not> ok then Inr (False, s) else
     rbind (sysLseek fd offset 1 s) (\<lambda>(r, s).
     rbind (sysRead fd (replicate (unat fileSize) 0) fileSize s) (\<lambda>(cnt, buf, s).
     rbind (if cnt = - 1 then Inr s else vstore vaddr (take (unat cnt) buf) s) (\<lambda>s.
     Inr (True, s)))))))"

section \<open>load and execv\<close>

text \<open>The loop over the program headers, \<open>n\<close> to go; True when the program has been loaded.\<close>

fun loadSegments :: "u32 \<Rightarrow> u32 \<Rightarrow> nat \<Rightarrow> 'a kfs_scheme \<Rightarrow> (bool \<times> 'a kfs_scheme) res" where
  "loadSegments fd programHeaderOffset 0 s = Inr (True, s)"
| "loadSegments fd programHeaderOffset (Suc n) s =
     (rbind (sysLseek fd programHeaderOffset 1 s) (\<lambda>(r, s).
     rbind (sysRead fd (replicate sizeofPhdr 0) (of_nat sizeofPhdr) s) (\<lambda>(cnt, buf, s).
     (if cnt \<noteq> of_nat sizeofPhdr then Inr (False, logk ''load: read file program header failed'' s) else
     (let ph = decPhdr buf in
     rbind (if p_type ph = PT_LOAD then segmentLoad fd (p_offset ph) (p_filesz ph) (p_vaddr ph) s
       else Inr (True, s)) (\<lambda>(ok, s).
     (if \<not> ok then Inr (False, logk ''load: segmentLoad failed'' s) else
     loadSegments fd (programHeaderOffset + of_nat sizeofPhdr) n s)))))))"

text \<open>\<open>load\<close> up to its label \<open>done\<close>, on the open file.\<close>

definition loadFile :: "u32 \<Rightarrow> 'a kfs_scheme \<Rightarrow> (u32 \<times> 'a kfs_scheme) res" where
  "loadFile fd s =
     ((if fd = - 1 then Inr (- 1, logk ''load: open file failed'' s) else
     rbind (sysRead fd (replicate sizeofEhdr 0) (of_nat sizeofEhdr) s) (\<lambda>(cnt, buf, s).
     (if cnt \<noteq> of_nat sizeofEhdr then Inr (- 1, logk ''load: read file failed'' s) else
     (let h = decEhdr buf in
     (if \<not> elfOk h then Inr (- 1, s) else
     rbind (loadSegments fd (e_phoff h) (unat (e_phnum h)) s) (\<lambda>(ok, s).
     (if \<not> ok then Inr (- 1, s) else
     Inr (e_entry h, s)))))))))"

definition load :: "u8 list \<Rightarrow> 'a kfs_scheme \<Rightarrow> (u32 \<times> 'a kfs_scheme) res" where
  "load pathName s =
     (rbind (sysOpen pathName 0 s) (\<lambda>(fd, s).
     rbind (loadFile fd s) (\<lambda>(ret, s).
     rbind (sysClose fd s) (\<lambda>(r, s).
     Inr (ret, s)))))"

text \<open>\<open>argv\<close> is an array of pointers at the address \<open>argvAddr\<close>.\<close>

fun countArgs :: "u32 list \<Rightarrow> u32 res" where
  "countArgs [] = Inl OutOfBounds"
| "countArgs (a # argv) = (if a = NULLPTR then Inr 0 else rbind (countArgs argv) (\<lambda>n. Inr (n + 1)))"

text \<open>The saved registers of the caller, from which it returns to user mode.\<close>

definition sysExecv :: "u8 list \<Rightarrow> u32 list \<Rightarrow> u32 \<Rightarrow> 'a kproc_scheme \<Rightarrow> (u32 \<times> 'a kproc_scheme) res" where
  "sysExecv path argv argvAddr s =
     (rbind (countArgs argv) (\<lambda>argc.
     rbind (load path s) (\<lambda>(entryPoint, s).
     (if entryPoint = - 1 then Inr (- 1, s) else
     (let intrStack = curThread s + PG_SIZE - sizeofIntrStack in
     (let s = updIntrStack intrStack (\<lambda>p. p\<lparr>edi := 0, esi := 0, ebp := 0, espDummy := 0, edx := 0, eax := 0,
       ebx := argc, ecx := argvAddr, eip := entryPoint, esp := 0xc0000000\<rparr>) s in
     Inr (0, intrExit intrStack s)))))))"

end
