(* ===== verification/ExecProps.thy ===== *)
theory ExecProps
  imports Exec
begin

text \<open>
  Loading a segment: which pages exec maps.
\<close>

section \<open>What an operation on pages leaves alone\<close>

lemma memEq_inv:
  assumes "pmem s' = pmem s" "cr3 s' = cr3 s" "\<And>q. papOf q s' = papOf q s"
  shows "memInv s' = memInv s" "mmu s' va = mmu s va" "freePages pf s' = freePages pf s" "tableRoom va s' = tableRoom va s"
proof -
  show "mmu s' va = mmu s va" for va by (rule mmu_cong [OF assms(1,2)])
  have p: "pdEnt s' j = pdEnt s j" for j using assms(1,2) by (simp add: pdEnt_def)
  have "isTable s' f = isTable s f" for f by (rule isTable_cong) (rule p)
  then show "memInv s' = memInv s"
    using poolInv_cong [OF assms(3)] pagingInv_cong [OF assms(1,2)] by (simp add: memInv_def assms(3))
  show "freePages pf s' = freePages pf s" by (simp add: freePages_def assms(3))
  show "tableRoom va s' = tableRoom va s" by (simp add: tableRoom_def assms(3) p)
qed

lemma vwrite_sameRest: "vwrite a v s = Inr s' \<Longrightarrow> sameRest s s'"
  by (auto simp: vwrite_def split: option.splits)

lemma vclear_sameRest: "vclear a n s = Inr s' \<Longrightarrow> sameRest s s'"
proof (induction n arbitrary: a s)
  case (Suc n)
  then show ?case by (auto simp: rbind_eq_Inr intro: sameRest_trans vwrite_sameRest)
qed simp

lemma allocPhyAddr_sameRest: "allocPhyAddr pf s = Inr (p, s') \<Longrightarrow> sameRest s s'"
  by (auto simp: allocPhyAddr_def rbind_eq_Inr split: if_splits)

lemma mapPageTable_sameRest:
  assumes "mapPageTable va pa s = Inr s'"
  shows "sameRest s s'"
proof -
  note u = assms [unfolded mapPageTable_def Let_def]
  consider "vwrite (getPtePtr va) (pa OR entryBits) s = Inr s'"
    | p s1 s2 s3 where "allocPhyAddr PF_KERNEL s = Inr (p, s1)" "vwrite (getPdePtr va) (p OR entryBits) s1 = Inr s2"
      "vclear (frameOf (getPtePtr va)) 1024 s2 = Inr s3" "vwrite (getPtePtr va) (pa OR entryBits) s3 = Inr s'"
    using u by (auto simp: rbind_eq_Inr split: if_splits)
  then show ?thesis
  proof cases
    case 2
    show ?thesis
      by (rule sameRest_trans [OF allocPhyAddr_sameRest [OF 2(1)] sameRest_trans [OF vwrite_sameRest [OF 2(2)]
        sameRest_trans [OF vclear_sameRest [OF 2(3)] vwrite_sameRest [OF 2(4)]]]])
  qed (rule vwrite_sameRest)
qed

lemma sameRest_lock:
  assumes "sameRest s s'"
  shows "semas s' = semas s" "holder s' = holder s" "holderRepeatTimes s' = holderRepeatTimes s" "curThread s' = curThread s"
    "tcb s' = tcb s" "cr3 s' = cr3 s"
proof -
  have e: "s' = s\<lparr>pmem := pmem s', kernelPap := kernelPap s', userPap := userPap s'\<rparr>"
    using assms unfolding sameRest_def by (rule sym)
  then obtain m kp up where s': "s' = s\<lparr>pmem := m, kernelPap := kp, userPap := up\<rparr>" by blast
  show "semas s' = semas s" "holder s' = holder s" "holderRepeatTimes s' = holderRepeatTimes s" "curThread s' = curThread s"
    "tcb s' = tcb s" "cr3 s' = cr3 s" unfolding s' by simp_all
qed

section \<open>getOnePage with a free page\<close>

text \<open>What \<open>getOnePage\<close> relies on for a user page at \<open>va\<close>.\<close>

definition pageReady :: "u32 \<Rightarrow> 'a kmem_scheme \<Rightarrow> bool" where
  "pageReady va s \<longleftrightarrow> lockFree UserPapLock s \<and> memInv s \<and> freePages PF_USER s \<noteq> {} \<and> va mod PG_SIZE = 0 \<and>
     pageDir (tcb s (curThread s)) \<noteq> 0 \<and> dIdx va < 1023 \<and> mmu s va = None \<and> tableRoom va s \<and>
     unat ((va - vstartAddr (vap (tcb s (curThread s)))) div PG_SIZE) < bm_cap (vbitMap (vap (tcb s (curThread s)))) \<and>
     bm_wf (vbitMap (vap (tcb s (curThread s))))"

lemma page_index_pos: "sint ((x :: u32) div PG_SIZE) \<ge> 0"
proof -
  have "unat (x div PG_SIZE) < 1048576" unfolding unat_div by (rule less_mult_imp_div_less) simp
  then have "int (unat (x div PG_SIZE)) < int 1048576" by (simp only: of_nat_less_iff)
  moreover have "uint (x div PG_SIZE) = int (unat (x div PG_SIZE))" by (rule uint_nat)
  ultimately have "uint (x div PG_SIZE) < 2147483648" by linarith
  then have "sint (x div PG_SIZE) = uint (x div PG_SIZE)"
    unfolding sint_uint by (intro signed_take_bit_int_eq_self) (use order_trans [OF _ uint_ge_0 [of "x div PG_SIZE"]] in simp_all)
  then show ?thesis by simp
qed

lemma getOnePage_ok:
  fixes s :: "'a kmem_scheme"
  assumes r: "pageReady va s"
  shows "\<exists>s' pa. getOnePage PF_USER va s = Inr (va, s') \<and> memInv s' \<and>
    (\<forall>x. dIdx x \<noteq> 1023 \<longrightarrow> mmu s' x = (if frameOf x = frameOf va then Some (pa + pageOff x) else mmu s x))"
proof -
  note d = r [unfolded pageReady_def]
  let ?cur = "tcb s (curThread s)"
  let ?i = "(va - vstartAddr (vap ?cur)) div PG_SIZE"
  define s1 where "s1 = setHolder UserPapLock (curThread s) 1 (updSema UserPapLock (\<lambda>q. q\<lparr>val := 0\<rparr>) s)"
  obtain bm where bm: "bitMapSet (vbitMap (vap ?cur)) ?i True = Inr bm"
    using bitMapSet_spec [of ?i "vbitMap (vap ?cur)" True] bm_room [of "vbitMap (vap ?cur)"] d by metis
  define s2 where "s2 = setVapBits PF_USER bm s1"
  have f2: "pmem s2 = pmem s" "cr3 s2 = cr3 s" "papOf q s2 = papOf q s" "curThread s2 = curThread s" for q
    by (simp_all add: s2_def s1_def setHolder_def updSema_def setVapBits_def updTask_def papOf_def del: pap_papOf)
  note m2 = memEq_inv [OF f2(1-3)]
  have inv2: "memInv s2" and room: "\<exists>i < papCap (papOf PF_USER s2). \<not> papUsed (papOf PF_USER s2) i"
    using d m2(1,3) by (auto simp: freePages_def f2)
  obtain i s3 where s3: "i < papCap (papOf PF_USER s2)" "\<not> papUsed (papOf PF_USER s2) i"
    "allocPhyAddr PF_USER s2 = Inr (papPage (papOf PF_USER s2) i, s3)" "papMarked PF_USER i True s2 s3"
    using allocPhyAddr_ok [OF memInvD(1) [OF inv2], of PF_USER] room by blast
  let ?pa = "papPage (papOf PF_USER s2) i"
  note pf = papPage_facts [OF poolInv_wf [OF memInvD(1) [OF inv2]] s3(1)]
  have pa0: "?pa \<noteq> 0"
    using unat_papPage [OF poolInv_wf [OF memInvD(1) [OF inv2]] s3(1)] poolInv_wf [OF memInvD(1) [OF inv2], of PF_USER]
    by (auto simp: papWf_def)
  have inv3: "memInv s3" by (rule memInv_marked [OF inv2 s3(4)])
  have mm3: "mmu s3 x = mmu s x" for x using mmu_cong [OF papMarkedD(5,6) [OF s3(4)]] m2(2) by simp
  have tr: "tableRoom va s3"
  proof -
    have "pdEnt s3 j = pdEnt s j" for j using papMarkedD(5,6) [OF s3(4)] f2 by (simp add: pdEnt_def)
    moreover have "papUsed (papOf PF_KERNEL s3) j = papUsed (papOf PF_KERNEL s) j" "papCap (papOf PF_KERNEL s3) = papCap (papOf PF_KERNEL s)" for j
      using papMarkedD(2,3) [OF s3(4)] by (simp_all add: f2)
    ultimately show ?thesis using d by (simp add: tableRoom_def)
  qed
  have va3: "dIdx va < 1023" "mmu s3 va = None" using d mm3 by simp_all
  obtain s4 where s4: "mapPageTable va ?pa s3 = Inr s4" "memInv s4"
    "\<forall>x. dIdx x \<noteq> 1023 \<longrightarrow> mmu s4 x = (if frameOf x = frameOf va then Some (?pa + pageOff x) else mmu s3 x)"
    using mapPageTable_ok [OF inv3 va3 pf(1) tr] by blast
  have sr: "sameRest s2 s4"
    using sameRest_trans [OF allocPhyAddr_sameRest [OF s3(3)] mapPageTable_sameRest [OF s4(1)]] .
  define s5 where "s5 = setIntrStatus (getIntrStatus s4) (updSema UserPapLock (\<lambda>q. q\<lparr>blockedList := [], val := 1\<rparr>)
    (disableIntr (setHolder UserPapLock 0 0 s4)))"
  have "lockUnlock UserPapLock s4 = Inr s5"
    unfolding s5_def
    by (rule lockUnlock_last)
      (use d in \<open>simp_all add: sameRest_lock [OF sr] s2_def s1_def setVapBits_def updTask_def setHolder_def updSema_def lockFree_def\<close>)
  moreover have "vapOf PF_USER s1 = vap ?cur" "tcb s1 (curThread s1) = ?cur"
    by (simp_all add: vapOf_def s1_def setHolder_def updSema_def)
  ultimately have g: "getOnePage PF_USER va s = Inr (va, s5)"
    using lockNow_free [of UserPapLock s] d bm s3(3) s4(1) pa0 page_index_pos
    by (simp add: getOnePage_def s1_def [symmetric] s2_def [symmetric] Let_def)
  have f5: "pmem s5 = pmem s4" "cr3 s5 = cr3 s4" "papOf q s5 = papOf q s4" for q
    by (simp_all add: s5_def setHolder_def updSema_def setIntrStatus_def enableIntr_def disableIntr_def papOf_def del: pap_papOf)
  have "memInv s5" using s4(2) memEq_inv(1) [OF f5] by simp
  then show ?thesis using g s4(3) mm3 memEq_inv(2) [OF f5] by auto
qed

section \<open>The pages of a segment\<close>

lemma vaddrMapped_ok: "pagingInv s \<Longrightarrow> vaddrMapped va s = Inr (mmu s va \<noteq> None)"
  by (simp add: vaddrMapped_def vread_def mmu_getPdePtr mmu_getPtePtr)
    (auto simp: mmu_ent ptEnt_def pdEnt_def [symmetric])

lemma segmentPages_mapped: "pagingInv s \<Longrightarrow> mmu s va \<noteq> None \<Longrightarrow> segmentPages va n vp s = Inr (True, s)"
  by (induction n arbitrary: vp) (simp_all add: vaddrMapped_ok)

lemma segmentPages_first:
  fixes s :: "'a kmem_scheme"
  assumes r: "pageReady (frameOf va) s" and z: "frameOf va \<noteq> 0" and n: "0 < n"
  shows "\<exists>s' pa. segmentPages va n (frameOf va) s = Inr (True, s') \<and> memInv s' \<and>
    (\<forall>x. dIdx x \<noteq> 1023 \<longrightarrow> mmu s' x = (if frameOf x = frameOf va then Some (pa + pageOff x) else mmu s x))"
proof -
  obtain m where m: "n = Suc m" using n by (cases n) auto
  have "memInv s" using r by (simp add: pageReady_def)
  then have pg: "pagingInv s" by (rule memInvD(2))
  have same: "dIdx (frameOf va) = dIdx va" "tIdx (frameOf va) = tIdx va"
    using frame_same_page [of "frameOf va" va] frame_aligned [OF pgAligned_frame [of va]] by simp_all
  have un: "mmu s va = None" using r unfolding pageReady_def by (auto simp: mmu_ent same split: if_splits)
  obtain s' pa where s': "getOnePage PF_USER (frameOf va) s = Inr (frameOf va, s')" "memInv s'"
    "\<forall>x. dIdx x \<noteq> 1023 \<longrightarrow> mmu s' x = (if frameOf x = frameOf (frameOf va) then Some (pa + pageOff x) else mmu s x)"
    using getOnePage_ok [OF r] by blast
  have d: "dIdx va \<noteq> 1023" using r by (simp add: pageReady_def same)
  have mp: "mmu s' va \<noteq> None" using s'(3) d by (simp add: frame_aligned)
  have "segmentPages va n (frameOf va) s = segmentPages va m (frameOf va + PG_SIZE) s'"
    using s'(1) un z by (simp add: m vaddrMapped_ok [OF pg])
  also have "\<dots> = Inr (True, s')" by (rule segmentPages_mapped [OF memInvD(2) [OF s'(2)] mp])
  finally show ?thesis using s'(2,3) by (simp add: frame_aligned) blast
qed

lemma occupyPages_nat:
  assumes "0 < fileSize" "unat va + unat fileSize \<le> 2 ^ 32"
  shows "unat (occupyPages fileSize va) = (unat va + unat fileSize - 1) div 4096 - unat va div 4096 + 1"
proof -
  define a f off q where "a = unat va" "f = unat fileSize" "off = a mod 4096" "q = a div 4096"
  note defs = this
  have f0: "0 < f" using assms(1) by (simp add: defs word_less_nat_alt)
  have b: "a + f \<le> 4294967296" using assms(2) by (simp add: defs)
  have a: "a = 4096 * q + off" "off < 4096" by (simp_all add: defs)
  have cnt: "(a + f - 1) div 4096 = q + (off + f - 1) div 4096"
  proof -
    have "a + f - 1 = off + f - 1 + q * 4096" using a(1) f0 by simp
    then show ?thesis by simp
  qed
  have o: "unat (pageOff va) = off" by (simp add: unat_off defs)
  then have first: "unat (PG_SIZE - pageOff va) = 4096 - off"
    using a(2) by (subst unat_sub_small) simp_all
  show ?thesis
  proof (cases "fileSize > PG_SIZE - pageOff va")
    case True
    then have lt: "4096 - off < f" by (simp add: word_less_nat_alt first defs)
    have u1: "unat (fileSize - (PG_SIZE - pageOff va)) = f - (4096 - off)"
      using lt first by (subst unat_sub_small) (simp_all add: defs)
    have f32: "f < 4294967296" by (simp add: defs unat_less_u32)
    have u2: "unat (fileSize - (PG_SIZE - pageOff va) + PG_SIZE - 1) = off + f - 1"
    proof -
      have e: "fileSize - (PG_SIZE - pageOff va) + PG_SIZE - 1 = fileSize - (PG_SIZE - pageOff va) + 4095" by simp
      have "off + f - 1 < 4294967296" using b a(1) f0 by linarith
      then show ?thesis unfolding e using u1 lt a(2) by (subst unat_add_small) simp_all
    qed
    have "(off + f - 1) div 4096 < 4294967295"
      using b a(1) by linarith
    then have "unat (DIV_ROUND_UP (fileSize - (PG_SIZE - pageOff va)) PG_SIZE + 1) = (off + f - 1) div 4096 + 1"
      unfolding DIV_ROUND_UP_def using u2 by (subst unat_add_small) (simp_all add: unat_div)
    then show ?thesis
      using True cnt by (simp add: occupyPages_def Let_def defs [symmetric])
  next
    case False
    then have "f \<le> 4096 - off" by (simp add: word_less_nat_alt first defs)
    then have "(off + f - 1) div 4096 = 0" using f0 a(2) by simp
    then show ?thesis using False cnt by (simp add: occupyPages_def Let_def defs [symmetric])
  qed
qed

section \<open>Properties\<close>

text \<open>C28: the number of pages segmentLoad computes is the number of pages the segment touches: those from the
  page of its first byte to the page of its last byte. This holds for every segment that is not
  empty and does not run over the end of the address space; the round up does not overflow.\<close>

theorem occupyPages_exact:
  assumes "0 < fileSize" "unat va + unat fileSize \<le> 2 ^ 32"
  shows "unat (occupyPages fileSize va) = (unat va + unat fileSize - 1) div 4096 - unat va div 4096 + 1"
  using assms by (rule occupyPages_nat)

theorem occupyPages_exact_witness: "unat (occupyPages 2 0x8fff) = 2"
  using occupyPages_exact [of 2 "0x8fff"] by simp

text \<open>C29: segmentLoad maps one page, whatever the number of pages of the segment. With a free user page and
  nothing mapped at the segment, the loop over the pages returns with success; the page of the first byte
  is mapped and every other page is as it was, since from the second round on the test finds
  the entry of \<open>vaddr\<close> present.\<close>

theorem exec_maps_one_page:
  fixes s :: "'a kmem_scheme"
  assumes "pageReady (frameOf va) s" "frameOf va \<noteq> 0" "0 < fileSize" "unat va + unat fileSize \<le> 2 ^ 32"
  shows "\<exists>s'. segmentPages va (unat (occupyPages fileSize va)) (frameOf va) s = Inr (True, s') \<and> memInv s' \<and>
    mmu s' va \<noteq> None \<and> (\<forall>x. dIdx x \<noteq> 1023 \<longrightarrow> frameOf x \<noteq> frameOf va \<longrightarrow> mmu s' x = mmu s x)"
proof -
  have n: "0 < unat (occupyPages fileSize va)" using occupyPages_nat [OF assms(3,4)] by simp
  have "dIdx va \<noteq> 1023"
    using assms(1) frame_same_page [of "frameOf va" va] by (simp add: pageReady_def frame_aligned)
  then show ?thesis using segmentPages_first [OF assms(1,2) n] by fastforce
qed

definition demoExec :: kmem where
  "demoExec = demoMem\<lparr>tcb := (\<lambda>_. worker\<lparr>pageDir := 0xc0101000,
     vap := \<lparr>vbitMap = \<lparr>bm_length = 1, startAddr = [0, 0]\<rparr>, vstartAddr = 0x8000\<rparr>\<rparr>)\<rparr>"

theorem exec_maps_one_page_witness:
  "\<exists>s'. segmentPages 0x8ff0 (unat (occupyPages 0x20 0x8ff0)) 0x8000 demoExec = Inr (True, s') \<and>
    mmu s' 0x8ff0 \<noteq> None \<and> mmu s' 0x9000 = None"
proof -
  have e: "pmem demoExec = pmem demoMem" "cr3 demoExec = cr3 demoMem" "papOf q demoExec = papOf q demoMem" for q
    by (simp_all add: demoExec_def papOf_def del: pap_papOf)
  note m = memEq_inv [OF e]
  have i: "dIdx 0x8000 = 0" "dIdx 0x9000 = 0" by (simp_all add: dIdx_def)
  have un: "mmu demoExec 0x8000 = None" "mmu demoExec 0x9000 = None"
    unfolding m(2) by (simp_all add: mmu_ent i demo_entry)
  have "tableRoom 0x8000 demoMem"
  proof -
    have "0 \<in> freePages PF_KERNEL demoMem" by (simp add: demo_free)
    then show ?thesis unfolding tableRoom_def freePages_def by blast
  qed
  moreover have "lockFree UserPapLock demoExec"
    by (simp add: lockFree_def demoExec_def demoMem_def demoKio_def kio.defs ksched.defs bootedState_def mainStart_def semaInit_def)
  moreover have "{i :: nat. i < 8} \<noteq> {}" by (auto intro: exI [of _ 0])
  ultimately have "pageReady 0x8000 demoExec"
    using un(1) by (simp add: pageReady_def m demo_memInv demo_free i) (simp add: demoExec_def bm_cap_def bm_wf_def)
  then have "pageReady (frameOf 0x8ff0) demoExec" by simp
  then obtain s' where s': "segmentPages 0x8ff0 (unat (occupyPages 0x20 0x8ff0)) (frameOf 0x8ff0) demoExec = Inr (True, s')"
    "mmu s' 0x8ff0 \<noteq> None"
    "\<forall>x. dIdx x \<noteq> 1023 \<longrightarrow> frameOf x \<noteq> frameOf 0x8ff0 \<longrightarrow> mmu s' x = mmu demoExec x"
    using exec_maps_one_page [of "0x8ff0" demoExec "0x20"] by auto
  then have "mmu s' 0x9000 = mmu demoExec 0x9000" by (simp add: i)
  then show ?thesis using s'(1,2) un(2) by auto
qed

end
