(* ===== verification/Exit.thy ===== *)
theory Exit
  imports Process
begin

text \<open>
  The end of a process and its parent: kernel/user/wait_exit.c and threadExit of kernel/thread/thread.c; the
  list of processes that \<open>ps\<close> prints.
\<close>

section \<open>threadExit (kernel/thread/thread.c)\<close>

text \<open>The pid is read from the TaskStruct behind the release of its page: \<open>unmapPageTable\<close> gives invlpg the
  address of its parameter and not the page, so that the translation stays in the processor.\<close>

definition threadExit :: "u32 \<Rightarrow> bool \<Rightarrow> 'a kmem_scheme \<Rightarrow> 'a kmem_scheme res" where
  "threadExit threadOver needSchedule s =
     ((let s = updTask threadOver (\<lambda>t. t\<lparr>status := TASK_DIED\<rparr>) (disableIntr s) in
     (let s = s\<lparr>threadReadyList := remove1 threadOver (threadReadyList s)\<rparr> in
     rbind (if pageDir (tcb s threadOver) \<noteq> NULLPTR then freePage PF_KERNEL (pageDir (tcb s threadOver)) 1 s else Inr s) (\<lambda>s.
     (if threadOver \<notin> set (threadAllList s) then Inl OutOfBounds else
     (let s = s\<lparr>threadAllList := remove1 threadOver (threadAllList s)\<rparr> in
     rbind (if threadOver \<noteq> mainThread s then freePage PF_KERNEL threadOver 1 s else Inr s) (\<lambda>s.
     rbind (releasePid (pid (tcb s threadOver)) s) (\<lambda>s.
     (if needSchedule then schedule s else
     Inr s)))))))))"

section \<open>Releasing the resources of a process (kernel/user/wait_exit.c)\<close>

text \<open>The loop over a page table: \<open>pte = *vPdePtr\<close> reads the directory entry again.\<close>

fun releaseTable :: "u32 \<Rightarrow> nat \<Rightarrow> 'a kmem_scheme \<Rightarrow> 'a kmem_scheme res" where
  "releaseTable vPdePtr 0 s = Inr s"
| "releaseTable vPdePtr (Suc n) s =
     (rbind (vread vPdePtr s) (\<lambda>pte.
     rbind (if pte AND 1 \<noteq> 0 then freePhyAddr (pte AND 0xfffff000) s else Inr s) (\<lambda>s.
     releaseTable vPdePtr n s)))"

text \<open>The loop over the page directory, \<open>n\<close> entries to go from \<open>vPdePtr\<close> on.\<close>

fun releasePages :: "u32 \<Rightarrow> nat \<Rightarrow> 'a kmem_scheme \<Rightarrow> 'a kmem_scheme res" where
  "releasePages vPdePtr 0 s = Inr s"
| "releasePages vPdePtr (Suc n) s =
     (rbind (vread vPdePtr s) (\<lambda>pde.
     rbind (if pde AND 1 \<noteq> 0 then
         (rbind (releaseTable vPdePtr 1024 s) (\<lambda>s. freePhyAddr (pde AND 0xfffff000) s))
       else Inr s) (\<lambda>s.
     releasePages (vPdePtr + 4) n s)))"

fun closeFds :: "u32 \<Rightarrow> nat list \<Rightarrow> 'a kfs_scheme \<Rightarrow> 'a kfs_scheme res" where
  "closeFds thread [] s = Inr s"
| "closeFds thread (fdIdx # fds) s =
     (rbind (if fdTable (tcb s thread) ! fdIdx \<noteq> - 1 then
         (rbind (sysClose (of_nat fdIdx) s) (\<lambda>(r, s). Inr s))
       else Inr s) (\<lambda>s.
     closeFds thread fds s))"

definition releaseProgramResource :: "u32 \<Rightarrow> 'a kproc_scheme \<Rightarrow> 'a kproc_scheme res" where
  "releaseProgramResource thread s =
     (rbind (releasePages (pageDir (tcb s thread)) 768 s) (\<lambda>s.
     rbind (freePage PF_KERNEL (vbmAddr s thread) vbmPgCnt s) (\<lambda>s.
     closeFds thread [3..<MAX_FILE_OPEN_PER_PROC] s)))"

section \<open>Parents and children (kernel/user/wait_exit.c)\<close>

definition findChild :: "'a ksched_scheme \<Rightarrow> u32 \<Rightarrow> u32 \<Rightarrow> bool" where
  "findChild s ppid t = (parentPid (tcb s t) = ppid)"

definition findHangingChild :: "'a ksched_scheme \<Rightarrow> u32 \<Rightarrow> u32 \<Rightarrow> bool" where
  "findHangingChild s ppid t = (parentPid (tcb s t) = ppid \<and> status (tcb s t) = TASK_HANGING)"

definition initAdoptChild :: "u32 \<Rightarrow> u32 \<Rightarrow> 'a ksched_scheme \<Rightarrow> 'a ksched_scheme" where
  "initAdoptChild p t s = (if parentPid (tcb s t) = p then updTask t (\<lambda>t. t\<lparr>parentPid := 4\<rparr>) s else s)"

text \<open>\<open>listTraversal(&threadAllList, initAdoptChild, pid)\<close>: the function never stops the traversal.\<close>

definition adoptAll :: "u32 \<Rightarrow> 'a ksched_scheme \<Rightarrow> 'a ksched_scheme" where
  "adoptAll p s = fold (initAdoptChild p) (threadAllList s) s"

text \<open>The values of the enumeration. An exit code that is none of them is not represented: \<open>threadBlock\<close>
  overwrites the field before anything reads it.\<close>

definition statusNo :: "TaskStatus \<Rightarrow> u32" where
  "statusNo st = (case st of TASK_RUNNING \<Rightarrow> 0 | TASK_READY \<Rightarrow> 1 | TASK_BLOCKED \<Rightarrow> 2 | TASK_WAITING \<Rightarrow> 3
     | TASK_HANGING \<Rightarrow> 4 | TASK_DIED \<Rightarrow> 5)"

definition statusOfNo :: "u32 \<Rightarrow> TaskStatus \<Rightarrow> TaskStatus" where
  "statusOfNo n old = (if n = 0 then TASK_RUNNING else if n = 1 then TASK_READY else if n = 2 then TASK_BLOCKED
     else if n = 3 then TASK_WAITING else if n = 4 then TASK_HANGING else if n = 5 then TASK_DIED else old)"

text \<open>One round of the loop of \<open>sysWait\<close>: the pid returned and the value stored in \<open>*status\<close>, or None when the
  thread has blocked. It makes the next round when it runs again.\<close>

definition sysWait :: "'a kmem_scheme \<Rightarrow> ((u32 \<times> u32 option) option \<times> 'a kmem_scheme) res" where
  "sysWait s =
     (let parentThread = curThread s; ppid = pid (tcb s parentThread) in
      case find (findHangingChild s ppid) (threadAllList s) of
        Some childThread \<Rightarrow>
          (let st = statusNo (status (tcb s childThread)); childPid = (ucast (ucast (pid (tcb s childThread)) :: u16) :: u32) in
           (rbind (threadExit childThread False s) (\<lambda>s. Inr (Some (childPid, Some st), s))))
      | None \<Rightarrow>
          (case find (findChild s ppid) (threadAllList s) of
             None \<Rightarrow> Inr (Some (- 1, None), s)
           | Some _ \<Rightarrow> (rbind (threadBlock TASK_WAITING s) (\<lambda>s. Inr (None, s)))))"

definition sysExit :: "u32 \<Rightarrow> 'a kproc_scheme \<Rightarrow> 'a kproc_scheme res" where
  "sysExit code s =
     ((let childThread = curThread s in
     (let s = updTask childThread (\<lambda>t. t\<lparr>status := statusOfNo code (status t)\<rparr>) s in
     assertC ''sysExit: childThread->parentPid = -1'' (parentPid (tcb s childThread) \<noteq> - 1) (
     (let s = adoptAll (pid (tcb s childThread)) s in
     rbind (releaseProgramResource childThread s) (\<lambda>s.
     (let parentThread = pidToThread (parentPid (tcb s childThread)) s in
     deref parentThread
       (rbind (if status (tcb s parentThread) = TASK_WAITING then threadUnblock parentThread s else Inr s) (\<lambda>s.
       threadBlock TASK_HANGING s)))))))))"

section \<open>ps (kernel/thread/thread.c, shell/buildin_cmd.c)\<close>

definition statusText :: "TaskStatus \<Rightarrow> string" where
  "statusText st = (case st of TASK_RUNNING \<Rightarrow> ''RUNNING   '' | TASK_READY \<Rightarrow> ''READY     ''
     | TASK_BLOCKED \<Rightarrow> ''BLOCKED   '' | TASK_WAITING \<Rightarrow> ''WAITING   '' | TASK_HANGING \<Rightarrow> ''HANGING   '' | TASK_DIED \<Rightarrow> ''DIED      '')"

text \<open>A column of eleven bytes with a number in it.\<close>

definition psNumber :: "u8 list \<Rightarrow> u32 \<Rightarrow> 'a kfs_scheme \<Rightarrow> (u8 list \<times> 'a kfs_scheme) res" where
  "psNumber buf n s =
     (rbind (sprintStack (replicate 11 32 @ drop 11 buf) (fmt ''%d'') [VInt n] s) (\<lambda>buf.
     rbind (sysWrite 1 buf 11 s) (\<lambda>(r, s).
     Inr (buf, s))))"

definition threadPrintFunc :: "u32 \<Rightarrow> 'a kfs_scheme \<Rightarrow> 'a kfs_scheme res" where
  "threadPrintFunc t s =
     (rbind (psNumber (32 # replicate 15 0) (pid (tcb s t)) s) (\<lambda>(buf, s).
     rbind (if parentPid (tcb s t) = - 1 then (rbind (sysWrite 1 (fmt ''NULL       '') 11 s) (\<lambda>(r, s). Inr s))
       else (rbind (sprintStack (replicate 16 32) (fmt ''%d'') [VInt (parentPid (tcb s t))] s) (\<lambda>buf.
         rbind (sysWrite 1 buf 11 s) (\<lambda>(r, s). Inr s)))) (\<lambda>s.
     rbind (sprintStack (replicate 16 32) (fmt ''%s'') [VStr (name (tcb s t))] s) (\<lambda>buf.
     (let buf = map (\<lambda>c. if c = 0 then 32 else c) buf in
     rbind (sysWrite 1 buf 16 s) (\<lambda>(r, s).
     rbind (psNumber buf (priority (tcb s t)) s) (\<lambda>(buf, s).
     rbind (psNumber buf (ticks (tcb s t)) s) (\<lambda>(buf, s).
     rbind (sysWrite 1 (fmt (statusText (status (tcb s t)))) 11 s) (\<lambda>(r, s).
     rbind (sysWrite 1 [10, 0] 1 s) (\<lambda>(r, s).
     Inr s))))))))))"

fun printAll :: "u32 list \<Rightarrow> 'a kfs_scheme \<Rightarrow> 'a kfs_scheme res" where
  "printAll [] s = Inr s"
| "printAll (t # ts) s = (rbind (threadPrintFunc t s) (\<lambda>s. printAll ts s))"

definition sysPs :: "'a kfs_scheme \<Rightarrow> 'a kfs_scheme res" where
  "sysPs s =
     ((let title = fmtln ''PID        PPID       NAME            PRIORITY   TICKS      STATUS'' in
     rbind (strlen title) (\<lambda>n.
     rbind (sysWrite 1 title (of_nat n) s) (\<lambda>(r, s).
     printAll (threadAllList s) s))))"

definition buildinPs :: "int \<Rightarrow> 'a kfs_scheme \<Rightarrow> 'a kfs_scheme res" where
  "buildinPs argc s =
     (if argc \<noteq> 1 then uprintf (fmtln ''ps: no argument support'') [] s else sysPs s)"

end
