(* ===== verification/ExitProps.thy ===== *)
theory ExitProps
  imports Exit
begin

text \<open>
  The end of a process: what exit gives back, who inherits the children, what threadExit and wait do.
\<close>

section \<open>Freeing physical pages only\<close>

text \<open>\<open>s'\<close> differs from \<open>s\<close> in that the kernel pool pages of \<open>A\<close> are free.\<close>

definition kfreed :: "nat set \<Rightarrow> 'a kmem_scheme \<Rightarrow> 'a kmem_scheme \<Rightarrow> bool" where
  "kfreed A s s' \<longleftrightarrow> sameRest s s' \<and> pmem s' = pmem s \<and> poolInv s' \<and>
     (\<forall>q. ppStart (papOf q s') = ppStart (papOf q s) \<and> papCap (papOf q s') = papCap (papOf q s) \<and>
       (\<forall>j. papUsed (papOf q s') j = (papUsed (papOf q s) j \<and> \<not> (q = PF_KERNEL \<and> j \<in> A))))"

lemma sameRest_cr3: "sameRest s s' \<Longrightarrow> cr3 s' = cr3 s"
  unfolding sameRest_def by (drule arg_cong [of _ _ cr3]) simp

lemma kfreedD:
  assumes "kfreed A s s'"
  shows "sameRest s s'" "poolInv s'" "mmu s' va = mmu s va" "pmem s' = pmem s"
    "papCap (papOf q s') = papCap (papOf q s)" "papPage (papOf q s') j = papPage (papOf q s) j"
    "papUsed (papOf q s') j = (papUsed (papOf q s) j \<and> \<not> (q = PF_KERNEL \<and> j \<in> A))"
proof -
  note f = assms [unfolded kfreed_def]
  then show "sameRest s s'" "poolInv s'" "pmem s' = pmem s" by blast+
  then show "mmu s' va = mmu s va" using mmu_cong sameRest_cr3 by metis
  have q: "ppStart (papOf q s') = ppStart (papOf q s)" "papCap (papOf q s') = papCap (papOf q s)"
    "papUsed (papOf q s') j = (papUsed (papOf q s) j \<and> \<not> (q = PF_KERNEL \<and> j \<in> A))" for q j
    using f by blast+
  then show "papCap (papOf q s') = papCap (papOf q s)"
    "papUsed (papOf q s') j = (papUsed (papOf q s) j \<and> \<not> (q = PF_KERNEL \<and> j \<in> A))" by blast+
  show "papPage (papOf q s') j = papPage (papOf q s) j" using q(1) by (simp add: papPage_def)
qed

lemma kfreed_refl: "poolInv s \<Longrightarrow> kfreed {} s s"
  by (simp add: kfreed_def)

lemma kfreed_trans: "kfreed A s s1 \<Longrightarrow> kfreed B s1 s2 \<Longrightarrow> kfreed (A \<union> B) s s2"
  unfolding kfreed_def by (auto intro: sameRest_trans)

lemma kfreed_free:
  assumes "poolInv s" "i < papCap (papOf PF_KERNEL s)"
  shows "\<exists>s'. freePhyAddr (papPage (papOf PF_KERNEL s) i) s = Inr s' \<and> kfreed {i} s s'"
proof -
  obtain s' where s': "freePhyAddr (papPage (papOf PF_KERNEL s) i) s = Inr s'" "papMarked PF_KERNEL i False s s'"
    using freePhyAddr_ok [OF assms] by blast
  have "sameRest s s'" using s'(2) unfolding papMarked_def by auto
  then have "kfreed {i} s s'"
    using papMarkedD(1,2,3) [OF s'(2)] papMarkedD(4) [OF s'(2) assms(1)] papMarkedD(5) [OF s'(2)]
    by (simp add: kfreed_def)
  then show ?thesis using s'(1) by blast
qed

section \<open>The page tables of a process at its exit\<close>

text \<open>The directory entry at the virtual address \<open>a\<close>: absent, or a page table in a page of the kernel pool.\<close>

definition dirEntry :: "'a kmem_scheme \<Rightarrow> u32 \<Rightarrow> nat option \<Rightarrow> bool" where
  "dirEntry s a t \<longleftrightarrow> (\<exists>pa. mmu s a = Some pa \<and>
     (case t of None \<Rightarrow> \<not> present (pmem s pa)
      | Some i \<Rightarrow> present (pmem s pa) \<and> i < papCap (papOf PF_KERNEL s) \<and> frameOf (pmem s pa) = papPage (papOf PF_KERNEL s) i))"

lemma dirEntry_kfreed: "kfreed A s s' \<Longrightarrow> dirEntry s' a t = dirEntry s a t"
  by (simp add: dirEntry_def kfreedD split: option.splits)

lemma releaseTable_ok:
  assumes "poolInv s" "dirEntry s a (Some i)"
  shows "\<exists>s' A. releaseTable a n s = Inr s' \<and> kfreed A s s' \<and> A \<subseteq> {i}"
  using assms
proof (induction n arbitrary: s)
  case 0
  then show ?case using kfreed_refl by (intro exI [of _ s] exI [of _ "{}"]) simp
next
  case (Suc n)
  obtain pa where pa: "mmu s a = Some pa" "present (pmem s pa)" "i < papCap (papOf PF_KERNEL s)"
    "frameOf (pmem s pa) = papPage (papOf PF_KERNEL s) i" using Suc.prems(2) by (auto simp: dirEntry_def)
  obtain s1 where s1: "freePhyAddr (papPage (papOf PF_KERNEL s) i) s = Inr s1" "kfreed {i} s s1"
    using kfreed_free [OF Suc.prems(1) pa(3)] by blast
  have "poolInv s1" "dirEntry s1 a (Some i)" using kfreedD(2) [OF s1(2)] Suc.prems(2) dirEntry_kfreed [OF s1(2)] by simp_all
  then obtain s' A where s': "releaseTable a n s1 = Inr s'" "kfreed A s1 s'" "A \<subseteq> {i}" using Suc.IH by blast
  have "releaseTable a (Suc n) s = Inr s'" using pa s1(1) s'(1) by (simp add: vread_def)
  then show ?case using kfreed_trans [OF s1(2) s'(2)] s'(3) by blast
qed

lemma releasePages_ok:
  assumes "poolInv s" "\<forall>k < n. dirEntry s (p + 4 * of_nat k) (tab k)"
  shows "\<exists>s'. releasePages p n s = Inr s' \<and> kfreed {i. \<exists>k < n. tab k = Some i} s s'"
  using assms
proof (induction n arbitrary: s p tab)
  case 0
  then show ?case using kfreed_refl by simp
next
  case (Suc n)
  have d0: "dirEntry s p (tab 0)" using Suc.prems(2) by auto
  have later: "\<forall>k < n. dirEntry s (p + 4 + 4 * of_nat k) (tab (Suc k))"
    using Suc.prems(2) by (auto simp: algebra_simps)
  have step: ?case if s1: "kfreed A s s1" "releasePages p (Suc n) s = releasePages (p + 4) n s1"
    "A = {i. tab 0 = Some i}" for A s1
  proof -
    have "poolInv s1" "\<forall>k < n. dirEntry s1 (p + 4 + 4 * of_nat k) (tab (Suc k))"
      using kfreedD(2) [OF s1(1)] later dirEntry_kfreed [OF s1(1)] by simp_all
    then obtain s' where s': "releasePages (p + 4) n s1 = Inr s'" "kfreed {i. \<exists>k < n. tab (Suc k) = Some i} s1 s'"
      using Suc.IH [of s1 "p + 4" "\<lambda>k. tab (Suc k)"] by blast
    have "A \<union> {i. \<exists>k < n. tab (Suc k) = Some i} = {i. \<exists>k < Suc n. tab k = Some i}"
      unfolding s1(3) by (auto simp: less_Suc_eq_0_disj)
    then show ?thesis using kfreed_trans [OF s1(1) s'(2)] s1(2) s'(1) by simp
  qed
  obtain pa where pa: "mmu s p = Some pa" using d0 by (auto simp: dirEntry_def)
  show ?case
  proof (cases "tab 0")
    case None
    then have "\<not> present (pmem s pa)" using d0 pa by (simp add: dirEntry_def)
    then show ?thesis using step [OF kfreed_refl [OF Suc.prems(1)]] None pa by (simp add: vread_def)
  next
    case (Some i)
    then have e: "present (pmem s pa)" "i < papCap (papOf PF_KERNEL s)" "frameOf (pmem s pa) = papPage (papOf PF_KERNEL s) i"
      using d0 pa by (simp_all add: dirEntry_def)
    obtain s1 A where s1: "releaseTable p 1024 s = Inr s1" "kfreed A s s1" "A \<subseteq> {i}"
      using releaseTable_ok [OF Suc.prems(1), of p i 1024] d0 Some by auto
    obtain s2 where s2: "freePhyAddr (papPage (papOf PF_KERNEL s) i) s1 = Inr s2" "kfreed {i} s1 s2"
      using kfreed_free [OF kfreedD(2) [OF s1(2)], of i] e(2) kfreedD(5,6) [OF s1(2)] by auto
    have A: "A \<union> {i} = {i'. tab 0 = Some i'}" using s1(3) Some by auto
    have "releasePages p (Suc n) s = releasePages (p + 4) n s2"
      using pa e s1(1) s2(1) by (simp add: vread_def del: releaseTable.simps)
    then show ?thesis using step [OF kfreed_trans [OF s1(2) s2(2)] _ A] by blast
  qed
qed

section \<open>Adoption\<close>

lemma initAdoptChild_tcb:
  "tcb (initAdoptChild p t s) t' = (if t' = t \<and> parentPid (tcb s t) = p then (tcb s t)\<lparr>parentPid := 4\<rparr> else tcb s t')"
  by (simp add: initAdoptChild_def updTask_def)

lemma fold_adopt_tcb:
  "p \<noteq> 4 \<Longrightarrow> tcb (fold (initAdoptChild p) ts s) t = (if t \<in> set ts \<and> parentPid (tcb s t) = p then (tcb s t)\<lparr>parentPid := 4\<rparr> else tcb s t)"
  by (induction ts arbitrary: s) (auto simp: initAdoptChild_tcb)

section \<open>Freeing one kernel page\<close>

lemma sameRest_kernelVap: "sameRest s s2 \<Longrightarrow> sameRest (s\<lparr>kernelVap := kv\<rparr>) (s2\<lparr>kernelVap := kv\<rparr>)"
proof -
  assume a: "sameRest s s2"
  have "(s\<lparr>kernelVap := kv\<rparr>)\<lparr>pmem := pmem s2, kernelPap := kernelPap s2, userPap := userPap s2\<rparr> =
      (s\<lparr>pmem := pmem s2, kernelPap := kernelPap s2, userPap := userPap s2\<rparr>)\<lparr>kernelVap := kv\<rparr>"
    by (simp del: pap_papOf)
  also have "\<dots> = s2\<lparr>kernelVap := kv\<rparr>" using a by (simp only: sameRest_def)
  finally show ?thesis by (simp add: sameRest_def del: pap_papOf)
qed

definition kheapOk :: "'a kmem_scheme \<Rightarrow> bool" where
  "kheapOk s \<longleftrightarrow> poolInv s \<and> pagingInv s \<and> 0x102000 < unat (ppStart (papOf PF_KERNEL s)) \<and> bm_wf (vbitMap (kernelVap s))"

text \<open>Page \<open>k\<close> of the kernel's virtual pool is at \<open>va\<close> and stands for page \<open>i\<close> of the kernel's physical pool.\<close>

definition kpage :: "'a kmem_scheme \<Rightarrow> u32 \<Rightarrow> nat \<Rightarrow> nat \<Rightarrow> bool" where
  "kpage s va i k \<longleftrightarrow> va = vpage (vstartAddr (kernelVap s)) k \<and> k < bm_cap (vbitMap (kernelVap s)) \<and>
     unat (vstartAddr (kernelVap s)) + 4096 * k < 4294967296 \<and> pgAligned va \<and> dIdx va < 1023 \<and>
     present (pdEnt s (dIdx va)) \<and> i < papCap (papOf PF_KERNEL s) \<and> mmu s va = Some (papPage (papOf PF_KERNEL s) i)"

definition pageGone :: "u32 \<Rightarrow> nat \<Rightarrow> nat \<Rightarrow> 'a kmem_scheme \<Rightarrow> 'a kmem_scheme \<Rightarrow> bool" where
  "pageGone va i k s s' \<longleftrightarrow> kheapOk s' \<and> sameRest (s\<lparr>kernelVap := kernelVap s'\<rparr>) s' \<and>
     vstartAddr (kernelVap s') = vstartAddr (kernelVap s) \<and> bm_cap (vbitMap (kernelVap s')) = bm_cap (vbitMap (kernelVap s)) \<and>
     (\<forall>j. bm_used (vbitMap (kernelVap s')) j = (bm_used (vbitMap (kernelVap s)) j \<and> j \<noteq> k)) \<and>
     (\<forall>q. ppStart (papOf q s') = ppStart (papOf q s) \<and> papCap (papOf q s') = papCap (papOf q s) \<and>
       (\<forall>j. papUsed (papOf q s') j = (papUsed (papOf q s) j \<and> \<not> (q = PF_KERNEL \<and> j = i)))) \<and>
     (\<forall>j < 1024. pdEnt s' j = pdEnt s j) \<and>
     (\<forall>x. mmu s' x = (if pgNo x = pgNo va then None else mmu s x))"

lemma freePage_one:
  assumes h: "kheapOk s" and p: "kpage s va i k"
  shows "\<exists>s'. freePage PF_KERNEL va 1 s = Inr s' \<and> pageGone va i k s s'"
proof -
  have hd: "poolInv s" "pagingInv s" "0x102000 < unat (ppStart (papOf PF_KERNEL s))" "bm_wf (vbitMap (kernelVap s))"
    using h by (simp_all add: kheapOk_def)
  let ?st = "vstartAddr (kernelVap s)" and ?vb = "vbitMap (kernelVap s)" and ?pa = "papPage (papOf PF_KERNEL s) i"
  have pd: "va = vpage ?st k" "k < bm_cap ?vb" "unat ?st + 4096 * k < 4294967296" "pgAligned va" "dIdx va < 1023"
    "present (pdEnt s (dIdx va))" "i < papCap (papOf PF_KERNEL s)" "mmu s va = Some ?pa"
    using p unfolding kpage_def by blast+
  obtain s1 s2 where s2: "addrV2P va s = Inr ?pa" "freePhyAddr ?pa s = Inr s1" "unmapPageTable va s1 = Inr s2"
    "sameRest s s2" "poolInv s2" "pagingInv s2"
    "\<forall>q. ppStart (papOf q s2) = ppStart (papOf q s) \<and> papCap (papOf q s2) = papCap (papOf q s) \<and>
       (\<forall>j. papUsed (papOf q s2) j = (papUsed (papOf q s) j \<and> \<not> (q = PF_KERNEL \<and> j = i)))"
    "\<forall>j < 1024. pdEnt s2 j = pdEnt s j" "\<forall>x. mmu s2 x = (if pgNo x = pgNo va then None else mmu s x)"
    using unback_page [OF hd(1,2) pd(7,5,6,8)] by blast
  note u = unat_papPage [OF poolInv_wf [OF hd(1)] pd(7)]
  have al: "?pa mod PG_SIZE = 0" "va mod PG_SIZE = 0"
    using papPage_facts(1) [OF poolInv_wf [OF hd(1)] pd(7)] pd(4)
    by (simp_all add: pgAligned_def word_unat_eq_iff unat_mod del: unat_inj_iff)
  have hi: "?pa > 0x102000" "?pa \<ge> ppStart (papOf PF_KERNEL s)" "?pa < ppStart (papOf PF_USER s)"
    using u hd(1,3) pd(7) by (simp_all add: word_less_nat_alt word_le_nat_alt poolInv_def)
  have v2: "vapOf PF_KERNEL s2 = kernelVap s" using sameRest_vapOf [OF s2(4), of PF_KERNEL] by (simp add: vapOf_def)
  have idx: "unat ((va - ?st) div PG_SIZE) = k"
    unfolding pd(1) using unat_vpage [OF pd(3)] by (simp add: unat_div unat_sub_small)
  obtain bm where bm: "setRun ?vb ((va - ?st) div PG_SIZE) 1 False = Inr bm" "bm_same_shape ?vb bm"
    "\<forall>j. bm_used bm j = (if k \<le> j \<and> j < k + 1 then False else bm_used ?vb j)"
    using setRun_spec [OF hd(4), of "(va - ?st) div PG_SIZE" 1 False] pd(2) unfolding idx by auto
  have f: "freePage PF_KERNEL va 1 s = Inr (setVapBits PF_KERNEL bm s2)"
    using al hi s2(1-3) bm(1) by (simp add: freePage_def freeVirAddr_def v2)
  have kv: "kernelVap s2 = kernelVap s" using v2 by (simp add: vapOf_def)
  have e: "setVapBits PF_KERNEL bm s2 = s2\<lparr>kernelVap := (kernelVap s)\<lparr>vbitMap := bm\<rparr>\<rparr>" by (simp add: setVapBits_def kv)
  have "pageGone va i k s (setVapBits PF_KERNEL bm s2)"
    unfolding pageGone_def kheapOk_def
  proof (intro conjI)
    show "poolInv (setVapBits PF_KERNEL bm s2)" "pagingInv (setVapBits PF_KERNEL bm s2)"
      using s2(5,6) by (simp_all add: poolInv_def pagingInv_def)
    show "0x102000 < unat (ppStart (papOf PF_KERNEL (setVapBits PF_KERNEL bm s2)))" using hd(3) s2(7) by simp
    show "bm_wf (vbitMap (kernelVap (setVapBits PF_KERNEL bm s2)))" unfolding e using bm_wf_same_shape [OF bm(2)] hd(4) by simp
    show "sameRest (s\<lparr>kernelVap := kernelVap (setVapBits PF_KERNEL bm s2)\<rparr>) (setVapBits PF_KERNEL bm s2)"
      unfolding e using sameRest_kernelVap [OF s2(4)] by simp
    show "vstartAddr (kernelVap (setVapBits PF_KERNEL bm s2)) = ?st" unfolding e by simp
    show "bm_cap (vbitMap (kernelVap (setVapBits PF_KERNEL bm s2))) = bm_cap ?vb" unfolding e using bm_cap_same_shape [OF bm(2)] by simp
    show "\<forall>j. bm_used (vbitMap (kernelVap (setVapBits PF_KERNEL bm s2))) j = (bm_used ?vb j \<and> j \<noteq> k)"
      unfolding e using bm(3) by auto
    show "\<forall>x. mmu (setVapBits PF_KERNEL bm s2) x = (if pgNo x = pgNo va then None else mmu s x)" using s2(9) by simp
    show "\<forall>j < 1024. pdEnt (setVapBits PF_KERNEL bm s2) j = pdEnt s j" using s2(8) by simp
    show "\<forall>q. ppStart (papOf q (setVapBits PF_KERNEL bm s2)) = ppStart (papOf q s) \<and>
      papCap (papOf q (setVapBits PF_KERNEL bm s2)) = papCap (papOf q s) \<and>
      (\<forall>j. papUsed (papOf q (setVapBits PF_KERNEL bm s2)) j = (papUsed (papOf q s) j \<and> \<not> (q = PF_KERNEL \<and> j = i)))"
      using s2(7) by simp
  qed
  then show ?thesis using f by blast
qed

lemma pageGone_fields:
  assumes "pageGone va i k s s'"
  shows "tcb s' = tcb s" "curThread s' = curThread s" "mainThread s' = mainThread s" "threadAllList s' = threadAllList s"
    "threadReadyList s' = threadReadyList s" "semas s' = semas s" "holder s' = holder s"
    "holderRepeatTimes s' = holderRepeatTimes s" "pidBitMap s' = pidBitMap s" "pidStart s' = pidStart s"
proof -
  have "s' = (s\<lparr>kernelVap := kernelVap s'\<rparr>)\<lparr>pmem := pmem s', kernelPap := kernelPap s', userPap := userPap s'\<rparr>"
    using assms unfolding pageGone_def sameRest_def by (elim conjE) (rule sym)
  then obtain kv m kp up where s': "s' = (s\<lparr>kernelVap := kv\<rparr>)\<lparr>pmem := m, kernelPap := kp, userPap := up\<rparr>" by blast
  show "tcb s' = tcb s" "curThread s' = curThread s" "mainThread s' = mainThread s" "threadAllList s' = threadAllList s"
    "threadReadyList s' = threadReadyList s" "semas s' = semas s" "holder s' = holder s"
    "holderRepeatTimes s' = holderRepeatTimes s" "pidBitMap s' = pidBitMap s" "pidStart s' = pidStart s"
    unfolding s' by simp_all
qed

lemma pageGoneD:
  assumes "pageGone va i k s s'"
  shows "kheapOk s'" "papUsed (papOf q s') j = (papUsed (papOf q s) j \<and> \<not> (q = PF_KERNEL \<and> j = i))"
    "papCap (papOf q s') = papCap (papOf q s)" "papPage (papOf q s') j = papPage (papOf q s) j"
    "mmu s' x = (if pgNo x = pgNo va then None else mmu s x)"
    "bm_used (vbitMap (kernelVap s')) j = (bm_used (vbitMap (kernelVap s)) j \<and> j \<noteq> k)"
proof -
  note g = assms [unfolded pageGone_def]
  show "kheapOk s'" "mmu s' x = (if pgNo x = pgNo va then None else mmu s x)"
    "bm_used (vbitMap (kernelVap s')) j = (bm_used (vbitMap (kernelVap s)) j \<and> j \<noteq> k)" using g by blast+
  have q: "\<forall>q. ppStart (papOf q s') = ppStart (papOf q s) \<and> papCap (papOf q s') = papCap (papOf q s) \<and>
       (\<forall>j. papUsed (papOf q s') j = (papUsed (papOf q s) j \<and> \<not> (q = PF_KERNEL \<and> j = i)))" using g by (elim conjE)
  then show "papUsed (papOf q s') j = (papUsed (papOf q s) j \<and> \<not> (q = PF_KERNEL \<and> j = i))"
    "papCap (papOf q s') = papCap (papOf q s)" by blast+
  show "papPage (papOf q s') j = papPage (papOf q s) j" using q by (simp add: papPage_def)
qed

lemma kpage_other:
  assumes "pageGone va i k s s'" "kpage s va' i' k'" "pgNo va' \<noteq> pgNo va"
  shows "kpage s' va' i' k'"
proof -
  note g = assms(1) [unfolded pageGone_def]
  have e: "vstartAddr (kernelVap s') = vstartAddr (kernelVap s)" "bm_cap (vbitMap (kernelVap s')) = bm_cap (vbitMap (kernelVap s))"
    "pdEnt s' (dIdx va') = pdEnt s (dIdx va')" using g idx_bound(1) by blast+
  have "mmu s' va' = mmu s va'" using assms(3) by (simp add: pageGoneD(5) [OF assms(1)])
  then have "kpage s' va' i' k' = kpage s va' i' k'"
    by (simp only: kpage_def e pageGoneD(3,4) [OF assms(1)])
  then show ?thesis using assms(2) by simp
qed

lemma memEq:
  assumes "pmem s' = pmem s" "cr3 s' = cr3 s" "\<And>q. papOf q s' = papOf q s" "kernelVap s' = kernelVap s"
  shows "kheapOk s' = kheapOk s" "kpage s' va i k = kpage s va i k" "mmu s' va = mmu s va"
proof -
  show m: "mmu s' va = mmu s va" for va by (rule mmu_cong [OF assms(1,2)])
  have "pdEnt s' j = pdEnt s j" for j using assms(1,2) by (simp add: pdEnt_def)
  then show "kpage s' va i k = kpage s va i k" using assms(3,4) m by (simp add: kpage_def)
  show "kheapOk s' = kheapOk s"
    using assms(3,4) poolInv_cong [OF assms(3)] pagingInv_cong [OF assms(1,2)] by (simp add: kheapOk_def)
qed

section \<open>threadExit\<close>

lemma releasePid_ok:
  fixes s :: "'a kmem_scheme"
  assumes l: "lockFree PidLock s" and b: "bm_wf (pidBitMap s)" "unat (p - pidStart s) < bm_cap (pidBitMap s)"
  shows "\<exists>s'. releasePid p s = Inr s' \<and> lockFree PidLock s' \<and> pidStart s' = pidStart s \<and>
    (\<forall>j. bm_used (pidBitMap s') j = (bm_used (pidBitMap s) j \<and> j \<noteq> unat (p - pidStart s))) \<and>
    tcb s' = tcb s \<and> threadAllList s' = threadAllList s \<and> threadReadyList s' = threadReadyList s \<and>
    curThread s' = curThread s \<and> (\<forall>q. papOf q s' = papOf q s) \<and> kernelVap s' = kernelVap s \<and>
    pmem s' = pmem s \<and> cr3 s' = cr3 s"
proof -
  obtain bm where bm: "bitMapSet (pidBitMap s) (p - pidStart s) False = Inr bm"
    "\<And>j. bm_used bm j = (if j = unat (p - pidStart s) then False else bm_used (pidBitMap s) j)"
    using bitMapSet_spec [OF bm_room [OF b], of False] by metis
  define s1 where "s1 = setHolder PidLock (curThread s) 1 (updSema PidLock (\<lambda>q. q\<lparr>val := 0\<rparr>) s)"
  define s2 where "s2 = s1\<lparr>pidBitMap := bm\<rparr>"
  have f1: "pidStart s1 = pidStart s" "pidBitMap s1 = pidBitMap s" by (simp_all add: s1_def setHolder_def updSema_def)
  have "lockUnlock PidLock s2 = Inr (setIntrStatus (getIntrStatus s2) (updSema PidLock (\<lambda>q. q\<lparr>blockedList := [], val := 1\<rparr>)
    (disableIntr (setHolder PidLock 0 0 s2))))"
    by (rule lockUnlock_last)
      (use l in \<open>simp_all add: s2_def s1_def setHolder_def updSema_def lockFree_def\<close>)
  then have r: "releasePid p s = Inr (setIntrStatus (getIntrStatus s2) (updSema PidLock (\<lambda>q. q\<lparr>blockedList := [], val := 1\<rparr>)
    (disableIntr (setHolder PidLock 0 0 s2))))"
    using lockNow_free [OF l] bm(1) f1 by (simp add: releasePid_def s1_def [symmetric] s2_def)
  show ?thesis
    using l bm(2) f1 unfolding r
    by (simp add: s2_def s1_def setHolder_def updSema_def lockFree_def setIntrStatus_def enableIntr_def disableIntr_def
        papOf_def del: pap_papOf)
qed

lemma threadExit_run:
  fixes s :: "'a kmem_scheme"
  assumes heap: "kheapOk s" and c: "c \<noteq> mainThread s" "c \<in> set (threadAllList s)"
    and d: "d = pageDir (tcb s c)" "d \<noteq> 0" "kpage s d i k" and pcb: "kpage s c i' k'" "pgNo c \<noteq> pgNo d"
    and pids: "lockFree PidLock s" "bm_wf (pidBitMap s)" "unat (pid (tcb s c) - pidStart s) < bm_cap (pidBitMap s)"
  shows "\<exists>s'. threadExit c False s = Inr s' \<and> threadAllList s' = remove1 c (threadAllList s) \<and>
    threadReadyList s' = remove1 c (threadReadyList s) \<and>
    tcb s' = (tcb s)(c := (tcb s c)\<lparr>status := TASK_DIED\<rparr>) \<and> curThread s' = curThread s \<and>
    (\<forall>j. bm_used (pidBitMap s') j = (bm_used (pidBitMap s) j \<and> j \<noteq> unat (pid (tcb s c) - pidStart s))) \<and>
    (\<forall>q j. papUsed (papOf q s') j = (papUsed (papOf q s) j \<and> \<not> (q = PF_KERNEL \<and> j \<in> {i, i'}))) \<and>
    (\<forall>j. bm_used (vbitMap (kernelVap s')) j = (bm_used (vbitMap (kernelVap s)) j \<and> j \<notin> {k, k'})) \<and>
    (\<forall>x. mmu s' x = (if pgNo x \<in> {pgNo c, pgNo d} then None else mmu s x)) \<and>
    kheapOk s' \<and> lockFree PidLock s'"
proof -
  define s0 where "s0 = (updTask c (\<lambda>t. t\<lparr>status := TASK_DIED\<rparr>) (disableIntr s))\<lparr>threadReadyList := remove1 c (threadReadyList s)\<rparr>"
  have f0: "tcb s0 = (tcb s)(c := (tcb s c)\<lparr>status := TASK_DIED\<rparr>)" "threadReadyList s0 = remove1 c (threadReadyList s)"
    "threadAllList s0 = threadAllList s" "curThread s0 = curThread s" "mainThread s0 = mainThread s" "kernelVap s0 = kernelVap s"
    "semas s0 = semas s" "holder s0 = holder s" "holderRepeatTimes s0 = holderRepeatTimes s" "pidBitMap s0 = pidBitMap s"
    "pidStart s0 = pidStart s" "pmem s0 = pmem s" "cr3 s0 = cr3 s" "papOf q s0 = papOf q s" for q
    by (simp_all add: s0_def updTask_def disableIntr_def papOf_def del: pap_papOf)
  note m0 = memEq [OF f0(12,13,14,6)]
  have "kheapOk s0" "kpage s0 d i k" using heap d(3) m0 by simp_all
  then obtain s1 where s1: "freePage PF_KERNEL d 1 s0 = Inr s1" "pageGone d i k s0 s1" using freePage_one by blast
  note f1 = pageGone_fields [OF s1(2)]
  define s2 where "s2 = s1\<lparr>threadAllList := remove1 c (threadAllList s)\<rparr>"
  have f2: "pmem s2 = pmem s1" "cr3 s2 = cr3 s1" "papOf q s2 = papOf q s1" "kernelVap s2 = kernelVap s1" for q
    by (simp_all add: s2_def papOf_def del: pap_papOf)
  note m2 = memEq [OF f2]
  have "kpage s0 c i' k'" using pcb(1) m0 by simp
  then have "kheapOk s2" "kpage s2 c i' k'" using pageGoneD(1) [OF s1(2)] kpage_other [OF s1(2) _ pcb(2)] m2 by simp_all
  then obtain s3 where s3: "freePage PF_KERNEL c 1 s2 = Inr s3" "pageGone c i' k' s2 s3" using freePage_one by blast
  note f3 = pageGone_fields [OF s3(2)]
  have l3: "lockFree PidLock s3" "pidBitMap s3 = pidBitMap s" "pidStart s3 = pidStart s" "tcb s3 = tcb s0"
    using pids(1) by (simp_all add: lockFree_def f3 s2_def f1 f0)
  have "bm_wf (pidBitMap s3)" "unat (pid (tcb s c) - pidStart s3) < bm_cap (pidBitMap s3)" using pids(2,3) l3 by simp_all
  then obtain s' where s': "releasePid (pid (tcb s c)) s3 = Inr s'" "lockFree PidLock s'"
    "\<forall>j. bm_used (pidBitMap s') j = (bm_used (pidBitMap s3) j \<and> j \<noteq> unat (pid (tcb s c) - pidStart s3))"
    "tcb s' = tcb s3" "threadAllList s' = threadAllList s3" "threadReadyList s' = threadReadyList s3"
    "curThread s' = curThread s3" "\<And>q. papOf q s' = papOf q s3" "kernelVap s' = kernelVap s3" "pmem s' = pmem s3" "cr3 s' = cr3 s3"
    using releasePid_ok [OF l3(1)] by blast
  note m4 = memEq [OF s'(10,11,8,9)]
  have e0: "(updTask c (\<lambda>t. t\<lparr>status := TASK_DIED\<rparr>) (disableIntr s))\<lparr>threadReadyList := remove1 c
      (threadReadyList (updTask c (\<lambda>t. t\<lparr>status := TASK_DIED\<rparr>) (disableIntr s)))\<rparr> = s0"
    by (simp add: s0_def updTask_def disableIntr_def)
  have "threadExit c False s = Inr s'"
    using d c s1(1) s3(1) s'(1)
    unfolding threadExit_def Let_def e0
    by (simp add: f0 f1 s2_def [symmetric] f3 l3) (simp add: s2_def f1 f0)
  moreover have "kheapOk s'" using pageGoneD(1) [OF s3(2)] m4 by simp
  moreover have "mmu s' x = (if pgNo x \<in> {pgNo c, pgNo d} then None else mmu s x)" for x
    by (simp add: m4 pageGoneD(5) [OF s3(2)] m2 pageGoneD(5) [OF s1(2)] m0)
  moreover have "papUsed (papOf q s') j = (papUsed (papOf q s) j \<and> \<not> (q = PF_KERNEL \<and> j \<in> {i, i'}))" for q j
    using s'(8) by (auto simp: pageGoneD(2) [OF s3(2)] f2 pageGoneD(2) [OF s1(2)] f0)
  moreover have "bm_used (vbitMap (kernelVap s')) j = (bm_used (vbitMap (kernelVap s)) j \<and> j \<notin> {k, k'})" for j
    using s'(9) by (auto simp: pageGoneD(6) [OF s3(2)] f2 pageGoneD(6) [OF s1(2)] f0)
  ultimately show ?thesis
    using s' l3 f3 by (simp add: s2_def f1 f0)
qed

section \<open>A machine with a process that has ended\<close>

text \<open>The TaskStruct of the process is in page 1 of the kernel heap, its page directory in page 0, the one
  page table in page 2 of the kernel pool, and its one page is page 0 of the user pool.\<close>

definition demoReap :: kmem where
  "demoReap = demoMem\<lparr>pmem := demoPmem(0x101400 := 0x200007, 0x101404 := 0x201007, 0x200000 := 0x202007, 0x202020 := 0x208007),
     kernelPap := \<lparr>ppBitMap = \<lparr>bm_length = 1, startAddr = [7, 0]\<rparr>, ppStart = 0x200000, ppSize = 0x8000\<rparr>,
     userPap := \<lparr>ppBitMap = \<lparr>bm_length = 1, startAddr = [1, 0]\<rparr>, ppStart = 0x208000, ppSize = 0x8000\<rparr>,
     kernelVap := \<lparr>vbitMap = \<lparr>bm_length = 2, startAddr = [3, 0, 0]\<rparr>, vstartAddr = K_HEAP_START\<rparr>,
     pidBitMap := \<lparr>bm_length = 1, startAddr = [7, 0]\<rparr>, pidStart := 1,
     tcb := (\<lambda>_. zeroTask)(1 := worker\<lparr>status := TASK_RUNNING, pid := 1\<rparr>, 2 := worker\<lparr>pid := 2\<rparr>,
       0xc0101000 := worker\<lparr>status := TASK_HANGING, pid := 3, parentPid := 1, pageDir := 0xc0100000\<rparr>),
     threadAllList := [1, 2, 0xc0101000], threadReadyList := [2]\<rparr>"

lemma demoReap_fields:
  "pmem demoReap = demoPmem(0x101400 := 0x200007, 0x101404 := 0x201007, 0x200000 := 0x202007, 0x202020 := 0x208007)"
  "cr3 demoReap = 0x100000" "curThread demoReap = 1" "mainThread demoReap = 1"
  "papOf PF_KERNEL demoReap = \<lparr>ppBitMap = \<lparr>bm_length = 1, startAddr = [7, 0]\<rparr>, ppStart = 0x200000, ppSize = 0x8000\<rparr>"
  "papOf PF_USER demoReap = \<lparr>ppBitMap = \<lparr>bm_length = 1, startAddr = [1, 0]\<rparr>, ppStart = 0x208000, ppSize = 0x8000\<rparr>"
  "kernelVap demoReap = \<lparr>vbitMap = \<lparr>bm_length = 2, startAddr = [3, 0, 0]\<rparr>, vstartAddr = K_HEAP_START\<rparr>"
  "pidBitMap demoReap = \<lparr>bm_length = 1, startAddr = [7, 0]\<rparr>" "pidStart demoReap = 1"
  "tcb demoReap = (\<lambda>_. zeroTask)(1 := worker\<lparr>status := TASK_RUNNING, pid := 1\<rparr>, 2 := worker\<lparr>pid := 2\<rparr>,
       0xc0101000 := worker\<lparr>status := TASK_HANGING, pid := 3, parentPid := 1, pageDir := 0xc0100000\<rparr>)"
  "threadAllList demoReap = [1, 2, 0xc0101000]" "threadReadyList demoReap = [2]" "lockFree PidLock demoReap"
  by (simp_all add: demoReap_def demoMem_def demoKio_def kio.defs ksched.defs bootedState_def mainStart_def papOf_def
      lockFree_def semaInit_def del: pap_papOf)

lemma demoReap_entry: "i < 1024 \<Longrightarrow> pdEnt demoReap i = (if i = 1023 then 0x100007 else if i = 768 then 0x101007 else 0)"
proof -
  assume i: "i < 1024"
  have f: "frameOf 0x100000 = (0x100000 :: u32)" "pgAligned 0x100000" by (simp_all add: pgAligned_def)
  have u: "unat (entry 0x100000 i) = 0x100000 + 4 * i" using unat_entry [OF f(2) i] by simp
  have n: "entry 0x100000 i \<noteq> 0x101400" "entry 0x100000 i \<noteq> 0x101404" "entry 0x100000 i \<noteq> 0x200000" "entry 0x100000 i \<noteq> 0x202020"
    using u i by (auto simp flip: unat_inj_iff)
  have "pdEnt demoReap i = pdEnt demoMem i"
    unfolding pdEnt_def demoReap_fields demoMem_fields f(1) using n by simp
  then show ?thesis using demo_entry [OF i] by simp
qed

lemma demoReap_pte:
  "t < 1024 \<Longrightarrow> ptEnt demoReap 768 t = (if t = 256 then 0x200007 else if t = 257 then 0x201007 else 0)"
proof -
  assume t: "t < 1024"
  have u: "unat (entry 0x101000 t) = 0x101000 + 4 * t" using unat_entry [of "0x101000" t] t by (simp add: pgAligned_def)
  have n: "entry 0x101000 t = 0x101400 \<longleftrightarrow> t = 256" "entry 0x101000 t = 0x101404 \<longleftrightarrow> t = 257"
    "entry 0x101000 t \<noteq> 0x200000" "entry 0x101000 t \<noteq> 0x202020" "entry 0x101000 t \<noteq> 0x100ffc" "entry 0x101000 t \<noteq> 0x100c00"
    using u t by (auto simp flip: unat_inj_iff)
  have f: "frameOf (pdEnt demoReap 768) = 0x101000" by (simp add: demoReap_entry)
  have e: "entry 0x101000 256 = 0x101400" "entry 0x101000 257 = 0x101404" by (simp_all add: entry_def)
  show ?thesis unfolding ptEnt_def f demoReap_fields demoPmem_def using n by (simp add: e)
qed

lemma demoReap_heap: "kheapOk demoReap"
proof -
  have "pagingInv demoReap"
    unfolding pagingInv_def by (auto simp: demoReap_entry demoReap_fields split: if_splits)
  moreover have "poolInv demoReap"
    by (simp add: poolInv_def papWf_def demoReap_fields bm_wf_def bm_cap_def pgAligned_def)
  ultimately show ?thesis by (simp add: kheapOk_def demoReap_fields bm_wf_def bm_cap_def)
qed

lemma demoReap_mmu:
  "k < 1024 \<Longrightarrow> mmu demoReap (0xc0100000 + 4 * of_nat k) = Some (0x200000 + 4 * of_nat k)"
  "mmu demoReap 0xc0101000 = Some 0x201000"
proof -
  assume k: "k < 1024"
  have u4: "unat (4 * of_nat k :: u32) = 4 * k"
    using unat_entry [of 0 k] k by (simp add: entry_def pgAligned_def)
  have u: "unat (0xc0100000 + 4 * of_nat k :: u32) = 768 * 4194304 + 256 * 4096 + 4 * k"
    using u4 k by (subst unat_add_small) simp_all
  have i: "dIdx (0xc0100000 + 4 * of_nat k) = 768" "tIdx (0xc0100000 + 4 * of_nat k) = 256"
    "pageOff (0xc0100000 + 4 * of_nat k) = 4 * of_nat k"
    using idx_of_split [OF u] k u4 by (simp_all flip: unat_inj_iff add: unat_off)
  show "mmu demoReap (0xc0100000 + 4 * of_nat k) = Some (0x200000 + 4 * of_nat k)"
    unfolding mmu_ent i by (simp add: demoReap_entry demoReap_pte)
next
  have i: "dIdx 0xc0101000 = 768" "tIdx 0xc0101000 = 257" by (simp_all add: dIdx_def tIdx_def)
  show "mmu demoReap 0xc0101000 = Some 0x201000" unfolding mmu_ent i by (simp add: demoReap_entry demoReap_pte)
qed

lemma demoReap_pages: "kpage demoReap 0xc0100000 0 0" "kpage demoReap 0xc0101000 1 1"
  using demoReap_mmu(1) [of 0] demoReap_mmu(2)
  by (simp_all add: kpage_def demoReap_fields vpage_def bm_cap_def pgAligned_def dIdx_def demoReap_entry papPage_def)

section \<open>Properties\<close>

text \<open>C31: the loop of exit over the page directory returns the pages of the page tables to the kernel pool and
  nothing else: for a directory whose present entries are tables in the kernel pool it returns, the
  pages of the tables are free, and the pages of the process, in the user pool, stay allocated. The inner
  loop frees the page of the table 1024 times, as it reads the directory entry for the table entry.\<close>

theorem exit_leaks_user_pages:
  assumes "poolInv s" "\<forall>k < n. dirEntry s (p + 4 * of_nat k) (tab k)"
  shows "\<exists>s'. releasePages p n s = Inr s' \<and>
    (\<forall>j. papUsed (papOf PF_KERNEL s') j = (papUsed (papOf PF_KERNEL s) j \<and> \<not> (\<exists>k < n. tab k = Some j))) \<and>
    (\<forall>j. papUsed (papOf PF_USER s') j = papUsed (papOf PF_USER s) j) \<and> (\<forall>va. mmu s' va = mmu s va)"
proof -
  obtain s' where s': "releasePages p n s = Inr s'" "kfreed {i. \<exists>k < n. tab k = Some i} s s'"
    using releasePages_ok [OF assms] by blast
  then show ?thesis using kfreedD(3,7) [OF s'(2)] by (intro exI [of _ s']) simp
qed

theorem exit_leaks_user_pages_witness:
  "\<exists>s'. releasePages (pageDir (tcb demoReap 0xc0101000)) 768 demoReap = Inr s' \<and>
    \<not> papUsed (papOf PF_KERNEL s') 2 \<and> papUsed (papOf PF_USER s') 0"
proof -
  define tab where "tab k = (if k = 0 then Some (2 :: nat) else None)" for k :: nat
  have "\<forall>k < 768. dirEntry demoReap (0xc0100000 + 4 * of_nat k) (tab k)"
  proof (intro allI impI)
    fix k :: nat assume k: "k < 768"
    have u: "unat (0x200000 + 4 * of_nat k :: u32) = 0x200000 + 4 * k"
      using unat_entry [of "0x200000" k] k by (simp add: pgAligned_def entry_def)
    have "0x200000 + 4 * of_nat k \<noteq> (0x101400 :: u32)" "0x200000 + 4 * of_nat k \<noteq> (0x101404 :: u32)"
      "0x200000 + 4 * of_nat k \<noteq> (0x202020 :: u32)" "0x200000 + 4 * of_nat k \<noteq> (0x100ffc :: u32)"
      "0x200000 + 4 * of_nat k \<noteq> (0x100c00 :: u32)" "0x200000 + 4 * of_nat k = (0x200000 :: u32) \<longleftrightarrow> k = 0"
      unfolding unat_inj_iff [symmetric] u using k by simp_all
    then have "pmem demoReap (0x200000 + 4 * of_nat k) = (if k = 0 then 0x202007 else 0)"
      unfolding demoReap_fields demoPmem_def by simp
    then show "dirEntry demoReap (0xc0100000 + 4 * of_nat k) (tab k)"
      using demoReap_mmu(1) [of k] k
      by (simp add: dirEntry_def tab_def demoReap_fields bm_cap_def papPage_def)
  qed
  moreover have "poolInv demoReap" using demoReap_heap by (simp add: kheapOk_def)
  ultimately obtain s' where r: "releasePages 0xc0100000 768 demoReap = Inr s'"
    "\<forall>j. papUsed (papOf PF_KERNEL s') j = (papUsed (papOf PF_KERNEL demoReap) j \<and> \<not> (\<exists>k < 768. tab k = Some j))"
    "\<forall>j. papUsed (papOf PF_USER s') j = papUsed (papOf PF_USER demoReap) j"
    using exit_leaks_user_pages [of demoReap 768 "0xc0100000" tab] by blast
  have "tab 0 = Some 2" by (simp add: tab_def)
  then have "\<not> papUsed (papOf PF_KERNEL s') 2" using r(2) [THEN spec, of 2] by (auto intro!: exI [of _ 0])
  moreover have "papUsed (papOf PF_USER demoReap) 0" by (simp add: demoReap_fields bm_used_def)
  then have "papUsed (papOf PF_USER s') 0" using r(3) by blast
  ultimately show ?thesis using r(1) by (simp add: demoReap_fields)
qed

text \<open>when a process ends its children get the parent 4, and only they: of the threads on the list of all
  threads those whose parent was the process have parent 4 afterwards, everything else is unchanged.
  The function is named for init, whose pid is 1, and gives the children to whatever process has pid 4.\<close>

theorem exit_gives_children_to_4:
  assumes "p \<noteq> 4"
  shows "tcb (adoptAll p s) t =
    (if t \<in> set (threadAllList s) \<and> parentPid (tcb s t) = p then (tcb s t)\<lparr>parentPid := 4\<rparr> else tcb s t)"
  unfolding adoptAll_def by (rule fold_adopt_tcb [OF assms])

theorem exit_gives_children_to_4_witness: "parentPid (tcb (adoptAll 1 demoReap) 0xc0101000) = 4"
  by (simp add: exit_gives_children_to_4 demoReap_fields)

text \<open>C30: wait reaps the first child that has ended: it returns, the result is the pid of that child, the child
  leaves the lists, its page directory, its TaskStruct and its pid are free, no other thread
  changes. The status it stores is 4, the number of TASK_HANGING, for every exit code.\<close>

theorem wait_reaps_child:
  fixes s :: "'a kmem_scheme"
  assumes "find (findHangingChild s (pid (tcb s (curThread s)))) (threadAllList s) = Some c"
    "kheapOk s" "c \<noteq> mainThread s" "pageDir (tcb s c) \<noteq> 0" "kpage s (pageDir (tcb s c)) i k" "kpage s c i' k'"
    "pgNo c \<noteq> pgNo (pageDir (tcb s c))" "lockFree PidLock s" "bm_wf (pidBitMap s)"
    "unat (pid (tcb s c) - pidStart s) < bm_cap (pidBitMap s)"
  shows "\<exists>s'. sysWait s = Inr (Some (ucast (ucast (pid (tcb s c)) :: u16), Some 4), s') \<and>
    threadAllList s' = remove1 c (threadAllList s) \<and> threadReadyList s' = remove1 c (threadReadyList s) \<and>
    tcb s' = (tcb s)(c := (tcb s c)\<lparr>status := TASK_DIED\<rparr>) \<and>
    (\<forall>j. bm_used (pidBitMap s') j = (bm_used (pidBitMap s) j \<and> j \<noteq> unat (pid (tcb s c) - pidStart s))) \<and>
    (\<forall>q j. papUsed (papOf q s') j = (papUsed (papOf q s) j \<and> \<not> (q = PF_KERNEL \<and> j \<in> {i, i'}))) \<and>
    (\<forall>j. bm_used (vbitMap (kernelVap s')) j = (bm_used (vbitMap (kernelVap s)) j \<and> j \<notin> {k, k'})) \<and> kheapOk s'"
proof -
  have c: "c \<in> set (threadAllList s)" "status (tcb s c) = TASK_HANGING"
    using assms(1) by (auto simp: find_Some_iff findHangingChild_def)
  obtain s' where s': "threadExit c False s = Inr s'" "threadAllList s' = remove1 c (threadAllList s)"
    "threadReadyList s' = remove1 c (threadReadyList s)" "tcb s' = (tcb s)(c := (tcb s c)\<lparr>status := TASK_DIED\<rparr>)"
    "\<forall>j. bm_used (pidBitMap s') j = (bm_used (pidBitMap s) j \<and> j \<noteq> unat (pid (tcb s c) - pidStart s))"
    "\<forall>q j. papUsed (papOf q s') j = (papUsed (papOf q s) j \<and> \<not> (q = PF_KERNEL \<and> j \<in> {i, i'}))"
    "\<forall>j. bm_used (vbitMap (kernelVap s')) j = (bm_used (vbitMap (kernelVap s)) j \<and> j \<notin> {k, k'})" "kheapOk s'"
    using threadExit_run [OF assms(2,3) c(1) refl assms(4-10)] by blast
  then have "sysWait s = Inr (Some (ucast (ucast (pid (tcb s c)) :: u16), Some 4), s')"
    using assms(1) c(2) by (simp add: sysWait_def statusNo_def)
  then show ?thesis using s' by blast
qed

theorem wait_reaps_child_witness:
  "\<exists>s'. sysWait demoReap = Inr (Some (3, Some 4), s') \<and> threadAllList s' = [1, 2] \<and> \<not> bm_used (pidBitMap s') 2"
proof -
  have f: "find (findHangingChild demoReap (pid (tcb demoReap (curThread demoReap)))) (threadAllList demoReap) = Some 0xc0101000"
    by (simp add: demoReap_fields findHangingChild_def worker_def zeroTask_def)
  have t: "pageDir (tcb demoReap 0xc0101000) = 0xc0100000" "pid (tcb demoReap 0xc0101000) = 3"
    by (simp_all add: demoReap_fields)
  show ?thesis
    using wait_reaps_child [OF f demoReap_heap, of 0 0 1 1] demoReap_pages
    unfolding t by (simp add: demoReap_fields pgNo_def bm_wf_def bm_cap_def) blast
qed

end
