(* ===== verification/HeapProps.thy ===== *)
theory HeapProps
  imports ExecProps ExitProps
begin

text \<open>
  The heap: sysMalloc hands out a block that was free, sysFree gives it back, and blocks never overlap.
\<close>

section \<open>Blocks\<close>

text \<open>Size of the blocks of descriptor \<open>d\<close> and their number in an arena.\<close>

definition bsz :: "nat \<Rightarrow> nat" where "bsz d = 16 * 2 ^ d"
definition bcnt :: "nat \<Rightarrow> nat" where "bcnt d = 4084 div bsz d"

definition blkAt :: "u32 \<Rightarrow> nat \<Rightarrow> nat \<Rightarrow> u32" where
  "blkAt a d i = arenaToBlock a (of_nat (bsz d)) (of_nat i)"

lemma bsz_bounds:
  assumes "d < 7"
  shows "16 \<le> bsz d" "bsz d \<le> 1024" "3 \<le> bcnt d" "bcnt d \<le> 255" "bsz d * bcnt d \<le> 4084"
proof -
  have "d \<in> {0, 1, 2, 3, 4, 5, 6}" using assms by auto
  then show "16 \<le> bsz d" "bsz d \<le> 1024" "3 \<le> bcnt d" "bcnt d \<le> 255" "bsz d * bcnt d \<le> 4084"
    by (auto simp: bsz_def bcnt_def)
qed

lemma unat_bsz: "d < 7 \<Longrightarrow> unat (of_nat (bsz d) :: u32) = bsz d" "d < 7 \<Longrightarrow> unat (of_nat (bcnt d) :: u32) = bcnt d"
  using bsz_bounds [of d] by (simp_all add: unat_of_nat_small)

lemma blk_off:
  assumes "d < 7" "i < bcnt d"
  shows "12 + i * bsz d + bsz d \<le> 4096"
proof -
  have "Suc i * bsz d \<le> bcnt d * bsz d" using assms(2) by (intro mult_le_mono1) simp
  then show ?thesis using bsz_bounds(5) [OF assms(1)] by (simp add: mult.commute)
qed

lemma unat_blkAt:
  assumes "pgAligned a" "d < 7" "i < bcnt d"
  shows "unat (blkAt a d i) = unat a + (12 + i * bsz d)"
proof -
  note o = blk_off [OF assms(2,3)] and r = pgAligned_room [OF assms(1)] and b = bsz_bounds [OF assms(2)]
  have i: "unat (of_nat i :: u32) = i" using assms(3) b by (intro unat_of_nat_small) simp
  have m: "unat (of_nat i * of_nat (bsz d) :: u32) = i * bsz d"
    using i unat_bsz(1) [OF assms(2)] o by (subst unat_mult_small) simp_all
  have p: "unat (a + 12) = unat a + 12" using r by (subst unat_add_small) simp_all
  have "unat a + 12 + i * bsz d < 4294967296" using o r b(1) by linarith
  then show ?thesis
    unfolding blkAt_def arenaToBlock_def using m p by (subst unat_add_small) simp_all
qed

lemma blockToArena_blkAt [simp]:
  assumes "pgAligned a" "d < 7" "i < bcnt d"
  shows "blockToArena (blkAt a d i) = a"
  unfolding blockToArena_def
  using unat_blkAt [OF assms] blk_off [OF assms(2,3)] bsz_bounds(1) [OF assms(2)] by (intro frame_eqI [OF assms(1)]) auto

lemma blkAt_inj:
  assumes "pgAligned a" "d < 7" "i < bcnt d" "j < bcnt d"
  shows "blkAt a d i = blkAt a d j \<longleftrightarrow> i = j"
proof
  assume "blkAt a d i = blkAt a d j"
  then have "i * bsz d = j * bsz d" using unat_blkAt [OF assms(1-3)] unat_blkAt [OF assms(1,2,4)] by auto
  then show "i = j" using bsz_bounds(1) [OF assms(2)] by auto
qed simp

section \<open>Free lists and arenas\<close>

definition freeIdx :: "MemBlockDesc list \<Rightarrow> u32 \<Rightarrow> nat \<Rightarrow> nat set" where
  "freeIdx arr a d = {i. i < bcnt d \<and> blkAt a d i \<in> set (freeList (arr ! d))}"

definition freeListsOk :: "MemBlockDesc list \<Rightarrow> (u32 \<Rightarrow> Arena option) \<Rightarrow> bool" where
  "freeListsOk arr ar \<longleftrightarrow> length arr = 7 \<and>
     (\<forall>d < 7. blockSize (arr ! d) = of_nat (bsz d) \<and> blocksPerArena (arr ! d) = of_nat (bcnt d) \<and>
        distinct (freeList (arr ! d)) \<and>
        (\<forall>b \<in> set (freeList (arr ! d)). \<exists>a h i. ar a = Some h \<and> adesc h = Some d \<and> i < bcnt d \<and> b = blkAt a d i)) \<and>
     (\<forall>a h d. ar a = Some h \<longrightarrow> adesc h = Some d \<longrightarrow> d < 7 \<and> pgAligned a \<and> unat (acnt h) = card (freeIdx arr a d))"

text \<open>The blocks that are handed out, with their sizes.\<close>

definition usedBlocks :: "MemBlockDesc list \<Rightarrow> (u32 \<Rightarrow> Arena option) \<Rightarrow> (u32 \<times> nat) set" where
  "usedBlocks arr ar = {(b, n). \<exists>a h d i. ar a = Some h \<and> adesc h = Some d \<and> i < bcnt d \<and> b = blkAt a d i \<and>
     n = bsz d \<and> b \<notin> set (freeList (arr ! d))}"

lemma freeListsOkD:
  assumes "freeListsOk arr ar"
  shows "length arr = 7" "d < 7 \<Longrightarrow> blockSize (arr ! d) = of_nat (bsz d)"
    "d < 7 \<Longrightarrow> blocksPerArena (arr ! d) = of_nat (bcnt d)" "d < 7 \<Longrightarrow> distinct (freeList (arr ! d))"
    "d < 7 \<Longrightarrow> b \<in> set (freeList (arr ! d)) \<Longrightarrow> \<exists>a h i. ar a = Some h \<and> adesc h = Some d \<and> i < bcnt d \<and> b = blkAt a d i"
    "ar a = Some h \<Longrightarrow> adesc h = Some d \<Longrightarrow> d < 7" "ar a = Some h \<Longrightarrow> adesc h = Some d \<Longrightarrow> pgAligned a"
    "ar a = Some h \<Longrightarrow> adesc h = Some d \<Longrightarrow> unat (acnt h) = card (freeIdx arr a d)"
proof -
  have l: "length arr = 7" and
    u: "\<forall>d < 7. blockSize (arr ! d) = of_nat (bsz d) \<and> blocksPerArena (arr ! d) = of_nat (bcnt d) \<and>
        distinct (freeList (arr ! d)) \<and>
        (\<forall>b \<in> set (freeList (arr ! d)). \<exists>a h i. ar a = Some h \<and> adesc h = Some d \<and> i < bcnt d \<and> b = blkAt a d i)" and
    v: "\<forall>a h d. ar a = Some h \<longrightarrow> adesc h = Some d \<longrightarrow> d < 7 \<and> pgAligned a \<and> unat (acnt h) = card (freeIdx arr a d)"
    using conjunct1 [OF assms [unfolded freeListsOk_def]] conjunct1 [OF conjunct2 [OF assms [unfolded freeListsOk_def]]]
      conjunct2 [OF conjunct2 [OF assms [unfolded freeListsOk_def]]] .
  show "length arr = 7" by (rule l)
  show "d < 7 \<Longrightarrow> blockSize (arr ! d) = of_nat (bsz d)" "d < 7 \<Longrightarrow> blocksPerArena (arr ! d) = of_nat (bcnt d)"
    "d < 7 \<Longrightarrow> distinct (freeList (arr ! d))"
    "d < 7 \<Longrightarrow> b \<in> set (freeList (arr ! d)) \<Longrightarrow> \<exists>a h i. ar a = Some h \<and> adesc h = Some d \<and> i < bcnt d \<and> b = blkAt a d i"
    using u by blast+
  show "ar a = Some h \<Longrightarrow> adesc h = Some d \<Longrightarrow> d < 7" "ar a = Some h \<Longrightarrow> adesc h = Some d \<Longrightarrow> pgAligned a"
    "ar a = Some h \<Longrightarrow> adesc h = Some d \<Longrightarrow> unat (acnt h) = card (freeIdx arr a d)"
    using v by blast+
qed

text \<open>A block belongs to one arena and has one index there.\<close>

lemma blk_unique:
  assumes ok: "freeListsOk arr ar" and "ar a = Some h" "adesc h = Some d" "i < bcnt d"
    "ar a' = Some h'" "adesc h' = Some d'" "i' < bcnt d'" and e: "blkAt a d i = blkAt a' d' i'"
  shows "a = a' \<and> h = h' \<and> d = d' \<and> i = i'"
proof -
  note D = freeListsOkD(6,7) [OF ok]
  have a: "a = a'"
    using blockToArena_blkAt [OF D(2) [OF assms(2,3)] D(1) [OF assms(2,3)] assms(4)]
      blockToArena_blkAt [OF D(2) [OF assms(5,6)] D(1) [OF assms(5,6)] assms(7)] e by simp
  then have "h = h'" "d = d'" using assms(2,3,5,6) by auto
  then show ?thesis
    using a e blkAt_inj [OF D(2) [OF assms(2,3)] D(1) [OF assms(2,3)] assms(4)] assms(7) by auto
qed

lemma pages_apart:
  assumes "pgAligned a" "pgAligned b" "a \<noteq> b"
  shows "unat a + 4096 \<le> unat b \<or> unat b + 4096 \<le> unat a"
proof -
  obtain x y where xy: "unat a = 4096 * x" "unat b = 4096 * y"
    using assms(1,2) by (auto simp: pgAligned_def mod_eq_0_iff_dvd dvd_def)
  have "unat a \<noteq> unat b" using assms(3) by simp
  then have "x \<noteq> y" using xy by auto
  then have "x + 1 \<le> y \<or> y + 1 \<le> x" by linarith
  then show ?thesis unfolding xy by linarith
qed

text \<open>Blocks that are handed out do not overlap.\<close>

lemma used_disjoint:
  assumes ok: "freeListsOk arr ar" and u: "(b, n) \<in> usedBlocks arr ar" "(b', n') \<in> usedBlocks arr ar" and ne: "b \<noteq> b'"
  shows "unat b + n \<le> unat b' \<or> unat b' + n' \<le> unat b"
proof -
  obtain a h d i where 1: "ar a = Some h" "adesc h = Some d" "i < bcnt d" "b = blkAt a d i" "n = bsz d"
    using u(1) by (auto simp: usedBlocks_def)
  obtain a' h' d' i' where 2: "ar a' = Some h'" "adesc h' = Some d'" "i' < bcnt d'" "b' = blkAt a' d' i'" "n' = bsz d'"
    using u(2) by (auto simp: usedBlocks_def)
  note D1 = freeListsOkD(6,7) [OF ok 1(1,2)] and D2 = freeListsOkD(6,7) [OF ok 2(1,2)]
  note p1 = unat_blkAt [OF D1(2,1) 1(3)] blk_off [OF D1(1) 1(3)]
  note p2 = unat_blkAt [OF D2(2,1) 2(3)] blk_off [OF D2(1) 2(3)]
  show ?thesis
  proof (cases "a = a'")
    case True
    then have d: "d' = d" using 1(1,2) 2(1,2) by simp
    have "i \<noteq> i'" using ne 1(4) 2(4) True d by auto
    then have "i < i' \<or> i' < i" by linarith
    then have "i * bsz d + bsz d \<le> i' * bsz d \<or> i' * bsz d + bsz d \<le> i * bsz d"
      by (metis Suc_leI add.commute mult_Suc mult_le_mono1)
    then show ?thesis using p1 p2 True d 1(4,5) 2(4,5) by auto
  next
    case False
    then have "unat a + 4096 \<le> unat a' \<or> unat a' + 4096 \<le> unat a"
      using pages_apart [OF D1(2) D2(2)] by blast
    then show ?thesis using p1 p2 1(4,5) 2(4,5) by auto
  qed
qed

section \<open>Changing the lists\<close>

abbreviation setFl :: "nat \<Rightarrow> u32 list \<Rightarrow> MemBlockDesc list \<Rightarrow> MemBlockDesc list" where
  "setFl d fl arr \<equiv> arr[d := (arr ! d)\<lparr>freeList := fl\<rparr>]"

lemma freeListsOkI:
  assumes "length arr = 7" "\<And>d. d < 7 \<Longrightarrow> blockSize (arr ! d) = of_nat (bsz d)"
    "\<And>d. d < 7 \<Longrightarrow> blocksPerArena (arr ! d) = of_nat (bcnt d)" "\<And>d. d < 7 \<Longrightarrow> distinct (freeList (arr ! d))"
    "\<And>d b. d < 7 \<Longrightarrow> b \<in> set (freeList (arr ! d)) \<Longrightarrow> \<exists>a h i. ar a = Some h \<and> adesc h = Some d \<and> i < bcnt d \<and> b = blkAt a d i"
    "\<And>a h d. ar a = Some h \<Longrightarrow> adesc h = Some d \<Longrightarrow> d < 7 \<and> pgAligned a \<and> unat (acnt h) = card (freeIdx arr a d)"
  shows "freeListsOk arr ar"
  unfolding freeListsOk_def using assms by blast

text \<open>Free lists that differ in the blocks of one arena only.\<close>

lemma freeIdx_other:
  assumes ok: "freeListsOk arr ar" and x: "ar a' = Some h'" "adesc h' = Some d'" and d: "d < 7" "pgAligned a"
    and ne: "a' \<noteq> a" and s: "\<And>b. b \<notin> blkAt a d ` {..<bcnt d} \<Longrightarrow> b \<in> set fl \<longleftrightarrow> b \<in> set (freeList (arr ! d))"
  shows "freeIdx (setFl d fl arr) a' d' = freeIdx arr a' d'"
proof -
  have "blkAt a' d i \<notin> blkAt a d ` {..<bcnt d}" if "i < bcnt d" "d' = d" for i
    using blockToArena_blkAt [OF freeListsOkD(7) [OF ok x], of d i] blockToArena_blkAt [OF d(2,1)] d(1) ne that by auto
  then show ?thesis
    using s freeListsOkD(1) [OF ok] d(1) by (auto simp: freeIdx_def nth_list_update)
qed

lemma freeIdx_finite [simp]: "finite (freeIdx arr a d)"
  by (simp add: freeIdx_def)

lemma freeIdx_card: "card (freeIdx arr a d) \<le> bcnt d"
  using card_mono [of "{..<bcnt d}" "freeIdx arr a d"] by (auto simp: freeIdx_def)

lemma freeIdx_setFl: "d < length arr \<Longrightarrow> freeIdx (setFl d fl arr) a d = {i. i < bcnt d \<and> blkAt a d i \<in> set fl}"
  by (simp add: freeIdx_def)

text \<open>The arena of one block after its free list and its count have changed.\<close>

lemma freeListsOk_change:
  assumes ok: "freeListsOk arr ar" and x: "ar a = Some h" "adesc h = Some d"
    and fl: "distinct fl" "set fl \<subseteq> set (freeList (arr ! d)) \<union> blkAt a d ` {..<bcnt d}"
      "set (freeList (arr ! d)) \<subseteq> set fl \<union> blkAt a d ` {..<bcnt d}"
    and c: "adesc h' = Some d" "unat (acnt h') = card {i. i < bcnt d \<and> blkAt a d i \<in> set fl}"
  shows "freeListsOk (setFl d fl arr) (ar(a \<mapsto> h'))"
proof (rule freeListsOkI)
  note D = freeListsOkD [OF ok] and A = freeListsOkD(6,7) [OF ok x]
  have len: "d < length arr" using A D(1) by simp
  show "length (setFl d fl arr) = 7" using D(1) by simp
  show "blockSize (setFl d fl arr ! e) = of_nat (bsz e)" "blocksPerArena (setFl d fl arr ! e) = of_nat (bcnt e)"
    "distinct (freeList (setFl d fl arr ! e))" if "e < 7" for e
    using that D(1) D(2-4) [OF that] fl(1) by (cases "e = d"; simp)+
  show "\<exists>a' h'' i. (ar(a \<mapsto> h')) a' = Some h'' \<and> adesc h'' = Some e \<and> i < bcnt e \<and> b = blkAt a' e i"
    if e: "e < 7" and b: "b \<in> set (freeList (setFl d fl arr ! e))" for e b
  proof (cases "b \<in> blkAt a d ` {..<bcnt d} \<and> e = d")
    case True
    then show ?thesis using c(1) by auto
  next
    case False
    then have "b \<in> set (freeList (arr ! e))" using b fl(2) len by (auto simp: nth_list_update split: if_splits)
    then obtain a' h'' i where "ar a' = Some h''" "adesc h'' = Some e" "i < bcnt e" "b = blkAt a' e i"
      using D(5) [OF e] by blast
    then show ?thesis using x c(1) by (cases "a' = a") auto
  qed
  show "e < 7 \<and> pgAligned a' \<and> unat (acnt h'') = card (freeIdx (setFl d fl arr) a' e)"
    if y: "(ar(a \<mapsto> h')) a' = Some h''" "adesc h'' = Some e" for a' h'' e
  proof (cases "a' = a")
    case True
    then show ?thesis using y c A freeIdx_setFl [OF len] by auto
  next
    case False
    then have z: "ar a' = Some h''" using y by simp
    have "freeIdx (setFl d fl arr) a' e = freeIdx arr a' e"
      by (rule freeIdx_other [OF ok z y(2) A False]) (use fl(2,3) in auto)
    then show ?thesis using D(6-8) [OF z y(2)] by simp
  qed
qed

lemma used_change:
  assumes ok: "freeListsOk arr ar" and x: "ar a = Some h" "adesc h = Some d" "adesc h' = Some d"
    and s: "\<And>b. b \<notin> blkAt a d ` {..<bcnt d} \<Longrightarrow> b \<in> set fl \<longleftrightarrow> b \<in> set (freeList (arr ! d))"
  shows "(b, n) \<in> usedBlocks (setFl d fl arr) (ar(a \<mapsto> h')) \<longleftrightarrow>
    (if b \<in> blkAt a d ` {..<bcnt d} then n = bsz d \<and> b \<notin> set fl else (b, n) \<in> usedBlocks arr ar)"
proof -
  note A = freeListsOkD(6,7) [OF ok x(1,2)]
  have len: "d < length arr" using A freeListsOkD(1) [OF ok] by simp
  show ?thesis
  proof (cases "b \<in> blkAt a d ` {..<bcnt d}")
    case True
    then obtain i where i: "i < bcnt d" "b = blkAt a d i" by auto
    have "n = bsz d \<and> b \<notin> set fl" if "(b, n) \<in> usedBlocks (setFl d fl arr) (ar(a \<mapsto> h'))"
    proof -
      obtain a' h'' e j where y: "(ar(a \<mapsto> h')) a' = Some h''" "adesc h'' = Some e" "j < bcnt e" "b = blkAt a' e j"
        "n = bsz e" "b \<notin> set (freeList (setFl d fl arr ! e))"
        using \<open>(b, n) \<in> _\<close> by (auto simp: usedBlocks_def)
      have "e < 7 \<and> pgAligned a'" using y(1,2) A x(3) freeListsOkD(6,7) [OF ok] by (auto split: if_splits)
      then have "a' = a" using blockToArena_blkAt [of a' e j] blockToArena_blkAt [OF A(2,1) i(1)] y(3,4) i(2) by simp
      then show ?thesis using y x(3) len by auto
    qed
    moreover have "(b, n) \<in> usedBlocks (setFl d fl arr) (ar(a \<mapsto> h'))" if "n = bsz d \<and> b \<notin> set fl"
      unfolding usedBlocks_def using that i x(3) len by auto
    ultimately show ?thesis using True by auto
  next
    case False
    have e: "b \<notin> set (freeList (setFl d fl arr ! e)) \<longleftrightarrow> b \<notin> set (freeList (arr ! e))" for e
      using s [OF False] len by (cases "e = d") auto
    have "(\<exists>a' h'' e j. (ar(a \<mapsto> h')) a' = Some h'' \<and> adesc h'' = Some e \<and> j < bcnt e \<and> b = blkAt a' e j \<and> n = bsz e \<and>
        b \<notin> set (freeList (arr ! e))) \<longleftrightarrow>
      (\<exists>a' h'' e j. ar a' = Some h'' \<and> adesc h'' = Some e \<and> j < bcnt e \<and> b = blkAt a' e j \<and> n = bsz e \<and>
        b \<notin> set (freeList (arr ! e)))"
    proof (intro iff_exI)
      fix a' h'' e j
      show "((ar(a \<mapsto> h')) a' = Some h'' \<and> adesc h'' = Some e \<and> j < bcnt e \<and> b = blkAt a' e j \<and> n = bsz e \<and>
          b \<notin> set (freeList (arr ! e))) = (ar a' = Some h'' \<and> adesc h'' = Some e \<and> j < bcnt e \<and> b = blkAt a' e j \<and>
          n = bsz e \<and> b \<notin> set (freeList (arr ! e)))"
        using False x by (cases "a' = a") auto
    qed
    then show ?thesis using False by (simp only: usedBlocks_def mem_Collect_eq case_prod_conv e if_False)
  qed
qed

lemma freeListsOk_take:
  assumes ok: "freeListsOk arr ar" and d: "d < 7" and fl: "freeList (arr ! d) = b # fl"
  obtains a h where "ar a = Some h" "blockToArena b = a" "pgAligned a" "unat b + bsz d \<le> unat a + 4096" "unat a + 12 \<le> unat b"
    "unat b mod 4 = 0" "freeListsOk (setFl d fl arr) (ar(a \<mapsto> h\<lparr>acnt := acnt h - 1\<rparr>))" "b \<notin> fst ` usedBlocks arr ar"
    "usedBlocks (setFl d fl arr) (ar(a \<mapsto> h\<lparr>acnt := acnt h - 1\<rparr>)) = insert (b, bsz d) (usedBlocks arr ar)"
proof -
  note D = freeListsOkD [OF ok]
  obtain a h i where x: "ar a = Some h" "adesc h = Some d" "i < bcnt d" "b = blkAt a d i"
    using D(5) [OF d, of b] fl by auto
  note A = D(6,7) [OF x(1,2)]
  have dist: "distinct (b # fl)" using D(4) [OF d] fl by simp
  have idx: "{j. j < bcnt d \<and> blkAt a d j \<in> set fl} = freeIdx arr a d - {i}"
    using dist fl x(3,4) blkAt_inj [OF A(2) d _ x(3)] by (auto simp: freeIdx_def)
  have i: "i \<in> freeIdx arr a d" using x(3,4) fl by (simp add: freeIdx_def)
  then have "0 < card (freeIdx arr a d)" by (auto simp: card_gt_0_iff)
  then have "1 \<le> acnt h" using D(8) [OF x(1,2)] by (simp add: word_le_nat_alt)
  then have cnt: "unat (acnt h - 1) = card (freeIdx arr a d - {i})"
    using D(8) [OF x(1,2)] i by (simp add: unat_sub)
  have sub: "\<And>c. c \<notin> blkAt a d ` {..<bcnt d} \<Longrightarrow> c \<in> set fl \<longleftrightarrow> c \<in> set (freeList (arr ! d))"
    using fl x(3,4) by auto
  have "freeListsOk (setFl d fl arr) (ar(a \<mapsto> h\<lparr>acnt := acnt h - 1\<rparr>))"
    by (rule freeListsOk_change [OF ok x(1,2)]) (use dist fl x cnt idx in auto)
  moreover have "usedBlocks (setFl d fl arr) (ar(a \<mapsto> h\<lparr>acnt := acnt h - 1\<rparr>)) = insert (b, bsz d) (usedBlocks arr ar)"
  proof -
    have "(c, n) \<in> usedBlocks arr ar \<longleftrightarrow> n = bsz d \<and> c \<notin> set (freeList (arr ! d))" if "c \<in> blkAt a d ` {..<bcnt d}" for c n
      using used_change [OF ok x(1,2,2), of "freeList (arr ! d)" c n] that x(1) by (simp add: fun_upd_idem)
    then have "(c, n) \<in> usedBlocks (setFl d fl arr) (ar(a \<mapsto> h\<lparr>acnt := acnt h - 1\<rparr>)) \<longleftrightarrow>
        (c, n) \<in> insert (b, bsz d) (usedBlocks arr ar)" for c n
      using used_change [OF ok x(1,2) _ sub, of "h\<lparr>acnt := acnt h - 1\<rparr>" c n] x fl dist by auto
    then show ?thesis by auto
  qed
  moreover have "b \<notin> fst ` usedBlocks arr ar"
  proof
    assume "b \<in> fst ` usedBlocks arr ar"
    then obtain a' h' d' i' where y: "ar a' = Some h'" "adesc h' = Some d'" "i' < bcnt d'" "b = blkAt a' d' i'"
      "b \<notin> set (freeList (arr ! d'))" by (auto simp: usedBlocks_def)
    then show False using blk_unique [OF ok x(1-3) y(1-3)] x(4) fl by auto
  qed
  moreover have "unat b + bsz d \<le> unat a + 4096" "unat a + 12 \<le> unat b"
    using unat_blkAt [OF A(2) d x(3)] blk_off [OF d x(3)] x(4) by simp_all
  moreover have "unat b mod 4 = 0"
  proof -
    have "4096 dvd unat a" using A(2) by (simp add: pgAligned_def dvd_eq_mod_eq_0)
    then have "4 dvd unat a" by (rule dvd_trans [rotated]) simp
    moreover have "4 dvd bsz d" by (simp add: bsz_def)
    ultimately have "4 dvd unat b" unfolding x(4) unat_blkAt [OF A(2) d x(3)] by (intro dvd_add dvd_mult) simp_all
    then show ?thesis by simp
  qed
  ultimately show thesis
    using x(1) A(2) blockToArena_blkAt [OF A(2) d x(3)] x(4) by (intro that [of a h]) (assumption | simp)+
qed

lemma freeListsOk_put:
  assumes ok: "freeListsOk arr ar" and u: "(b, n) \<in> usedBlocks arr ar"
  obtains a h d where "ar a = Some h" "adesc h = Some d" "d < 7" "blockToArena b = a" "pgAligned a" "n = bsz d"
    "freeListsOk (setFl d (freeList (arr ! d) @ [b]) arr) (ar(a \<mapsto> h\<lparr>acnt := acnt h + 1\<rparr>))"
    "usedBlocks (setFl d (freeList (arr ! d) @ [b]) arr) (ar(a \<mapsto> h\<lparr>acnt := acnt h + 1\<rparr>)) = usedBlocks arr ar - {(b, n)}"
proof -
  obtain a h d i where x: "ar a = Some h" "adesc h = Some d" "i < bcnt d" "b = blkAt a d i" "n = bsz d"
    "b \<notin> set (freeList (arr ! d))" using u by (auto simp: usedBlocks_def)
  note D = freeListsOkD [OF ok] and A = freeListsOkD(6,7) [OF ok x(1,2)]
  let ?fl = "freeList (arr ! d) @ [b]"
  have idx: "{j. j < bcnt d \<and> blkAt a d j \<in> set ?fl} = insert i (freeIdx arr a d)"
    using x(3,4) blkAt_inj [OF A(2,1) _ x(3)] by (auto simp: freeIdx_def)
  have i: "i \<notin> freeIdx arr a d" using x(4,6) by (simp add: freeIdx_def)
  have "unat (acnt h) \<le> 255" using D(8) [OF x(1,2)] freeIdx_card [of arr a d] bsz_bounds(4) [OF A(1)] by simp
  then have cnt: "unat (acnt h + 1) = card (insert i (freeIdx arr a d))"
    using D(8) [OF x(1,2)] i by (subst unat_add_small) simp_all
  have sub: "\<And>c. c \<notin> blkAt a d ` {..<bcnt d} \<Longrightarrow> c \<in> set ?fl \<longleftrightarrow> c \<in> set (freeList (arr ! d))"
    using x(3,4) by auto
  have "freeListsOk (setFl d ?fl arr) (ar(a \<mapsto> h\<lparr>acnt := acnt h + 1\<rparr>))"
    by (rule freeListsOk_change [OF ok x(1,2)]) (use D(4) [OF A(1)] x cnt idx in auto)
  moreover have "usedBlocks (setFl d ?fl arr) (ar(a \<mapsto> h\<lparr>acnt := acnt h + 1\<rparr>)) = usedBlocks arr ar - {(b, n)}"
  proof -
    have "(c, m) \<in> usedBlocks arr ar \<longleftrightarrow> m = bsz d \<and> c \<notin> set (freeList (arr ! d))" if "c \<in> blkAt a d ` {..<bcnt d}" for c m
      using used_change [OF ok x(1,2,2), of "freeList (arr ! d)" c m] that x(1) by (simp add: fun_upd_idem)
    then have "(c, m) \<in> usedBlocks (setFl d ?fl arr) (ar(a \<mapsto> h\<lparr>acnt := acnt h + 1\<rparr>)) \<longleftrightarrow>
        (c, m) \<in> usedBlocks arr ar - {(b, n)}" for c m
      using used_change [OF ok x(1,2) _ sub, of "h\<lparr>acnt := acnt h + 1\<rparr>" c m] x by auto
    then show ?thesis by auto
  qed
  moreover have "blockToArena b = a" using blockToArena_blkAt [OF A(2,1) x(3)] x(4) by simp
  ultimately show thesis using x(1,2,5) A by (intro that [of a h d]) (assumption | simp)+
qed

text \<open>A new arena.\<close>

lemma fillFree_ok:
  assumes "\<And>j. i \<le> j \<Longrightarrow> j < i + n \<Longrightarrow> blkAt a d j \<notin> set fl"
    "\<And>j k. i \<le> j \<Longrightarrow> j < k \<Longrightarrow> k < i + n \<Longrightarrow> blkAt a d j \<noteq> blkAt a d k"
  shows "fillFree a (of_nat (bsz d)) n (of_nat i) fl = Inr (fl @ map (blkAt a d) [i..<i + n])"
  using assms
proof (induction n arbitrary: i fl)
  case (Suc n)
  have ne: "blkAt a d j \<noteq> blkAt a d i" if "Suc i \<le> j" "j < i + Suc n" for j
    using Suc.prems(2) [of i j] that by force
  have "of_nat i + (1 :: u32) = of_nat (Suc i)" by simp
  moreover have "fillFree a (of_nat (bsz d)) n (of_nat (Suc i)) (fl @ [blkAt a d i]) =
      Inr ((fl @ [blkAt a d i]) @ map (blkAt a d) [Suc i..<Suc i + n])"
    by (rule Suc.IH) (use Suc.prems ne in auto)
  moreover have "[i..<i + Suc n] = i # [Suc i..<Suc i + n]" by (simp add: upt_conv_Cons del: upt_Suc)
  ultimately show ?case
    using Suc.prems(1) [of i] by (simp add: Let_def flip: blkAt_def del: of_nat_Suc)
qed simp

lemma freeListsOk_new:
  assumes ok: "freeListsOk arr ar" and d: "d < 7" and a: "ar a = None" "pgAligned a"
  defines "fl \<equiv> freeList (arr ! d) @ map (blkAt a d) [0..<bcnt d]"
    and "h \<equiv> \<lparr>adesc = Some d, acnt = of_nat (bcnt d), alarge = False\<rparr>"
  shows "fillFree a (of_nat (bsz d)) (bcnt d) 0 (freeList (arr ! d)) = Inr fl"
    "freeListsOk (setFl d fl arr) (ar(a \<mapsto> h))" "usedBlocks (setFl d fl arr) (ar(a \<mapsto> h)) = usedBlocks arr ar"
    "fl \<noteq> []"
proof -
  note D = freeListsOkD [OF ok]
  have out: "blkAt a d j \<notin> set (freeList (arr ! e))" if je: "j < bcnt d" "e < 7" for j e
  proof
    assume "blkAt a d j \<in> set (freeList (arr ! e))"
    then obtain a' h' i where y: "ar a' = Some h'" "adesc h' = Some e" "i < bcnt e" "blkAt a d j = blkAt a' e i"
      using D(5) [OF je(2)] by blast
    then have "a' = a"
      using blockToArena_blkAt [OF a(2) d je(1)] blockToArena_blkAt [OF D(7) [OF y(1,2)] je(2) y(3)] by simp
    then show False using a(1) y(1) by simp
  qed
  have inj: "inj_on (blkAt a d) {..<bcnt d}"
    using blkAt_inj [OF a(2) d] by (auto simp: inj_on_def)
  show "fillFree a (of_nat (bsz d)) (bcnt d) 0 (freeList (arr ! d)) = Inr fl"
    using fillFree_ok [of 0 "bcnt d" a d "freeList (arr ! d)"] out [OF _ d] blkAt_inj [OF a(2) d] by (simp add: fl_def)
  show "fl \<noteq> []" using bsz_bounds(3) [OF d] by (simp add: fl_def)
  have len: "d < length arr" using d D(1) by simp
  have flset: "set fl = set (freeList (arr ! d)) \<union> blkAt a d ` {..<bcnt d}" by (auto simp: fl_def)
  have dist: "distinct fl"
    using D(4) [OF d] out [OF _ d] inj by (auto simp: fl_def distinct_map inj_on_def)
  have keep: "freeIdx (setFl d fl arr) a' e = freeIdx arr a' e" if "ar a' = Some h'" "adesc h' = Some e" for a' h' e
    by (rule freeIdx_other [OF ok that d a(2)]) (use that a(1) flset in auto)
  show "freeListsOk (setFl d fl arr) (ar(a \<mapsto> h))"
  proof (rule freeListsOkI)
    show "length (setFl d fl arr) = 7" using D(1) by simp
    show "blockSize (setFl d fl arr ! e) = of_nat (bsz e)" "blocksPerArena (setFl d fl arr ! e) = of_nat (bcnt e)"
      "distinct (freeList (setFl d fl arr ! e))" if "e < 7" for e
      using that D(1) D(2-4) [OF that] dist by (cases "e = d"; simp)+
    show "\<exists>a' h'' i. (ar(a \<mapsto> h)) a' = Some h'' \<and> adesc h'' = Some e \<and> i < bcnt e \<and> b = blkAt a' e i"
      if e: "e < 7" and b: "b \<in> set (freeList (setFl d fl arr ! e))" for e b
    proof (cases "b \<in> blkAt a d ` {..<bcnt d} \<and> e = d")
      case True
      then show ?thesis by (auto simp: h_def)
    next
      case False
      then have "b \<in> set (freeList (arr ! e))" using b flset len by (cases "e = d") auto
      then obtain a' h'' i where "ar a' = Some h''" "adesc h'' = Some e" "i < bcnt e" "b = blkAt a' e i"
        using D(5) [OF e] by blast
      then show ?thesis using a(1) by (cases "a' = a") auto
    qed
    show "e < 7 \<and> pgAligned a' \<and> unat (acnt h'') = card (freeIdx (setFl d fl arr) a' e)"
      if y: "(ar(a \<mapsto> h)) a' = Some h''" "adesc h'' = Some e" for a' h'' e
    proof (cases "a' = a")
      case True
      have F: "freeIdx (setFl d fl arr) a d = {..<bcnt d}" unfolding freeIdx_setFl [OF len] flset by auto
      have hd: "h'' = h" using y(1) True by simp
      have ed: "e = d" using y(2) hd by (simp add: h_def)
      have "unat (acnt h) = bcnt d" using unat_bsz(2) [OF d] by (simp only: h_def Arena.select_convs)
      then show ?thesis unfolding True hd ed F using a(2) d by simp
    next
      case False
      then have "ar a' = Some h''" using y by simp
      then show ?thesis using D(6-8) [of a' h'' e] keep y(2) by simp
    qed
  qed
  have "(b, n) \<in> usedBlocks (setFl d fl arr) (ar(a \<mapsto> h)) \<longleftrightarrow> (b, n) \<in> usedBlocks arr ar" for b n
  proof
    assume "(b, n) \<in> usedBlocks (setFl d fl arr) (ar(a \<mapsto> h))"
    then obtain a' h' e j where y: "(ar(a \<mapsto> h)) a' = Some h'" "adesc h' = Some e" "j < bcnt e" "b = blkAt a' e j"
      "n = bsz e" "b \<notin> set (freeList (setFl d fl arr ! e))" by (auto simp: usedBlocks_def)
    have "a' \<noteq> a" using y flset len by (auto simp: h_def)
    moreover have "b \<notin> set (freeList (arr ! e))" using y(6) flset len by (cases "e = d") auto
    ultimately show "(b, n) \<in> usedBlocks arr ar" unfolding usedBlocks_def using y by auto
  next
    assume "(b, n) \<in> usedBlocks arr ar"
    then obtain a' h' e j where y: "ar a' = Some h'" "adesc h' = Some e" "j < bcnt e" "b = blkAt a' e j"
      "n = bsz e" "b \<notin> set (freeList (arr ! e))" by (auto simp: usedBlocks_def)
    have ne: "a' \<noteq> a" using y(1) a(1) by auto
    then have "b \<notin> blkAt a d ` {..<bcnt d}" if "e = d"
      using blockToArena_blkAt [OF D(7) [OF y(1,2)] D(6) [OF y(1,2)] y(3)] blockToArena_blkAt [OF a(2) d] y(4) that by auto
    then have "b \<notin> set (freeList (setFl d fl arr ! e))" using y(6) flset len by (cases "e = d") auto
    then show "(b, n) \<in> usedBlocks (setFl d fl arr) (ar(a \<mapsto> h))"
      unfolding usedBlocks_def using y ne by auto
  qed
  then show "usedBlocks (setFl d fl arr) (ar(a \<mapsto> h)) = usedBlocks arr ar" by auto
qed

text \<open>An arena whose blocks are all free goes.\<close>

lemma dropBlocks_ok:
  assumes "\<And>j. i \<le> j \<Longrightarrow> j < i + n \<Longrightarrow> blkAt a d j \<in> set fl" "distinct fl"
    "\<And>j k. i \<le> j \<Longrightarrow> j < k \<Longrightarrow> k < i + n \<Longrightarrow> blkAt a d j \<noteq> blkAt a d k"
  shows "\<exists>fl'. dropBlocks a (of_nat (bsz d)) n (of_nat i) fl = Inr fl' \<and> distinct fl' \<and>
    set fl' = set fl - blkAt a d ` {i..<i + n}"
  using assms
proof (induction n arbitrary: i fl)
  case (Suc n)
  have ne: "blkAt a d j \<noteq> blkAt a d i" if "Suc i \<le> j" "j < i + Suc n" for j
    using Suc.prems(3) [of i j] that by force
  have "of_nat i + (1 :: u32) = of_nat (Suc i)" by simp
  moreover have "\<exists>fl'. dropBlocks a (of_nat (bsz d)) n (of_nat (Suc i)) (remove1 (blkAt a d i) fl) = Inr fl' \<and> distinct fl' \<and>
      set fl' = set (remove1 (blkAt a d i) fl) - blkAt a d ` {Suc i..<Suc i + n}"
    by (rule Suc.IH) (use Suc.prems ne in auto)
  moreover have "{i..<i + Suc n} = insert i {Suc i..<Suc i + n}" by auto
  ultimately show ?case
    using Suc.prems(1) [of i] Suc.prems(2) by (auto simp: Let_def simp flip: blkAt_def simp del: of_nat_Suc)
qed simp

lemma freeListsOk_drop:
  assumes ok: "freeListsOk arr ar" and x: "ar a = Some h" "adesc h = Some d" "acnt h = of_nat (bcnt d)"
  obtains fl where "dropBlocks a (of_nat (bsz d)) (bcnt d) 0 (freeList (arr ! d)) = Inr fl"
    "freeListsOk (setFl d fl arr) (ar(a := None))" "usedBlocks (setFl d fl arr) (ar(a := None)) = usedBlocks arr ar"
proof -
  note D = freeListsOkD [OF ok] and A = freeListsOkD(6,7) [OF ok x(1,2)]
  have "card (freeIdx arr a d) = card {..<bcnt d}" using D(8) [OF x(1,2)] x(3) unat_bsz(2) [OF A(1)] by simp
  then have "freeIdx arr a d = {..<bcnt d}"
    by (intro card_subset_eq) (auto simp: freeIdx_def)
  then have all: "blkAt a d j \<in> set (freeList (arr ! d))" if "j < bcnt d" for j using that by (auto simp: freeIdx_def)
  obtain fl where fl: "dropBlocks a (of_nat (bsz d)) (bcnt d) 0 (freeList (arr ! d)) = Inr fl" "distinct fl"
    "set fl = set (freeList (arr ! d)) - blkAt a d ` {..<bcnt d}"
    using dropBlocks_ok [of 0 "bcnt d" a d "freeList (arr ! d)"] all D(4) [OF A(1)] blkAt_inj [OF A(2,1)]
    by (auto simp: atLeast0LessThan)
  have len: "d < length arr" using A(1) D(1) by simp
  have keep: "freeIdx (setFl d fl arr) a' e = freeIdx arr a' e" if "ar a' = Some h'" "adesc h' = Some e" "a' \<noteq> a" for a' h' e
    by (rule freeIdx_other [OF ok that(1,2) A that(3)]) (use fl(3) in auto)
  have ok': "freeListsOk (setFl d fl arr) (ar(a := None))"
  proof (rule freeListsOkI)
    show "length (setFl d fl arr) = 7" using D(1) by simp
    show "blockSize (setFl d fl arr ! e) = of_nat (bsz e)" "blocksPerArena (setFl d fl arr ! e) = of_nat (bcnt e)"
      "distinct (freeList (setFl d fl arr ! e))" if "e < 7" for e
      using that D(1) D(2-4) [OF that] fl(2) by (cases "e = d"; simp)+
    show "\<exists>a' h'' i. (ar(a := None)) a' = Some h'' \<and> adesc h'' = Some e \<and> i < bcnt e \<and> b = blkAt a' e i"
      if e: "e < 7" and b: "b \<in> set (freeList (setFl d fl arr ! e))" for e b
    proof -
      have "b \<in> set (freeList (arr ! e))" using b fl(3) len by (cases "e = d") auto
      then obtain a' h'' i where y: "ar a' = Some h''" "adesc h'' = Some e" "i < bcnt e" "b = blkAt a' e i"
        using D(5) [OF e] by blast
      have "a' \<noteq> a" using y x(1,2) b fl(3) len by auto
      then show ?thesis using y by auto
    qed
    show "e < 7 \<and> pgAligned a' \<and> unat (acnt h'') = card (freeIdx (setFl d fl arr) a' e)"
      if y: "(ar(a := None)) a' = Some h''" "adesc h'' = Some e" for a' h'' e
    proof -
      have z: "ar a' = Some h''" "a' \<noteq> a" using y by (auto split: if_splits)
      then show ?thesis using D(6-8) [OF z(1) y(2)] keep [OF z(1) y(2) z(2)] by simp
    qed
  qed
  have "(b, n) \<in> usedBlocks (setFl d fl arr) (ar(a := None)) \<longleftrightarrow> (b, n) \<in> usedBlocks arr ar" for b n
  proof
    assume "(b, n) \<in> usedBlocks (setFl d fl arr) (ar(a := None))"
    then obtain a' h' e j where y: "(ar(a := None)) a' = Some h'" "adesc h' = Some e" "j < bcnt e" "b = blkAt a' e j"
      "n = bsz e" "b \<notin> set (freeList (setFl d fl arr ! e))" by (auto simp: usedBlocks_def)
    have z: "ar a' = Some h'" "a' \<noteq> a" using y(1) by (auto split: if_splits)
    have "b \<notin> blkAt a d ` {..<bcnt d}" if "e = d"
      using blockToArena_blkAt [OF D(7) [OF z(1) y(2)] D(6) [OF z(1) y(2)] y(3)] blockToArena_blkAt [OF A(2,1)] y(4) that z(2) by auto
    then have "b \<notin> set (freeList (arr ! e))" using y(6) fl(3) len by (cases "e = d") auto
    then show "(b, n) \<in> usedBlocks arr ar" unfolding usedBlocks_def using y z by auto
  next
    assume "(b, n) \<in> usedBlocks arr ar"
    then obtain a' h' e j where y: "ar a' = Some h'" "adesc h' = Some e" "j < bcnt e" "b = blkAt a' e j"
      "n = bsz e" "b \<notin> set (freeList (arr ! e))" by (auto simp: usedBlocks_def)
    have "a' \<noteq> a" using y x(1,2) all by auto
    moreover have "b \<notin> set (freeList (setFl d fl arr ! e))" using y(6) fl(3) len by (cases "e = d") auto
    ultimately show "(b, n) \<in> usedBlocks (setFl d fl arr) (ar(a := None))"
      unfolding usedBlocks_def using y by auto
  qed
  then have "usedBlocks (setFl d fl arr) (ar(a := None)) = usedBlocks arr ar" by auto
  then show thesis using that fl(1) ok' by blast
qed

section \<open>The pages of the heap\<close>

text \<open>Writes to a page that is not a table change no translation.\<close>

lemma setMem_data:
  assumes inv: "pagingInv s" and p: "\<not> isTable s (frameOf p)"
  shows "i < 1024 \<Longrightarrow> pdEnt (setMem p v s) i = pdEnt s i" "mmu (setMem p v s) x = mmu s x"
proof -
  have t: "isTable s (pdFrame s)" using pagingInvD(1,2) [OF inv] by (auto simp: isTable_def intro!: exI [of _ 1023])
  have pd: "entry (pdFrame s) j \<noteq> p" if "j < 1024" for j
    using t p that frame_entry [of "pdFrame s" j] by auto
  show pd': "i < 1024 \<Longrightarrow> pdEnt (setMem p v s) i = pdEnt s i" for i
    using pd [of i] by simp (simp add: pdEnt_def)
  have "ptEnt (setMem p v s) d t = ptEnt s d t" if "present (pdEnt s d)" "d < 1024" "t < 1024" for d t
  proof -
    have "entry (frameOf (pdEnt s d)) t \<noteq> p"
      using p that frame_entry [of "frameOf (pdEnt s d)" t] by (auto simp: isTable_def)
    then show ?thesis using pd' [OF that(2)] by (simp add: ptEnt_def)
  qed
  then show "mmu (setMem p v s) x = mmu s x"
    using pd' [OF idx_bound(1)] by (cases "present (pdEnt s (dIdx x))") (simp_all add: mmu_ent del: ents_upd)
qed

lemma memInv_data:
  assumes inv: "memInv s" and p: "\<not> isTable s (frameOf p)"
  shows "memInv (setMem p v s)" "isTable (setMem p v s) f = isTable s f"
proof -
  note d = setMem_data(1) [OF memInvD(2) [OF inv] p]
  show t: "isTable (setMem p v s) f = isTable s f" for f by (rule isTable_cong) (rule d)
  have "pagingInv (setMem p v s)"
    using memInvD(2) [OF inv] unfolding pagingInv_def by (simp add: d del: ents_upd)
  then show "memInv (setMem p v s)" using inv by (simp add: memInv_def t poolInv_def)
qed

lemma vclear_data:
  assumes "memInv s" "\<And>j. j < n \<Longrightarrow> \<exists>p. mmu s (va + 4 * of_nat j) = Some p \<and> \<not> isTable s (frameOf p)"
  shows "\<exists>m. vclear va n s = Inr (s\<lparr>pmem := m\<rparr>) \<and> memInv (s\<lparr>pmem := m\<rparr>) \<and> (\<forall>i < 1024. pdEnt (s\<lparr>pmem := m\<rparr>) i = pdEnt s i) \<and>
    (\<forall>x. mmu (s\<lparr>pmem := m\<rparr>) x = mmu s x) \<and> (\<forall>p. m p = pmem s p \<or> m p = 0) \<and>
    (\<forall>j < n. vread (va + 4 * of_nat j) (s\<lparr>pmem := m\<rparr>) = Inr 0)"
  using assms
proof (induction n arbitrary: va s)
  case 0
  then show ?case by (intro exI [of _ "pmem s"]) simp
next
  case (Suc n)
  obtain p where p: "mmu s va = Some p" "\<not> isTable s (frameOf p)" using Suc.prems(2) [of 0] by auto
  let ?s = "setMem p 0 s"
  note inv = memInv_data [OF Suc.prems(1) p(2)] and same = setMem_data [OF memInvD(2) [OF Suc.prems(1)] p(2)]
  have step: "va + 4 + 4 * of_nat j = va + 4 * of_nat (Suc j)" for j by (simp add: algebra_simps)
  let ?P = "\<lambda>m. vclear (va + 4) n ?s = Inr (?s\<lparr>pmem := m\<rparr>) \<and> memInv (?s\<lparr>pmem := m\<rparr>) \<and>
    (\<forall>i < 1024. pdEnt (?s\<lparr>pmem := m\<rparr>) i = pdEnt ?s i) \<and> (\<forall>x. mmu (?s\<lparr>pmem := m\<rparr>) x = mmu ?s x) \<and>
    (\<forall>q. m q = pmem ?s q \<or> m q = 0) \<and> (\<forall>j < n. vread (va + 4 + 4 * of_nat j) (?s\<lparr>pmem := m\<rparr>) = Inr 0)"
  have "\<exists>m. ?P m"
  proof (rule Suc.IH [OF inv(1)])
    fix j assume "j < n"
    then show "\<exists>q. mmu ?s (va + 4 + 4 * of_nat j) = Some q \<and> \<not> isTable ?s (frameOf q)"
      unfolding step same(2) inv(2) using Suc.prems(2) [of "Suc j"] by blast
  qed
  then obtain m where "?P m" ..
  then have m: "vclear (va + 4) n ?s = Inr (?s\<lparr>pmem := m\<rparr>)" "memInv (?s\<lparr>pmem := m\<rparr>)"
    "\<forall>i < 1024. pdEnt (?s\<lparr>pmem := m\<rparr>) i = pdEnt ?s i" "\<forall>x. mmu (?s\<lparr>pmem := m\<rparr>) x = mmu ?s x"
    "\<forall>q. m q = pmem ?s q \<or> m q = 0" "\<forall>j < n. vread (va + 4 + 4 * of_nat j) (?s\<lparr>pmem := m\<rparr>) = Inr 0"
    by blast+
  note e = setMem_pmem [where p = p and v = 0 and s = s and m = m]
  have "vclear va (Suc n) s = Inr (s\<lparr>pmem := m\<rparr>)" using m(1) p(1) by (simp add: vwrite_def)
  moreover have "vread (va + 4 * of_nat j) (s\<lparr>pmem := m\<rparr>) = Inr 0" if "j < Suc n" for j
  proof (cases j)
    case 0
    have "m p = 0" using m(5) [rule_format, of p] by simp
    then show ?thesis using m(4) same(2) p(1) unfolding 0 e by (simp add: vread_def)
  next
    case (Suc k)
    then show ?thesis using m(6) that unfolding e step by simp
  qed
  moreover have "m q = pmem s q \<or> m q = 0" for q using m(5) [rule_format, of q] by (cases "q = p") auto
  ultimately show ?case
    using m(2-4) same unfolding e by (intro exI [of _ m] conjI allI impI) auto
qed

lemma kpage_word:
  assumes k: "kpage s a i k" and x: "frameOf x = a"
  shows "mmu s x = Some (papPage (papOf PF_KERNEL s) i + pageOff x)"
proof -
  have al: "pgAligned a" and m: "mmu s a = Some (papPage (papOf PF_KERNEL s) i)" using k unfolding kpage_def by blast+
  have fr: "frameOf x = frameOf a" using x frame_aligned [OF al] by simp
  have o: "pageOff a = 0" using al by (simp add: pgAligned_def word_unat_eq_iff unat_off del: unat_inj_iff)
  have "dIdx x = dIdx a" "tIdx x = tIdx a" using fr by (simp_all add: frame_same_page)
  then show ?thesis using m o by (auto simp: mmu_ent split: if_splits)
qed

definition coreMem :: "'a kmem_scheme \<Rightarrow> bool" where
  "coreMem s \<longleftrightarrow> memInv s \<and> vapWf PF_KERNEL s \<and> 0x102000 < unat (ppStart (papOf PF_KERNEL s))"

definition arenaAt :: "u32 \<Rightarrow> 'a kmem_scheme \<Rightarrow> bool" where
  "arenaAt a s \<longleftrightarrow> (\<exists>i k. kpage s a i k \<and> bm_used (vbitMap (kernelVap s)) k \<and> \<not> isTable s (papPage (papOf PF_KERNEL s) i))"

lemma vapOf_kernel [simp]: "vapOf PF_KERNEL s = kernelVap s"
  by (simp add: vapOf_def)

lemma arena_words:
  assumes c: "coreMem s" and a: "arenaAt a s" and b: "unat a \<le> unat b" "unat b + 4 * n \<le> unat a + 4096" and j: "j < n"
  shows "\<exists>p. mmu s (b + 4 * of_nat j) = Some p \<and> \<not> isTable s (frameOf p)"
proof -
  obtain i k where k: "kpage s a i k" "\<not> isTable s (papPage (papOf PF_KERNEL s) i)" using a by (auto simp: arenaAt_def)
  have al: "pgAligned a" and i: "i < papCap (papOf PF_KERNEL s)" using k(1) unfolding kpage_def by blast+
  have "unat (4 * of_nat j :: u32) = 4 * j"
    using j b pgAligned_room [OF al] by (subst unat_mult_small) (simp_all add: unat_of_nat_small)
  then have u: "unat (b + 4 * of_nat j) = unat b + 4 * j"
    using j b pgAligned_room [OF al] by (subst unat_add_small) simp_all
  have f: "frameOf (b + 4 * of_nat j) = a"
    using u j b by (intro frame_eqI [OF al, where k = "unat b + 4 * j - unat a"]) auto
  have "poolInv s" using c by (simp add: coreMem_def memInv_def)
  then have "pgAligned (papPage (papOf PF_KERNEL s) i)" using papPage_facts(1) [OF poolInv_wf i] by blast
  then have "frameOf (papPage (papOf PF_KERNEL s) i + pageOff x) = papPage (papOf PF_KERNEL s) i" for x
    using frame_plus_off by (intro frame_eqI [where k = "unat x mod 4096"]) auto
  then show ?thesis using kpage_word [OF k(1) f] k(2) by simp
qed

text \<open>States that agree on memory.\<close>

definition sameHeap :: "'a kmem_scheme \<Rightarrow> 'a kmem_scheme \<Rightarrow> bool" where
  "sameHeap s s' \<longleftrightarrow> pmem s' = pmem s \<and> cr3 s' = cr3 s \<and> (\<forall>q. papOf q s' = papOf q s) \<and> kernelVap s' = kernelVap s"

lemma sameHeap_core:
  assumes "sameHeap s s'"
  shows "coreMem s' = coreMem s" "arenaAt a s' = arenaAt a s" "vread x s' = vread x s" "freePages q s' = freePages q s"
proof -
  have e: "pmem s' = pmem s" "cr3 s' = cr3 s" "\<And>q. papOf q s' = papOf q s" "kernelVap s' = kernelVap s"
    using assms by (simp_all add: sameHeap_def)
  have p: "pdEnt s' j = pdEnt s j" for j using e(1,2) by (simp add: pdEnt_def)
  have t: "isTable s' f = isTable s f" for f by (rule isTable_cong) (rule p)
  note m = memEq_inv [OF e(1-3)]
  show "coreMem s' = coreMem s" by (simp add: coreMem_def m vapWf_def e p)
  show "arenaAt a s' = arenaAt a s" by (simp add: arenaAt_def memEq(2) [OF e] e(3,4) t)
  show "vread x s' = vread x s" unfolding vread_def m(2) e(1) ..
  show "freePages q s' = freePages q s" by (rule m)
qed

lemma core_pmem:
  assumes c: "coreMem s" and m: "memInv (s\<lparr>pmem := m\<rparr>)" "\<forall>i < 1024. pdEnt (s\<lparr>pmem := m\<rparr>) i = pdEnt s i"
    "\<forall>x. mmu (s\<lparr>pmem := m\<rparr>) x = mmu s x"
  shows "coreMem (s\<lparr>pmem := m\<rparr>)" "arenaAt a (s\<lparr>pmem := m\<rparr>) = arenaAt a s"
proof -
  have "isTable (s\<lparr>pmem := m\<rparr>) f = isTable s f" for f by (rule isTable_cong) (use m(2) in blast)
  then show "arenaAt a (s\<lparr>pmem := m\<rparr>) = arenaAt a s"
    using m(2,3) by (simp add: arenaAt_def kpage_def del: ents_upd)
  show "coreMem (s\<lparr>pmem := m\<rparr>)" using c m by (simp add: coreMem_def vapWf_def del: ents_upd)
qed

lemma arena_clear:
  fixes s :: "'a kmem_scheme"
  assumes c: "coreMem s" and a: "arenaAt a s" and b: "unat a \<le> unat b" "unat b + 4 * n \<le> unat a + 4096"
  obtains m where "vclear b n s = Inr (s\<lparr>pmem := m\<rparr>)" "coreMem (s\<lparr>pmem := m\<rparr>)"
    "\<And>a'. arenaAt a' (s\<lparr>pmem := m\<rparr>) = arenaAt a' s" "\<forall>j < n. vread (b + 4 * of_nat j) (s\<lparr>pmem := m\<rparr>) = Inr 0"
proof -
  have inv: "memInv s" using c by (simp add: coreMem_def)
  let ?P = "\<lambda>m. vclear b n s = Inr (s\<lparr>pmem := m\<rparr>) \<and> memInv (s\<lparr>pmem := m\<rparr>) \<and> (\<forall>i < 1024. pdEnt (s\<lparr>pmem := m\<rparr>) i = pdEnt s i) \<and>
    (\<forall>x. mmu (s\<lparr>pmem := m\<rparr>) x = mmu s x) \<and> (\<forall>p. m p = pmem s p \<or> m p = 0) \<and>
    (\<forall>j < n. vread (b + 4 * of_nat j) (s\<lparr>pmem := m\<rparr>) = Inr 0)"
  have "\<exists>m. ?P m"
    by (rule vclear_data [OF inv]) (rule arena_words [OF c a b])
  then obtain m where "?P m" ..
  then have m: "vclear b n s = Inr (s\<lparr>pmem := m\<rparr>)" "memInv (s\<lparr>pmem := m\<rparr>)" "\<forall>i < 1024. pdEnt (s\<lparr>pmem := m\<rparr>) i = pdEnt s i"
    "\<forall>x. mmu (s\<lparr>pmem := m\<rparr>) x = mmu s x" "\<forall>j < n. vread (b + 4 * of_nat j) (s\<lparr>pmem := m\<rparr>) = Inr 0"
    by blast+
  show thesis by (rule that [OF m(1) core_pmem [OF c m(2-4)] m(5)])
qed

section \<open>A page for an arena\<close>

text \<open>What the page allocator leaves alone.\<close>

definition sameCtl :: "'a kmem_scheme \<Rightarrow> 'a kmem_scheme \<Rightarrow> bool" where
  "sameCtl s s' \<longleftrightarrow> arenas s' = arenas s \<and> kmbdArr s' = kmbdArr s \<and> tcb s' = tcb s \<and> curThread s' = curThread s \<and>
     semas s' = semas s \<and> holder s' = holder s \<and> holderRepeatTimes s' = holderRepeatTimes s"

lemma sameRest_ctl: "sameRest s s' \<Longrightarrow> sameCtl s s'"
proof -
  assume a: "sameRest s s'"
  have "s' = s\<lparr>pmem := pmem s', kernelPap := kernelPap s', userPap := userPap s'\<rparr>"
    using a unfolding sameRest_def by (rule sym)
  then obtain m kp up where s': "s' = s\<lparr>pmem := m, kernelPap := kp, userPap := up\<rparr>" by blast
  show ?thesis unfolding s' sameCtl_def by simp
qed

lemma sameRest_kvap: "sameRest s s' \<Longrightarrow> kernelVap s' = kernelVap s"
  using sameRest_vapOf [of s s' PF_KERNEL] by simp

lemma sameCtl_trans: "sameCtl s1 s2 \<Longrightarrow> sameCtl s2 s3 \<Longrightarrow> sameCtl s1 s3"
  by (simp add: sameCtl_def)

lemma sameCtl_vap [simp]: "sameCtl s (setVapBits PF_KERNEL bm s)"
  by (simp add: sameCtl_def setVapBits_def)

text \<open>Pages that were handed out keep their place when more are.\<close>

lemma heap_grow:
  fixes s s' :: "'a kmem_scheme"
  assumes c: "coreMem s" and inv: "memInv s'" and st: "vstartAddr (kernelVap s') = vstartAddr (kernelVap s)"
    and sh: "bm_same_shape (vbitMap (kernelVap s)) (vbitMap (kernelVap s'))"
    and us: "\<And>j. bm_used (vbitMap (kernelVap s)) j \<Longrightarrow> bm_used (vbitMap (kernelVap s')) j"
    and pp: "\<And>q. ppStart (papOf q s') = ppStart (papOf q s)" "\<And>q. papCap (papOf q s') = papCap (papOf q s)"
    and pd: "\<And>i. i < 1024 \<Longrightarrow> pdEnt s' i = pdEnt s i"
    and old: "\<And>k. k < bm_cap (vbitMap (kernelVap s)) \<Longrightarrow> bm_used (vbitMap (kernelVap s)) k \<Longrightarrow>
      mmu s' (vpage (vstartAddr (kernelVap s)) k) = mmu s (vpage (vstartAddr (kernelVap s)) k)"
    and free: "\<And>k. k < bm_cap (vbitMap (kernelVap s)) \<Longrightarrow> \<not> bm_used (vbitMap (kernelVap s')) k \<Longrightarrow>
      mmu s' (vpage (vstartAddr (kernelVap s)) k) = mmu s (vpage (vstartAddr (kernelVap s)) k)"
  shows "coreMem s'" "arenaAt a s \<Longrightarrow> arenaAt a s'"
proof -
  have cap: "bm_cap (vbitMap (kernelVap s')) = bm_cap (vbitMap (kernelVap s))" using bm_cap_same_shape [OF sh] by simp
  have pg: "papPage (papOf q s') i = papPage (papOf q s) i" for q i by (simp add: papPage_def pp)
  have tab: "isTable s' f = isTable s f" for f by (rule isTable_cong [OF pd])
  have pd': "pdEnt s' (dIdx x) = pdEnt s (dIdx x)" for x by (rule pd) simp
  have w: "vapWf PF_KERNEL s" and low: "0x102000 < unat (ppStart (papOf PF_KERNEL s))" using c by (simp_all add: coreMem_def)
  have "vapWf PF_KERNEL s'"
    using w us free bm_wf_same_shape [OF sh] unfolding vapWf_def vapOf_kernel st cap pd' by metis
  then show "coreMem s'" using inv low by (simp add: coreMem_def pp)
  show "arenaAt a s'" if ar: "arenaAt a s"
  proof -
    obtain i k where k: "kpage s a i k" "bm_used (vbitMap (kernelVap s)) k" "\<not> isTable s (papPage (papOf PF_KERNEL s) i)"
      using ar by (auto simp: arenaAt_def)
    have "a = vpage (vstartAddr (kernelVap s)) k" "k < bm_cap (vbitMap (kernelVap s))" using k(1) unfolding kpage_def by blast+
    then have ma: "mmu s' a = mmu s a" using k(2) old [of k] by simp
    have "kpage s' a i k = kpage s a i k" by (simp only: kpage_def st cap pp(2) pd' pg ma)
    then have "kpage s' a i k" using k(1) by simp
    then show ?thesis using k(2,3) us by (auto simp: arenaAt_def tab pg)
  qed
qed

lemma vpage_pgNo_kernel:
  assumes "vapWf PF_KERNEL s" "k < bm_cap (vbitMap (kernelVap s))"
  shows "unat (vstartAddr (kernelVap s)) + 4096 * k + 4096 \<le> 0xffc00000"
    "pgNo (vpage (vstartAddr (kernelVap s)) k) = pgNo (vstartAddr (kernelVap s)) + k"
    "pgAligned (vpage (vstartAddr (kernelVap s)) k)"
proof -
  have l: "unat (vstartAddr (kernelVap s)) + 4096 * bm_cap (vbitMap (kernelVap s)) \<le> 0xffc00000"
    and al: "pgAligned (vstartAddr (kernelVap s))" using assms(1) by (simp_all add: vapWf_def)
  show le: "unat (vstartAddr (kernelVap s)) + 4096 * k + 4096 \<le> 0xffc00000" using l assms(2) by simp
  then show "pgNo (vpage (vstartAddr (kernelVap s)) k) = pgNo (vstartAddr (kernelVap s)) + k" by (intro pgNo_vpage) simp
  show "pgAligned (vpage (vstartAddr (kernelVap s)) k)" using le by (intro pgAligned_vpage [OF al]) simp
qed

lemma allocPage_arena:
  fixes s :: "'a kmem_scheme"
  assumes c: "coreMem s" and b: "\<forall>a h. arenas s a = Some h \<longrightarrow> arenaAt a s"
  obtains (none) s' where "allocPage PF_KERNEL 1 s = Inr (0, s')" "coreMem s'" "sameCtl s s'" "\<And>a. arenaAt a s \<Longrightarrow> arenaAt a s'"
      "first_fit (vbitMap (kernelVap s)) 1 = None \<or> freePages PF_KERNEL s = {}"
  | (page) v s' where "allocPage PF_KERNEL 1 s = Inr (v, s')" "v \<noteq> 0" "coreMem s'" "sameCtl s s'"
      "\<And>a. arenaAt a s \<Longrightarrow> arenaAt a s'" "arenaAt v s'" "arenas s v = None" "pgAligned v"
proof -
  have inv: "memInv s" and w: "vapWf PF_KERNEL s" using c by (simp_all add: coreMem_def)
  let ?vb = "vbitMap (kernelVap s)" and ?st = "vstartAddr (kernelVap s)"
  have cases: "(first_fit ?vb 1 = None \<and> allocPage PF_KERNEL 1 s = Inr (0, s)) \<or>
    (\<exists>i is s1 s'. first_fit ?vb 1 = Some i \<and> length is = 1 \<and>
       grown PF_KERNEL (vpage ?st i) is s1 s' \<and> (\<exists>bm. s1 = setVapBits PF_KERNEL bm s) \<and>
       bm_same_shape ?vb (vbitMap (kernelVap s1)) \<and>
       (\<forall>j. bm_used (vbitMap (kernelVap s1)) j = (bm_used ?vb j \<or> (i \<le> j \<and> j < i + 1))) \<and>
       allocPage PF_KERNEL 1 s = Inr (vpage ?st i, s')) \<or>
    (\<exists>v s1 s2 bm. card (freePages PF_KERNEL s) < 1 \<and> (\<exists>bm. s1 = setVapBits PF_KERNEL bm s) \<and> grown PF_KERNEL v [] s1 s2 \<and>
       (\<forall>j. bm_used bm j = bm_used ?vb j) \<and> bm_same_shape ?vb bm \<and>
       allocPage PF_KERNEL 1 s = Inr (0, setVapBits PF_KERNEL bm s2))"
    using allocPage_cases [OF inv w, of 1] by simp
  then show thesis
  proof (elim disjE exE conjE)
    assume "first_fit ?vb 1 = None" "allocPage PF_KERNEL 1 s = Inr (0, s)"
    then show thesis using none [of s] c by (simp add: sameCtl_def)
  next
    fix i "is" s1 s' bm
    assume a: "first_fit ?vb 1 = Some i" "length is = 1" "grown PF_KERNEL (vpage ?st i) is s1 s'"
      "s1 = setVapBits PF_KERNEL bm s" "bm_same_shape ?vb (vbitMap (kernelVap s1))"
      "\<forall>j. bm_used (vbitMap (kernelVap s1)) j = (bm_used ?vb j \<or> i \<le> j \<and> j < i + 1)"
      "allocPage PF_KERNEL 1 s = Inr (vpage ?st i, s')"
    have bwf: "bm_wf ?vb" using w by (simp add: vapWf_def)
    have fit: "i < bm_cap ?vb" "\<not> bm_used ?vb i"
      using first_fit_bound [OF bwf _ a(1)] a(1) first_fit_Some [of ?vb 1 i] by (auto simp: run_free_def)
    note v = vpage_pgNo_kernel [OF w]
    have kv: "kernelVap s' = kernelVap s1" by (rule sameRest_kvap [OF grownD(1) [OF a(3)]])
    have st: "vstartAddr (kernelVap s') = ?st" unfolding kv a(4) by (simp add: setVapBits_def)
    have sh: "bm_same_shape ?vb (vbitMap (kernelVap s'))" unfolding kv by (rule a(5))
    have bits: "bm_used (vbitMap (kernelVap s')) j = (bm_used ?vb j \<or> j = i)" for j
      unfolding kv using a(6) by (auto simp: le_antisym)
    obtain i0 where i0: "is = [i0]" using a(2) by (cases "is") auto
    have m1: "mmu s' x = (if pgNo x = pgNo (vpage ?st i) then Some (papPage (papOf PF_KERNEL s) i0 + pageOff x) else mmu s x)" for x
      using grownD(10) [OF a(3), of x] unfolding i0 a(4) by (auto simp: le_antisym)
    have mo: "mmu s' (vpage ?st k) = mmu s (vpage ?st k)" if "k < bm_cap ?vb" "k \<noteq> i" for k
      using m1 v(2) [OF that(1)] v(2) [OF fit(1)] that(2) by simp
    have pp: "ppStart (papOf q s') = ppStart (papOf q s)" "papCap (papOf q s') = papCap (papOf q s)" for q
      using grownD(6,7) [OF a(3)] a(4) by simp_all
    have pd: "pdEnt s' j = pdEnt s j" if "j < 1024" for j using grownD(9) [OF a(3) that] a(4) by simp
    have inv': "memInv s'" using grown_memInv [OF _ a(3)] a(4) inv by simp
    have H: "coreMem s'" "arenaAt a s \<Longrightarrow> arenaAt a s'" for a
      by (rule heap_grow [OF c inv' st sh _ pp pd]; use mo fit bits in blast)+
    have ctl: "sameCtl s s'" using sameCtl_trans [OF _ sameRest_ctl [OF grownD(1) [OF a(3)]]] a(4) by simp
    have pi: "i0 < papCap (papOf PF_KERNEL s)" "\<not> papUsed (papOf PF_KERNEL s) i0"
      using grownD(5) [OF a(3), of i0] i0 a(4) by simp_all
    have pdp: "present (pdEnt s (dIdx (vpage ?st i)))" using w fit by (simp add: vapWf_def)
    have tab: "isTable s' f = isTable s f" for f by (rule isTable_cong [OF pd])
    have d1: "dIdx (vpage ?st i) < 1023"
    proof -
      have "unat (vpage ?st i) < 1023 * 4194304" using v(1) [OF fit(1)] by (subst unat_vpage) simp_all
      then show ?thesis unfolding dIdx_def by (simp add: less_mult_imp_div_less)
    qed
    have off: "pageOff (vpage ?st i) = 0"
      using v(3) [OF fit(1)] by (simp add: pgAligned_def word_unat_eq_iff unat_off del: unat_inj_iff)
    have "kpage s' (vpage ?st i) i0 i"
      unfolding kpage_def st pp bm_cap_same_shape [OF sh] pd [OF idx_bound(1)]
      using fit v(1,3) [OF fit(1)] d1 pdp pi m1 [of "vpage ?st i"] off by (simp add: papPage_def pp)
    moreover have "\<not> isTable s' (papPage (papOf PF_KERNEL s') i0)"
      unfolding tab using memInvD(3) [OF inv pi] by (simp add: papPage_def pp)
    ultimately have at: "arenaAt (vpage ?st i) s'" using bits by (auto simp: arenaAt_def)
    have "arenas s (vpage ?st i) = None"
    proof (rule ccontr)
      assume "arenas s (vpage ?st i) \<noteq> None"
      then obtain h where "arenas s (vpage ?st i) = Some h" by blast
      from b [rule_format, OF this] obtain i' k where k: "kpage s (vpage ?st i) i' k" "bm_used ?vb k"
        unfolding arenaAt_def by (elim exE conjE)
      have e: "vpage ?st i = vpage ?st k" "k < bm_cap ?vb" using k(1) by (simp_all only: kpage_def)
      have "pgNo ?st + i = pgNo ?st + k" using v(2) [OF fit(1)] v(2) [OF e(2)] e(1) by metis
      then have "i = k" by simp
      then show False using k(2) fit(2) by simp
    qed
    moreover have "vpage ?st i \<noteq> 0"
    proof -
      have "4096 \<le> unat ?st" using w by (simp add: vapWf_def)
      then have "unat (vpage ?st i) \<noteq> 0" using v(1) [OF fit(1)] by (subst unat_vpage) simp_all
      then show ?thesis by auto
    qed
    ultimately show thesis using page [OF a(7) _ H(1) ctl H(2) at] v(3) [OF fit(1)] by blast
  next
    fix v s1 s2 bm bm'
    assume a: "card (freePages PF_KERNEL s) < 1" "s1 = setVapBits PF_KERNEL bm' s" "grown PF_KERNEL v [] s1 s2"
      "\<forall>j. bm_used bm j = bm_used ?vb j" "bm_same_shape ?vb bm" "allocPage PF_KERNEL 1 s = Inr (0, setVapBits PF_KERNEL bm s2)"
    let ?s = "setVapBits PF_KERNEL bm s2"
    have kv: "kernelVap s2 = kernelVap s1" by (rule sameRest_kvap [OF grownD(1) [OF a(3)]])
    have kb: "vbitMap (kernelVap ?s) = bm" "vstartAddr (kernelVap ?s) = ?st"
      by (simp_all add: setVapBits_def kv a(2))
    have inv': "memInv ?s" using grown_memInv [OF _ a(3)] a(2) inv by simp
    have pp: "ppStart (papOf q ?s) = ppStart (papOf q s)" "papCap (papOf q ?s) = papCap (papOf q s)" for q
      using grownD(6,7) [OF a(3)] a(2) by simp_all
    have pd: "pdEnt ?s j = pdEnt s j" if "j < 1024" for j using grownD(9) [OF a(3) that] a(2) by simp
    have m: "mmu s2 x = mmu s x" for x using grown_Nil [OF a(3)] a(2) by simp
    have sh: "bm_same_shape ?vb (vbitMap (kernelVap ?s))" unfolding kb by (rule a(5))
    have H: "coreMem ?s" "arenaAt a s \<Longrightarrow> arenaAt a ?s" for a
      by (rule heap_grow [OF c inv' kb(2) sh _ pp pd]; simp add: kb(1) a(4) m)+
    have "sameCtl s1 s2" "sameCtl s2 ?s" "sameCtl s s1" using sameRest_ctl [OF grownD(1) [OF a(3)]] a(2) by simp_all
    then have "sameCtl s ?s" by (blast intro: sameCtl_trans)
    then show thesis using none [OF a(6) H(1) _ H(2)] a(1) by simp
  qed
qed

lemma freePage_arena:
  fixes s :: "'a kmem_scheme"
  assumes c: "coreMem s" and ar: "arenaAt a s"
  obtains s' where "freePage PF_KERNEL a 1 s = Inr s'" "coreMem s'" "sameCtl s s'"
    "\<And>a'. a' \<noteq> a \<Longrightarrow> arenaAt a' s \<Longrightarrow> arenaAt a' s'"
proof -
  have inv: "memInv s" and w: "vapWf PF_KERNEL s" and low: "0x102000 < unat (ppStart (papOf PF_KERNEL s))"
    using c by (simp_all add: coreMem_def)
  let ?vb = "vbitMap (kernelVap s)" and ?st = "vstartAddr (kernelVap s)"
  have h: "kheapOk s" using memInvD(1,2) [OF inv] low w by (simp add: kheapOk_def vapWf_def)
  obtain i k where k: "kpage s a i k" "bm_used ?vb k" "\<not> isTable s (papPage (papOf PF_KERNEL s) i)"
    using ar unfolding arenaAt_def by (elim exE conjE)
  obtain s' where s': "freePage PF_KERNEL a 1 s = Inr s'" "pageGone a i k s s'"
    using freePage_one [OF h k(1)] by blast
  note D = pageGoneD [OF s'(2)] and g = s'(2) [unfolded pageGone_def]
  have st: "vstartAddr (kernelVap s') = ?st" and cap: "bm_cap (vbitMap (kernelVap s')) = bm_cap ?vb"
    and pd: "\<And>j. j < 1024 \<Longrightarrow> pdEnt s' j = pdEnt s j" and ps: "\<And>q. ppStart (papOf q s') = ppStart (papOf q s)"
    using g by blast+
  have e: "a = vpage ?st k" "k < bm_cap ?vb" "pgAligned a" "present (pdEnt s (dIdx a))"
    using k(1) unfolding kpage_def by blast+
  have tab: "isTable s' f = isTable s f" for f by (rule isTable_cong [OF pd])
  have pd': "pdEnt s' (dIdx x) = pdEnt s (dIdx x)" for x by (rule pd) simp
  have kh: "poolInv s'" "pagingInv s'" "bm_wf (vbitMap (kernelVap s'))" using D(1) by (simp_all add: kheapOk_def)
  have "memInv s'"
    unfolding memInv_def
  proof (intro conjI allI impI)
    fix q j assume j: "j < papCap (papOf q s')" "isTable s' (papPage (papOf q s') j)"
    then have t: "isTable s (papPage (papOf q s) j)" "j < papCap (papOf q s)" by (simp_all add: tab D(3,4))
    then have "papUsed (papOf q s) j" using memInvD(3) [OF inv] by blast
    then show "papUsed (papOf q s') j" using t(1) k(3) by (auto simp: D(2))
  qed (rule kh)+
  moreover have "vapWf PF_KERNEL s'"
    unfolding vapWf_def vapOf_kernel st cap pd'
  proof (intro conjI allI impI kh(3))
    show "pgAligned ?st" "4096 \<le> unat ?st"
      "unat ?st + 4096 * bm_cap ?vb \<le> (if PF_KERNEL = PF_USER then 0xbffff000 else 0xffc00000)"
      using w by (simp_all add: vapWf_def)
    fix j assume j: "j < bm_cap ?vb" "\<not> bm_used (vbitMap (kernelVap s')) j"
    have "present (pdEnt s (dIdx (vpage ?st j))) \<and> (pgNo (vpage ?st j) \<noteq> pgNo a \<longrightarrow> mmu s (vpage ?st j) = None)"
    proof (cases "j = k")
      case True
      then show ?thesis using e(1,4) by simp
    next
      case False
      then have "\<not> bm_used ?vb j" using j(2) D(6) by simp
      then show ?thesis using w j(1) by (simp add: vapWf_def)
    qed
    then show "present (pdEnt s (dIdx (vpage ?st j)))" "mmu s' (vpage ?st j) = None" by (auto simp: D(5))
  qed
  ultimately have "coreMem s'" using low by (simp add: coreMem_def ps)
  moreover have "sameCtl s s'"
  proof -
    have "sameRest (s\<lparr>kernelVap := kernelVap s'\<rparr>) s'" using g by blast
    from sameRest_ctl [OF this] show ?thesis by (simp add: sameCtl_def)
  qed
  moreover have "arenaAt a' s'" if "a' \<noteq> a" "arenaAt a' s" for a'
  proof -
    obtain i' k' where k': "kpage s a' i' k'" "bm_used ?vb k'" "\<not> isTable s (papPage (papOf PF_KERNEL s) i')"
      using \<open>arenaAt a' s\<close> unfolding arenaAt_def by (elim exE conjE)
    have e': "a' = vpage ?st k'" "pgAligned a'" using k'(1) unfolding kpage_def by blast+
    have "frameOf a' \<noteq> frameOf a" using \<open>a' \<noteq> a\<close> e'(2) e(3) by (simp add: frame_aligned)
    then have "pgNo a' \<noteq> pgNo a" by (simp add: frameOf_pgNo)
    from kpage_other [OF s'(2) k'(1) this] have kp: "kpage s' a' i' k'" .
    have "k' \<noteq> k" using e(1) e'(1) \<open>a' \<noteq> a\<close> by blast
    then show ?thesis
      unfolding arenaAt_def using kp k'(2,3) by (intro exI [of _ i'] exI [of _ k']) (simp add: D(4,6) tab)
  qed
  ultimately show thesis using that s'(1) by blast
qed

section \<open>The invariant of the heap\<close>

definition hp :: "'a kmem_scheme \<Rightarrow> bool" where
  "hp s \<longleftrightarrow> coreMem s \<and> (\<forall>a h. arenas s a = Some h \<longrightarrow> arenaAt a s) \<and> freeListsOk (kmbdArr s) (arenas s)"

definition usedOf :: "'a kmem_scheme \<Rightarrow> (u32 \<times> nat) set" where
  "usedOf s = usedBlocks (kmbdArr s) (arenas s)"

definition sameLk :: "'a kmem_scheme \<Rightarrow> 'a kmem_scheme \<Rightarrow> bool" where
  "sameLk s s' \<longleftrightarrow> tcb s' = tcb s \<and> curThread s' = curThread s \<and>
     semas s' = semas s \<and> holder s' = holder s \<and> holderRepeatTimes s' = holderRepeatTimes s"

definition heapOk :: "'a kmem_scheme \<Rightarrow> bool" where
  "heapOk s \<longleftrightarrow> hp s \<and> lockFree KernelPapLock s \<and> pageDir (tcb s (curThread s)) = NULLPTR"

text \<open>There is no page for a new arena.\<close>

definition noPage :: "'a kmem_scheme \<Rightarrow> bool" where
  "noPage s \<longleftrightarrow> first_fit (vbitMap (kernelVap s)) 1 = None \<or> freePages PF_KERNEL s = {}"

lemma mbdArr_kernel [simp]: "mbdArrOf PF_KERNEL s = kmbdArr s"
  by (simp add: mbdArrOf_def)

lemma setFreeList_kernel [simp]: "setFreeList PF_KERNEL d fl s = s\<lparr>kmbdArr := setFl d fl (kmbdArr s)\<rparr>"
  by (simp add: setFreeList_def Let_def)

lemma hp_cong:
  assumes "sameHeap s s'" "arenas s' = arenas s" "kmbdArr s' = kmbdArr s"
  shows "hp s' = hp s" "usedOf s' = usedOf s"
  using sameHeap_core [OF assms(1)] assms(2,3) by (simp_all add: hp_def usedOf_def)

lemma sameHeap_ctl: "sameHeap s (s\<lparr>kmbdArr := x\<rparr>)" "sameHeap s (s\<lparr>arenas := y\<rparr>)"
  by (simp_all add: sameHeap_def papOf_def del: pap_papOf)

text \<open>Taking a block.\<close>

lemma takeBlock_ok:
  fixes s :: "'a kmem_scheme"
  assumes h: "hp s" and d: "d < 7" and ne: "freeList (kmbdArr s ! d) \<noteq> []"
  obtains b s' where "takeBlock PF_KERNEL d s = Inr (b, s')" "b \<noteq> 0" "hp s'" "sameLk s s'" "b \<notin> fst ` usedOf s"
    "usedOf s' = insert (b, bsz d) (usedOf s)" "\<forall>j < bsz d div 4. vread (b + 4 * of_nat j) s' = Inr 0"
proof -
  have c: "coreMem s" and bk: "\<forall>a h. arenas s a = Some h \<longrightarrow> arenaAt a s" and ok: "freeListsOk (kmbdArr s) (arenas s)"
    using h unfolding hp_def by blast+
  obtain b fl where fl: "freeList (kmbdArr s ! d) = b # fl" using ne by (cases "freeList (kmbdArr s ! d)") auto
  obtain a h where x: "arenas s a = Some h" "blockToArena b = a" "pgAligned a" "unat b + bsz d \<le> unat a + 4096"
    "unat a + 12 \<le> unat b" "unat b mod 4 = 0"
    "freeListsOk (setFl d fl (kmbdArr s)) ((arenas s)(a \<mapsto> h\<lparr>acnt := acnt h - 1\<rparr>))" "b \<notin> fst ` usedBlocks (kmbdArr s) (arenas s)"
    "usedBlocks (setFl d fl (kmbdArr s)) ((arenas s)(a \<mapsto> h\<lparr>acnt := acnt h - 1\<rparr>)) =
      insert (b, bsz d) (usedBlocks (kmbdArr s) (arenas s))"
    by (rule freeListsOk_take [OF ok d fl])
  define s1 where "s1 = s\<lparr>kmbdArr := setFl d fl (kmbdArr s)\<rparr>"
  have e1: "sameHeap s s1" unfolding s1_def by (rule sameHeap_ctl)
  note m1 = sameHeap_core [OF e1]
  have at: "arenaAt a s1" using bk x(1) m1(2) by blast
  have c1: "coreMem s1" using c m1(1) by simp
  have "unat a \<le> unat b" "unat b + 4 * (bsz d div 4) \<le> unat a + 4096" using x(4,5) by simp_all
  then obtain m where m: "vclear b (bsz d div 4) s1 = Inr (s1\<lparr>pmem := m\<rparr>)" "coreMem (s1\<lparr>pmem := m\<rparr>)"
    "\<And>a'. arenaAt a' (s1\<lparr>pmem := m\<rparr>) = arenaAt a' s1"
    "\<forall>j < bsz d div 4. vread (b + 4 * of_nat j) (s1\<lparr>pmem := m\<rparr>) = Inr 0"
    using arena_clear [OF c1 at] by blast
  define s2 where "s2 = setArena a (Some (h\<lparr>acnt := acnt h - 1\<rparr>)) (s1\<lparr>pmem := m\<rparr>)"
  have e2: "sameHeap (s1\<lparr>pmem := m\<rparr>) s2" unfolding s2_def setArena_def by (rule sameHeap_ctl)
  note m2 = sameHeap_core [OF e2]
  have f2: "arenas s2 = (arenas s)(a \<mapsto> h\<lparr>acnt := acnt h - 1\<rparr>)" "kmbdArr s2 = setFl d fl (kmbdArr s)"
    by (simp_all add: s2_def s1_def setArena_def)
  have "unat (of_nat (bsz d) :: u32) div 4 = bsz d div 4" using unat_bsz(1) [OF d] by simp
  moreover have "blockSize (setFl d fl (kmbdArr s) ! d) = of_nat (bsz d)" using freeListsOkD(1,2) [OF ok] d by simp
  ultimately have run: "takeBlock PF_KERNEL d s = Inr (b, s2)"
    unfolding takeBlock_def mbdArr_kernel fl setFreeList_kernel s1_def [symmetric] Let_def
    using m(1) x(1,2) by (simp add: s2_def) (simp add: s1_def)
  have "arenaAt a' s2" if "arenas s2 a' = Some h'" for a' h'
  proof -
    have "arenas s a' \<noteq> None" using that x(1) unfolding f2 by (auto split: if_splits)
    then show ?thesis using bk m1(2) m(3) m2(2) by blast
  qed
  then have "hp s2" using m(2) m2(1) x(7) unfolding hp_def f2 by blast
  moreover have "sameLk s s2" by (simp add: sameLk_def s2_def s1_def setArena_def)
  moreover have "\<forall>j < bsz d div 4. vread (b + 4 * of_nat j) s2 = Inr 0" using m(4) m2(3) by simp
  moreover have "b \<noteq> 0" using x(5) by auto
  ultimately show thesis using that run x(8,9) by (simp add: usedOf_def f2)
qed

text \<open>A new arena.\<close>

lemma sameLk_trans: "sameLk s1 s2 \<Longrightarrow> sameLk s2 s3 \<Longrightarrow> sameLk s1 s3"
  by (simp add: sameLk_def)

lemma sameCtl_lk: "sameCtl s s' \<Longrightarrow> sameLk s s'"
  by (simp add: sameCtl_def sameLk_def)

lemma newArena_ok:
  fixes s :: "'a kmem_scheme"
  assumes h: "hp s" and d: "d < 7"
  obtains (none) s' where "newArena PF_KERNEL d s = Inr (False, s')" "hp s'" "sameLk s s'" "usedOf s' = usedOf s" "noPage s"
  | (page) s' where "newArena PF_KERNEL d s = Inr (True, s')" "hp s'" "sameLk s s'" "usedOf s' = usedOf s"
      "freeList (kmbdArr s' ! d) \<noteq> []"
proof -
  have c: "coreMem s" and bk: "\<forall>a h. arenas s a = Some h \<longrightarrow> arenaAt a s" and ok: "freeListsOk (kmbdArr s) (arenas s)"
    using h unfolding hp_def by blast+
  show thesis
  proof (cases rule: allocPage_arena [OF c bk])
    case none: (1 s')
    have "arenas s' = arenas s" "kmbdArr s' = kmbdArr s" using none(3) by (simp_all add: sameCtl_def)
    then have "hp s'" "usedOf s' = usedOf s" using none(2,4) bk ok by (auto simp: hp_def usedOf_def)
    moreover have "newArena PF_KERNEL d s = Inr (False, s')" using none(1) by (simp add: newArena_def)
    ultimately show thesis using that(1) sameCtl_lk [OF none(3)] none(5) by (simp add: noPage_def)
  next
    case page: (2 v s1)
    have f1: "arenas s1 = arenas s" "kmbdArr s1 = kmbdArr s" using page(4) by (simp_all add: sameCtl_def)
    have "unat v \<le> unat v" "unat v + 4 * 1024 \<le> unat v + 4096" by simp_all
    then obtain m where m: "vclear v 1024 s1 = Inr (s1\<lparr>pmem := m\<rparr>)" "coreMem (s1\<lparr>pmem := m\<rparr>)"
      "\<And>a'. arenaAt a' (s1\<lparr>pmem := m\<rparr>) = arenaAt a' s1"
      using arena_clear [OF page(3,6)] by metis
    let ?h = "\<lparr>adesc = Some d, acnt = of_nat (bcnt d), alarge = False\<rparr>"
      and ?fl = "freeList (kmbdArr s ! d) @ map (blkAt v d) [0..<bcnt d]"
    note N = freeListsOk_new [OF ok d page(7,8)]
    note D = freeListsOkD(2,3) [OF ok d]
    define s2 where "s2 = (s1\<lparr>pmem := m\<rparr>)\<lparr>arenas := (arenas s1)(v \<mapsto> ?h)\<rparr>"
    define s3 where "s3 = s2\<lparr>kmbdArr := setFl d ?fl (kmbdArr s2)\<rparr>"
    have "sameHeap (s1\<lparr>pmem := m\<rparr>) s2" unfolding s2_def by (rule sameHeap_ctl)
    moreover have "sameHeap s2 s3" unfolding s3_def by (rule sameHeap_ctl)
    ultimately have e: "coreMem s3" "arenaAt a s3 = arenaAt a s1" for a
      using sameHeap_core(1,2) m(2,3) by blast+
    have f3: "arenas s3 = (arenas s)(v \<mapsto> ?h)" "kmbdArr s3 = setFl d ?fl (kmbdArr s)"
      by (simp_all add: s3_def s2_def f1)
    have k2: "kmbdArr s2 = kmbdArr s" by (simp add: s2_def f1)
    have "newArena PF_KERNEL d s = Inr (True, s3)"
      unfolding newArena_def page(1) rbind_Inr prod.case Let_def setArena_def m(1) mbdArr_kernel setFreeList_kernel
      using page(2) N(1) unat_bsz(2) [OF d] D
      by (simp add: f1 s3_def s2_def)
    moreover have "arenaAt a s3" if "arenas s3 a = Some h'" for a h'
    proof (cases "a = v")
      case True
      then show ?thesis using page(6) e(2) by simp
    next
      case False
      then have "arenas s a = Some h'" using that f3 by simp
      then show ?thesis using bk page(5) e(2) by blast
    qed
    then have "hp s3" using e(1) N(2) unfolding hp_def f3 by blast
    moreover have "usedOf s3 = usedOf s" using N(3) by (simp add: usedOf_def f3)
    moreover have "sameLk s s3" using sameLk_trans [OF sameCtl_lk [OF page(4)]] by (simp add: sameLk_def s3_def s2_def)
    moreover have "freeList (kmbdArr s3 ! d) \<noteq> []" using N(4) freeListsOkD(1) [OF ok] d by (simp add: f3)
    ultimately show thesis using that(2) by blast
  qed
qed

section \<open>Under the lock of the pool\<close>

definition locked :: "semaid \<Rightarrow> 'a kmem_scheme \<Rightarrow> 'a kmem_scheme" where
  "locked l s = setHolder l (curThread s) 1 (updSema l (\<lambda>q. q\<lparr>val := 0\<rparr>) s)"

lemma lockNow_locked: "lockFree l s \<Longrightarrow> lockNow l s = Inr (locked l s)"
  by (simp add: lockNow_free locked_def)

lemma locked_same [simp]: "sameHeap s (locked l s)" "arenas (locked l s) = arenas s" "kmbdArr (locked l s) = kmbdArr s"
    "tcb (locked l s) = tcb s" "curThread (locked l s) = curThread s" "kernelVap (locked l s) = kernelVap s"
  by (simp_all add: locked_def sameHeap_def setHolder_def updSema_def papOf_def del: pap_papOf)

lemma unlock_ok:
  fixes s s2 :: "'a kmem_scheme"
  assumes l: "lockFree l s" and k: "sameLk (locked l s) s2"
  obtains s3 where "lockUnlock l s2 = Inr s3" "sameHeap s2 s3" "arenas s3 = arenas s2" "kmbdArr s3 = kmbdArr s2"
    "lockFree l s3" "tcb s3 = tcb s" "curThread s3 = curThread s"
proof -
  have f: "val (semas s2 l) = 0" "blockedList (semas s2 l) = []" "holder s2 l = curThread s2" "holderRepeatTimes s2 l = 1"
    "tcb s2 = tcb s" "curThread s2 = curThread s"
    using l k by (simp_all add: sameLk_def locked_def setHolder_def updSema_def lockFree_def)
  define s3 where "s3 = setIntrStatus (getIntrStatus s2) (updSema l (\<lambda>q. q\<lparr>blockedList := [], val := 1\<rparr>)
    (disableIntr (setHolder l 0 0 s2)))"
  have "lockUnlock l s2 = Inr s3" unfolding s3_def by (rule lockUnlock_last [OF f(1-4)])
  moreover have "sameHeap s2 s3" "arenas s3 = arenas s2" "kmbdArr s3 = kmbdArr s2" "tcb s3 = tcb s" "curThread s3 = curThread s"
    by (simp_all add: s3_def sameHeap_def setHolder_def updSema_def setIntrStatus_def enableIntr_def disableIntr_def papOf_def
      f(5,6) del: pap_papOf)
  moreover have "lockFree l s3"
    using l f(6) by (simp add: s3_def lockFree_def setHolder_def updSema_def setIntrStatus_def enableIntr_def disableIntr_def)
  ultimately show thesis using that by blast
qed

lemma findDesc_ok:
  "i < length descs \<Longrightarrow> sz \<le> blockSize (descs ! i) \<Longrightarrow> findDesc sz descs \<le> i \<and> sz \<le> blockSize (descs ! findDesc sz descs)"
proof (induction descs arbitrary: i)
  case (Cons d descs)
  then show ?case by (cases i) auto
qed simp

lemma findDesc_heap:
  assumes ok: "freeListsOk arr ar" and sz: "sz \<le> 1024"
  shows "findDesc sz arr < 7" "unat sz \<le> bsz (findDesc sz arr)"
proof -
  note D = freeListsOkD [OF ok]
  have "sz \<le> blockSize (arr ! 6)" using sz D(2) [of 6] by (simp add: bsz_def)
  then have f: "findDesc sz arr \<le> 6" "sz \<le> blockSize (arr ! findDesc sz arr)"
    using findDesc_ok [of 6 arr sz] D(1) by simp_all
  then show "findDesc sz arr < 7" by simp
  then show "unat sz \<le> bsz (findDesc sz arr)" using f(2) D(2) unat_bsz(1) by (simp add: word_le_nat_alt)
qed

section \<open>Properties of the heap\<close>

lemma sysMalloc_ok:
  assumes "heapOk s" "0 < sz" "sz \<le> 1024" "sz < ppSize (papOf PF_KERNEL s)"
  shows "\<exists>b s'. sysMalloc sz s = Inr (b, s') \<and> heapOk s' \<and>
    (if b = NULLPTR then usedOf s' = usedOf s \<and> noPage s
     else \<exists>n. unat sz \<le> n \<and> b \<notin> fst ` usedOf s \<and> usedOf s' = insert (b, n) (usedOf s) \<and>
       (\<forall>(b', n') \<in> usedOf s. unat b + n \<le> unat b' \<or> unat b' + n' \<le> unat b) \<and>
       (\<forall>j < n div 4. vread (b + 4 * of_nat j) s' = Inr 0))"
proof -
  have h: "hp s" and l: "lockFree KernelPapLock s" and k: "pageDir (tcb s (curThread s)) = NULLPTR"
    using assms(1) by (simp_all add: heapOk_def)
  let ?s1 = "locked KernelPapLock s"
  have h1: "hp ?s1" "usedOf ?s1 = usedOf s" using h by (simp_all add: hp_cong [OF locked_same(1-3)])
  have np: "noPage ?s1 = noPage s" by (simp add: noPage_def sameHeap_core(4) [OF locked_same(1)])
  have ok: "freeListsOk (kmbdArr s) (arenas s)" using h by (simp add: hp_def)
  define d where "d = findDesc sz (kmbdArr s)"
  have d: "d < 7" "unat sz \<le> bsz d" unfolding d_def by (rule findDesc_heap [OF ok assms(3)])+
  have len: "length (kmbdArr s) = 7" by (rule freeListsOkD(1) [OF ok])
  have start: "sysMalloc sz s =
      rbind (if freeList (kmbdArr s ! d) = [] then newArena PF_KERNEL d ?s1 else Inr (True, ?s1)) (\<lambda>(ok, s).
      if \<not> ok then rbind (lockUnlock KernelPapLock s) (\<lambda>s. Inr (NULLPTR, s))
      else rbind (takeBlock PF_KERNEL d s) (\<lambda>(block, s). rbind (lockUnlock KernelPapLock s) (\<lambda>s. Inr (block, s))))"
  proof -
    have "(\<not> (sz > 0 \<and> sz < ppSize (papOf PF_KERNEL s))) = False" "(sz > 1024) = False" "(d \<ge> length (kmbdArr s)) = False"
      using assms(2-4) d(1) len by auto
    moreover have pool: "heapPool s = PF_KERNEL" using k by (simp add: heapPool_def)
    ultimately show ?thesis
      unfolding sysMalloc_def Let_def pool by (simp add: lockNow_locked [OF l] flip: d_def cong: if_cong)
  qed
  have finish: "\<exists>s'. rbind (takeBlock PF_KERNEL d s2) (\<lambda>(block, s). rbind (lockUnlock KernelPapLock s) (\<lambda>s. Inr (block, s))) =
      Inr (b, s') \<and> heapOk s' \<and> usedOf s' = insert (b, bsz d) (usedOf s) \<and> b \<notin> fst ` usedOf s \<and> b \<noteq> 0 \<and>
      (\<forall>(b', n') \<in> usedOf s. unat b + bsz d \<le> unat b' \<or> unat b' + n' \<le> unat b) \<and>
      (\<forall>j < bsz d div 4. vread (b + 4 * of_nat j) s' = Inr 0)"
    if s3: "takeBlock PF_KERNEL d s2 = Inr (b, s3)" "b \<noteq> 0" "hp s3" "sameLk s2 s3" "b \<notin> fst ` usedOf s2"
      "usedOf s3 = insert (b, bsz d) (usedOf s2)" "\<forall>j < bsz d div 4. vread (b + 4 * of_nat j) s3 = Inr 0"
      and s2: "sameLk ?s1 s2" "usedOf s2 = usedOf s" for s2 s3 b
  proof -
    obtain s4 where s4: "lockUnlock KernelPapLock s3 = Inr s4" "sameHeap s3 s4" "arenas s4 = arenas s3" "kmbdArr s4 = kmbdArr s3"
      "lockFree KernelPapLock s4" "tcb s4 = tcb s" "curThread s4 = curThread s"
      by (rule unlock_ok [OF l sameLk_trans [OF s2(1) s3(4)]])
    note c = hp_cong [OF s4(2-4)]
    have ok3: "freeListsOk (kmbdArr s3) (arenas s3)" using s3(3) by (simp add: hp_def)
    have u3: "usedBlocks (kmbdArr s3) (arenas s3) = insert (b, bsz d) (usedOf s)"
      using s3(6) s2(2) by (simp add: usedOf_def)
    have "\<forall>(b', n') \<in> usedOf s. unat b + bsz d \<le> unat b' \<or> unat b' + n' \<le> unat b"
    proof clarify
      fix b' n' assume u: "(b', n') \<in> usedOf s" "\<not> unat b' + n' \<le> unat b"
      have "b \<noteq> b'" using u(1) s3(5) s2(2) by force
      then show "unat b + bsz d \<le> unat b'"
        using used_disjoint [OF ok3, of b "bsz d" b' n'] u u3 by simp
    qed
    then show ?thesis
      using s3 s2 s4 c k sameHeap_core(3) [OF s4(2)] by (intro exI [of _ s4]) (simp add: heapOk_def)
  qed
  show ?thesis
  proof (cases "freeList (kmbdArr s ! d) = []")
    case False
    then have "freeList (kmbdArr ?s1 ! d) \<noteq> []" by simp
    then obtain b s3 where t: "takeBlock PF_KERNEL d ?s1 = Inr (b, s3)" "b \<noteq> 0" "hp s3" "sameLk ?s1 s3" "b \<notin> fst ` usedOf ?s1"
      "usedOf s3 = insert (b, bsz d) (usedOf ?s1)" "\<forall>j < bsz d div 4. vread (b + 4 * of_nat j) s3 = Inr 0"
      by (rule takeBlock_ok [OF h1(1) d(1)])
    from finish [OF t _ h1(2)] obtain s' where "sysMalloc sz s = Inr (b, s')" "heapOk s'"
      "usedOf s' = insert (b, bsz d) (usedOf s)" "b \<notin> fst ` usedOf s" "b \<noteq> 0"
      "\<forall>(b', n') \<in> usedOf s. unat b + bsz d \<le> unat b' \<or> unat b' + n' \<le> unat b"
      "\<forall>j < bsz d div 4. vread (b + 4 * of_nat j) s' = Inr 0"
      unfolding start using False by (auto simp: sameLk_def)
    then show ?thesis using d(2) by (intro exI [of _ b] exI [of _ s']) auto
  next
    case True
    show ?thesis
    proof (cases rule: newArena_ok [OF h1(1) d(1)])
      case n: (1 s2)
      obtain s4 where s4: "lockUnlock KernelPapLock s2 = Inr s4" "sameHeap s2 s4" "arenas s4 = arenas s2" "kmbdArr s4 = kmbdArr s2"
        "lockFree KernelPapLock s4" "tcb s4 = tcb s" "curThread s4 = curThread s"
        by (rule unlock_ok [OF l n(3)])
      have "heapOk s4" "usedOf s4 = usedOf s" using hp_cong [OF s4(2-4)] n(2,4) s4(5-7) k h1(2) by (simp_all add: heapOk_def)
      moreover have "sysMalloc sz s = Inr (NULLPTR, s4)" unfolding start using True n(1) s4(1) by simp
      ultimately show ?thesis using n(5) np by simp
    next
      case p: (2 s2)
      obtain b s3 where t: "takeBlock PF_KERNEL d s2 = Inr (b, s3)" "b \<noteq> 0" "hp s3" "sameLk s2 s3" "b \<notin> fst ` usedOf s2"
        "usedOf s3 = insert (b, bsz d) (usedOf s2)" "\<forall>j < bsz d div 4. vread (b + 4 * of_nat j) s3 = Inr 0"
        by (rule takeBlock_ok [OF p(2) d(1) p(5)])
      have "usedOf s2 = usedOf s" using p(4) h1(2) by simp
      from finish [OF t p(3) this] obtain s' where "sysMalloc sz s = Inr (b, s')" "heapOk s'"
        "usedOf s' = insert (b, bsz d) (usedOf s)" "b \<notin> fst ` usedOf s" "b \<noteq> 0"
        "\<forall>(b', n') \<in> usedOf s. unat b + bsz d \<le> unat b' \<or> unat b' + n' \<le> unat b"
        "\<forall>j < bsz d div 4. vread (b + 4 * of_nat j) s' = Inr 0"
        unfolding start using True p(1) by auto
      then show ?thesis using d(2) by (intro exI [of _ b] exI [of _ s']) auto
    qed
  qed
qed

section \<open>A heap with nothing in it\<close>

definition emptyHeap :: kmem where
  "emptyHeap = demoMem\<lparr>kmbdArr := memBlockDescInit\<rparr>"

lemma emptyHeap_fields:
  "kmbdArr emptyHeap = memBlockDescInit" "arenas emptyHeap = (\<lambda>_. None)" "tcb emptyHeap = tcb demoMem"
  "papOf PF_KERNEL emptyHeap = \<lparr>ppBitMap = \<lparr>bm_length = 1, startAddr = [0, 0]\<rparr>, ppStart = 0x200000, ppSize = 0x8000\<rparr>"
  by (simp_all add: emptyHeap_def demoMem_def demoKio_def kio.defs ksched.defs papOf_def del: pap_papOf)

lemma emptyHeap_same: "sameHeap demoMem emptyHeap"
  unfolding emptyHeap_def by (rule sameHeap_ctl)

lemma emptyHeap_ok: "heapOk emptyHeap"
proof -
  have c: "coreMem emptyHeap"
    using sameHeap_core(1) [OF emptyHeap_same] demo_memInv demo_vap by (simp add: coreMem_def demoMem_fields)
  have seven: "descInitLoop 7 x = [\<lparr>blockSize = x, blocksPerArena = (PG_SIZE - sizeofArena) div x, freeList = []\<rparr>,
      \<lparr>blockSize = x * 2, blocksPerArena = (PG_SIZE - sizeofArena) div (x * 2), freeList = []\<rparr>,
      \<lparr>blockSize = x * 2 * 2, blocksPerArena = (PG_SIZE - sizeofArena) div (x * 2 * 2), freeList = []\<rparr>,
      \<lparr>blockSize = x * 2 * 2 * 2, blocksPerArena = (PG_SIZE - sizeofArena) div (x * 2 * 2 * 2), freeList = []\<rparr>,
      \<lparr>blockSize = x * 2 * 2 * 2 * 2, blocksPerArena = (PG_SIZE - sizeofArena) div (x * 2 * 2 * 2 * 2), freeList = []\<rparr>,
      \<lparr>blockSize = x * 2 * 2 * 2 * 2 * 2, blocksPerArena = (PG_SIZE - sizeofArena) div (x * 2 * 2 * 2 * 2 * 2), freeList = []\<rparr>,
      \<lparr>blockSize = x * 2 * 2 * 2 * 2 * 2 * 2, blocksPerArena = (PG_SIZE - sizeofArena) div (x * 2 * 2 * 2 * 2 * 2 * 2), freeList = []\<rparr>]" for x
    by (simp only: eval_nat_numeral BitM.simps descInitLoop.simps)
  have "blockSize (memBlockDescInit ! d) = of_nat (bsz d) \<and> blocksPerArena (memBlockDescInit ! d) = of_nat (bcnt d) \<and>
      freeList (memBlockDescInit ! d) = []" if "d < 7" for d
  proof -
    have "d \<in> {0, 1, 2, 3, 4, 5, 6}" using that by auto
    then show ?thesis unfolding memBlockDescInit_def seven by (elim insertE emptyE) (simp_all add: bsz_def bcnt_def)
  qed
  moreover have "length memBlockDescInit = 7" unfolding memBlockDescInit_def seven by simp
  ultimately have "freeListsOk memBlockDescInit (\<lambda>_. None)" by (simp add: freeListsOk_def)
  then have "hp emptyHeap" using c by (simp add: hp_def emptyHeap_fields)
  moreover have "lockFree KernelPapLock emptyHeap" "pageDir (tcb emptyHeap (curThread emptyHeap)) = NULLPTR"
    by (simp_all add: lockFree_def emptyHeap_def demoMem_def demoKio_def kio.defs ksched.defs bootedState_def mainStart_def semaInit_def worker_def zeroTask_def)
  ultimately show ?thesis by (simp add: heapOk_def)
qed

lemma emptyHeap_room: "\<not> noPage emptyHeap"
proof -
  have "kernelVap emptyHeap = kernelVap demoMem" "freePages PF_KERNEL emptyHeap = freePages PF_KERNEL demoMem"
    using emptyHeap_same by (simp_all add: sameHeap_def freePages_def)
  then show ?thesis using demo_fit [of 1] by (auto simp: noPage_def demo_free intro: exI [of _ 0])
qed





end
