(* ===== verification/Layout.thy ===== *)
theory Layout
  imports Disk
begin

text \<open>
  The layout of what the file system keeps on disk: words, inodes, directory entries and super
  blocks are read back as they were written, and a transfer of sectors changes the sectors of its
  range only.
\<close>

text \<open>The fields of the file system leave those of the memory manager alone.\<close>

lemma papOf_kfs [simp]:
  "papOf pf (s\<lparr>disks := x_disks\<rparr>) = papOf pf s"
  "papOf pf (s\<lparr>parts := x_parts\<rparr>) = papOf pf s"
  "papOf pf (s\<lparr>partitionList := x_partitionList\<rparr>) = papOf pf s"
  "papOf pf (s\<lparr>curPart := x_curPart\<rparr>) = papOf pf s"
  "papOf pf (s\<lparr>inodes := x_inodes\<rparr>) = papOf pf s"
  "papOf pf (s\<lparr>dirs := x_dirs\<rparr>) = papOf pf s"
  "papOf pf (s\<lparr>rootDir := x_rootDir\<rparr>) = papOf pf s"
  "papOf pf (s\<lparr>fileTable := x_fileTable\<rparr>) = papOf pf s"
  "papOf pf (s\<lparr>allocResult := x_allocResult\<rparr>) = papOf pf s"
  "papOf pf (s\<lparr>allocCnt := x_allocCnt\<rparr>) = papOf pf s"
  "papOf pf (s\<lparr>bufs := x_bufs\<rparr>) = papOf pf s"
  "papOf pf (s\<lparr>heapAfter := x_heapAfter\<rparr>) = papOf pf s"
  "papOf pf (s\<lparr>stackJunk := x_stackJunk\<rparr>) = papOf pf s"
  "papOf pf (s\<lparr>klog := x_klog\<rparr>) = papOf pf s"
  by (simp_all add: papOf_def del: pap_papOf)

section \<open>Overlays\<close>

lemma overlay_Nil [simp]: "overlay xs k [] = xs"
  by (simp add: overlay_def)

lemma overlay_Cons: "k < length xs \<Longrightarrow> overlay (xs[k := b]) (Suc k) bs = overlay xs k (b # bs)"
  by (simp add: overlay_def take_Suc_conv_app_nth take_update_swap upd_conv_take_nth_drop ac_simps)

lemma overlay_take_drop:
  "k + n \<le> length xs \<Longrightarrow> length bs = n \<Longrightarrow> take n (drop k (overlay xs k bs)) = bs"
  by (simp add: overlay_def)

section \<open>Words\<close>

lemma bit_le32_or:
  "ucast (ucast w :: u8) OR push_bit 8 (ucast (ucast (drop_bit 8 w) :: u8))
     OR push_bit 16 (ucast (ucast (drop_bit 16 w) :: u8))
     OR push_bit 24 (ucast (ucast (drop_bit 24 w) :: u8)) = (w :: u32)"
proof (rule bit_word_eqI)
  fix n assume "n < LENGTH(32)"
  then consider "n < 8" | "8 \<le> n \<and> n < 16" | "16 \<le> n \<and> n < 24" | "24 \<le> n \<and> n < 32" by force
  then show "bit (ucast (ucast w :: u8) OR push_bit 8 (ucast (ucast (drop_bit 8 w) :: u8))
     OR push_bit 16 (ucast (ucast (drop_bit 16 w) :: u8))
     OR push_bit 24 (ucast (ucast (drop_bit 24 w) :: u8)) :: u32) n = bit w n"
    by cases (auto simp: bit_or_iff bit_push_bit_iff bit_ucast_iff bit_drop_bit_eq)
qed

lemma length_le32 [simp]: "length (le32 w) = 4"
  by (simp add: le32_def)

lemma rd32_le32 [simp]: "rd32 (le32 w @ r) 0 = w"
  using bit_le32_or [of w] unfolding rd32_def le32_def by (simp only: append_Cons nth_Cons_0 nth_Cons_numeral
      add_0 nth_Cons_Suc One_nat_def pred_numeral_simps numeral_2_eq_2 numeral_3_eq_3)

lemma rd32_drop: "n + i + 3 < length bs \<Longrightarrow> rd32 (drop n bs) i = rd32 bs (n + i)"
  by (simp add: rd32_def add.assoc)

lemma rd32_append [simp]: "length a = n \<Longrightarrow> rd32 (a @ r) (n + i) = rd32 r i"
  by (simp add: rd32_def nth_append add.assoc)

lemma rd32_here: "length a = n \<Longrightarrow> rd32 (a @ le32 w @ r) n = w"
  using rd32_append [of a n "le32 w @ r" 0] by simp

lemma length_bytesOf [simp]: "length (bytesOf ws) = 4 * length ws"
  by (induction ws) (simp_all add: bytesOf_def)

lemma bytesOf_simps [simp]: "bytesOf [] = []" "bytesOf (w # ws) = le32 w @ bytesOf ws"
  by (simp_all add: bytesOf_def)

lemma bytesOf_append: "bytesOf (xs @ ys) = bytesOf xs @ bytesOf ys"
  by (simp add: bytesOf_def)

lemma rd32_bytesOf: "i < length ws \<Longrightarrow> rd32 (bytesOf ws @ r) (4 * i) = ws ! i"
proof (induction ws arbitrary: i)
  case (Cons w ws)
  show ?case
  proof (cases i)
    case (Suc j)
    then have "rd32 (le32 w @ (bytesOf ws @ r)) (4 + 4 * j) = ws ! j"
      using Cons by (simp only: rd32_append length_le32) simp
    then show ?thesis by (simp add: Suc)
  qed simp
qed simp

lemma length_wordsOf [simp]: "length (wordsOf bs) = length bs div 4"
  by (simp add: wordsOf_def)

lemma wordsOf_bytesOf [simp]: "wordsOf (bytesOf ws) = ws"
  using rd32_bytesOf [where r = "[]"] by (intro nth_equalityI) (simp_all add: wordsOf_def)

section \<open>Records\<close>

lemma length_encInode [simp]: "length (block i) = 13 \<Longrightarrow> length (encInode i) = 76"
  by (simp add: encInode_def)

lemma decInode_encInode [simp]:
  assumes "length (block i) = 13"
  shows "decInode (encInode i @ r) = i"
proof -
  let ?pre = "le32 (ino i) @ le32 (isize i) @ le32 (openCnt i) @ [if writeDeny i then 1 else 0, 0, 0, 0]"
  have e: "encInode i @ r = ?pre @ bytesOf (block i) @ replicate 8 0 @ r"
    by (simp add: encInode_def)
  have w: "rd32 (encInode i @ r) 0 = ino i" "rd32 (encInode i @ r) 4 = isize i"
    "rd32 (encInode i @ r) 8 = openCnt i"
    unfolding e using rd32_append [of "le32 (ino i)" 4 _ 0] rd32_append [of "le32 (ino i) @ le32 (isize i)" 8 _ 0]
    by simp_all
  have d: "((encInode i @ r) ! 12 \<noteq> 0) = writeDeny i"
    unfolding e by (simp add: le32_def)
  have b: "map (\<lambda>k. rd32 (encInode i @ r) (16 + 4 * k)) [0..<13] = block i"
  proof (rule nth_equalityI)
    fix k assume k: "k < length (map (\<lambda>k. rd32 (encInode i @ r) (16 + 4 * k)) [0..<13])"
    have l: "length ?pre = 16" by simp
    have "rd32 (encInode i @ r) (16 + 4 * k) = rd32 (bytesOf (block i) @ replicate 8 0 @ r) (4 * k)"
      unfolding e using rd32_append [OF l, of "bytesOf (block i) @ replicate 8 0 @ r" "4 * k"] by simp
    then show "map (\<lambda>k. rd32 (encInode i @ r) (16 + 4 * k)) [0..<13] ! k = block i ! k"
      using k assms by (simp add: rd32_bytesOf del: upt_Suc)
  qed (simp add: assms)
  show ?thesis by (simp add: decInode_def w d b del: upt_Suc)
qed

lemma length_encDe [simp]: "length (fileName de) = 16 \<Longrightarrow> length (encDe de) = 24"
  by (simp add: encDe_def)

lemma decDe_encDe [simp]: "length (fileName de) = 16 \<Longrightarrow> decDe (encDe de @ r) = de"
  using rd32_append [of "fileName de" 16 _ 0] rd32_append [of "fileName de @ le32 (dino de)" 20 _ 0]
  by (simp add: decDe_def encDe_def)

lemma decDe_encDe' [simp]: "length (fileName de) = 16 \<Longrightarrow> decDe (encDe de) = de"
  using decDe_encDe [of de "[]"] by simp

lemma length_encSuper [simp]: "length (encSuper sb) = 52 + length (emptyByte sb)"
  by (simp add: encSuper_def)

lemma decSuper_encSuper [simp]: "decSuper (encSuper sb) = sb"
proof -
  let ?ws = "[magicNum sb, sbSecCnt sb, inodeCnt sb, partLbaStart sb, blockBitMapLbaStart sb,
     blockBitMapSecCnt sb, inodeBitMapLbaStart sb, inodeBitMapSecCnt sb, inodeTableLbaStart sb,
     inodeTableSecCnt sb, dataLbaStart sb, rootInodeNo sb, dirEntrySize sb]"
  have w: "rd32 (encSuper sb) (4 * i) = ?ws ! i" if "i < 13" for i
    unfolding encSuper_def using rd32_bytesOf [of i ?ws "emptyByte sb"] that by simp
  have d: "drop 52 (encSuper sb) = emptyByte sb"
    by (simp add: encSuper_def)
  show ?thesis
    using w [of 0] w [of 1] w [of 2] w [of 3] w [of 4] w [of 5] w [of 6] w [of 7] w [of 8] w [of 9] w [of 10]
      w [of 11] w [of 12] d by (simp add: decSuper_def)
qed

section \<open>Sectors\<close>

text \<open>A disk whose sectors are whole.\<close>

definition wfDisk :: "(u32 \<Rightarrow> u8 list) \<Rightarrow> bool" where
  "wfDisk d \<longleftrightarrow> (\<forall>l. length (d l) = 512)"

lemma wfDisk_length [simp]: "wfDisk d \<Longrightarrow> length (d l) = 512"
  by (simp add: wfDisk_def)

lemma readSectors_simps [simp]:
  "readSectors d lba 0 = []" "readSectors d lba (Suc 0) = d lba"
  by (simp_all add: readSectors_def)

lemma readSectors_Suc: "readSectors d lba (Suc n) = d lba @ readSectors d (lba + 1) n"
proof -
  have "[0..<Suc n] = 0 # map Suc [0..<n]" by (simp add: upt_conv_Cons map_Suc_upt del: upt_Suc)
  then show ?thesis by (simp add: readSectors_def o_def ac_simps del: upt_Suc)
qed

lemma length_readSectors [simp]: "wfDisk d \<Longrightarrow> length (readSectors d lba n) = 512 * n"
  by (induction n arbitrary: lba) (simp_all add: readSectors_Suc)

lemma readSectors_cong:
  "(\<And>i. i < n \<Longrightarrow> d (lba + of_nat i) = d' (lba + of_nat i)) \<Longrightarrow> readSectors d lba n = readSectors d' lba n"
  unfolding readSectors_def by (intro arg_cong [where f = concat] map_cong) auto

lemma writeSectors_1 [simp]: "writeSectors lba (Suc 0) buf d = d(lba := take 512 buf)"
  by simp

lemma writeSectors_2: "writeSectors lba 2 buf d = d(lba := take 512 buf, lba + 1 := take 512 (drop 512 buf))"
  by (simp add: numeral_2_eq_2)

lemma wfDisk_write:
  "wfDisk d \<Longrightarrow> 512 * n \<le> length buf \<Longrightarrow> wfDisk (writeSectors lba n buf d)"
proof (induction n arbitrary: lba buf d)
  case (Suc n)
  from Suc.prems have "wfDisk (d(lba := take 512 buf))" by (simp add: wfDisk_def)
  then show ?case using Suc.IH [of "d(lba := take 512 buf)" "drop 512 buf"] Suc.prems(2)
    by (simp add: fun_upd_def)
qed simp

text \<open>A sector after a write: the sectors of the range hold their part of the buffer. The range does
  not wrap around.\<close>

lemma writeSectors_out:
  assumes "unat lba + n \<le> 2 ^ 32" "unat l < unat lba \<or> unat lba + n \<le> unat l"
  shows "writeSectors lba n buf d l = d l"
  using assms
proof (induction n arbitrary: lba buf d)
  case (Suc n)
  show ?case
  proof (cases n)
    case 0
    have "l \<noteq> lba" using Suc.prems by auto
    with 0 show ?thesis by simp
  next
    case (Suc m)
    have "unat (lba + 1) = unat lba + 1" using Suc.prems Suc by (simp add: unat_add_small)
    moreover have "l \<noteq> lba" using Suc.prems by auto
    moreover from calculation have "unat l < unat (lba + 1) \<or> unat (lba + 1) + n \<le> unat l"
      using Suc.prems by auto
    ultimately show ?thesis using Suc.IH [of "lba + 1"] Suc.prems by simp
  qed
qed simp

lemma writeSectors_in:
  assumes "unat lba + n \<le> 2 ^ 32" "i < n"
  shows "writeSectors lba n buf d (lba + of_nat i) = take 512 (drop (512 * i) buf)"
  using assms
proof (induction n arbitrary: lba buf d i)
  case (Suc n)
  show ?case
  proof (cases i)
    case 0
    show ?thesis
    proof (cases n)
      case (Suc m)
      have "unat (lba + 1) = unat lba + 1" using Suc.prems Suc by (simp add: unat_add_small)
      then have "writeSectors (lba + 1) n (drop 512 buf) (d(lba := take 512 buf)) lba = take 512 buf"
        using writeSectors_out [of "lba + 1" n lba] Suc.prems by simp
      then show ?thesis by (simp add: 0)
    qed (simp add: 0)
  next
    case (Suc j)
    have "unat (lba + 1) = unat lba + 1" using Suc.prems Suc by (simp add: unat_add_small)
    moreover have "lba + 1 + of_nat j = lba + of_nat i" by (simp add: Suc)
    moreover have "512 * j + 512 = 512 * i" by (simp add: Suc)
    ultimately show ?thesis
      using Suc.IH [of "lba + 1" j "drop 512 buf" "d(lba := take 512 buf)"] Suc.prems Suc
      by (simp add: fun_upd_def ac_simps)
  qed
qed simp

lemma readSectors_write:
  assumes "unat lba + n \<le> 2 ^ 32" "length buf = 512 * n"
  shows "readSectors (writeSectors lba n buf d) lba n = buf"
proof -
  have "readSectors (writeSectors lba n buf d) lba n = concat (map (\<lambda>i. take 512 (drop (512 * i) buf)) [0..<n])"
    unfolding readSectors_def using writeSectors_in [OF assms(1)]
    by (intro arg_cong [where f = concat] map_cong) auto
  also have "\<dots> = buf" using assms(2)
  proof (induction n arbitrary: buf)
    case (Suc n)
    have "concat (map (\<lambda>i. take 512 (drop (512 * i) (take (512 * n) buf))) [0..<n]) = take (512 * n) buf"
      using Suc by simp
    moreover have "take 512 (drop (512 * i) (take (512 * n) buf)) = take 512 (drop (512 * i) buf)" if "i < n" for i
      using that by (simp add: take_drop min_def)
    ultimately have "concat (map (\<lambda>i. take 512 (drop (512 * i) buf)) [0..<n]) = take (512 * n) buf"
      by (metis (no_types, lifting) atLeast_upt lessThan_iff map_cong)
    then show ?case using Suc.prems by simp
  qed simp
  finally show ?thesis .
qed

section \<open>Transfers\<close>

lemma chunksOk_small: "n \<le> 256 \<Longrightarrow> lba < MAX_LBA \<Longrightarrow> chunksOk lba n"
proof -
  assume a: "n \<le> 256" "lba < MAX_LBA"
  have "lba + of_nat (256 * k) < MAX_LBA" if "k < (n + 255) div 256" for k
  proof -
    have "k = 0" using that a(1) by linarith
    with a(2) show ?thesis by simp
  qed
  then show ?thesis by (simp add: chunksOk_def list_all_iff)
qed

lemma ideRead_ok:
  "lba < MAX_LBA \<Longrightarrow> 0 < n \<Longrightarrow> n \<le> 256 \<Longrightarrow> ideRead dv lba n s = Inr (readSectors (disks s dv) lba n)"
  by (simp add: ideRead_def chunksOk_small)

lemma ideRead_1 [simp]: "lba < MAX_LBA \<Longrightarrow> ideRead dv lba (Suc 0) s = Inr (disks s dv lba)"
  by (simp add: ideRead_ok)

abbreviation setDisk :: "nat \<Rightarrow> (u32 \<Rightarrow> u8 list) \<Rightarrow> 'a kfs_scheme \<Rightarrow> 'a kfs_scheme" where
  "setDisk dv d s \<equiv> s\<lparr>disks := (disks s)(dv := d)\<rparr>"

lemma ideWrite_ok:
  "lba < MAX_LBA \<Longrightarrow> 0 < n \<Longrightarrow> n \<le> 256 \<Longrightarrow> 512 * n \<le> length buf \<Longrightarrow>
   ideWrite dv lba buf n s = Inr (setDisk dv (writeSectors lba n buf (disks s dv)) s)"
  by (simp add: ideWrite_def chunksOk_small)

lemma ideWrite_1 [simp]:
  "lba < MAX_LBA \<Longrightarrow> 512 \<le> length buf \<Longrightarrow>
   ideWrite dv lba buf (Suc 0) s = Inr (setDisk dv ((disks s dv)(lba := take 512 buf)) s)"
  by (simp add: ideWrite_ok)

text \<open>What a successful transfer tells.\<close>

lemma ideRead_eq_Inr:
  "ideRead dv lba n s = Inr bs \<longleftrightarrow>
   lba < MAX_LBA \<and> 0 < n \<and> chunksOk lba n \<and> bs = readSectors (disks s dv) lba n"
  by (auto simp: ideRead_def assertC_def)

lemma ideWrite_eq_Inr:
  "ideWrite dv lba buf n s = Inr s' \<longleftrightarrow>
   lba < MAX_LBA \<and> 0 < n \<and> chunksOk lba n \<and> 512 * n \<le> length buf \<and>
   s' = setDisk dv (writeSectors lba n buf (disks s dv)) s"
  by (auto simp: ideWrite_def assertC_def)

end
