(* ===== verification/InodeInv.thy ===== *)
theory InodeInv
  imports Inode Layout
begin

text \<open>
  The inode table as one array of bytes: \<open>inodeSync\<close> overlays the entry of its inode and nothing else,
  \<open>inodeOpen\<close> decodes the entry; and \<open>bitMapSync\<close> writes the sector of a bit only below bit 512.
\<close>

section \<open>Sector ranges as byte arrays\<close>

lemma readSectors_append: "readSectors dk l (m + n) = readSectors dk l m @ readSectors dk (l + of_nat m) n"
proof (induction m arbitrary: l)
  case (Suc m)
  then show ?case by (simp add: readSectors_Suc ac_simps)
qed simp

lemma readSectors_part:
  assumes "wfDisk dk" "q + n \<le> N"
  shows "readSectors dk (l + of_nat q) n = take (512 * n) (drop (512 * q) (readSectors dk l N))"
proof -
  have "readSectors dk l N = readSectors dk l q @ readSectors dk (l + of_nat q) n @
      readSectors dk (l + of_nat (q + n)) (N - (q + n))"
    using readSectors_append [of dk l q "N - q"] readSectors_append [of dk "l + of_nat q" n "N - (q + n)"] assms(2)
    by (simp add: ac_simps)
  then show ?thesis using assms(1) by simp
qed

lemma readSectors_splice:
  assumes "wfDisk dk" "q + n \<le> N" "unat l + N \<le> 2 ^ 32" "length buf = 512 * n"
  shows "readSectors (writeSectors (l + of_nat q) n buf dk) l N = overlay (readSectors dk l N) (512 * q) buf"
proof -
  let ?dk = "writeSectors (l + of_nat q) n buf dk"
  have split: "readSectors d l N = readSectors d l q @ readSectors d (l + of_nat q) n @
      readSectors d (l + of_nat (q + n)) (N - (q + n))" for d
    using readSectors_append [of d l q "N - q"] readSectors_append [of d "l + of_nat q" n "N - (q + n)"] assms(2)
    by (simp add: ac_simps)
  have u: "unat (l + of_nat i) = unat l + i" if "i < N" for i
    using that assms(3) by (simp add: unat_add_small unat_of_nat_small)
  have "n = 0 \<or> unat (l + of_nat q) = unat l + q"
    using u [of q] assms(2) by (cases "q < N") auto
  moreover have "?thesis" if "n = 0" using that assms(4) by simp
  moreover have "?thesis" if uq: "unat (l + of_nat q) = unat l + q"
  proof -
    have room: "unat (l + of_nat q) + n \<le> 2 ^ 32" using uq assms(2,3) by simp
    have a: "readSectors ?dk l q = readSectors dk l q"
      using room u assms(2) uq by (intro readSectors_cong writeSectors_out) auto
    have b: "readSectors ?dk (l + of_nat q) n = buf" using readSectors_write [OF room assms(4)] .
    have c: "readSectors ?dk (l + of_nat (q + n)) (N - (q + n)) = readSectors dk (l + of_nat (q + n)) (N - (q + n))"
    proof (intro readSectors_cong writeSectors_out room)
      fix i assume "i < N - (q + n)"
      then have "unat (l + of_nat (q + n + i)) = unat l + (q + n + i)" by (intro u) simp
      then show "unat (l + of_nat (q + n) + of_nat i) < unat (l + of_nat q) \<or>
          unat (l + of_nat q) + n \<le> unat (l + of_nat (q + n) + of_nat i)"
        using uq by (simp add: ac_simps)
    qed
    show ?thesis
      unfolding split [of ?dk] split [of dk] a b c using assms(1,4) by (simp add: overlay_def)
  qed
  ultimately show ?thesis by blast
qed

lemma overlay_overlay_part:
  "off + length e \<le> n \<Longrightarrow> a + n \<le> length T \<Longrightarrow>
   overlay T a (overlay (take n (drop a T)) off e) = overlay T (a + off) e"
  by (rule nth_equalityI) (auto simp: nth_overlay)

section \<open>The inode table\<close>

definition inodeTable :: "'a kfs_scheme \<Rightarrow> nat \<Rightarrow> u8 list" where
  "inodeTable s pt = readSectors (disks s (pdisk (parts s pt))) (inodeTableLbaStart (superBlock (parts s pt))) 608"

text \<open>The table lies in the partition and below the highest block of the driver.\<close>

definition tableOk :: "'a kfs_scheme \<Rightarrow> nat \<Rightarrow> bool" where
  "tableOk s pt \<longleftrightarrow> wfDisk (disks s (pdisk (parts s pt))) \<and>
     unat (inodeTableLbaStart (superBlock (parts s pt))) + 608 \<le> 163839 \<and>
     unat (inodeTableLbaStart (superBlock (parts s pt))) + 608 \<le> unat (lbaStart (parts s pt) + secCnt (parts s pt))"

definition inodeAt :: "u8 list \<Rightarrow> u32 \<Rightarrow> Inode" where
  "inodeAt tab i = decInode (take 76 (drop (76 * unat i) tab))"

lemma length_inodeTable [simp]: "tableOk s pt \<Longrightarrow> length (inodeTable s pt) = 512 * 608"
  by (simp add: tableOk_def inodeTable_def)

text \<open>Where \<open>inodeLocate\<close> puts an inode: sector \<open>q\<close> of the table, one or two sectors.\<close>

lemma inodeLocate_ok:
  assumes "i < 4096"
  defines "q \<equiv> 76 * unat i div 512" and "off \<equiv> 76 * unat i mod 512"
  defines "n \<equiv> if 512 - off < 76 then 2 else 1"
  shows "inodeLocate pt i s = Inr \<lparr>crossSec = (512 - off < 76),
      secLba = inodeTableLbaStart (superBlock (parts s pt)) + of_nat q, byteOffset = off\<rparr>"
    "off + 76 \<le> 512 * n" "q + n \<le> 608" "n \<le> 2" "0 < n" "512 * q + off = 76 * unat i"
proof -
  have i: "unat i < 4096" using assms(1) by (simp add: word_less_nat_alt)
  have b: "unat (i * 76) = 76 * unat i" using i by (simp add: unat_mult_small)
  have q: "(i * 76) div 512 = of_nat q"
  proof -
    have "unat ((i * 76) div 512) = q" by (simp add: unat_div b q_def)
    then have "of_nat (unat ((i * 76) div 512)) = (of_nat q :: u32)" by simp
    then show ?thesis by simp
  qed
  have m: "unat ((i * 76) mod 512) = off" by (simp add: unat_mod b off_def)
  have off: "off < 512" by (simp add: off_def)
  have cross: "512 - (i * 76) mod 512 < 76 \<longleftrightarrow> 512 - off < 76"
    using m off by (simp add: word_less_nat_alt unat_sub_small)
  show qo: "512 * q + off = 76 * unat i" unfolding q_def off_def by (rule mult_div_mod_eq)
  show "inodeLocate pt i s = Inr \<lparr>crossSec = (512 - off < 76),
      secLba = inodeTableLbaStart (superBlock (parts s pt)) + of_nat q, byteOffset = off\<rparr>"
    using assms(1) by (simp add: inodeLocate_def Let_def q m cross)
  show n: "n \<le> 2" "0 < n" by (simp_all add: n_def)
  show fits: "off + 76 \<le> 512 * n"
  proof (cases "512 - off < 76")
    case False
    then have "n = 1" "off + 76 \<le> 512" using off by (simp add: n_def, linarith)
    then show ?thesis by simp
  qed (use off n_def in simp)
  have top: "512 * q + off + 76 \<le> 512 * 608" using qo i by linarith
  show "q + n \<le> 608"
  proof (cases "512 - off < 76")
    case True
    then have "n = 2" "436 < off" using off by (simp add: n_def, linarith)
    then show ?thesis using top by linarith
  next
    case False
    then have "n = 1" by (simp add: n_def)
    then show ?thesis using top by linarith
  qed
qed

lemma tableOkD:
  assumes "tableOk s pt" "q + n \<le> 608" "0 < n" "n \<le> 2"
  defines "lba \<equiv> inodeTableLbaStart (superBlock (parts s pt)) + of_nat q"
  shows "lba < MAX_LBA" "n \<le> 256" "unat lba + n \<le> unat (inodeTableLbaStart (superBlock (parts s pt))) + 608"
    "unat (inodeTableLbaStart (superBlock (parts s pt))) \<le> unat lba"
    "lba \<le> lbaStart (parts s pt) + secCnt (parts s pt)"
proof -
  have u: "unat lba = unat (inodeTableLbaStart (superBlock (parts s pt))) + q"
    using assms(1,2,3) by (simp add: lba_def tableOk_def unat_add_small unat_of_nat_small)
  show "lba < MAX_LBA" using assms(1,2,3) u by (simp add: tableOk_def word_less_nat_alt)
  show "n \<le> 256" using assms(4) by simp
  show "unat lba + n \<le> unat (inodeTableLbaStart (superBlock (parts s pt))) + 608" using u assms(2) by simp
  show "unat (inodeTableLbaStart (superBlock (parts s pt))) \<le> unat lba" using u by simp
  show "lba \<le> lbaStart (parts s pt) + secCnt (parts s pt)"
    using assms(1,2,3) u by (simp add: tableOk_def word_le_nat_alt)
qed

text \<open>\<open>inodeSync\<close> overlays the entry of the inode in the table; sectors outside the table stay.\<close>

lemma inodeSync_ok:
  assumes tab: "tableOk s pt" and nd: "ino nd < 4096" "length (block nd) = 13"
  obtains dk where "inodeSync pt nd s = Inr (setDisk (pdisk (parts s pt)) dk s)"
    "tableOk (setDisk (pdisk (parts s pt)) dk s) pt"
    "inodeTable (setDisk (pdisk (parts s pt)) dk s) pt =
       overlay (inodeTable s pt) (76 * unat (ino nd)) (encInode (nd\<lparr>openCnt := 0, writeDeny := False\<rparr>))"
    "\<And>l. unat l < unat (inodeTableLbaStart (superBlock (parts s pt))) \<or>
       unat (inodeTableLbaStart (superBlock (parts s pt))) + 608 \<le> unat l \<Longrightarrow> dk l = disks s (pdisk (parts s pt)) l"
proof -
  let ?dv = "pdisk (parts s pt)" and ?T = "inodeTableLbaStart (superBlock (parts s pt))"
  let ?d = "disks s ?dv"
  define q off n where "q = 76 * unat (ino nd) div 512" "off = 76 * unat (ino nd) mod 512"
    "n = (if 512 - off < 76 then 2 else 1 :: nat)"
  note loc = inodeLocate_ok [OF nd(1), folded q_off_n_def(1,2), folded q_off_n_def(3)]
  let ?lba = "?T + of_nat q"
  note t = tableOkD [OF tab loc(3,5,4)]
  have wf: "wfDisk ?d" using tab by (simp add: tableOk_def)
  let ?e = "encInode (nd\<lparr>openCnt := 0, writeDeny := False\<rparr>)"
  let ?buf = "overlay (readSectors ?d ?lba n) off ?e"
  have le: "length ?e = 76" using nd(2) by simp
  have lb: "length ?buf = 512 * n" using wf le loc(2) by simp
  define dk where "dk = writeSectors ?lba n ?buf ?d"
  have code: "inodeSync pt nd s = Inr (setDisk ?dv dk s)"
    using t lb le wf loc(2,5)
    by (simp add: inodeSync_def Let_def loc(1) ideRead_ok ideWrite_ok dk_def flip: q_off_n_def(3))
  have wf': "wfDisk dk" unfolding dk_def using wf lb by (intro wfDisk_write) simp_all
  have room: "unat ?T + 608 \<le> 2 ^ 32" using tab by (simp add: tableOk_def)
  have tab': "inodeTable (setDisk ?dv dk s) pt = overlay (inodeTable s pt) (512 * q) ?buf"
    unfolding inodeTable_def dk_def using readSectors_splice [OF wf loc(3) room lb] by simp
  also have "?buf = overlay (take (512 * n) (drop (512 * q) (inodeTable s pt))) off ?e"
    unfolding inodeTable_def using readSectors_part [OF wf loc(3)] by simp
  also have "overlay (inodeTable s pt) (512 * q) \<dots> = overlay (inodeTable s pt) (512 * q + off) ?e"
    using loc(2,3) le tab by (intro overlay_overlay_part) auto
  finally have tab'': "inodeTable (setDisk ?dv dk s) pt = overlay (inodeTable s pt) (76 * unat (ino nd)) ?e"
    unfolding loc(6) .
  show ?thesis
  proof (rule that [OF code _ tab''])
    show "tableOk (setDisk ?dv dk s) pt" using tab wf' by (simp add: tableOk_def)
    fix l :: u32 assume "unat l < unat ?T \<or> unat ?T + 608 \<le> unat l"
    then show "dk l = ?d l"
      unfolding dk_def using t(3,4) room by (intro writeSectors_out) auto
  qed
qed

text \<open>\<open>inodeOpen\<close> of an inode that is not open decodes its entry of the table.\<close>

lemma inodeOpen_ok:
  assumes tab: "tableOk s pt" and i: "i < 4096"
    and closed: "find (\<lambda>p. ino (inodes s p) = i) (openInodes (parts s pt)) = None"
    and mem: "allocResult s (allocCnt s) = p" "p \<noteq> NULLPTR" "allocResult s (allocCnt s + 1) = b" "b \<noteq> NULLPTR"
  shows "inodeOpen pt i s = Inr (p, updPart pt (\<lambda>x. x\<lparr>openInodes := p # openInodes x\<rparr>)
    (updInode p (\<lambda>_. (inodeAt (inodeTable s pt) i)\<lparr>openCnt := 1\<rparr>) (s\<lparr>allocCnt := allocCnt s + 2, bufs := p # bufs s\<rparr>)))"
proof -
  let ?dv = "pdisk (parts s pt)" and ?T = "inodeTableLbaStart (superBlock (parts s pt))"
  define q off n where "q = 76 * unat i div 512" "off = 76 * unat i mod 512"
    "n = (if 512 - off < 76 then 2 else 1 :: nat)"
  note loc = inodeLocate_ok [OF i, folded q_off_n_def(1,2), folded q_off_n_def(3)]
  note t = tableOkD [OF tab loc(3,5,4)]
  have wf: "wfDisk (disks s ?dv)" using tab by (simp add: tableOk_def)
  have "take 76 (drop off (readSectors (disks s ?dv) (?T + of_nat q) n)) =
      take 76 (drop off (take (512 * n) (drop (512 * q) (inodeTable s pt))))"
    unfolding inodeTable_def using readSectors_part [OF wf loc(3)] by simp
  also have "\<dots> = take 76 (drop (76 * unat i) (inodeTable s pt))"
    using loc(2) by (simp add: drop_take min_def flip: loc(6)) (simp add: add.commute)
  finally have e: "decInode (take 76 (drop off (readSectors (disks s ?dv) (?T + of_nat q) n))) =
      inodeAt (inodeTable s pt) i"
    by (simp add: inodeAt_def)
  show ?thesis
    using closed mem t(1,2) loc(5)
    by (simp add: inodeOpen_def Let_def fsMalloc_def deref_def loc(1) ideRead_ok e fsFree_def updInode_def
        updPart_def flip: q_off_n_def(3))
qed

lemma inodeAt_overlay:
  assumes "i < 4096" "j < 4096" "length tab = 512 * 608" "length (block nd) = 13"
  shows "inodeAt (overlay tab (76 * unat j) (encInode nd)) i = (if i = j then nd else inodeAt tab i)"
proof -
  have ij: "unat i < 4096" "unat j < 4096" using assms(1,2) by (simp_all add: word_less_nat_alt)
  have l: "length (encInode nd) = 76" using assms(4) by simp
  show ?thesis
  proof (cases "i = j")
    case True
    then show ?thesis
      using overlay_take_drop [of "76 * unat j" 76 tab "encInode nd"] l ij assms(3,4)
        decInode_encInode [of nd "[]"] by (simp add: inodeAt_def)
  next
    case False
    then have "unat i \<noteq> unat j" by simp
    then have apart: "76 * unat i + 76 \<le> 76 * unat j \<or> 76 * unat j + 76 \<le> 76 * unat i" by linarith
    have "take 76 (drop (76 * unat i) (overlay tab (76 * unat j) (encInode nd))) = take 76 (drop (76 * unat i) tab)"
    proof (rule nth_equalityI)
      fix k assume "k < length (take 76 (drop (76 * unat i) (overlay tab (76 * unat j) (encInode nd))))"
      then have "k < 76" by simp
      then show "take 76 (drop (76 * unat i) (overlay tab (76 * unat j) (encInode nd))) ! k =
          take 76 (drop (76 * unat i) tab) ! k"
        using apart ij l assms(3) by (auto simp: nth_overlay)
    qed (use ij l assms(3) in simp)
    then show ?thesis using False by (simp add: inodeAt_def)
  qed
qed

section \<open>A small volume\<close>

text \<open>One partition: bitmaps in sectors 2 and 3, the inode table from 4 on, the data blocks from 612 on,
  64 of them, the first one with the root directory; inode 1 is an open, empty file.\<close>

definition demoSuper :: SuperBlock where
  "demoSuper = \<lparr>magicNum = 0x20212021, sbSecCnt = 1000, inodeCnt = 4096, partLbaStart = 0,
     blockBitMapLbaStart = 2, blockBitMapSecCnt = 1, inodeBitMapLbaStart = 3, inodeBitMapSecCnt = 1,
     inodeTableLbaStart = 4, inodeTableSecCnt = 608, dataLbaStart = 612, rootInodeNo = 0, dirEntrySize = 24,
     emptyByte = replicate 460 0\<rparr>"

definition demoPart :: Partition where
  "demoPart = \<lparr>lbaStart = 0, secCnt = 1000, pdisk = 0, superBlock = demoSuper, pname = bytes ''sdb1'' @ [0, 0, 0, 0],
     blockBitMap = \<lparr>bm_length = 8, startAddr = 1 # replicate 1000 0\<rparr>,
     inodeBitMap = \<lparr>bm_length = 8, startAddr = 3 # replicate 1000 0\<rparr>, openInodes = [0x4000, 0x3000]\<rparr>"

definition demoRootInode :: Inode where
  "demoRootInode = \<lparr>ino = 0, isize = 48, openCnt = 1, writeDeny = False, block = 612 # replicate 12 0\<rparr>"

definition demoFileInode :: Inode where
  "demoFileInode = \<lparr>ino = 1, isize = 0, openCnt = 1, writeDeny = False, block = replicate 13 0\<rparr>"

definition demoSector :: "u8 list" where
  "demoSector = encDe \<lparr>fileName = 46 # replicate 15 0, dino = 0, fileType = 2\<rparr> @
     encDe \<lparr>fileName = 46 # 46 # replicate 14 0, dino = 0, fileType = 2\<rparr> @ replicate 464 0"

definition demoDisk :: "u32 \<Rightarrow> u8 list" where
  "demoDisk l = (if l = 612 then demoSector else replicate 512 0)"

definition demoFs :: kfs where
  "demoFs = kmem.extend demoMem
     \<lparr>disks = (\<lambda>_. demoDisk), parts = (\<lambda>_. demoPart), partitionList = [0], curPart = 0,
      inodes = (\<lambda>p. if p = 0x3000 then demoRootInode else demoFileInode),
      dirs = (\<lambda>_. \<lparr>dinode = 0x3000, dirPos = 0, dirBuf = replicate 512 0\<rparr>), rootDir = 0x2000,
      fileTable = (replicate 32 \<lparr>fdPos = 0, fdFlag = 0, fdInode = 0\<rparr>)[3 := \<lparr>fdPos = 0, fdFlag = 2, fdInode = 0x4000\<rparr>],
      allocResult = (\<lambda>n. 0x10000 + of_nat n * 0x1000), allocCnt = 0, bufs = [],
      heapAfter = replicate 1000 0, stackJunk = (\<lambda>_ _. 0), klog = []\<rparr>"

lemma demoFs_fields [simp]:
  "disks demoFs = (\<lambda>_. demoDisk)" "parts demoFs = (\<lambda>_. demoPart)" "curPart demoFs = 0"
  "inodes demoFs = (\<lambda>p. if p = 0x3000 then demoRootInode else demoFileInode)"
  "dirs demoFs = (\<lambda>_. \<lparr>dinode = 0x3000, dirPos = 0, dirBuf = replicate 512 0\<rparr>)" "rootDir demoFs = 0x2000"
  "fileTable demoFs = (replicate 32 \<lparr>fdPos = 0, fdFlag = 0, fdInode = 0\<rparr>)[3 := \<lparr>fdPos = 0, fdFlag = 2, fdInode = 0x4000\<rparr>]"
  "allocResult demoFs = (\<lambda>n. 0x10000 + of_nat n * 0x1000)" "allocCnt demoFs = 0" "bufs demoFs = []"
  "heapAfter demoFs = replicate 1000 0"
  by (simp_all add: demoFs_def kmem.defs)

lemma demoPart_fields [simp]:
  "lbaStart demoPart = 0" "secCnt demoPart = 1000" "pdisk demoPart = 0" "superBlock demoPart = demoSuper"
  "blockBitMap demoPart = \<lparr>bm_length = 8, startAddr = 1 # replicate 1000 0\<rparr>"
  "inodeBitMap demoPart = \<lparr>bm_length = 8, startAddr = 3 # replicate 1000 0\<rparr>"
  "openInodes demoPart = [0x4000, 0x3000]"
  by (simp_all add: demoPart_def)

lemma demoSuper_fields [simp]:
  "blockBitMapLbaStart demoSuper = 2" "inodeBitMapLbaStart demoSuper = 3" "inodeTableLbaStart demoSuper = 4"
  "dataLbaStart demoSuper = 612" "dirEntrySize demoSuper = 24" "rootInodeNo demoSuper = 0"
  by (simp_all add: demoSuper_def)

lemma demo_wfDisk [simp]: "wfDisk demoDisk"
  by (simp add: wfDisk_def demoDisk_def demoSector_def)

lemma demo_tableOk: "tableOk demoFs 0"
  by (simp add: tableOk_def)

section \<open>Properties of inodes\<close>

text \<open>C19: inodeSync stores an inode in its place of the inode table and inodeOpen gets it back: the write
  succeeds, the entry of the inode then decodes to the inode with open count 0 and no write lock, the
  entries of all other inodes and all sectors outside the table are as before, and opening the inode
  again gives it with open count 1.\<close>

theorem inode_sync_open:
  assumes "tableOk s pt" "ino nd < 4096" "length (block nd) = 13"
    and "find (\<lambda>p. ino (inodes s p) = ino nd) (openInodes (parts s pt)) = None"
    and "allocResult s (allocCnt s) = p" "p \<noteq> NULLPTR" "allocResult s (allocCnt s + 1) \<noteq> NULLPTR"
  shows "\<exists>s'. inodeSync pt nd s = Inr s' \<and> tableOk s' pt \<and>
    (\<forall>i < 4096. inodeAt (inodeTable s' pt) i =
       (if i = ino nd then nd\<lparr>openCnt := 0, writeDeny := False\<rparr> else inodeAt (inodeTable s pt) i)) \<and>
    (\<forall>l. unat l < unat (inodeTableLbaStart (superBlock (parts s pt))) \<or>
       unat (inodeTableLbaStart (superBlock (parts s pt))) + 608 \<le> unat l \<longrightarrow>
       disks s' (pdisk (parts s pt)) l = disks s (pdisk (parts s pt)) l) \<and>
    (\<exists>s''. inodeOpen pt (ino nd) s' = Inr (p, s'') \<and> inodes s'' p = nd\<lparr>openCnt := 1, writeDeny := False\<rparr>)"
proof -
  obtain dk where s': "inodeSync pt nd s = Inr (setDisk (pdisk (parts s pt)) dk s)"
    "tableOk (setDisk (pdisk (parts s pt)) dk s) pt"
    "inodeTable (setDisk (pdisk (parts s pt)) dk s) pt =
       overlay (inodeTable s pt) (76 * unat (ino nd)) (encInode (nd\<lparr>openCnt := 0, writeDeny := False\<rparr>))"
    "\<And>l. unat l < unat (inodeTableLbaStart (superBlock (parts s pt))) \<or>
       unat (inodeTableLbaStart (superBlock (parts s pt))) + 608 \<le> unat l \<Longrightarrow> dk l = disks s (pdisk (parts s pt)) l"
    by (rule inodeSync_ok [OF assms(1-3)]) blast
  let ?s = "setDisk (pdisk (parts s pt)) dk s"
  have at: "inodeAt (inodeTable ?s pt) i =
      (if i = ino nd then nd\<lparr>openCnt := 0, writeDeny := False\<rparr> else inodeAt (inodeTable s pt) i)" if "i < 4096" for i
    unfolding s'(3) using inodeAt_overlay [OF that assms(2)] assms(1,3) by simp
  have "\<exists>s''. inodeOpen pt (ino nd) ?s = Inr (p, s'') \<and> inodes s'' p = nd\<lparr>openCnt := 1, writeDeny := False\<rparr>"
    using inodeOpen_ok [OF s'(2) assms(2), of p] assms(4-7) at [OF assms(2)] by (simp add: updPart_def updInode_def)
  then show ?thesis using s'(1,2,4) at by (intro exI [of _ ?s]) simp
qed

theorem inode_sync_open_witness:
  "\<exists>s'. inodeSync 0 \<lparr>ino = 7, isize = 5, openCnt = 3, writeDeny = True, block = 700 # replicate 12 0\<rparr> demoFs = Inr s' \<and>
    isize (inodeAt (inodeTable s' 0) 7) = 5 \<and> inodeAt (inodeTable s' 0) 6 = inodeAt (inodeTable demoFs 0) 6"
proof -
  let ?nd = "\<lparr>ino = 7, isize = 5, openCnt = 3, writeDeny = True, block = 700 # replicate 12 0\<rparr>"
  obtain s' where s': "inodeSync 0 ?nd demoFs = Inr s'" "\<forall>i < 4096. inodeAt (inodeTable s' 0) i =
       (if i = ino ?nd then ?nd\<lparr>openCnt := 0, writeDeny := False\<rparr> else inodeAt (inodeTable demoFs 0) i)"
    using inode_sync_open [where nd = ?nd and p = "0x10000", OF demo_tableOk]
    by (auto simp: demoRootInode_def demoFileInode_def)
  then show ?thesis using s'(2) [rule_format, of 7] s'(2) [rule_format, of 6] by simp
qed

text \<open>bitMapSync writes the right sector for the first 512 bits of a bitmap, and none of a later
  one: for bit 512 to 4095 the sector on disk that holds the bit keeps its old content, and the
  sector eight or more further is overwritten.\<close>

theorem bitMapSync_only_below_512:
  assumes "wfDisk (disks s (pdisk (parts s pt)))" "bitIdx < 4096"
    and "inodeBitMapLbaStart (superBlock (parts s pt)) < 100000" "60 * 512 \<le> length (startAddr (inodeBitMap (parts s pt)))"
  defines "lba \<equiv> inodeBitMapLbaStart (superBlock (parts s pt))" and "d \<equiv> disks s (pdisk (parts s pt))"
  shows "\<exists>s'. bitMapSync pt bitIdx INODE_BITMAP s = Inr s' \<and>
    disks s' (pdisk (parts s pt)) lba = (if bitIdx < 512 then take 512 (startAddr (inodeBitMap (parts s pt))) else d lba) \<and>
    (512 \<le> bitIdx \<longrightarrow> disks s' (pdisk (parts s pt)) (lba + bitIdx div 512 * 8) =
       take 512 (drop (unat (bitIdx div 512 * 8 * 512)) (startAddr (inodeBitMap (parts s pt)))))"
proof -
  let ?off = "bitIdx div 512 * 8"
  have d: "unat (bitIdx div 512) < 8" using assms(2) by (simp add: unat_div word_less_nat_alt less_mult_imp_div_less)
  then have o: "unat ?off = unat (bitIdx div 512) * 8" by (simp add: unat_mult_small)
  then have b: "unat (?off * 512) = unat ?off * 512" using d by (simp add: unat_mult_small)
  have l: "lba + ?off < MAX_LBA"
    using assms(3) o d by (simp add: lba_def word_less_nat_alt unat_add_small)
  have room: "512 \<le> length (drop (unat (?off * 512)) (startAddr (inodeBitMap (parts s pt))))"
    using assms(4) b o d by simp
  have zero: "bitIdx < 512 \<longleftrightarrow> bitIdx div 512 = 0"
    by (simp add: unat_div word_less_nat_alt div_eq_0_iff flip: unat_inj_iff)
  have nz: "?off \<noteq> 0" if "\<not> bitIdx < 512"
  proof
    assume "?off = 0"
    then have "unat (bitIdx div 512) = 0" using o by simp
    with that zero show False by (simp add: unat_eq_zero)
  qed
  show ?thesis
  proof (cases "bitIdx < 512")
    case True
    then show ?thesis using l room zero by (simp add: bitMapSync_def Let_def lba_def d_def)
  next
    case False
    then have "512 \<le> bitIdx" by simp
    with False show ?thesis using l room nz by (simp add: bitMapSync_def Let_def lba_def d_def)
  qed
qed

theorem bitMapSync_only_below_512_witness:
  "\<exists>s'. bitMapSync 0 600 INODE_BITMAP (updPart 0 (\<lambda>p. p\<lparr>inodeBitMap := \<lparr>bm_length = 512, startAddr = replicate 30720 9\<rparr>\<rparr>) demoFs) = Inr s' \<and>
     disks s' 0 3 = replicate 512 0 \<and> disks s' 0 11 = replicate 512 9"
  using bitMapSync_only_below_512 [of "updPart 0 (\<lambda>p. p\<lparr>inodeBitMap := \<lparr>bm_length = 512, startAddr = replicate 30720 9\<rparr>\<rparr>) demoFs" 0 600]
  by (simp add: updPart_def demoDisk_def)

end
