(* ===== verification/FileInv.thy ===== *)
theory FileInv
  imports File InodeInv
begin

text \<open>
  Correctness of reading and writing files: what a file holds as a sequence of bytes, the invariant
  of its block list, and that fileWrite appends to the sequence and fileRead returns a part of it.
\<close>

section \<open>The part of the state a write changes\<close>

abbreviation cdisk :: "'a kfs_scheme \<Rightarrow> u32 \<Rightarrow> u8 list" where "cdisk s \<equiv> disks s (curhd s)"

text \<open>An inode, the block bitmap of the current partition and its disk.\<close>

definition fsUpd :: "u32 \<Rightarrow> Inode \<Rightarrow> BitMap \<Rightarrow> (u32 \<Rightarrow> u8 list) \<Rightarrow> 'a kfs_scheme \<Rightarrow> 'a kfs_scheme" where
  "fsUpd p nd bm dk s = s\<lparr>inodes := (inodes s)(p := nd),
     parts := (parts s)(curPart s := (curp s)\<lparr>blockBitMap := bm\<rparr>), disks := (disks s)(curhd s := dk)\<rparr>"

lemma fsUpd_fields [simp]:
  "inodes (fsUpd p nd bm dk s) = (inodes s)(p := nd)"
  "curPart (fsUpd p nd bm dk s) = curPart s"
  "parts (fsUpd p nd bm dk s) (curPart s) = (curp s)\<lparr>blockBitMap := bm\<rparr>"
  "disks (fsUpd p nd bm dk s) (curhd s) = dk"
  "fileTable (fsUpd p nd bm dk s) = fileTable s"
  "bufs (fsUpd p nd bm dk s) = bufs s"
  "allocCnt (fsUpd p nd bm dk s) = allocCnt s"
  "allocResult (fsUpd p nd bm dk s) = allocResult s"
  by (simp_all add: fsUpd_def)

lemma fsUpd_id: "fsUpd p (inodes s p) (blockBitMap (curp s)) (cdisk s) s = s"
  by (simp add: fsUpd_def)

lemma fsUpd_inode [simp]: "updInode p f (fsUpd p nd bm dk s) = fsUpd p (f nd) bm dk s"
  by (simp add: fsUpd_def updInode_def)

lemma fsUpd_bits [simp]:
  "updPart (curPart s) (\<lambda>q. q\<lparr>blockBitMap := bm'\<rparr>) (fsUpd p nd bm dk s) = fsUpd p nd bm' dk s"
  by (simp add: fsUpd_def updPart_def)

lemma fsUpd_disk [simp]: "setDisk (curhd s) dk' (fsUpd p nd bm dk s) = fsUpd p nd bm dk' s"
  by (simp add: fsUpd_def)

lemma setInodeBlock_fsUpd [simp]:
  "setInodeBlock p k lba (fsUpd p nd bm dk s) = fsUpd p (nd\<lparr>block := (block nd)[k := lba]\<rparr>) bm dk s"
  by (simp add: setInodeBlock_def)

section \<open>Blocks of a volume\<close>

text \<open>The geometry of the mounted partition: the bitmap and the inode table lie before the data
  blocks, all below the highest block the driver takes, and every free bit is below 512, where
  \<open>bitMapSync\<close> finds the right sector.\<close>

definition volWf :: "'a kfs_scheme \<Rightarrow> BitMap \<Rightarrow> (u32 \<Rightarrow> u8 list) \<Rightarrow> bool" where
  "volWf s bm dk \<longleftrightarrow> wfDisk dk \<and> bm_wf bm \<and> 512 \<le> length (startAddr bm) \<and>
     unat (dataLbaStart (cursb s)) + bm_cap bm \<le> 163839 \<and>
     unat (blockBitMapLbaStart (cursb s)) < unat (inodeTableLbaStart (cursb s)) \<and>
     unat (inodeTableLbaStart (cursb s)) + 608 \<le> unat (dataLbaStart (cursb s)) \<and>
     unat (dataLbaStart (cursb s)) \<le> unat (lbaStart (curp s) + secCnt (curp s)) \<and>
     (\<forall>i < bm_cap bm. \<not> bm_used bm i \<longrightarrow> 0 < i \<and> i < 512)"

definition usedBlk :: "'a kfs_scheme \<Rightarrow> BitMap \<Rightarrow> u32 \<Rightarrow> bool" where
  "usedBlk s bm b \<longleftrightarrow> (\<exists>i < bm_cap bm. 0 < i \<and> bm_used bm i \<and> unat b = unat (dataLbaStart (cursb s)) + i)"

definition freeCnt :: "BitMap \<Rightarrow> nat" where
  "freeCnt bm = card {i. i < bm_cap bm \<and> \<not> bm_used bm i}"

lemma volWfD:
  assumes "volWf s bm dk"
  shows "wfDisk dk" "bm_wf bm" "512 \<le> length (startAddr bm)"
    "unat (dataLbaStart (cursb s)) + bm_cap bm \<le> 163839"
    "unat (blockBitMapLbaStart (cursb s)) < unat (dataLbaStart (cursb s))"
    "unat (inodeTableLbaStart (cursb s)) + 608 \<le> unat (dataLbaStart (cursb s))"
    "unat (dataLbaStart (cursb s)) \<le> unat (lbaStart (curp s) + secCnt (curp s))"
    "\<And>i. i < bm_cap bm \<Longrightarrow> \<not> bm_used bm i \<Longrightarrow> 0 < i \<and> i < 512"
    "unat (blockBitMapLbaStart (cursb s)) < unat (inodeTableLbaStart (cursb s))"
  using assms by (auto simp: volWf_def)

lemma volWf_disk: "volWf s bm dk \<Longrightarrow> wfDisk dk' \<Longrightarrow> volWf s bm dk'"
  by (simp add: volWf_def)

lemma usedBlk_bounds:
  assumes "volWf s bm dk" "usedBlk s bm b"
  shows "unat (dataLbaStart (cursb s)) < unat b" "b < MAX_LBA" "b \<noteq> 0" "b \<noteq> - 1"
    "b \<noteq> blockBitMapLbaStart (cursb s)"
proof -
  obtain i where i: "i < bm_cap bm" "0 < i" "unat b = unat (dataLbaStart (cursb s)) + i"
    using assms(2) by (auto simp: usedBlk_def)
  then have n: "unat (dataLbaStart (cursb s)) < unat b" "unat b < 163839"
    using volWfD(4) [OF assms(1)] by auto
  then show "unat (dataLbaStart (cursb s)) < unat b" "b < MAX_LBA" "b \<noteq> 0"
    by (auto simp: word_less_nat_alt)
  show "b \<noteq> - 1" using n unat_minus1_max by auto
  show "b \<noteq> blockBitMapLbaStart (cursb s)" using n volWfD(5) [OF assms(1)] by auto
qed

text \<open>Allocating a block: a block that was free, with the bitmap marking exactly it.\<close>

lemma alloc_ok:
  assumes vol: "volWf s bm dk" and free: "0 < freeCnt bm"
  obtains b bm' where
    "\<And>p nd. blockBitMapAlloc (curPart s) (fsUpd p nd bm dk s) = Inr (b, fsUpd p nd bm' dk s)"
    "b \<noteq> - 1" "\<not> usedBlk s bm b" "\<And>c. usedBlk s bm' c \<longleftrightarrow> usedBlk s bm c \<or> c = b"
    "volWf s bm' dk" "freeCnt bm' + 1 = freeCnt bm"
    "unat (b - dataLbaStart (cursb s)) < 512" "b - dataLbaStart (cursb s) \<noteq> 0"
proof -
  note v = volWfD [OF vol]
  have "{i. i < bm_cap bm \<and> \<not> bm_used bm i} \<noteq> {}"
  proof
    assume "{i. i < bm_cap bm \<and> \<not> bm_used bm i} = {}"
    with free show False by (simp only: freeCnt_def card.empty)
  qed
  then have "first_fit bm 1 \<noteq> None" unfolding first_fit_1_None by blast
  then obtain i where i: "first_fit bm 1 = Some i" by blast
  then have ib: "i < bm_cap bm" "\<not> bm_used bm i"
    using first_fit_bound [OF v(2) _ i] by (auto simp: first_fit_Some run_free_def)
  have i1: "first_fit bm (unat (1 :: u32)) = Some i" using i by simp
  obtain bm' where bm': "bitMapScanAndSet bm 1 True = Inr (of_nat i, bm')" "bm_same_shape bm bm'"
    "\<And>j. bm_used bm' j = (if i \<le> j \<and> j < i + unat (1 :: u32) then True else bm_used bm j)"
    using bitMapScanAndSet_some [OF v(2) _ i1, of True] by auto
  have cap: "bm_cap bm' = bm_cap bm" using bm_cap_same_shape bm'(2) by blast
  have used': "bm_used bm' j \<longleftrightarrow> j = i \<or> bm_used bm j" for j using bm'(3) [of j] by auto
  let ?D = "dataLbaStart (cursb s)"
  let ?b = "?D + of_nat i"
  have ui: "unat (of_nat i :: u32) = i" using ib v(4) by (intro unat_of_nat_small) simp
  have ub: "unat ?b = unat ?D + i" using ib v(4) by (simp add: unat_add_small ui)
  have i0: "0 < i" "i < 512" using v(8) [OF ib] by auto
  have "(of_nat i :: u32) \<noteq> - 1" using ib v(4) by (intro of_nat_neq_minus1) simp
  then have code: "blockBitMapAlloc (curPart s) (fsUpd p nd bm dk s) = Inr (?b, fsUpd p nd bm' dk s)" for p nd
    by (simp add: blockBitMapAlloc_def bm'(1))
  have fresh: "\<not> usedBlk s bm ?b" using ub ib by (auto simp: usedBlk_def)
  have all: "usedBlk s bm' c \<longleftrightarrow> usedBlk s bm c \<or> c = ?b" for c
  proof -
    have "c = ?b \<longleftrightarrow> unat c = unat ?D + i" using ub by (metis unat_inj_iff)
    then show ?thesis using ib i0 by (auto simp: usedBlk_def used' cap)
  qed
  have vol': "volWf s bm' dk"
    using vol bm'(2) bm_wf_same_shape [OF bm'(2)]
    by (auto simp: volWf_def cap used' bm_same_shape_def)
  have "{j. j < bm_cap bm \<and> \<not> bm_used bm j} = insert i {j. j < bm_cap bm' \<and> \<not> bm_used bm' j}"
    using ib by (auto simp: used' cap)
  then have cnt: "freeCnt bm' + 1 = freeCnt bm"
    unfolding freeCnt_def by (simp add: used')
  have "b0 \<noteq> - 1" if "b0 = ?b" for b0
    using usedBlk_bounds(4) [OF vol', of b0] all that by blast
  then show ?thesis
    using that [OF code _ fresh all vol' cnt] i0 ui by (metis add_diff_cancel_left' neq0_conv unat_0)
qed

lemma sync_ok:
  assumes "volWf s bm dk" "unat idx < 512"
  shows "bitMapSync (curPart s) idx BLOCK_BITMAP (fsUpd p nd bm dk s) =
    Inr (fsUpd p nd bm (dk(blockBitMapLbaStart (cursb s) := take 512 (startAddr bm))) s)"
proof -
  note v = volWfD [OF assms(1)]
  have "idx div 512 = 0" using assms(2) by (simp add: word_eq_iff_unsigned unat_div flip: unat_inj_iff)
  moreover have "blockBitMapLbaStart (cursb s) < MAX_LBA" using v by (simp add: word_less_nat_alt)
  ultimately show ?thesis using v by (simp add: bitMapSync_def)
qed

text \<open>The effect of allocating the blocks \<open>bs\<close>, their bits written to disk.\<close>

definition allocRel :: "'a kfs_scheme \<Rightarrow> u32 list \<Rightarrow> BitMap \<Rightarrow> (u32 \<Rightarrow> u8 list) \<Rightarrow> BitMap \<Rightarrow> (u32 \<Rightarrow> u8 list) \<Rightarrow> bool" where
  "allocRel s bs bm dk bm' dk' \<longleftrightarrow> volWf s bm' dk' \<and> distinct bs \<and> (\<forall>b \<in> set bs. \<not> usedBlk s bm b) \<and>
     (\<forall>c. usedBlk s bm' c \<longleftrightarrow> usedBlk s bm c \<or> c \<in> set bs) \<and> freeCnt bm' + length bs = freeCnt bm \<and>
     (\<forall>l. l \<noteq> blockBitMapLbaStart (cursb s) \<longrightarrow> dk' l = dk l)"

lemma allocRel_Nil: "volWf s bm dk \<Longrightarrow> allocRel s [] bm dk bm dk"
  by (simp add: allocRel_def)

lemma allocRel_trans:
  "allocRel s bs bm dk bm1 dk1 \<Longrightarrow> allocRel s cs bm1 dk1 bm2 dk2 \<Longrightarrow> allocRel s (bs @ cs) bm dk bm2 dk2"
  by (auto simp: allocRel_def)

lemma alloc_sync:
  assumes vol: "volWf s bm dk" and free: "0 < freeCnt bm"
  obtains b bm' dk' where
    "\<And>p nd. blockBitMapAlloc (curPart s) (fsUpd p nd bm dk s) = Inr (b, fsUpd p nd bm' dk s)"
    "b \<noteq> - 1" "b - dataLbaStart (cursb s) \<noteq> 0"
    "\<And>p nd. bitMapSync (curPart s) (b - dataLbaStart (cursb s)) BLOCK_BITMAP (fsUpd p nd bm' dk s) =
       Inr (fsUpd p nd bm' dk' s)"
    "allocRel s [b] bm dk bm' dk'" "allocRel s [b] bm dk bm' dk"
proof -
  obtain b bm' where a: "\<And>p nd. blockBitMapAlloc (curPart s) (fsUpd p nd bm dk s) = Inr (b, fsUpd p nd bm' dk s)"
    "b \<noteq> - 1" "\<not> usedBlk s bm b" "\<And>c. usedBlk s bm' c \<longleftrightarrow> usedBlk s bm c \<or> c = b"
    "volWf s bm' dk" "freeCnt bm' + 1 = freeCnt bm"
    "unat (b - dataLbaStart (cursb s)) < 512" "b - dataLbaStart (cursb s) \<noteq> 0"
    using alloc_ok [OF vol free] by blast
  let ?dk = "dk(blockBitMapLbaStart (cursb s) := take 512 (startAddr bm'))"
  have "wfDisk ?dk" using volWfD(1,3) [OF a(5)] by (simp add: wfDisk_def)
  then have vol': "volWf s bm' ?dk" using volWf_disk [OF a(5)] by blast
  have r: "allocRel s [b] bm dk bm' ?dk" "allocRel s [b] bm dk bm' dk"
    using a vol' by (auto simp: allocRel_def)
  show ?thesis using that [OF a(1,2,8) sync_ok [OF a(5,7)] r] .
qed

section \<open>The loops that add blocks\<close>

lemma addDirect_ok:
  assumes "volWf s bm dk" "n \<le> freeCnt bm" "length (block nd) = 13" "length blocks = 140" "k + n \<le> 12"
    "\<And>j. k \<le> j \<Longrightarrow> j < k + n \<Longrightarrow> block nd ! j = 0"
  shows "\<exists>bs bm' dk'. addDirect p blocks n k (fsUpd p nd bm dk s) =
      Inr (Some (overlay blocks k bs), fsUpd p (nd\<lparr>block := overlay (block nd) k bs\<rparr>) bm' dk' s) \<and>
    length bs = n \<and> allocRel s bs bm dk bm' dk'"
  using assms
proof (induction n arbitrary: bm dk nd blocks k)
  case 0
  then show ?case using allocRel_Nil by (intro exI [of _ "[]"] exI [of _ bm] exI [of _ dk]) simp
next
  case (Suc n)
  have "0 < freeCnt bm" using Suc.prems(2) by simp
  then obtain b bm1 dk1 where a: "\<And>p nd. blockBitMapAlloc (curPart s) (fsUpd p nd bm dk s) = Inr (b, fsUpd p nd bm1 dk s)"
    "b \<noteq> - 1" "b - dataLbaStart (cursb s) \<noteq> 0"
    "\<And>p nd. bitMapSync (curPart s) (b - dataLbaStart (cursb s)) BLOCK_BITMAP (fsUpd p nd bm1 dk s) =
       Inr (fsUpd p nd bm1 dk1 s)"
    "allocRel s [b] bm dk bm1 dk1" "allocRel s [b] bm dk bm1 dk"
    by (rule alloc_sync [OF Suc.prems(1)]) blast
  let ?nd = "nd\<lparr>block := (block nd)[k := b]\<rparr>"
  have step: "addDirect p blocks (Suc n) k (fsUpd p nd bm dk s) =
      addDirect p (blocks[k := b]) n (Suc k) (fsUpd p ?nd bm1 dk1 s)"
    using a Suc.prems(3,4,5) Suc.prems(6) [of k] by (simp add: blockLbaToBitMapIdx_def rd_def wr_def)
  have "volWf s bm1 dk1" "n \<le> freeCnt bm1" using a(5) Suc.prems(2) by (auto simp: allocRel_def)
  then obtain bs bm' dk' where r:
    "addDirect p (blocks[k := b]) n (Suc k) (fsUpd p ?nd bm1 dk1 s) =
      Inr (Some (overlay (blocks[k := b]) (Suc k) bs), fsUpd p (?nd\<lparr>block := overlay (block ?nd) (Suc k) bs\<rparr>) bm' dk' s)"
    "length bs = n" "allocRel s bs bm1 dk1 bm' dk'"
    using Suc.IH [of bm1 dk1 ?nd "blocks[k := b]" "Suc k"] Suc.prems by force
  have "allocRel s (b # bs) bm dk bm' dk'" using allocRel_trans [OF a(5) r(3)] by simp
  then show ?case
    using step r Suc.prems(3,4,5) by (intro exI [of _ "b # bs"] exI [of _ bm'] exI [of _ dk']) (simp add: overlay_Cons)
qed

lemma addAcross_ok:
  assumes "volWf s bm dk" "n \<le> freeCnt bm" "length (block nd) = 13" "length blocks = 140" "k + n \<le> 140"
    "\<And>j. k \<le> j \<Longrightarrow> j < 12 \<Longrightarrow> block nd ! j = 0"
  shows "\<exists>bs bm' dk'. addAcross p blocks n k (fsUpd p nd bm dk s) =
      Inr (Some (overlay blocks k bs), fsUpd p (nd\<lparr>block := overlay (block nd) k (take (12 - k) bs)\<rparr>) bm' dk' s) \<and>
    length bs = n \<and> allocRel s bs bm dk bm' dk'"
  using assms
proof (induction n arbitrary: bm dk nd blocks k)
  case 0
  then show ?case using allocRel_Nil by (intro exI [of _ "[]"] exI [of _ bm] exI [of _ dk]) simp
next
  case (Suc n)
  have "0 < freeCnt bm" using Suc.prems(2) by simp
  then obtain b bm1 dk1 where a: "\<And>p nd. blockBitMapAlloc (curPart s) (fsUpd p nd bm dk s) = Inr (b, fsUpd p nd bm1 dk s)"
    "b \<noteq> - 1" "b - dataLbaStart (cursb s) \<noteq> 0"
    "\<And>p nd. bitMapSync (curPart s) (b - dataLbaStart (cursb s)) BLOCK_BITMAP (fsUpd p nd bm1 dk s) =
       Inr (fsUpd p nd bm1 dk1 s)"
    "allocRel s [b] bm dk bm1 dk1" "allocRel s [b] bm dk bm1 dk"
    by (rule alloc_sync [OF Suc.prems(1)]) blast
  let ?nd = "if k < 12 then nd\<lparr>block := (block nd)[k := b]\<rparr> else nd"
  have step: "addAcross p blocks (Suc n) k (fsUpd p nd bm dk s) =
      addAcross p (blocks[k := b]) n (Suc k) (fsUpd p ?nd bm1 dk1 s)"
    using a Suc.prems(3,4,5) Suc.prems(6) [of k] by (simp add: blockLbaToBitMapIdx_def rd_def wr_def)
  have v: "volWf s bm1 dk1" "n \<le> freeCnt bm1" using a(5) Suc.prems(2) by (auto simp: allocRel_def)
  have l: "length (block ?nd) = 13" "length (blocks[k := b]) = 140" "Suc k + n \<le> 140"
    "\<And>j. Suc k \<le> j \<Longrightarrow> j < 12 \<Longrightarrow> block ?nd ! j = 0"
    using Suc.prems(3-6) by simp_all
  obtain bs bm' dk' where r:
    "addAcross p (blocks[k := b]) n (Suc k) (fsUpd p ?nd bm1 dk1 s) =
      Inr (Some (overlay (blocks[k := b]) (Suc k) bs),
        fsUpd p (?nd\<lparr>block := overlay (block ?nd) (Suc k) (take (12 - Suc k) bs)\<rparr>) bm' dk' s)"
    "length bs = n" "allocRel s bs bm1 dk1 bm' dk'"
    using Suc.IH [OF v l] by blast
  have blk: "?nd\<lparr>block := overlay (block ?nd) (Suc k) (take (12 - Suc k) bs)\<rparr> =
      nd\<lparr>block := overlay (block nd) k (take (12 - k) (b # bs))\<rparr>"
  proof (cases "k < 12")
    case True
    then have "12 - k = Suc (12 - Suc k)" by simp
    with True Suc.prems(3) show ?thesis by (simp add: overlay_Cons)
  qed simp
  have "allocRel s (b # bs) bm dk bm' dk'" using allocRel_trans [OF a(5) r(3)] by simp
  then show ?case
    using step r Suc.prems(3,4,5) blk
    by (intro exI [of _ "b # bs"] exI [of _ bm'] exI [of _ dk']) (simp add: overlay_Cons)
qed

lemma addIndirect_ok:
  assumes "volWf s bm dk" "n \<le> freeCnt bm" "length blocks = 140" "k + n \<le> 140"
  shows "\<exists>bs bm' dk'. addIndirect blocks n k (fsUpd p nd bm dk s) =
      Inr (Some (overlay blocks k bs), fsUpd p nd bm' dk' s) \<and>
    length bs = n \<and> allocRel s bs bm dk bm' dk'"
  using assms
proof (induction n arbitrary: bm dk blocks k)
  case 0
  then show ?case using allocRel_Nil by (intro exI [of _ "[]"] exI [of _ bm] exI [of _ dk]) simp
next
  case (Suc n)
  have "0 < freeCnt bm" using Suc.prems(2) by simp
  then obtain b bm1 dk1 where a: "\<And>p nd. blockBitMapAlloc (curPart s) (fsUpd p nd bm dk s) = Inr (b, fsUpd p nd bm1 dk s)"
    "b \<noteq> - 1" "b - dataLbaStart (cursb s) \<noteq> 0"
    "\<And>p nd. bitMapSync (curPart s) (b - dataLbaStart (cursb s)) BLOCK_BITMAP (fsUpd p nd bm1 dk s) =
       Inr (fsUpd p nd bm1 dk1 s)"
    "allocRel s [b] bm dk bm1 dk1" "allocRel s [b] bm dk bm1 dk"
    by (rule alloc_sync [OF Suc.prems(1)]) blast
  have step: "addIndirect blocks (Suc n) k (fsUpd p nd bm dk s) =
      addIndirect (blocks[k := b]) n (Suc k) (fsUpd p nd bm1 dk1 s)"
    using a Suc.prems(3,4) by (simp add: blockLbaToBitMapIdx_def wr_def)
  have "volWf s bm1 dk1" "n \<le> freeCnt bm1" using a(5) Suc.prems(2) by (auto simp: allocRel_def)
  then obtain bs bm' dk' where r:
    "addIndirect (blocks[k := b]) n (Suc k) (fsUpd p nd bm1 dk1 s) =
      Inr (Some (overlay (blocks[k := b]) (Suc k) bs), fsUpd p nd bm' dk' s)"
    "length bs = n" "allocRel s bs bm1 dk1 bm' dk'"
    using Suc.IH [of bm1 dk1 "blocks[k := b]" "Suc k"] Suc.prems by force
  have "allocRel s (b # bs) bm dk bm' dk'" using allocRel_trans [OF a(5) r(3)] by simp
  then show ?case
    using step r Suc.prems(3,4)
    by (intro exI [of _ "b # bs"] exI [of _ bm'] exI [of _ dk']) (simp add: overlay_Cons)
qed

section \<open>The blocks of a file\<close>

text \<open>The 140 block addresses of an inode, 0 for none, as the code collects them.\<close>

definition inodeBlocks :: "(u32 \<Rightarrow> u8 list) \<Rightarrow> Inode \<Rightarrow> u32 list" where
  "inodeBlocks dk nd = take 12 (block nd) @
     (if block nd ! 12 = 0 then replicate 128 0 else wordsOf (dk (block nd ! 12)))"

text \<open>The inode has exactly its first \<open>m\<close> blocks, and the table of indirect blocks when there are more
  than 12; they are all different and marked in the bitmap.\<close>

definition owned :: "(u32 \<Rightarrow> u8 list) \<Rightarrow> Inode \<Rightarrow> nat \<Rightarrow> u32 list" where
  "owned dk nd m = take m (inodeBlocks dk nd) @ (if 12 < m then [block nd ! 12] else [])"

definition blocksOk :: "'a kfs_scheme \<Rightarrow> BitMap \<Rightarrow> (u32 \<Rightarrow> u8 list) \<Rightarrow> Inode \<Rightarrow> nat \<Rightarrow> bool" where
  "blocksOk s bm dk nd m \<longleftrightarrow> length (block nd) = 13 \<and> m \<le> 140 \<and>
     (\<forall>j < 140. m \<le> j \<longrightarrow> inodeBlocks dk nd ! j = 0) \<and> (block nd ! 12 \<noteq> 0 \<longleftrightarrow> 12 < m) \<and>
     distinct (owned dk nd m) \<and> (\<forall>b \<in> set (owned dk nd m). usedBlk s bm b)"

lemma length_inodeBlocks [simp]:
  "wfDisk dk \<Longrightarrow> length (block nd) = 13 \<Longrightarrow> length (inodeBlocks dk nd) = 140"
  by (simp add: inodeBlocks_def)

lemma blocksOkD:
  assumes "blocksOk s bm dk nd m"
  shows "length (block nd) = 13" "m \<le> 140" "\<And>j. m \<le> j \<Longrightarrow> j < 140 \<Longrightarrow> inodeBlocks dk nd ! j = 0"
    "block nd ! 12 \<noteq> 0 \<longleftrightarrow> 12 < m" "distinct (owned dk nd m)"
    "\<And>b. b \<in> set (owned dk nd m) \<Longrightarrow> usedBlk s bm b"
  using assms by (auto simp: blocksOk_def)

lemma inodeBlocks_direct: "length (block nd) = 13 \<Longrightarrow> j < 12 \<Longrightarrow> inodeBlocks dk nd ! j = block nd ! j"
  by (simp add: inodeBlocks_def nth_append)

lemma blocksOk_used:
  assumes "volWf s bm dk" "blocksOk s bm dk nd m" "j < m"
  shows "usedBlk s bm (inodeBlocks dk nd ! j)" "inodeBlocks dk nd ! j \<in> set (take m (inodeBlocks dk nd))"
proof -
  have "length (inodeBlocks dk nd) = 140"
    using volWfD(1) [OF assms(1)] blocksOkD(1) [OF assms(2)] by simp
  then show m: "inodeBlocks dk nd ! j \<in> set (take m (inodeBlocks dk nd))"
    using assms(3) blocksOkD(2) [OF assms(2)] by (force simp: in_set_conv_nth)
  then show "usedBlk s bm (inodeBlocks dk nd ! j)"
    using blocksOkD(6) [OF assms(2)] by (simp add: owned_def)
qed

text \<open>Adding the blocks \<open>bs\<close> behind the first \<open>m\<close>, and the table \<open>ts\<close> when the file grows beyond 12.\<close>

lemma blocksOk_grow:
  assumes vol: "volWf s bm dk" and ok: "blocksOk s bm dk nd m" and al: "allocRel s (ts @ bs) bm dk bm' dk1"
    and len: "m + length bs \<le> 140" "length (block nd') = 13"
    and tab: "ts = (if m \<le> 12 \<and> 12 < m + length bs then [block nd' ! 12] else [])"
      "ts = [] \<Longrightarrow> block nd' ! 12 = block nd ! 12"
    and blocks: "inodeBlocks dk' nd' = overlay (inodeBlocks dk nd) m bs"
  shows "blocksOk s bm' dk' nd' (m + length bs)"
    "set (owned dk' nd' (m + length bs)) = set (owned dk nd m) \<union> set ts \<union> set bs"
proof -
  note o = blocksOkD [OF ok]
  have l: "length (inodeBlocks dk nd) = 140" using volWfD(1) [OF vol] o(1) by simp
  have a: "volWf s bm' dk1" "distinct (ts @ bs)" "\<And>b. b \<in> set ts \<union> set bs \<Longrightarrow> \<not> usedBlk s bm b"
    "\<And>c. usedBlk s bm' c \<longleftrightarrow> usedBlk s bm c \<or> c \<in> set ts \<union> set bs"
    using al by (auto simp: allocRel_def)
  have t: "take (m + length bs) (inodeBlocks dk' nd') = take m (inodeBlocks dk nd) @ bs"
    unfolding blocks using l len by (simp add: overlay_def)
  have own: "owned dk' nd' (m + length bs) = take m (inodeBlocks dk nd) @ bs @
      (if 12 < m + length bs then [block nd' ! 12] else [])"
    by (simp add: owned_def t)
  show own': "set (owned dk' nd' (m + length bs)) = set (owned dk nd m) \<union> set ts \<union> set bs"
  proof -
    consider "12 < m" | "m \<le> 12" "12 < m + length bs" | "m + length bs \<le> 12" by linarith
    then show ?thesis unfolding own owned_def [of dk nd m] using tab by cases auto
  qed
  have tail: "inodeBlocks dk' nd' ! j = 0" if "m + length bs \<le> j" "j < 140" for j
    unfolding blocks using that l len o(3) [of j] by (simp add: nth_overlay)
  have tn: "block nd' ! 12 \<noteq> 0 \<longleftrightarrow> 12 < m + length bs"
  proof (cases "ts = []")
    case True
    then show ?thesis using tab o(4) by (auto split: if_splits)
  next
    case False
    then have "usedBlk s bm' (block nd' ! 12)" using a(4) tab(1) by (auto split: if_splits)
    then show ?thesis using usedBlk_bounds(3) [OF a(1)] False tab(1) by (auto split: if_splits)
  qed
  have dis: "distinct (owned dk' nd' (m + length bs))"
  proof -
    have d: "distinct (take m (inodeBlocks dk nd))" "distinct bs" "distinct ts"
      using o(5) a(2) by (simp_all add: owned_def)
    moreover have "b \<notin> set bs" "b \<notin> set ts" if "b \<in> set (owned dk nd m)" for b
      using o(6) [OF that] a(3) by auto
    moreover have "12 < m \<Longrightarrow> block nd ! 12 \<notin> set (take m (inodeBlocks dk nd))"
      using o(5) by (simp add: owned_def)
    ultimately show ?thesis
      using a(2) tab unfolding own owned_def [of dk nd m]
      by (cases "12 < m"; cases "12 < m + length bs") auto
  qed
  show "blocksOk s bm' dk' nd' (m + length bs)"
    unfolding blocksOk_def using len tail tn dis o(6) a(4) own' by auto
qed

section \<open>The blocks of a write\<close>

lemma loadDirect_ok:
  "length (block nd) = 13 \<Longrightarrow> length blocks = 140 \<Longrightarrow> k < 12 \<Longrightarrow> block nd ! k \<noteq> 0 \<Longrightarrow>
   loadDirect p k blocks (fsUpd p nd bm dk s) = Inr (blocks[k := block nd ! k])"
  by (simp add: loadDirect_def rd_def wr_def)

lemma loadIndirect_ok:
  "lba < MAX_LBA \<Longrightarrow> loadIndirect lba blocks (fsUpd p nd bm dk s) = Inr (take 12 blocks @ wordsOf (dk lba))"
  by (simp add: loadIndirect_def)

lemma storeIndirect_ok:
  "lba < MAX_LBA \<Longrightarrow> length blocks = 140 \<Longrightarrow>
   storeIndirect lba blocks (fsUpd p nd bm dk s) = Inr (fsUpd p nd bm (dk(lba := bytesOf (drop 12 blocks))) s)"
  by (simp add: storeIndirect_def)

lemma inodeBlocks_store:
  assumes "length B = 140" "t \<noteq> 0" "length (block nd) = 13" "block nd ! 12 = t"
  shows "inodeBlocks (dk(t := bytesOf (drop 12 B))) nd = take 12 (block nd) @ drop 12 B"
  using assms by (simp add: inodeBlocks_def)

text \<open>What \<open>writeBlocks\<close> has to deliver for a file with blocks 0 to \<open>has\<close> that is to have blocks 0 to
  \<open>will\<close>: the new blocks were free, and the array agrees with the inode from \<open>has\<close> on.\<close>

definition grownTo :: "'a kfs_scheme \<Rightarrow> nat \<Rightarrow> nat \<Rightarrow> BitMap \<Rightarrow> (u32 \<Rightarrow> u8 list) \<Rightarrow> Inode \<Rightarrow>
    u32 list \<Rightarrow> BitMap \<Rightarrow> (u32 \<Rightarrow> u8 list) \<Rightarrow> Inode \<Rightarrow> bool" where
  "grownTo s has will bm dk nd B bm' dk' nd' \<longleftrightarrow> volWf s bm' dk' \<and> blocksOk s bm' dk' nd' (will + 1) \<and>
     nd' = nd\<lparr>block := block nd'\<rparr> \<and> length B = 140 \<and>
     (\<forall>j. has \<le> j \<and> j \<le> will \<longrightarrow> B ! j = inodeBlocks dk' nd' ! j) \<and>
     (\<forall>j \<le> has. inodeBlocks dk' nd' ! j = inodeBlocks dk nd ! j) \<and>
     (\<forall>b \<in> set (owned dk' nd' (will + 1)). b \<in> set (owned dk nd (has + 1)) \<or> \<not> usedBlk s bm b) \<and>
     (\<forall>c. usedBlk s bm' c \<longleftrightarrow> usedBlk s bm c \<or> c \<in> set (owned dk' nd' (will + 1))) \<and>
     (\<forall>l. l \<noteq> blockBitMapLbaStart (cursb s) \<longrightarrow> (12 \<le> will \<longrightarrow> l \<noteq> block nd' ! 12) \<longrightarrow> dk' l = dk l)"

lemma grownTo_add:
  assumes vol: "volWf s bm dk" and ok: "blocksOk s bm dk nd (has + 1)"
    and al: "allocRel s (ts @ bs) bm dk bm' dk1"
    and len: "length bs = will - has" "has \<le> will" "will < 140"
    and nd': "nd' = nd\<lparr>block := blk\<rparr>" "length blk = 13"
    and tab: "ts = (if has < 12 \<and> 12 \<le> will then [blk ! 12] else [])"
      "ts = [] \<Longrightarrow> blk ! 12 = block nd ! 12"
    and blocks: "inodeBlocks dk' nd' = overlay (inodeBlocks dk nd) (has + 1) bs"
    and B: "length B = 140" "B ! has = inodeBlocks dk nd ! has" "take (will - has) (drop (has + 1) B) = bs"
    and dk': "wfDisk dk'" "\<And>l. l \<noteq> blk ! 12 \<or> will < 12 \<Longrightarrow> dk' l = dk1 l"
  shows "grownTo s has will bm dk nd B bm' dk' nd'"
proof -
  note o = blocksOkD [OF ok]
  have w: "has + 1 + length bs = will + 1" using len by simp
  have l: "length (inodeBlocks dk nd) = 140" using volWfD(1) [OF vol] o(1) by simp
  have a: "volWf s bm' dk1" "\<And>b. b \<in> set ts \<union> set bs \<Longrightarrow> \<not> usedBlk s bm b"
    "\<And>c. usedBlk s bm' c \<longleftrightarrow> usedBlk s bm c \<or> c \<in> set ts \<union> set bs"
    "\<And>l. l \<noteq> blockBitMapLbaStart (cursb s) \<Longrightarrow> dk1 l = dk l"
    using al by (auto simp: allocRel_def)
  have g: "blocksOk s bm' dk' nd' (will + 1)"
    "set (owned dk' nd' (will + 1)) = set (owned dk nd (has + 1)) \<union> set ts \<union> set bs"
    using blocksOk_grow [OF vol ok al, of nd' dk'] tab blocks len(3) w nd' by (auto split: if_splits)
  have old: "inodeBlocks dk' nd' ! j = inodeBlocks dk nd ! j" if "j \<le> has" for j
    unfolding blocks using that l len by (simp add: nth_overlay)
  have new: "B ! j = inodeBlocks dk' nd' ! j" if j: "has \<le> j" "j \<le> will" for j
  proof (cases "j = has")
    case True
    then show ?thesis using old B(2) by simp
  next
    case False
    with j have k: "j - (has + 1) < will - has" by linarith
    have "inodeBlocks dk' nd' ! j = bs ! (j - (has + 1))"
      unfolding blocks using False j l len by (simp add: nth_overlay)
    also have "\<dots> = B ! (has + 1 + (j - (has + 1)))"
      using k B(1) len unfolding B(3) [symmetric] by simp
    finally show ?thesis using False j by simp
  qed
  show ?thesis
    unfolding grownTo_def
    using g old new B(1) a o(6) volWf_disk [OF a(1) dk'(1)] dk'(2) nd'
    by (auto simp: not_le)
qed

lemma inodeBlocks_less12:
  "block nd ! 12 = 0 \<Longrightarrow> inodeBlocks dk nd = take 12 (block nd) @ replicate 128 0"
  by (simp add: inodeBlocks_def)

lemma overlay_across:
  assumes "length xs = 13" "length zs = 140" "k \<le> 12" "12 \<le> k + length bs" "k + length bs \<le> 140"
  shows "take 12 (overlay xs k (take (12 - k) bs)) @ drop 12 (overlay zs k bs) = overlay (take 12 xs @ drop 12 zs) k bs"
proof (rule nth_equalityI)
  fix j assume "j < length (take 12 (overlay xs k (take (12 - k) bs)) @ drop 12 (overlay zs k bs))"
  then have "j < 140" using assms by simp
  then show "(take 12 (overlay xs k (take (12 - k) bs)) @ drop 12 (overlay zs k bs)) ! j =
      overlay (take 12 xs @ drop 12 zs) k bs ! j"
    using assms by (cases "j < 12") (auto simp: nth_append nth_overlay)
qed (use assms in simp)

lemma writeBlocks_ok:
  assumes vol: "volWf s bm dk" and ok: "blocksOk s bm dk nd (has + 1)"
    and h: "unat (isize nd div 512) = has" "unat ((isize nd + count) div 512) = will" and hw: "has \<le> will" "will < 140"
    and free: "will - has + (if has < 12 \<and> 12 \<le> will then 1 else 0) \<le> freeCnt bm"
  shows "\<exists>B bm' dk' nd'. writeBlocks p count (fsUpd p nd bm dk s) = Inr (Some B, fsUpd p nd' bm' dk' s) \<and>
    grownTo s has will bm dk nd B bm' dk' nd'"
proof -
  note o = blocksOkD [OF ok]
  have wf: "wfDisk dk" using volWfD(1) [OF vol] .
  have l: "length (inodeBlocks dk nd) = 140" using wf o(1) by simp
  have hasBlk: "inodeBlocks dk nd ! has \<noteq> 0" "usedBlk s bm (inodeBlocks dk nd ! has)"
    using blocksOk_used [OF vol ok, of has] usedBlk_bounds(3) [OF vol] by auto
  have tabOk: "block nd ! 12 < MAX_LBA" "block nd ! 12 \<noteq> 0" "block nd ! 12 \<noteq> blockBitMapLbaStart (cursb s)" if "12 \<le> has"
    using that o(4,6) usedBlk_bounds [OF vol, of "block nd ! 12"] by (auto simp: owned_def)
  have direct: "has < 12 \<Longrightarrow> block nd ! has = inodeBlocks dk nd ! has" using inodeBlocks_direct o(1) by simp
  let ?Z = "replicate 140 (0 :: u32)"
  let ?Z1 = "?Z[has := inodeBlocks dk nd ! has]"
  have load1: "loadDirect p has ?Z (fsUpd p nd bm dk s) = Inr ?Z1" if "has < 12"
    using loadDirect_ok [OF o(1), of ?Z has] that direct hasBlk by simp
  have ind: "inodeBlocks dk nd = take 12 (block nd) @ wordsOf (dk (block nd ! 12))" if "12 \<le> has"
    using tabOk(2) that by (simp add: inodeBlocks_def)
  consider (same) "will = has" | (direct) "has < will" "will < 12" | (across) "has < 12" "12 \<le> will"
    | (indirect) "12 \<le> has" "has < will" using hw by linarith
  then show ?thesis
  proof cases
    case same
    let ?B = "if has < 12 then ?Z1 else take 12 ?Z @ wordsOf (dk (block nd ! 12))"
    have code: "writeBlocks p count (fsUpd p nd bm dk s) = Inr (Some ?B, fsUpd p nd bm dk s)"
      using same hw load1 tabOk(2)
      by (cases "12 \<le> has") (simp_all add: writeBlocks_def Let_def h loadIndirect_ok [OF tabOk(1)])
    have B: "length ?B = 140" "?B ! has = inodeBlocks dk nd ! has"
      using wf ind hw(2) same by (cases "has < 12"; simp add: nth_append o(1))+
    have "grownTo s has will bm dk nd ?B bm dk nd"
      using vol ok B same o(6) by (auto simp: grownTo_def)
    with code show ?thesis by blast
  next
    case direct
    have z: "block nd ! j = 0" if "has + 1 \<le> j" "j < has + 1 + (will - has)" for j
      using o(3) [of j] that direct(2) hw inodeBlocks_direct [OF o(1), of j] by simp
    obtain bs bm' dk' where a:
      "addDirect p ?Z1 (will - has) (has + 1) (fsUpd p nd bm dk s) =
        Inr (Some (overlay ?Z1 (has + 1) bs), fsUpd p (nd\<lparr>block := overlay (block nd) (has + 1) bs\<rparr>) bm' dk' s)"
      "length bs = will - has" "allocRel s bs bm dk bm' dk'"
      using addDirect_ok [OF vol _ o(1), of "will - has" ?Z1 "has + 1" p] z free direct by auto
    have code: "writeBlocks p count (fsUpd p nd bm dk s) =
        Inr (Some (overlay ?Z1 (has + 1) bs), fsUpd p (nd\<lparr>block := overlay (block nd) (has + 1) bs\<rparr>) bm' dk' s)"
      using direct hw load1 a(1) by (simp add: writeBlocks_def Let_def h)
    have b12: "block nd ! 12 = 0" "overlay (block nd) (has + 1) bs ! 12 = block nd ! 12"
      using o(1,4) direct a(2) by (auto simp: nth_overlay)
    have blocks: "inodeBlocks dk' (nd\<lparr>block := overlay (block nd) (has + 1) bs\<rparr>) = overlay (inodeBlocks dk nd) (has + 1) bs"
      using b12 a(2) direct o(1) by (simp add: inodeBlocks_less12 overlay_def drop_take)
    have "grownTo s has will bm dk nd (overlay ?Z1 (has + 1) bs) bm' dk' (nd\<lparr>block := overlay (block nd) (has + 1) bs\<rparr>)"
      using a(2,3) direct hw o(1) b12 blocks
      by (intro grownTo_add [OF vol ok, where ts = "[]" and bs = bs and blk = "overlay (block nd) (has + 1) bs"])
         (simp_all add: nth_overlay overlay_take_drop allocRel_def volWf_def)
    with code show ?thesis by blast
  next
    case across
    have "0 < freeCnt bm" using free across by simp
    then obtain t bm1 where t: "\<And>p nd. blockBitMapAlloc (curPart s) (fsUpd p nd bm dk s) = Inr (t, fsUpd p nd bm1 dk s)"
      "t \<noteq> - 1" "allocRel s [t] bm dk bm1 dk"
      by (rule alloc_sync [OF vol]) blast
    have vol1: "volWf s bm1 dk" "will - has \<le> freeCnt bm1" using t(3) free across by (auto simp: allocRel_def)
    have tOk: "t \<noteq> 0" "t < MAX_LBA" "t \<noteq> blockBitMapLbaStart (cursb s)"
      using usedBlk_bounds [OF vol1(1), of t] t(3) by (auto simp: allocRel_def)
    let ?nd1 = "nd\<lparr>block := (block nd)[12 := t]\<rparr>"
    have z: "block ?nd1 ! j = 0" if "has + 1 \<le> j" "j < 12" for j
      using o(3) [of j] that inodeBlocks_direct [OF o(1), of j] by simp
    obtain bs bm' dk1 where a:
      "addAcross p ?Z1 (will - has) (has + 1) (fsUpd p ?nd1 bm1 dk s) =
        Inr (Some (overlay ?Z1 (has + 1) bs),
          fsUpd p (?nd1\<lparr>block := overlay (block ?nd1) (has + 1) (take (12 - (has + 1)) bs)\<rparr>) bm' dk1 s)"
      "length bs = will - has" "allocRel s bs bm1 dk bm' dk1"
      using addAcross_ok [OF vol1, of ?nd1 ?Z1 "has + 1" p] z across hw o(1) by auto
    let ?B = "overlay ?Z1 (has + 1) bs"
    let ?nd2 = "?nd1\<lparr>block := overlay (block ?nd1) (has + 1) (take (12 - (has + 1)) bs)\<rparr>"
    let ?dk = "dk1(t := bytesOf (drop 12 ?B))"
    have B: "length ?B = 140" using a(2) hw by simp
    have b12: "block nd ! 12 = 0" using o(4) across by auto
    have code: "writeBlocks p count (fsUpd p nd bm dk s) = Inr (Some ?B, fsUpd p ?nd2 bm' ?dk s)"
      using across hw load1 t(1,2) b12 a(1) B
      by (simp add: writeBlocks_def Let_def h storeIndirect_ok [OF tOk(2)])
    have n12: "block ?nd2 ! 12 = t" "length (block ?nd2) = 13"
      using across o(1) a(2) hw by (auto simp: nth_overlay)
    have wf1: "wfDisk dk1" using a(3) by (auto simp: allocRel_def dest: volWfD(1))
    have "wfDisk ?dk" using wf1 B by (simp add: wfDisk_def)
    moreover have al: "allocRel s ([t] @ bs) bm dk bm' dk1" using allocRel_trans [OF t(3) a(3)] .
    moreover have blocks: "inodeBlocks ?dk ?nd2 = overlay (inodeBlocks dk nd) (has + 1) bs"
      using inodeBlocks_store [OF B tOk(1) n12(2,1), of dk1]
        overlay_across [of "(block nd)[12 := t]" ?Z1 "has + 1" bs] across a(2) hw o(1)
      by (simp add: inodeBlocks_less12 [OF b12] drop_update_cancel)
    ultimately have "grownTo s has will bm dk nd ?B bm' ?dk ?nd2"
      using a(2) across hw o(1) n12 B
      by (intro grownTo_add [OF vol ok, where ts = "[t]" and bs = bs and blk = "block ?nd2"])
         (simp_all add: nth_overlay overlay_take_drop)
    with code show ?thesis by blast
  next
    case indirect
    let ?t = "block nd ! 12"
    let ?Z2 = "take 12 ?Z @ wordsOf (dk ?t)"
    obtain bs bm' dk1 where a:
      "addIndirect ?Z2 (will - has) (has + 1) (fsUpd p nd bm dk s) =
        Inr (Some (overlay ?Z2 (has + 1) bs), fsUpd p nd bm' dk1 s)"
      "length bs = will - has" "allocRel s bs bm dk bm' dk1"
      using addIndirect_ok [OF vol, of "will - has" ?Z2 "has + 1" p nd] free indirect hw wf by auto
    let ?B = "overlay ?Z2 (has + 1) bs"
    let ?dk = "dk1(?t := bytesOf (drop 12 ?B))"
    have B: "length ?B = 140" using a(2) hw wf by simp
    have code: "writeBlocks p count (fsUpd p nd bm dk s) = Inr (Some ?B, fsUpd p nd bm' ?dk s)"
      using indirect hw a(1) tabOk(2) B
      by (simp add: writeBlocks_def Let_def h loadIndirect_ok [OF tabOk(1)] storeIndirect_ok [OF tabOk(1)])
    have wf1: "wfDisk dk1" using a(3) by (auto simp: allocRel_def dest: volWfD(1))
    have "wfDisk ?dk" using wf1 B by (simp add: wfDisk_def)
    moreover have blocks: "inodeBlocks ?dk nd = overlay (inodeBlocks dk nd) (has + 1) bs"
      using inodeBlocks_store [OF B tabOk(2) o(1)] indirect a(2) hw o(1) wf
      by (simp add: ind overlay_def)
    moreover have "?B ! has = inodeBlocks dk nd ! has"
      using indirect a(2) hw wf o(1) by (simp add: nth_overlay nth_append ind)
    ultimately have "grownTo s has will bm dk nd ?B bm' ?dk nd"
      using a(2,3) indirect hw o(1) B wf
      by (intro grownTo_add [OF vol ok, where ts = "[]" and bs = bs and blk = "block nd"])
         (simp_all add: overlay_take_drop)
    with code show ?thesis by blast
  qed
qed

section \<open>Writing the bytes\<close>

definition fileBytes :: "(u32 \<Rightarrow> u8 list) \<Rightarrow> u32 list \<Rightarrow> u8 list" where
  "fileBytes dk bs = concat (map dk bs)"

lemma length_fileBytes [simp]: "wfDisk dk \<Longrightarrow> length (fileBytes dk bs) = 512 * length bs"
  by (induction bs) (simp_all add: fileBytes_def)

lemma fileBytes_split:
  assumes "wfDisk dk" "q < length bs"
  shows "fileBytes dk bs = fileBytes dk (take q bs) @ dk (bs ! q) @ fileBytes dk (drop (Suc q) bs)"
proof -
  have "bs = take q bs @ bs ! q # drop (Suc q) bs" using assms(2) by (rule id_take_nth_drop)
  then have "fileBytes dk bs = fileBytes dk (take q bs @ bs ! q # drop (Suc q) bs)" by simp
  then show ?thesis by (simp add: fileBytes_def)
qed

lemma fileBytes_cong: "(\<And>b. b \<in> set bs \<Longrightarrow> dk b = dk' b) \<Longrightarrow> fileBytes dk bs = fileBytes dk' bs"
  unfolding fileBytes_def by (intro arg_cong [where f = concat] map_cong) auto

text \<open>Bytes \<open>c\<close> stored at the end of a file of \<open>512 * q + off\<close> bytes, in a sector whose start is kept.\<close>

lemma fileBytes_store:
  assumes wf: "wfDisk dk" and q: "q < length bs" "distinct bs"
    and base: "length base = 512" "off + length c \<le> 512" "take off base = take off (dk (bs ! q))"
  shows "take (512 * q + off + length c) (fileBytes (dk(bs ! q := overlay base off c)) bs) =
    take (512 * q + off) (fileBytes dk bs) @ c"
proof -
  let ?dk = "dk(bs ! q := overlay base off c)"
  have wf': "wfDisk ?dk" using wf base by (simp add: wfDisk_def)
  have "bs ! q \<notin> set (take q bs)"
    using q by (metis distinct_take in_set_conv_nth length_take less_imp_not_eq min_less_iff_conj nth_eq_iff_index_eq nth_take)
  then have a: "fileBytes ?dk (take q bs) = fileBytes dk (take q bs)" by (intro fileBytes_cong) auto
  have l: "length (fileBytes dk (take q bs)) = 512 * q" using wf q by simp
  have lq: "length (dk (bs ! q)) = 512" using wf by (simp add: wfDisk_def)
  have "take (off + length c) (overlay base off c) = take off (dk (bs ! q)) @ c"
    using base lq by (simp add: overlay_def)
  then show ?thesis
    unfolding fileBytes_split [OF wf' q(1)] fileBytes_split [OF wf q(1)] a
    using l base lq by (simp add: add.assoc)
qed

lemma updFile_fsUpd: "updFile fi f (fsUpd p nd bm dk s) = fsUpd p nd bm dk (updFile fi f s)"
  by (simp add: updFile_def fsUpd_def)

lemma updFile_fields [simp]:
  "curPart (updFile fi f s) = curPart s" "parts (updFile fi f s) = parts s" "inodes (updFile fi f s) = inodes s"
  "disks (updFile fi f s) = disks s" "bufs (updFile fi f s) = bufs s"
  "length (fileTable (updFile fi f s)) = length (fileTable s)"
  by (simp_all add: updFile_def)

lemma updFile_twice:
  "fi < length (fileTable s) \<Longrightarrow> updFile fi f (updFile fi g s) = updFile fi (f o g) s"
  by (simp add: updFile_def)

lemma writeLoop_step:
  assumes "left \<noteq> 0" and q: "unat (isize nd) div 512 = q" "unat (isize nd) mod 512 = off"
    and chunk: "min left (512 - off) = chunk" "chunk \<le> length src"
    and b: "B ! q = b" "q < length B" "b < MAX_LBA"
    and base: "(if firstW then dk b else replicate 512 0) = base" "length base = 512"
  shows "writeLoop fi p B src firstW left (fsUpd p nd bm dk s) =
    writeLoop fi p B (drop chunk src) False (left - chunk)
      (fsUpd p (nd\<lparr>isize := isize nd + of_nat chunk\<rparr>) bm (dk(b := overlay base off (take chunk src)))
        (updFile fi (\<lambda>f. f\<lparr>fdPos := fdPos f + of_nat chunk\<rparr>) s))"
proof -
  have "off < 512" using q(2) by (metis mod_less_divisor zero_less_numeral)
  then have l: "length (overlay base off (take chunk src)) = 512" using base(2) chunk by auto
  show ?thesis
    using chunk(2) base(1) l b(3)
    by (subst writeLoop.simps, simp only: Let_def fsUpd_fields fun_upd_same q chunk(1))
       (cases firstW; simp add: rd_def b(1,2) assms(1) updFile_fsUpd)
qed

lemma fill_sector: "(a + (512 - a mod 512)) mod 512 = (0 :: nat)"
proof -
  define q r where "q = a div 512" "r = a mod 512"
  then have "a = 512 * q + r" "r < 512" by simp_all
  then have "a + (512 - r) = 512 * (q + 1)" by simp
  then show ?thesis using q_r_def(2) by simp
qed

lemma writeLoop_ok:
  assumes "wfDisk dk" "distinct bs" "\<And>b. b \<in> set bs \<Longrightarrow> b < MAX_LBA" "length bs = will + 1" "length B = 140" "will < 140"
    "\<And>j. has \<le> j \<Longrightarrow> j \<le> will \<Longrightarrow> B ! j = bs ! j" "left \<le> length src"
    "has \<le> unat (isize nd) div 512" "(unat (isize nd) + left) div 512 \<le> will"
    "firstW \<or> unat (isize nd) mod 512 = 0 \<or> left = 0" "fi < length (fileTable s)"
  shows "\<exists>dk'. writeLoop fi p B src firstW left (fsUpd p nd bm dk s) =
      Inr (fsUpd p (nd\<lparr>isize := isize nd + of_nat left\<rparr>) bm dk' (updFile fi (\<lambda>f. f\<lparr>fdPos := fdPos f + of_nat left\<rparr>) s)) \<and>
    wfDisk dk' \<and> (\<forall>l. l \<notin> set bs \<longrightarrow> dk' l = dk l) \<and>
    take (unat (isize nd) + left) (fileBytes dk' bs) = take (unat (isize nd)) (fileBytes dk bs) @ take left src"
  using assms
proof (induction left arbitrary: nd dk src firstW s rule: less_induct)
  case (less left)
  note p = less.prems
  show ?case
  proof (cases "left = 0")
    case True
    have "updFile fi (\<lambda>f. f\<lparr>fdPos := fdPos f + of_nat 0\<rparr>) s = s" by (simp add: updFile_def)
    with True p(1) show ?thesis by (subst writeLoop.simps) (auto intro!: exI [of _ dk])
  next
    case False
    let ?sz = "unat (isize nd)"
    let ?q = "?sz div 512" and ?off = "?sz mod 512"
    let ?chunk = "min left (512 - ?off)"
    have off: "?off < 512" "?sz = 512 * ?q + ?off" by simp_all
    have ch: "0 < ?chunk" "?chunk \<le> left" "?off + ?chunk \<le> 512" using False off by auto
    have q: "?q \<le> will" using p(10) by (meson div_le_mono le_add1 order_trans)
    then have qb: "?q < length bs" "B ! ?q = bs ! ?q" "bs ! ?q < MAX_LBA" using p(3,4,7,9) by auto
    let ?base = "if firstW then dk (bs ! ?q) else replicate 512 0"
    have base: "length ?base = 512" "take ?off ?base = take ?off (dk (bs ! ?q))"
      using p(1,11) False by auto
    let ?c = "take ?chunk src"
    let ?dk = "dk(bs ! ?q := overlay ?base ?off ?c)"
    let ?nd = "nd\<lparr>isize := isize nd + of_nat ?chunk\<rparr>"
    let ?s = "updFile fi (\<lambda>f. f\<lparr>fdPos := fdPos f + of_nat ?chunk\<rparr>) s"
    have lc: "length ?c = ?chunk" using p(8) ch by simp
    have lo: "length (overlay ?base ?off ?c) = 512" using base lc ch by simp
    have wf': "wfDisk ?dk" using p(1) lo by (simp add: wfDisk_def)
    have "(?sz + left) div 512 < 140" using p(6,10) by linarith
    then have small: "?sz + left < 71680" by (simp add: div_less_iff_less_mult)
    have usz: "unat (isize ?nd) = ?sz + ?chunk"
      using small ch by (simp add: unat_add_small unat_of_nat_small)
    have step: "writeLoop fi p B src firstW left (fsUpd p nd bm dk s) =
        writeLoop fi p B (drop ?chunk src) False (left - ?chunk) (fsUpd p ?nd bm ?dk ?s)"
    proof (rule writeLoop_step)
      show "?chunk \<le> length src" using p(8) ch(2) by (rule le_trans [rotated])
      show "?q < length B" using q p(5,6) by simp
    qed (rule False refl qb base(1))+
    have mods: "unat (isize ?nd) mod 512 = 0 \<or> left - ?chunk = 0"
    proof (cases "left \<le> 512 - ?off")
      case False
      then have "?chunk = 512 - ?off" by simp
      then show ?thesis unfolding usz using fill_sector by simp
    qed simp
    have has': "has \<le> unat (isize ?nd) div 512" using p(9) unfolding usz by (meson div_le_mono le_add1 order_trans)
    have will': "(unat (isize ?nd) + (left - ?chunk)) div 512 \<le> will" using p(10) ch(2) unfolding usz by simp
    have src': "left - ?chunk \<le> length (drop ?chunk src)" using p(8) by simp
    have mods': "False \<or> unat (isize ?nd) mod 512 = 0 \<or> left - ?chunk = 0" using mods by blast
    have fi': "fi < length (fileTable ?s)" using p(12) by simp
    have dec: "left - ?chunk < left" using ch by simp
    obtain dk' where r: "writeLoop fi p B (drop ?chunk src) False (left - ?chunk) (fsUpd p ?nd bm ?dk ?s) =
        Inr (fsUpd p (?nd\<lparr>isize := isize ?nd + of_nat (left - ?chunk)\<rparr>) bm dk'
          (updFile fi (\<lambda>f. f\<lparr>fdPos := fdPos f + of_nat (left - ?chunk)\<rparr>) ?s))"
      "wfDisk dk'" "\<And>l. l \<notin> set bs \<Longrightarrow> dk' l = ?dk l"
      "take (unat (isize ?nd) + (left - ?chunk)) (fileBytes dk' bs) =
        take (unat (isize ?nd)) (fileBytes ?dk bs) @ take (left - ?chunk) (drop ?chunk src)"
      using less.IH [OF dec wf' p(2-7) src' has' will' mods' fi'] by blast
    have sum: "(of_nat ?chunk :: u32) + of_nat (left - ?chunk) = of_nat left" using ch(2) by (simp flip: of_nat_add)
    have n1: "?nd\<lparr>isize := isize ?nd + of_nat (left - ?chunk)\<rparr> = nd\<lparr>isize := isize nd + of_nat left\<rparr>"
      by (simp add: add.assoc sum del: of_nat_diff of_nat_min)
    have n2: "updFile fi (\<lambda>f. f\<lparr>fdPos := fdPos f + of_nat (left - ?chunk)\<rparr>) ?s =
        updFile fi (\<lambda>f. f\<lparr>fdPos := fdPos f + of_nat left\<rparr>) s"
      using p(12) by (simp add: updFile_twice o_def add.assoc sum del: of_nat_diff of_nat_min)
    have "?off + length ?c \<le> 512" unfolding lc by (rule ch(3))
    from fileBytes_store [OF p(1) qb(1) p(2) base(1) this base(2)]
    have "take (?sz + ?chunk) (fileBytes ?dk bs) = take ?sz (fileBytes dk bs) @ ?c"
      unfolding lc off(2) [symmetric] .
    moreover have "take ?chunk src @ take (left - ?chunk) (drop ?chunk src) = take left src"
      using ch(2) by (metis le_add_diff_inverse take_add)
    ultimately have bytes: "take (?sz + left) (fileBytes dk' bs) = take ?sz (fileBytes dk bs) @ take left src"
      using r(4) ch(2) unfolding usz by simp
    have frame: "\<forall>l. l \<notin> set bs \<longrightarrow> dk' l = dk l" using r(3) qb(1) by auto
    show ?thesis using step r(1,2) n1 n2 bytes frame by (intro exI [of _ dk']) metis
  qed
qed

section \<open>A whole write\<close>

definition fileContent :: "(u32 \<Rightarrow> u8 list) \<Rightarrow> Inode \<Rightarrow> u8 list" where
  "fileContent dk nd = take (unat (isize nd)) (fileBytes dk (inodeBlocks dk nd))"

text \<open>The number of blocks of a file: none before the first write, then one more than the full ones.\<close>

definition blockCount :: "Inode \<Rightarrow> nat" where
  "blockCount nd = (if block nd ! 0 = 0 then 0 else unat (isize nd) div 512 + 1)"

definition fileOk :: "'a kfs_scheme \<Rightarrow> BitMap \<Rightarrow> (u32 \<Rightarrow> u8 list) \<Rightarrow> Inode \<Rightarrow> bool" where
  "fileOk s bm dk nd \<longleftrightarrow> unat (isize nd) < 71680 \<and> ino nd < 4096 \<and> (block nd ! 0 = 0 \<longrightarrow> isize nd = 0) \<and>
     blocksOk s bm dk nd (blockCount nd)"

lemma inodeBlocks_cong:
  "block nd' = block nd \<Longrightarrow> (block nd ! 12 \<noteq> 0 \<Longrightarrow> dk' (block nd ! 12) = dk (block nd ! 12)) \<Longrightarrow>
   inodeBlocks dk' nd' = inodeBlocks dk nd"
  by (simp add: inodeBlocks_def)

lemma blocksOk_cong:
  assumes "block nd' = block nd" "block nd ! 12 \<noteq> 0 \<Longrightarrow> dk' (block nd ! 12) = dk (block nd ! 12)"
  shows "blocksOk s bm dk' nd' m = blocksOk s bm dk nd m" "owned dk' nd' m = owned dk nd m"
  using inodeBlocks_cong [of nd' nd dk' dk] assms by (simp_all add: blocksOk_def owned_def)

lemma div_room: "(n::nat) \<le> 512 * (n div 512 + 1)"
  using dividend_less_div_times [of 512 n] by simp

lemma fileContent_take:
  assumes "wfDisk dk" "length (block nd) = 13" "unat (isize nd) < 71680"
  shows "fileContent dk nd = take (unat (isize nd)) (fileBytes dk (take (unat (isize nd) div 512 + 1) (inodeBlocks dk nd)))"
proof -
  let ?m = "unat (isize nd) div 512 + 1"
  have "?m \<le> 140" using assms(3) by (simp add: less_mult_imp_div_less Suc_le_eq)
  then have l: "length (take ?m (inodeBlocks dk nd)) = ?m" using assms by simp
  have "unat (isize nd) \<le> 512 * ?m"
    by (rule div_room)
  moreover have "fileBytes dk (inodeBlocks dk nd) =
      fileBytes dk (take ?m (inodeBlocks dk nd)) @ fileBytes dk (drop ?m (inodeBlocks dk nd))"
    by (metis append_take_drop_id concat_append fileBytes_def map_append)
  ultimately show ?thesis using l assms(1) by (simp add: fileContent_def)
qed

lemma firstBlock_ok:
  assumes vol: "volWf s bm dk" and ok: "fileOk s bm dk nd" and free: "0 < freeCnt bm"
  shows "\<exists>nd1 bm1 dk1. firstBlock p (fsUpd p nd bm dk s) = Inr (True, fsUpd p nd1 bm1 dk1 s) \<and>
    nd1 = nd\<lparr>block := block nd1\<rparr> \<and> volWf s bm1 dk1 \<and> blocksOk s bm1 dk1 nd1 (unat (isize nd) div 512 + 1) \<and>
    freeCnt bm \<le> freeCnt bm1 + 1 \<and> (\<forall>l. l \<noteq> blockBitMapLbaStart (cursb s) \<longrightarrow> dk1 l = dk l) \<and>
    (\<forall>b \<in> set (owned dk1 nd1 (unat (isize nd) div 512 + 1)). b \<in> set (owned dk nd (blockCount nd)) \<or> \<not> usedBlk s bm b) \<and>
    (\<forall>c. usedBlk s bm1 c \<longleftrightarrow> usedBlk s bm c \<or> c \<in> set (owned dk1 nd1 (unat (isize nd) div 512 + 1))) \<and>
    (block nd ! 0 \<noteq> 0 \<longrightarrow> nd1 = nd \<and> bm1 = bm \<and> dk1 = dk)"
proof (cases "block nd ! 0 = 0")
  case False
  then have "blocksOk s bm dk nd (unat (isize nd) div 512 + 1)" using ok by (simp add: fileOk_def blockCount_def)
  with False show ?thesis
    using vol blocksOkD(6) [of s bm dk nd]
    by (intro exI [of _ nd] exI [of _ bm] exI [of _ dk]) (auto simp: firstBlock_def blockCount_def)
next
  case True
  then have sz: "isize nd = 0" and ok0: "blocksOk s bm dk nd 0" using ok by (simp_all add: fileOk_def blockCount_def)
  note o = blocksOkD [OF ok0]
  obtain b bm1 dk1 where a: "\<And>p nd. blockBitMapAlloc (curPart s) (fsUpd p nd bm dk s) = Inr (b, fsUpd p nd bm1 dk s)"
    "b \<noteq> - 1" "b - dataLbaStart (cursb s) \<noteq> 0"
    "\<And>p nd. bitMapSync (curPart s) (b - dataLbaStart (cursb s)) BLOCK_BITMAP (fsUpd p nd bm1 dk s) =
       Inr (fsUpd p nd bm1 dk1 s)"
    "allocRel s [b] bm dk bm1 dk1" "allocRel s [b] bm dk bm1 dk"
    by (rule alloc_sync [OF vol free]) blast
  let ?nd = "nd\<lparr>block := (block nd)[0 := b]\<rparr>"
  have code: "firstBlock p (fsUpd p nd bm dk s) = Inr (True, fsUpd p ?nd bm1 dk1 s)"
    using a True by (simp add: firstBlock_def blockLbaToBitMapIdx_def)
  have z: "block nd ! 12 = 0" using o(4) by auto
  have blocks: "inodeBlocks dk1 ?nd = overlay (inodeBlocks dk nd) 0 [b]"
    using z o(1) by (simp add: inodeBlocks_def overlay_def take_update_swap upd_conv_take_nth_drop drop_take)
  have g: "blocksOk s bm1 dk1 ?nd (0 + length [b])"
    "set (owned dk1 ?nd (0 + length [b])) = set (owned dk nd 0) \<union> set [] \<union> set [b]"
    using blocksOk_grow [OF vol ok0, of "[]" "[b]" bm1 dk1 ?nd dk1] a(5) o(1) z blocks by auto
  show ?thesis
    using code g a(5) sz True
    by (intro exI [of _ ?nd] exI [of _ bm1] exI [of _ dk1]) (auto simp: allocRel_def blockCount_def owned_def)
qed

end
