(* ===== verification/FileProps.thy ===== *)
theory FileProps
  imports FileInv
begin

text \<open>
  What a write and a read of an open file do, from the call to the return: fileWrite appends, fileRead
  returns a part of the contents, with the error paths of fs/file.c.
\<close>

section \<open>Frames\<close>

text \<open>What the code reads of a file depends on the sectors it owns only.\<close>

lemma owned_same:
  assumes vol: "volWf s bm dk" and ok: "blocksOk s bm dk nd m"
    and nd': "block nd' = block nd" and same: "\<And>b. b \<in> set (owned dk nd m) \<Longrightarrow> dk' b = dk b"
  shows "inodeBlocks dk' nd' = inodeBlocks dk nd" "owned dk' nd' m = owned dk nd m"
    "fileBytes dk' (take m (inodeBlocks dk nd)) = fileBytes dk (take m (inodeBlocks dk nd))"
    "blocksOk s bm dk' nd' m"
proof -
  have t: "dk' (block nd ! 12) = dk (block nd ! 12)" if "block nd ! 12 \<noteq> 0"
    using that blocksOkD(4) [OF ok] same by (simp add: owned_def)
  show "inodeBlocks dk' nd' = inodeBlocks dk nd" using inodeBlocks_cong [OF nd'] t by blast
  show "owned dk' nd' m = owned dk nd m" using blocksOk_cong(2) [OF nd'] t by blast
  show "blocksOk s bm dk' nd' m" using blocksOk_cong(1) [OF nd'] t ok by blast
  show "fileBytes dk' (take m (inodeBlocks dk nd)) = fileBytes dk (take m (inodeBlocks dk nd))"
    by (rule fileBytes_cong) (simp add: same owned_def)
qed

lemma fileContent_blocks:
  assumes vol: "volWf s bm dk" and ok: "fileOk s bm dk nd"
  shows "fileContent dk nd = take (unat (isize nd)) (fileBytes dk (take (blockCount nd) (inodeBlocks dk nd)))"
proof (cases "block nd ! 0 = 0")
  case True
  then show ?thesis using ok by (simp add: fileOk_def fileContent_def)
next
  case False
  then show ?thesis
    using fileContent_take [OF volWfD(1) [OF vol], of nd] ok by (simp add: fileOk_def blockCount_def blocksOk_def)
qed

lemma inodeTable_same:
  assumes vol: "volWf s bm dk"
    and same: "\<And>l. unat l < unat (dataLbaStart (cursb s)) \<Longrightarrow> l \<noteq> blockBitMapLbaStart (cursb s) \<Longrightarrow> dk' l = dk l"
  shows "readSectors dk' (inodeTableLbaStart (cursb s)) 608 = readSectors dk (inodeTableLbaStart (cursb s)) 608"
proof (rule readSectors_cong)
  fix i :: nat assume i: "i < 608"
  note v = volWfD [OF vol]
  have "unat (inodeTableLbaStart (cursb s) + of_nat i) = unat (inodeTableLbaStart (cursb s)) + i"
    using i v(4,6) by (simp add: unat_add_small unat_of_nat_small)
  then show "dk' (inodeTableLbaStart (cursb s) + of_nat i) = dk (inodeTableLbaStart (cursb s) + of_nat i)"
    using i v(6,9) by (intro same) auto
qed

section \<open>Writing\<close>

text \<open>What a write may change: the blocks the file owned before stay its first ones, blocks of others
  and sectors of the disk outside the data area other than the bitmap keep their contents.\<close>

definition appended :: "'a kfs_scheme \<Rightarrow> BitMap \<Rightarrow> (u32 \<Rightarrow> u8 list) \<Rightarrow> Inode \<Rightarrow> u8 list \<Rightarrow>
    BitMap \<Rightarrow> (u32 \<Rightarrow> u8 list) \<Rightarrow> Inode \<Rightarrow> bool" where
  "appended s bm dk nd c bm' dk' nd' \<longleftrightarrow>
     volWf s bm' dk' \<and> fileOk s bm' dk' nd' \<and>
     nd' = nd\<lparr>isize := isize nd + of_nat (length c), block := block nd'\<rparr> \<and>
     fileContent dk' nd' = fileContent dk nd @ c \<and>
     (\<forall>b. usedBlk s bm b \<longrightarrow> usedBlk s bm' b) \<and>
     (\<forall>b. usedBlk s bm b \<longrightarrow> b \<notin> set (owned dk nd (blockCount nd)) \<longrightarrow>
        dk' b = dk b \<and> b \<notin> set (owned dk' nd' (blockCount nd')))"

text \<open>The three phases of a write, \<open>firstBlock\<close>, \<open>writeBlocks\<close> and \<open>writeLoop\<close>, as they relate the disk and the
  inode before and after.\<close>

definition firstRel :: "'a kfs_scheme \<Rightarrow> nat \<Rightarrow> BitMap \<Rightarrow> (u32 \<Rightarrow> u8 list) \<Rightarrow> Inode \<Rightarrow>
    BitMap \<Rightarrow> (u32 \<Rightarrow> u8 list) \<Rightarrow> Inode \<Rightarrow> bool" where
  "firstRel s has bm dk nd bm1 dk1 nd1 \<longleftrightarrow>
     nd1 = nd\<lparr>block := block nd1\<rparr> \<and> volWf s bm1 dk1 \<and> blocksOk s bm1 dk1 nd1 (has + 1) \<and>
     freeCnt bm \<le> freeCnt bm1 + 1 \<and> (\<forall>l. l \<noteq> blockBitMapLbaStart (cursb s) \<longrightarrow> dk1 l = dk l) \<and>
     (\<forall>b \<in> set (owned dk1 nd1 (has + 1)). b \<in> set (owned dk nd (blockCount nd)) \<or> \<not> usedBlk s bm b) \<and>
     (\<forall>c. usedBlk s bm1 c \<longleftrightarrow> usedBlk s bm c \<or> c \<in> set (owned dk1 nd1 (has + 1))) \<and>
     (block nd ! 0 \<noteq> 0 \<longrightarrow> nd1 = nd \<and> bm1 = bm \<and> dk1 = dk)"

definition loopRel :: "nat \<Rightarrow> nat \<Rightarrow> u8 list \<Rightarrow> (u32 \<Rightarrow> u8 list) \<Rightarrow> Inode \<Rightarrow> (u32 \<Rightarrow> u8 list) \<Rightarrow> bool" where
  "loopRel will sz c dk2 nd2 dk3 \<longleftrightarrow> wfDisk dk3 \<and>
     (\<forall>l. l \<notin> set (take (will + 1) (inodeBlocks dk2 nd2)) \<longrightarrow> dk3 l = dk2 l) \<and>
     take (sz + length c) (fileBytes dk3 (take (will + 1) (inodeBlocks dk2 nd2))) =
       take sz (fileBytes dk2 (take (will + 1) (inodeBlocks dk2 nd2))) @ c"

lemma grownToD:
  assumes "grownTo s has will bm dk nd B bm' dk' nd'"
  shows "volWf s bm' dk'" "blocksOk s bm' dk' nd' (will + 1)" "nd' = nd\<lparr>block := block nd'\<rparr>" "length B = 140"
    "\<And>j. has \<le> j \<Longrightarrow> j \<le> will \<Longrightarrow> B ! j = inodeBlocks dk' nd' ! j"
    "\<And>j. j \<le> has \<Longrightarrow> inodeBlocks dk' nd' ! j = inodeBlocks dk nd ! j"
    "\<And>b. b \<in> set (owned dk' nd' (will + 1)) \<Longrightarrow> b \<in> set (owned dk nd (has + 1)) \<or> \<not> usedBlk s bm b"
    "\<And>c. usedBlk s bm' c \<longleftrightarrow> usedBlk s bm c \<or> c \<in> set (owned dk' nd' (will + 1))"
    "\<And>l. l \<noteq> blockBitMapLbaStart (cursb s) \<Longrightarrow> (12 \<le> will \<Longrightarrow> l \<noteq> block nd' ! 12) \<Longrightarrow> dk' l = dk l"
  using assms unfolding grownTo_def by blast+

lemma firstRelD:
  assumes "firstRel s has bm dk nd bm1 dk1 nd1"
  shows "nd1 = nd\<lparr>block := block nd1\<rparr>" "volWf s bm1 dk1" "blocksOk s bm1 dk1 nd1 (has + 1)"
    "freeCnt bm \<le> freeCnt bm1 + 1" "\<And>l. l \<noteq> blockBitMapLbaStart (cursb s) \<Longrightarrow> dk1 l = dk l"
    "\<And>b. b \<in> set (owned dk1 nd1 (has + 1)) \<Longrightarrow> b \<in> set (owned dk nd (blockCount nd)) \<or> \<not> usedBlk s bm b"
    "\<And>c. usedBlk s bm1 c \<longleftrightarrow> usedBlk s bm c \<or> c \<in> set (owned dk1 nd1 (has + 1))"
    "block nd ! 0 \<noteq> 0 \<Longrightarrow> nd1 = nd \<and> bm1 = bm \<and> dk1 = dk"
  using assms unfolding firstRel_def by blast+

text \<open>The table of indirect blocks is not one of the blocks with contents.\<close>

lemma table_apart:
  assumes "blocksOk s bm dk nd (will + 1)" "block nd ! 12 \<noteq> 0"
  shows "block nd ! 12 \<notin> set (take (will + 1) (inodeBlocks dk nd))" "12 \<le> will"
  using blocksOkD(4,5) [OF assms(1)] assms(2) by (simp_all add: owned_def)

lemma write_frame:
  assumes f: "firstRel s has bm dk nd bm1 dk1 nd1" and g: "grownTo s has will bm1 dk1 nd1 B bm2 dk2 nd2"
    and l: "loopRel will sz c dk2 nd2 dk3" and b: "usedBlk s bm b" "b \<notin> set (owned dk nd (blockCount nd))"
  shows "dk3 b = dk b" "b \<notin> set (owned dk2 nd2 (will + 1))" "usedBlk s bm2 b"
proof -
  note f = firstRelD [OF f] and g = grownToD [OF g]
  have 1: "b \<notin> set (owned dk1 nd1 (has + 1))" "usedBlk s bm1 b" using f(6,7) b by blast+
  then show 2: "b \<notin> set (owned dk2 nd2 (will + 1))" "usedBlk s bm2 b" using g(7,8) by blast+
  have "b \<noteq> blockBitMapLbaStart (cursb s)" using usedBlk_bounds(5) [OF f(2) 1(2)] .
  moreover have "12 \<le> will \<Longrightarrow> b \<noteq> block nd2 ! 12" using 2(1) by (auto simp: owned_def)
  moreover have "dk3 b = dk2 b" using l 2(1) by (simp add: loopRel_def owned_def)
  ultimately show "dk3 b = dk b" using f(5) g(9) by simp
qed

lemma write_content:
  assumes vol: "volWf s bm dk" and ok: "fileOk s bm dk nd" and has: "has = unat (isize nd) div 512" "has \<le> will"
    and f: "firstRel s has bm dk nd bm1 dk1 nd1" and g: "grownTo s has will bm1 dk1 nd1 B bm2 dk2 nd2"
  shows "take (unat (isize nd)) (fileBytes dk2 (take (will + 1) (inodeBlocks dk2 nd2))) = fileContent dk nd"
proof (cases "isize nd = 0")
  case True
  then show ?thesis by (simp add: fileContent_def)
next
  case False
  then have b0: "block nd ! 0 \<noteq> 0" using ok by (auto simp: fileOk_def)
  then have cnt: "blockCount nd = has + 1" by (simp add: blockCount_def has(1))
  note f = firstRelD [OF f] and g = grownToD [OF g]
  have e: "nd1 = nd" "bm1 = bm" "dk1 = dk" using f(8) b0 by auto
  let ?X = "take (has + 1) (inodeBlocks dk nd)" and ?bs = "take (will + 1) (inodeBlocks dk2 nd2)"
  have l: "length (inodeBlocks dk nd) = 140" "length (inodeBlocks dk2 nd2) = 140"
    using volWfD(1) [OF vol] volWfD(1) [OF g(1)] blocksOkD(1) [OF f(3)] blocksOkD(1) [OF g(2)] e by simp_all
  have w: "will < 140" using blocksOkD(2) [OF g(2)] by simp
  have X: "take (has + 1) ?bs = ?X"
    by (rule nth_equalityI) (use l w has(2) g(6) e in auto)
  have "fileBytes dk2 ?X = fileBytes dk ?X"
  proof (rule fileBytes_cong)
    fix b assume b: "b \<in> set ?X"
    then have u: "usedBlk s bm b" using blocksOkD(6) [OF f(3)] e by (simp add: owned_def)
    have "b \<in> set ?bs" using b unfolding X [symmetric] by (meson in_set_takeD)
    then have "b \<noteq> block nd2 ! 12"
      using table_apart(1) [OF g(2)] usedBlk_bounds(3) [OF vol u] by metis
    then show "dk2 b = dk b" using g(9) usedBlk_bounds(5) [OF vol u] e by simp
  qed
  moreover have "fileBytes dk2 ?bs = fileBytes dk2 (take (has + 1) ?bs) @ fileBytes dk2 (drop (has + 1) ?bs)"
    by (metis append_take_drop_id concat_append fileBytes_def map_append)
  moreover have "length (fileBytes dk2 ?X) = 512 * (has + 1)" using volWfD(1) [OF g(1)] l w has(2) by simp
  ultimately show ?thesis
    unfolding fileContent_blocks [OF vol ok] cnt X using div_room [of "unat (isize nd)"] by (simp add: has(1))
qed

lemma write_appended:
  assumes vol: "volWf s bm dk" and ok: "fileOk s bm dk nd" and has: "has = unat (isize nd) div 512"
    and will: "will = (unat (isize nd) + length c) div 512" and size: "unat (isize nd) + length c < 71680"
    and f: "firstRel s has bm dk nd bm1 dk1 nd1" and g: "grownTo s has will bm1 dk1 nd1 B bm2 dk2 nd2"
    and l: "loopRel will (unat (isize nd)) c dk2 nd2 dk3"
  shows "appended s bm dk nd c bm2 dk3 (nd2\<lparr>isize := isize nd + of_nat (length c)\<rparr>)"
proof -
  let ?nd = "nd2\<lparr>isize := isize nd + of_nat (length c)\<rparr>"
  let ?bs = "take (will + 1) (inodeBlocks dk2 nd2)"
  have hw: "has \<le> will" unfolding has will by (intro div_le_mono) simp
  note f' = firstRelD [OF f] and g' = grownToD [OF g]
  have usz: "unat (isize ?nd) = unat (isize nd) + length c"
    using size by (simp add: unat_add_small unat_of_nat_small)
  have ndeq: "nd2 = nd\<lparr>block := block nd2\<rparr>" by (subst g'(3), subst f'(1)) simp
  have same: "dk3 (block nd2 ! 12) = dk2 (block nd2 ! 12)" if "block nd2 ! 12 \<noteq> 0"
    using table_apart(1) [OF g'(2) that] l by (simp add: loopRel_def)
  have ib: "inodeBlocks dk3 ?nd = inodeBlocks dk2 nd2" "owned dk3 ?nd (will + 1) = owned dk2 nd2 (will + 1)"
    "blocksOk s bm2 dk3 ?nd (will + 1)"
    using inodeBlocks_cong [of ?nd nd2 dk3 dk2] blocksOk_cong [of ?nd nd2 dk3 dk2] same g'(2) by auto
  have "block nd2 ! 0 \<noteq> 0"
    using blocksOk_used(1) [OF g'(1,2), of 0] usedBlk_bounds(3) [OF g'(1)]
      inodeBlocks_direct [OF blocksOkD(1) [OF g'(2)], of 0] by auto
  then have cnt: "blockCount ?nd = will + 1" unfolding blockCount_def usz by (simp add: will)
  have vol': "volWf s bm2 dk3" using volWf_disk [OF g'(1)] l by (simp add: loopRel_def)
  have ino: "ino ?nd < 4096" using ok by (subst ndeq) (simp add: fileOk_def)
  have ok': "fileOk s bm2 dk3 ?nd"
    unfolding fileOk_def cnt usz using size ino ib(3) \<open>block nd2 ! 0 \<noteq> 0\<close> by simp
  have "fileContent dk3 ?nd = fileContent dk nd @ c"
    unfolding fileContent_blocks [OF vol' ok'] cnt usz ib(1)
    using write_content [OF vol ok has hw f g] l by (simp add: loopRel_def)
  moreover have "?nd = nd\<lparr>isize := isize nd + of_nat (length c), block := block ?nd\<rparr>" by (subst ndeq) simp
  moreover have "\<forall>b. usedBlk s bm b \<longrightarrow> usedBlk s bm2 b" using f'(7) g'(8) by blast
  moreover have "\<forall>b. usedBlk s bm b \<longrightarrow> b \<notin> set (owned dk nd (blockCount nd)) \<longrightarrow>
      dk3 b = dk b \<and> b \<notin> set (owned dk3 ?nd (blockCount ?nd))"
    unfolding cnt ib(2) using write_frame [OF f g l] by blast
  ultimately show ?thesis unfolding appended_def using vol' ok' by blast
qed

lemma write_core:
  assumes vol: "volWf s bm dk" and ok: "fileOk s bm dk nd"
    and size: "unat (isize nd) + unat count < 71680" and len: "unat count \<le> length buf"
    and free: "unat count div 512 + 3 \<le> freeCnt bm" and fi: "fi < length (fileTable s)"
  obtains bm1 dk1 nd1 B bm2 dk2 nd2 dk3 where
    "firstBlock p (fsUpd p nd bm dk s) = Inr (True, fsUpd p nd1 bm1 dk1 s)"
    "writeBlocks p count (fsUpd p nd1 bm1 dk1 s) = Inr (Some B, fsUpd p nd2 bm2 dk2 s)"
    "isize nd2 = isize nd"
    "writeLoop fi p B buf True (unat count) (updFile fi (\<lambda>f. f\<lparr>fdPos := isize nd - 1\<rparr>) (fsUpd p nd2 bm2 dk2 s)) =
       Inr (fsUpd p (nd2\<lparr>isize := isize nd + count\<rparr>) bm2 dk3 (updFile fi (\<lambda>f. f\<lparr>fdPos := isize nd + count - 1\<rparr>) s))"
    "appended s bm dk nd (take (unat count) buf) bm2 dk3 (nd2\<lparr>isize := isize nd + count\<rparr>)"
    "\<And>l. unat l \<le> unat (dataLbaStart (cursb s)) \<Longrightarrow> l \<noteq> blockBitMapLbaStart (cursb s) \<Longrightarrow> dk3 l = dk l"
proof -
  let ?sz = "unat (isize nd)"
  define has will where "has = ?sz div 512" "will = (?sz + unat count) div 512"
  have hw: "has \<le> will" "will < 140"
    using size by (auto simp: has_will_def div_le_mono div_less_iff_less_mult)
  have uc: "unat (isize nd + count) = ?sz + unat count" using size by (simp add: unat_add_small)
  have "0 < freeCnt bm" using free by simp
  then obtain nd1 bm1 dk1 where f: "firstBlock p (fsUpd p nd bm dk s) = Inr (True, fsUpd p nd1 bm1 dk1 s)"
    "firstRel s has bm dk nd bm1 dk1 nd1"
    using firstBlock_ok [OF vol ok, of p] unfolding has_will_def(1) firstRel_def by blast
  note f' = firstRelD [OF f(2)]
  have sz1: "isize nd1 = isize nd" by (subst f'(1)) simp
  have h: "unat (isize nd1 div 512) = has" "unat ((isize nd1 + count) div 512) = will"
    using uc by (simp_all add: sz1 unat_div has_will_def)
  have room: "will - has + (if has < 12 \<and> 12 \<le> will then 1 else 0) \<le> freeCnt bm1"
  proof -
    have "will \<le> has + unat count div 512 + 1"
      unfolding has_will_def using div_add1_eq [of ?sz "unat count" 512] by simp
    then show ?thesis using free f'(4) by (auto split: if_splits)
  qed
  obtain B bm2 dk2 nd2 where w: "writeBlocks p count (fsUpd p nd1 bm1 dk1 s) = Inr (Some B, fsUpd p nd2 bm2 dk2 s)"
    "grownTo s has will bm1 dk1 nd1 B bm2 dk2 nd2"
    using writeBlocks_ok [OF f'(2,3) h hw room, of p] by blast
  let ?bs = "take (will + 1) (inodeBlocks dk2 nd2)"
  note g = grownToD [OF w(2)]
  have sz2: "isize nd2 = isize nd" by (subst g(3)) (simp add: sz1)
  note o = blocksOkD [OF g(2)]
  have wf2: "wfDisk dk2" using volWfD(1) [OF g(1)] .
  have lb: "length ?bs = will + 1" using wf2 o(1) hw by simp
  have ub: "usedBlk s bm2 b" if "b \<in> set ?bs" for b using that o(6) by (simp add: owned_def)
  have lt: "b < MAX_LBA" if "b \<in> set ?bs" for b using usedBlk_bounds(2) [OF g(1) ub [OF that]] .
  have dis: "distinct ?bs" using o(5) by (simp add: owned_def)
  have B: "B ! j = ?bs ! j" if "has \<le> j" "j \<le> will" for j using g(5) [OF that] that by simp
  have room2: "has \<le> unat (isize nd2) div 512" "(unat (isize nd2) + unat count) div 512 \<le> will"
    unfolding sz2 has_will_def by simp_all
  let ?s = "updFile fi (\<lambda>f. f\<lparr>fdPos := isize nd - 1\<rparr>) s"
  have fi': "fi < length (fileTable ?s)" using fi by simp
  obtain dk3 where wl: "writeLoop fi p B buf True (unat count) (fsUpd p nd2 bm2 dk2 ?s) =
      Inr (fsUpd p (nd2\<lparr>isize := isize nd2 + of_nat (unat count)\<rparr>) bm2 dk3
        (updFile fi (\<lambda>f. f\<lparr>fdPos := fdPos f + of_nat (unat count)\<rparr>) ?s))"
    "wfDisk dk3" "\<forall>l. l \<notin> set ?bs \<longrightarrow> dk3 l = dk2 l"
    "take (unat (isize nd2) + unat count) (fileBytes dk3 ?bs) = take (unat (isize nd2)) (fileBytes dk2 ?bs) @ take (unat count) buf"
    using writeLoop_ok [OF wf2 dis lt lb g(4) hw(2) B len room2 _ fi', of True p bm2] by auto
  let ?nd = "nd2\<lparr>isize := isize nd + count\<rparr>"
  have run: "writeLoop fi p B buf True (unat count) (updFile fi (\<lambda>f. f\<lparr>fdPos := isize nd - 1\<rparr>) (fsUpd p nd2 bm2 dk2 s)) =
       Inr (fsUpd p ?nd bm2 dk3 (updFile fi (\<lambda>f. f\<lparr>fdPos := isize nd + count - 1\<rparr>) s))"
    using wl(1) fi by (simp add: updFile_fsUpd updFile_twice o_def sz2 algebra_simps)
  have low: "dk3 l = dk l" if "unat l \<le> unat (dataLbaStart (cursb s))" "l \<noteq> blockBitMapLbaStart (cursb s)" for l
  proof -
    have "\<not> usedBlk s bm2 l" using usedBlk_bounds(1) [OF g(1), of l] that(1) by auto
    then have "l \<notin> set (owned dk2 nd2 (will + 1))" using o(6) by blast
    then show ?thesis using wl(3) g(9) [of l] f'(5) that(2) by (auto simp: owned_def)
  qed
  have lc: "length (take (unat count) buf) = unat count" using len by simp
  have "loopRel will (unat (isize nd)) (take (unat count) buf) dk2 nd2 dk3"
    using wl unfolding loopRel_def lc sz2 by blast
  then have "appended s bm dk nd (take (unat count) buf) bm2 dk3 ?nd"
    using write_appended [OF vol ok has_will_def(1) _ _ f(2) w(2), of "take (unat count) buf" dk3, unfolded lc] size
    by (simp add: has_will_def(2))
  then show ?thesis using that [OF f(1) w(1) sz2 run _ low] by blast
qed

lemma same_volume:
  assumes "parts s' = parts s" "curPart s' = curPart s"
  shows "volWf s' = volWf s" "usedBlk s' = usedBlk s" "blocksOk s' = blocksOk s" "fileOk s' = fileOk s"
    "appended s' = appended s"
proof -
  show v: "volWf s' = volWf s" "usedBlk s' = usedBlk s" by (auto simp: volWf_def usedBlk_def assms intro!: ext)
  show b: "blocksOk s' = blocksOk s" by (auto simp: blocksOk_def v intro!: ext)
  show f: "fileOk s' = fileOk s" by (auto simp: fileOk_def b intro!: ext)
  show "appended s' = appended s" by (auto simp: appended_def v f intro!: ext)
qed

text \<open>Changing sectors before the data area leaves the files alone.\<close>

lemma appended_low:
  assumes a: "appended s bm dk nd c bm' dk' nd'" and wf: "wfDisk dk''"
    and same: "\<And>l. unat (dataLbaStart (cursb s)) < unat l \<Longrightarrow> dk'' l = dk' l"
  shows "appended s bm dk nd c bm' dk'' nd'"
proof -
  have vol: "volWf s bm' dk'" and ok: "fileOk s bm' dk' nd'" using a by (simp_all add: appended_def)
  have vol': "volWf s bm' dk''" using volWf_disk [OF vol wf] .
  have used: "dk'' b = dk' b" if "usedBlk s bm' b" for b using same usedBlk_bounds(1) [OF vol that] by blast
  have ok1: "blocksOk s bm' dk' nd' (blockCount nd')" using ok by (simp add: fileOk_def)
  have own: "dk'' b = dk' b" if "b \<in> set (owned dk' nd' (blockCount nd'))" for b
    using used blocksOkD(6) [OF ok1 that] by blast
  note o = owned_same [OF vol ok1 refl own]
  have ok': "fileOk s bm' dk'' nd'" using ok o(4) by (simp add: fileOk_def)
  have "fileContent dk'' nd' = fileContent dk' nd'"
    unfolding fileContent_blocks [OF vol ok] fileContent_blocks [OF vol' ok'] by (simp add: o)
  then show ?thesis using a vol' ok' o(2) used by (simp add: appended_def)
qed

text \<open>The whole call.\<close>

lemma fileWrite_run:
  assumes "volWf s (blockBitMap (curp s)) (cdisk s)"
    and "fileOk s (blockBitMap (curp s)) (cdisk s) (inodes s p)"
    and "fi < length (fileTable s)" "fdInode (fileTable s ! fi) = p" "p \<noteq> NULLPTR"
    and "unat (isize (inodes s p)) + unat count < 71680" "unat count \<le> length buf"
    and "unat count div 512 + 3 \<le> freeCnt (blockBitMap (curp s))"
    and "allocResult s (allocCnt s) \<noteq> NULLPTR" "allocResult s (allocCnt s + 1) \<noteq> NULLPTR"
  shows "\<exists>nd bm dk. fileWrite fi buf count s = Inr (count, fsUpd p nd bm dk
      (updFile fi (\<lambda>f. f\<lparr>fdPos := isize nd - 1\<rparr>) (s\<lparr>allocCnt := Suc (Suc (allocCnt s))\<rparr>))) \<and>
    appended s (blockBitMap (curp s)) (cdisk s) (inodes s p) (take (unat count) buf) bm dk nd \<and>
    (\<forall>i < 4096. inodeAt (readSectors dk (inodeTableLbaStart (cursb s)) 608) i =
       (if i = ino (inodes s p) then nd\<lparr>openCnt := 0, writeDeny := False\<rparr>
        else inodeAt (inodeTable s (curPart s)) i))"
proof -
  let ?bm = "blockBitMap (curp s)" and ?dk = "cdisk s" and ?nd = "inodes s p"
  let ?a = "allocResult s (allocCnt s)" and ?b = "allocResult s (Suc (allocCnt s))"
  let ?s1 = "s\<lparr>allocCnt := Suc (Suc (allocCnt s)), bufs := ?b # ?a # bufs s\<rparr>"
  have same: "parts ?s1 = parts s" "curPart ?s1 = curPart s" "fileTable ?s1 = fileTable s" by simp_all
  note v = same_volume [OF same(1,2)]
  have id: "fsUpd p ?nd ?bm ?dk ?s1 = ?s1" using fsUpd_id [of p ?s1] by simp
  have h: "volWf ?s1 ?bm ?dk" "fileOk ?s1 ?bm ?dk ?nd" and h3: "fi < length (fileTable ?s1)"
    using assms(1-3) by (simp_all only: v same)
  obtain bm1 dk1 nd1 B bm2 dk2 nd2 dk3 where w:
    "firstBlock p (fsUpd p ?nd ?bm ?dk ?s1) = Inr (True, fsUpd p nd1 bm1 dk1 ?s1)"
    "writeBlocks p count (fsUpd p nd1 bm1 dk1 ?s1) = Inr (Some B, fsUpd p nd2 bm2 dk2 ?s1)"
    "isize nd2 = isize ?nd"
    "writeLoop fi p B buf True (unat count) (updFile fi (\<lambda>f. f\<lparr>fdPos := isize ?nd - 1\<rparr>) (fsUpd p nd2 bm2 dk2 ?s1)) =
       Inr (fsUpd p (nd2\<lparr>isize := isize ?nd + count\<rparr>) bm2 dk3 (updFile fi (\<lambda>f. f\<lparr>fdPos := isize ?nd + count - 1\<rparr>) ?s1))"
    "appended ?s1 ?bm ?dk ?nd (take (unat count) buf) bm2 dk3 (nd2\<lparr>isize := isize ?nd + count\<rparr>)"
    "\<And>l. unat l \<le> unat (dataLbaStart (cursb ?s1)) \<Longrightarrow> l \<noteq> blockBitMapLbaStart (cursb ?s1) \<Longrightarrow> dk3 l = ?dk l"
    by (rule write_core [OF h assms(6-8) h3]) (rule that)
  let ?nd3 = "nd2\<lparr>isize := isize ?nd + count\<rparr>"
  let ?s4 = "fsUpd p ?nd3 bm2 dk3 (updFile fi (\<lambda>f. f\<lparr>fdPos := isize ?nd + count - 1\<rparr>) ?s1)"
  have a: "appended s ?bm ?dk ?nd (take (unat count) buf) bm2 dk3 ?nd3" using w(5) unfolding v .
  then have a3: "volWf s bm2 dk3" "fileOk s bm2 dk3 ?nd3" "ino ?nd3 = ino ?nd"
    unfolding appended_def by (auto dest: arg_cong [where f = ino])
  then have nd3: "ino ?nd3 < 4096" "length (block ?nd3) = 13" by (simp_all add: fileOk_def blocksOk_def)
  have s4: "curPart ?s4 = curPart s" "pdisk (parts ?s4 (curPart s)) = curhd s" "inodes ?s4 p = ?nd3"
    "superBlock (parts ?s4 (curPart s)) = cursb s" "disks ?s4 (curhd s) = dk3" "bufs ?s4 = ?b # ?a # bufs s"
    "lbaStart (parts ?s4 (curPart s)) = lbaStart (curp s)" "secCnt (parts ?s4 (curPart s)) = secCnt (curp s)"
    by (simp_all add: fsUpd_def)
  have "tableOk ?s4 (curPart s)"
    using volWfD(1,4,6,7) [OF a3(1)] by (simp add: tableOk_def s4)
  then obtain dk4 where k: "inodeSync (curPart s) ?nd3 ?s4 = Inr (setDisk (pdisk (parts ?s4 (curPart s))) dk4 ?s4)"
    "tableOk (setDisk (pdisk (parts ?s4 (curPart s))) dk4 ?s4) (curPart s)"
    "inodeTable (setDisk (pdisk (parts ?s4 (curPart s))) dk4 ?s4) (curPart s) =
       overlay (inodeTable ?s4 (curPart s)) (76 * unat (ino ?nd3)) (encInode (?nd3\<lparr>openCnt := 0, writeDeny := False\<rparr>))"
    "\<And>l. unat l < unat (inodeTableLbaStart (superBlock (parts ?s4 (curPart s)))) \<or>
       unat (inodeTableLbaStart (superBlock (parts ?s4 (curPart s)))) + 608 \<le> unat l \<Longrightarrow>
       dk4 l = disks ?s4 (pdisk (parts ?s4 (curPart s))) l"
    by (rule inodeSync_ok [OF _ nd3]) (rule that)
  let ?s5 = "fsUpd p ?nd3 bm2 dk4 (updFile fi (\<lambda>f. f\<lparr>fdPos := isize ?nd + count - 1\<rparr>) (s\<lparr>allocCnt := Suc (Suc (allocCnt s))\<rparr>))"
  have sd: "setDisk (curhd s) dk4 ?s4 = ?s5\<lparr>bufs := ?b # ?a # bufs s\<rparr>"
    by (simp add: fsUpd_def updFile_def)
  have small: "\<not> 71680 < isize ?nd + count"
    using assms(6) by (simp add: word_less_nat_alt unat_add_small)
  have i2: "isize (inodes (fsUpd p nd2 bm2 dk2 ?s1) p) = isize ?nd" by (simp add: w(3))
  have free1: "fsFree ?a (?s5\<lparr>bufs := ?b # ?a # bufs s\<rparr>) = Inr (?s5\<lparr>bufs := ?b # bufs s\<rparr>)"
    using assms(9) by (cases "?a = ?b") (simp_all add: fsFree_def)
  have "?s5\<lparr>bufs := bufs s\<rparr> = ?s5" by (simp add: fsUpd_def updFile_def)
  then have free2: "fsFree ?b (?s5\<lparr>bufs := ?b # bufs s\<rparr>) = Inr ?s5"
    using assms(10) by (simp add: fsFree_def)
  have sync: "inodeSync (curPart ?s4) (inodes ?s4 p) ?s4 = Inr (?s5\<lparr>bufs := ?b # ?a # bufs s\<rparr>)"
    unfolding s4(1,3) k(1) s4(2) sd ..
  have run: "fileWrite fi buf count s = Inr (count, ?s5)"
    using assms(9,10) small unfolding fileWrite_def Let_def assms(4) fsMalloc_def
    by (simp add: assms(5) deref_def w(1,2,4) [unfolded id] i2 sync free1 free2 del: fsUpd_fields)
  have "wfDisk dk4" using k(2) by (simp add: tableOk_def fsUpd_def)
  moreover have "dk4 l = dk3 l" if "unat (dataLbaStart (cursb s)) < unat l" for l
    using k(4) [of l] volWfD(6) [OF a3(1)] that by (simp add: s4)
  ultimately have app: "appended s ?bm ?dk ?nd (take (unat count) buf) bm2 dk4 ?nd3" by (rule appended_low [OF a])
  have "inodeTable ?s4 (curPart s) = inodeTable s (curPart s)"
    unfolding inodeTable_def s4 by (rule inodeTable_same [OF assms(1)]) (rule w(6) [unfolded same], auto)
  moreover have "inodeTable (setDisk (curhd s) dk4 ?s4) (curPart s) = readSectors dk4 (inodeTableLbaStart (cursb s)) 608"
    unfolding sd by (simp add: inodeTable_def fsUpd_def)
  ultimately have tab: "readSectors dk4 (inodeTableLbaStart (cursb s)) 608 =
      overlay (inodeTable s (curPart s)) (76 * unat (ino ?nd)) (encInode (?nd3\<lparr>openCnt := 0, writeDeny := False\<rparr>))"
    using k(3) a3(3) by (simp add: s4)
  have lt: "length (inodeTable s (curPart s)) = 512 * 608"
    using volWfD(1) [OF assms(1)] by (simp add: inodeTable_def)
  have others: "inodeAt (readSectors dk4 (inodeTableLbaStart (cursb s)) 608) i =
      (if i = ino ?nd then ?nd3\<lparr>openCnt := 0, writeDeny := False\<rparr> else inodeAt (inodeTable s (curPart s)) i)"
    if "i < 4096" for i
    unfolding tab using inodeAt_overlay [OF that _ lt, of "ino ?nd" "?nd3\<lparr>openCnt := 0, writeDeny := False\<rparr>"] nd3 a3(3) by simp
  have "isize ?nd3 - 1 = isize ?nd + count - 1" by simp
  then show ?thesis using run app others by (intro exI [of _ ?nd3] exI [of _ bm2] exI [of _ dk4]) metis
qed


section \<open>The sample volume\<close>

lemma demo_used: "i < 64 \<Longrightarrow> bm_used (blockBitMap demoPart) i \<longleftrightarrow> i = 0"
proof -
  assume "i < 64"
  then have "i \<in> set [0..<64]" by simp
  moreover have "list_all (\<lambda>i. bm_used (blockBitMap demoPart) i \<longleftrightarrow> i = 0) [0..<64]"
    by (simp add: bm_used_def upt_rec bit_iff_odd nth_Cons')
  ultimately show ?thesis by (simp only: list_all_iff)
qed

lemma demo_cap: "bm_cap (blockBitMap demoPart) = 64"
  by (simp add: bm_cap_def)

lemma demo_volWf: "volWf demoFs (blockBitMap demoPart) demoDisk"
  using demo_used by (simp add: volWf_def demo_cap del: demoPart_fields(5)) (simp add: bm_wf_def bm_cap_def)

lemma demo_freeCnt: "freeCnt (blockBitMap demoPart) = 63"
proof -
  have "{i. i < bm_cap (blockBitMap demoPart) \<and> \<not> bm_used (blockBitMap demoPart) i} = {1..<64}"
    using demo_used by (auto simp: demo_cap simp del: demoPart_fields(5))
  then show ?thesis by (simp add: freeCnt_def del: demoPart_fields(5))
qed

lemma demo_fileOk: "fileOk demoFs (blockBitMap demoPart) demoDisk demoFileInode"
  by (simp add: fileOk_def demoFileInode_def blockCount_def blocksOk_def inodeBlocks_def owned_def nth_append)


end
