(* ===== verification/DirProps.thy ===== *)
theory DirProps
  imports FileProps Dir
begin

text \<open>
  A directory is a finite map from names to entries: searching it is looking the name up, adding an entry
  is an update of the map.
\<close>

section \<open>What a directory holds\<close>

abbreviation entName :: "DirEntry \<Rightarrow> u8 list" where "entName e \<equiv> cstr (fileName e)"

definition sectorEntries :: "u8 list \<Rightarrow> DirEntry list" where
  "sectorEntries b = map (deAt b) [0..<21]"

text \<open>The sectors of a directory that has no indirect block, the entries in them, and the entries in use.\<close>

definition dirSecs :: "Inode \<Rightarrow> u32 list" where
  "dirSecs nd = filter (\<lambda>b. b \<noteq> 0) (take 12 (block nd))"

definition dirEntries :: "(u32 \<Rightarrow> u8 list) \<Rightarrow> Inode \<Rightarrow> DirEntry list" where
  "dirEntries dk nd = concat (map (\<lambda>b. sectorEntries (dk b)) (dirSecs nd))"

abbreviation inUse :: "DirEntry list \<Rightarrow> DirEntry list" where
  "inUse es \<equiv> filter (\<lambda>e. fileType e \<noteq> FT_UNKNOWN) es"

abbreviation named :: "DirEntry list \<Rightarrow> (u8 list \<times> DirEntry) list" where
  "named es \<equiv> map (\<lambda>e. (entName e, e)) es"

definition dirMap :: "(u32 \<Rightarrow> u8 list) \<Rightarrow> Inode \<Rightarrow> u8 list \<Rightarrow> DirEntry option" where
  "dirMap dk nd = map_of (named (inUse (dirEntries dk nd)))"

text \<open>An entry as the code writes it: a terminated name of at most 15 characters, which is empty when the entry
  is free.\<close>

definition entOk :: "DirEntry \<Rightarrow> bool" where
  "entOk e \<longleftrightarrow> length (fileName e) = 16 \<and> is_cstr (fileName e) \<and> (fileType e = FT_UNKNOWN \<longrightarrow> entName e = [])"

definition dirBlk :: "'a kfs_scheme \<Rightarrow> BitMap \<Rightarrow> u32 \<Rightarrow> bool" where
  "dirBlk s bm b \<longleftrightarrow> usedBlk s bm b \<or> b = dataLbaStart (cursb s) \<and> b < MAX_LBA"

text \<open>The first data block is the root directory's; it holds the entry \<open>.\<close>, so it is never given back.\<close>

definition dotName :: "u8 list" where "dotName = bytes ''.''"

definition dotKept :: "'a kfs_scheme \<Rightarrow> (u32 \<Rightarrow> u8 list) \<Rightarrow> Inode \<Rightarrow> bool" where
  "dotKept s dk nd \<longleftrightarrow> (dataLbaStart (cursb s) \<in> set (dirSecs nd) \<longrightarrow>
     dotName \<in> entName ` set (inUse (sectorEntries (dk (dataLbaStart (cursb s))))))"

text \<open>The invariant of a directory.\<close>

definition dirOk :: "'a kfs_scheme \<Rightarrow> BitMap \<Rightarrow> (u32 \<Rightarrow> u8 list) \<Rightarrow> Inode \<Rightarrow> bool" where
  "dirOk s bm dk nd \<longleftrightarrow> length (block nd) = 13 \<and> block nd ! 12 = 0 \<and> distinct (dirSecs nd) \<and>
     (\<forall>b \<in> set (dirSecs nd). dirBlk s bm b \<and> drop 504 (dk b) = replicate 8 0) \<and>
     (\<forall>e \<in> set (dirEntries dk nd). entOk e) \<and> distinct (map entName (inUse (dirEntries dk nd))) \<and>
     unat (isize nd) = 24 * length (inUse (dirEntries dk nd)) \<and> dotKept s dk nd"

lemma dirOkD:
  assumes "dirOk s bm dk nd"
  shows "length (block nd) = 13" "block nd ! 12 = 0" "distinct (dirSecs nd)"
    "b \<in> set (dirSecs nd) \<Longrightarrow> dirBlk s bm b" "b \<in> set (dirSecs nd) \<Longrightarrow> drop 504 (dk b) = replicate 8 0"
    "e \<in> set (dirEntries dk nd) \<Longrightarrow> entOk e" "distinct (map entName (inUse (dirEntries dk nd)))"
    "unat (isize nd) = 24 * length (inUse (dirEntries dk nd))" "dotKept s dk nd"
  using assms by (simp_all add: dirOk_def)

lemma dirBlk_bounds:
  assumes "volWf s bm dk" "dirBlk s bm b"
  shows "b < MAX_LBA" "b \<noteq> blockBitMapLbaStart (cursb s)" "unat (dataLbaStart (cursb s)) \<le> unat b"
proof -
  note v = volWfD(4,5) [OF assms(1)]
  have "unat b < 163839 \<and> b \<noteq> blockBitMapLbaStart (cursb s) \<and> unat (dataLbaStart (cursb s)) \<le> unat b"
    using assms(2) usedBlk_bounds [OF assms(1), of b] v unfolding dirBlk_def by (auto simp: word_less_nat_alt)
  then show "b < MAX_LBA" "b \<noteq> blockBitMapLbaStart (cursb s)" "unat (dataLbaStart (cursb s)) \<le> unat b"
    by (simp_all add: word_less_nat_alt)
qed

lemma loadBlocks_dir: "length (block nd) = 13 \<Longrightarrow> block nd ! 12 = 0 \<Longrightarrow> loadBlocks pt nd s = Inr (take 12 (block nd) @ replicate 128 0)"
  by (simp add: loadBlocks_def)

section \<open>Names\<close>

lemma cstr_before: "is_cstr xs \<Longrightarrow> cstr (xs @ r) = cstr xs"
  using cstr_split [of xs] cstr_append_0 [of "cstr xs" "_ @ r"] cstr_nonzero [of xs] by (metis append.assoc append_Cons)

lemma strcmp_name:
  assumes "is_cstr (take n xs)" "is_cstr q"
  shows "\<exists>c. strcmp (xs @ r) q = Inr c \<and> (c = 0 \<longleftrightarrow> cstr (take n xs) = cstr q)"
proof -
  have "xs @ r = take n xs @ drop n xs @ r" by simp
  then have x: "is_cstr (xs @ r)" "cstr (xs @ r) = cstr (take n xs)"
    using assms(1) cstr_before [of "take n xs" "drop n xs @ r"] is_cstr_append by metis+
  obtain c where c: "strcmp (xs @ r) q = Inr c" using strcmp_total [OF x(1) assms(2)] by auto
  moreover have "c = 0 \<longleftrightarrow> cstr (take n xs) = cstr q" using strcmp_zero_iff [OF x(1) assms(2)] c x(2) by auto
  ultimately show ?thesis by blast
qed

lemma deAt_name: "length b = 512 \<Longrightarrow> k < 21 \<Longrightarrow> fileName (deAt b k) = take 16 (drop (24 * k) b)"
  by (simp add: deAt_def decDe_def min_def)

section \<open>Searching\<close>

text \<open>The strings at the three places behind the 21 entries of a sector that the inner loop also compares: they are
  to differ from the name.\<close>

definition noStray :: "'a kfs_scheme \<Rightarrow> u8 list \<Rightarrow> bool" where
  "noStray s q \<longleftrightarrow> list_all (\<lambda>k. case strcmp (drop (24 * k) (replicate 8 0 @ heapAfter s)) q of
     Inl e \<Rightarrow> False | Inr c \<Rightarrow> c \<noteq> 0) [0..<3]"

lemma noStrayD:
  assumes "noStray s q" "k < 3"
  shows "\<exists>c. strcmp (drop (24 * k) (replicate 8 0 @ heapAfter s)) q = Inr c \<and> c \<noteq> 0"
proof -
  have "case strcmp (drop (24 * k) (replicate 8 0 @ heapAfter s)) q of Inl e \<Rightarrow> False | Inr c \<Rightarrow> c \<noteq> 0"
    using assms unfolding noStray_def list_all_iff by fastforce
  then show ?thesis by (cases "strcmp (drop (24 * k) (replicate 8 0 @ heapAfter s)) q") auto
qed

lemma searchEntries_ok:
  assumes b: "length b = 512" "drop 504 b = replicate 8 0" and h: "noStray s q" "is_cstr q"
    and e: "\<forall>i < 21. entOk (deAt b i)" and n: "k + n = 24"
  shows "searchEntries 24 (b @ heapAfter s) q n k =
    Inr (map_option (\<lambda>i. take 24 (drop (24 * i) b)) (find (\<lambda>i. entName (deAt b i) = cstr q) [k..<21]))"
  using n
proof (induction n arbitrary: k)
  case 0
  then show ?case by simp
next
  case (Suc n)
  let ?raw = "b @ heapAfter s"
  show ?case
  proof (cases "k < 21")
    case True
    have "entOk (deAt b k)" using e True by blast
    then have "is_cstr (take 16 (drop (24 * k) b))" using deAt_name [OF b(1) True] by (simp add: entOk_def)
    then obtain c where c: "strcmp (drop (24 * k) b @ heapAfter s) q = Inr c"
      "c = 0 \<longleftrightarrow> entName (deAt b k) = cstr q"
      using strcmp_name [OF _ h(2), of 16 "drop (24 * k) b" "heapAfter s"] deAt_name [OF b(1) True] by auto
    have d: "drop (24 * k) ?raw = drop (24 * k) b @ heapAfter s" using b(1) True by simp
    have "[k..<21] = k # [Suc k..<21]" using True by (rule upt_conv_Cons)
    then show ?thesis using c d Suc True b(1) by (simp add: min_def del: upt_Suc)
  next
    case False
    have "drop (24 * k) ?raw = drop (24 * (k - 21)) (drop 504 b @ heapAfter s)"
      using False b(1) by (simp add: diff_mult_distrib2)
    moreover have "k - 21 < 3" using False Suc.prems by simp
    ultimately obtain c where "strcmp (drop (24 * k) ?raw) q = Inr c" "c \<noteq> 0"
      using noStrayD [OF h(1), of "k - 21"] b(2) by auto
    then show ?thesis using Suc False by simp
  qed
qed

lemma find_map: "find P (map f xs) = map_option f (find (\<lambda>x. P (f x)) xs)"
  by (induction xs) simp_all

lemma find_append: "find P (xs @ ys) = (case find P xs of None \<Rightarrow> find P ys | Some x \<Rightarrow> Some x)"
  by (induction xs) simp_all

lemma searchBlocks_ok:
  assumes "wfDisk (disks s (pdisk (parts s pt)))" "dirEntrySize (superBlock (parts s pt)) = 24" "buf \<noteq> NULLPTR"
    and "noStray s q" "is_cstr q"
    and "\<forall>b \<in> set bs. b \<noteq> 0 \<longrightarrow> b < MAX_LBA \<and> drop 504 (disks s (pdisk (parts s pt)) b) = replicate 8 0 \<and>
      (\<forall>i < 21. entOk (deAt (disks s (pdisk (parts s pt)) b) i))"
  shows "\<exists>r. searchBlocks pt buf q bs s = Inr r \<and> map_option decDe r =
    find (\<lambda>e. entName e = cstr q) (concat (map (\<lambda>b. sectorEntries (disks s (pdisk (parts s pt)) b)) (filter (\<lambda>b. b \<noteq> 0) bs)))"
  using assms(6)
proof (induction bs)
  case (Cons b bs)
  let ?dk = "disks s (pdisk (parts s pt))"
  obtain r where r: "searchBlocks pt buf q bs s = Inr r" "map_option decDe r =
    find (\<lambda>e. entName e = cstr q) (concat (map (\<lambda>b. sectorEntries (?dk b)) (filter (\<lambda>b. b \<noteq> 0) bs)))"
    using Cons by auto
  show ?case
  proof (cases "b = 0")
    case False
    have b: "b < MAX_LBA" "drop 504 (?dk b) = replicate 8 0" "\<forall>i < 21. entOk (deAt (?dk b) i)"
      using Cons.prems False by auto
    have s: "searchEntries 24 (?dk b @ heapAfter s) q 24 0 =
      Inr (map_option (\<lambda>i. take 24 (drop (24 * i) (?dk b))) (find (\<lambda>i. entName (deAt (?dk b) i) = cstr q) [0..<21]))"
      using searchEntries_ok [OF _ b(2) assms(4,5) b(3), of 0 24] assms(1) by simp
    have f: "find (\<lambda>e. entName e = cstr q) (sectorEntries (?dk b)) =
      map_option (deAt (?dk b)) (find (\<lambda>i. entName (deAt (?dk b) i) = cstr q) [0..<21])"
      unfolding sectorEntries_def find_map by simp
    show ?thesis
      using False b(1) s r assms(2,3)
      by (cases "find (\<lambda>i. entName (deAt (?dk b) i) = cstr q) [0..<21]")
        (simp_all add: deref_def find_append f deAt_def del: upt_Suc upt_rec_numeral)
  qed (use r in simp)
qed simp

lemma find_named:
  "\<forall>e \<in> set es. fileType e = 0 \<longrightarrow> entName e = [] \<Longrightarrow> cs \<noteq> [] \<Longrightarrow>
   find (\<lambda>e. entName e = cs) es = map_of (named (inUse es)) cs"
  by (induction es) auto

lemma entries_of: "b \<in> set (dirSecs nd) \<Longrightarrow> i < 21 \<Longrightarrow> deAt (dk b) i \<in> set (dirEntries dk nd)"
  by (fastforce simp: dirEntries_def sectorEntries_def)

section \<open>Adding an entry\<close>

lemma dirs_fsUpd [simp]: "dirs (fsUpd p nd bm dk s) = dirs s"
  by (simp add: fsUpd_def)

lemma length_sectorEntries [simp]: "length (sectorEntries b) = 21"
  by (simp add: sectorEntries_def)

lemma sectorEntries_put:
  assumes "length b = 512" "i < 21" "length (fileName de) = 16"
  shows "sectorEntries (overlay b (24 * i) (encDe de)) = (sectorEntries b)[i := de]"
proof (rule nth_equalityI)
  fix k assume "k < length (sectorEntries (overlay b (24 * i) (encDe de)))"
  then have k: "k < 21" by simp
  have l: "length (encDe de) = 24" using assms(3) by simp
  have "deAt (overlay b (24 * i) (encDe de)) k = (if k = i then de else deAt b k)"
  proof (cases "k = i")
    case True
    then show ?thesis using overlay_take_drop [of "24 * i" 24 b "encDe de"] assms l by (simp add: deAt_def)
  next
    case False
    then have "k + 1 \<le> i \<or> i + 1 \<le> k" by linarith
    then have "24 * k + 24 \<le> 24 * i \<or> 24 * i + 24 \<le> 24 * k" by linarith
    then have "take 24 (drop (24 * k) (overlay b (24 * i) (encDe de))) = take 24 (drop (24 * k) b)"
      using assms(1,2) l k by (intro nth_equalityI) (auto simp: nth_overlay)
    then show ?thesis using False by (simp add: deAt_def)
  qed
  then show "sectorEntries (overlay b (24 * i) (encDe de)) ! k = (sectorEntries b)[i := de] ! k"
    using k assms(2) by (simp add: sectorEntries_def nth_list_update)
qed simp

lemma sectorEntries_zero: "sectorEntries (replicate 512 0) = replicate 21 zeroDe"
proof (rule nth_equalityI)
  fix k assume "k < length (sectorEntries (replicate 512 0))"
  then have k: "k < 21" by simp
  have "rd32 (replicate 24 0) i = 0" if "i + 3 < 24" for i using that by (simp add: rd32_def)
  then have "deAt (replicate 512 0) k = zeroDe" using k by (simp add: deAt_def decDe_def zeroDe_def min_def)
  then show "sectorEntries (replicate 512 0) ! k = replicate 21 zeroDe ! k" using k by (simp add: sectorEntries_def)
qed simp

lemma replicate_put: "(replicate 21 x)[0 := y] = y # replicate 20 x"
  by (rule nth_equalityI) (auto simp: nth_list_update nth_Cons')

lemma freeSlot_find: "freeSlot b n k = find (\<lambda>i. fileType (deAt b i) = FT_UNKNOWN) [k..<k + n]"
  by (induction n arbitrary: k) (simp_all add: upt_conv_Cons del: upt_Suc)

lemma map_of_insert: "k \<notin> fst ` set xs \<Longrightarrow> map_of (xs @ (k, v) # ys) = (map_of (xs @ ys))(k \<mapsto> v)"
  by (induction xs) (auto simp: fun_eq_iff)

lemma fst_named: "fst ` set (named es) = entName ` set es"
  by force

text \<open>One more entry in the list of those in use.\<close>

lemma dir_grown:
  assumes ok: "dirOk s bm dk nd"
    and u: "inUse (dirEntries dk nd) = U @ V" "inUse (dirEntries dk' nd') = U @ de # V"
    and de: "entOk de" "dirMap dk nd (entName de) = None"
    and e: "\<forall>e \<in> set (dirEntries dk' nd'). e = de \<or> e = zeroDe \<or> e \<in> set (dirEntries dk nd)"
    and z: "isize nd' = isize nd + 24" "isize nd < 6048"
    and b: "length (block nd') = 13" "block nd' ! 12 = 0" "distinct (dirSecs nd')"
    "\<forall>b \<in> set (dirSecs nd'). dirBlk s bm' b \<and> drop 504 (dk' b) = replicate 8 0" "dotKept s dk' nd'"
  shows "dirOk s bm' dk' nd'" "dirMap dk' nd' = (dirMap dk nd)(entName de \<mapsto> de)"
proof -
  note ok = dirOkD [OF ok]
  have new: "entName de \<notin> entName ` set (U @ V)"
    using de(2) unfolding dirMap_def u(1) map_of_eq_None_iff fst_named by simp
  have "entOk zeroDe" by (simp add: entOk_def zeroDe_def) (simp add: eval_nat_numeral)
  then have "\<forall>e \<in> set (dirEntries dk' nd'). entOk e" using e de(1) ok(6) by auto
  moreover have "distinct (map entName (inUse (dirEntries dk' nd')))" using ok(7) new unfolding u by auto
  moreover have "unat (isize nd') = 24 * length (inUse (dirEntries dk' nd'))"
  proof -
    have "unat (isize nd + 24) = unat (isize nd) + 24" using z(2) by (subst unat_add_small) (simp_all add: word_less_nat_alt)
    then show ?thesis using ok(8) z(1) unfolding u by simp
  qed
  ultimately show "dirOk s bm' dk' nd'" using b by (simp add: dirOk_def)
  have "entName de \<notin> fst ` set (named U)" using new by auto
  then show "dirMap dk' nd' = (dirMap dk nd)(entName de \<mapsto> de)"
    unfolding dirMap_def u map_append list.map by (rule map_of_insert)
qed

text \<open>The directory after an entry has been added: a new entry in the map, other blocks as they were.\<close>

definition dirAdded :: "'a kfs_scheme \<Rightarrow> BitMap \<Rightarrow> (u32 \<Rightarrow> u8 list) \<Rightarrow> Inode \<Rightarrow> DirEntry \<Rightarrow>
    BitMap \<Rightarrow> (u32 \<Rightarrow> u8 list) \<Rightarrow> Inode \<Rightarrow> bool" where
  "dirAdded s bm dk nd de bm' dk' nd' \<longleftrightarrow> volWf s bm' dk' \<and> dirOk s bm' dk' nd' \<and>
     dirMap dk' nd' = (dirMap dk nd)(entName de \<mapsto> de) \<and> isize nd' = isize nd + 24 \<and>
     (\<forall>b. usedBlk s bm b \<longrightarrow> usedBlk s bm' b) \<and>
     (\<forall>b. usedBlk s bm b \<longrightarrow> b \<notin> set (dirSecs nd) \<longrightarrow> dk' b = dk b) \<and>
     (\<forall>b. unat b < unat (dataLbaStart (cursb s)) \<longrightarrow> b \<noteq> blockBitMapLbaStart (cursb s) \<longrightarrow> dk' b = dk b)"

lemma dirAdded_slot:
  assumes vol: "volWf s bm dk" and ok: "dirOk s bm dk nd" and b: "b \<in> set (dirSecs nd)"
    and i: "i < 21" "fileType (deAt (dk b) i) = FT_UNKNOWN"
    and de: "entOk de" "fileType de \<noteq> FT_UNKNOWN" "dirMap dk nd (entName de) = None" and z: "isize nd < 6048"
  shows "dirAdded s bm dk nd de bm (dk(b := overlay (dk b) (24 * i) (encDe de))) (nd\<lparr>isize := isize nd + 24\<rparr>)"
proof -
  let ?dk = "dk(b := overlay (dk b) (24 * i) (encDe de))" and ?nd = "nd\<lparr>isize := isize nd + 24\<rparr>"
  note D = dirOkD [OF ok] and bd = dirBlk_bounds [OF vol dirOkD(4) [OF ok b]]
  have wf: "length (dk b) = 512" using volWfD(1) [OF vol] by simp
  have l: "length (fileName de) = 16" "length (encDe de) = 24" using de(1) by (simp_all add: entOk_def)
  obtain xs ys where xy: "dirSecs nd = xs @ b # ys" using b by (auto simp: in_set_conv_decomp)
  have nb: "b \<notin> set xs" "b \<notin> set ys" using D(3) xy by auto
  define A where "A = concat (map (\<lambda>c. sectorEntries (dk c)) xs)"
  define B where "B = concat (map (\<lambda>c. sectorEntries (dk c)) ys)"
  have AB: "concat (map (\<lambda>c. sectorEntries (?dk c)) xs) = A" "concat (map (\<lambda>c. sectorEntries (?dk c)) ys) = B"
    unfolding A_def B_def using nb by (intro arg_cong [where f = concat] map_cong; auto)+
  define S where "S = sectorEntries (dk b)"
  have len: "i < length S" using i(1) by (simp add: S_def)
  have S: "S = take i S @ S ! i # drop (Suc i) S" "S ! i = deAt (dk b) i" "S[i := de] = take i S @ de # drop (Suc i) S"
    using i(1) id_take_nth_drop [OF len] upd_conv_take_nth_drop [OF len] by (simp_all add: S_def sectorEntries_def)
  have secs: "dirSecs ?nd = dirSecs nd" by (simp add: dirSecs_def)
  have e: "dirEntries dk nd = A @ S @ B" "dirEntries ?dk ?nd = A @ S[i := de] @ B"
    unfolding dirEntries_def secs xy map_append list.map concat_append concat.simps AB
    by (simp_all add: A_def B_def S_def sectorEntries_put [OF wf i(1) l(1)])
  have u: "inUse (dirEntries dk nd) = (inUse A @ inUse (take i S)) @ (inUse (drop (Suc i) S) @ inUse B)"
    unfolding e(1) by (subst S(1)) (simp add: S(2) i(2))
  have u': "inUse (dirEntries ?dk ?nd) = (inUse A @ inUse (take i S)) @ de # (inUse (drop (Suc i) S) @ inUse B)"
    unfolding e(2) S(3) using de(2) by simp
  have set': "\<forall>x \<in> set (dirEntries ?dk ?nd). x = de \<or> x = zeroDe \<or> x \<in> set (dirEntries dk nd)"
    unfolding e using set_update_subset_insert [of S i de] by auto
  have tail: "drop 504 (overlay (dk b) (24 * i) (encDe de)) = drop 504 (dk b)"
    using wf i(1) l(2) by (intro nth_equalityI) (auto simp: nth_overlay)
  have bl: "\<forall>c \<in> set (dirSecs ?nd). dirBlk s bm c \<and> drop 504 (?dk c) = replicate 8 0"
    unfolding secs using D(4,5) tail by auto
  have "set (inUse S) \<subseteq> set (inUse (S[i := de]))"
    unfolding S(3) by (subst S(1)) (auto simp: S(2) i(2))
  then have dot: "dotKept s ?dk ?nd"
    using D(9) sectorEntries_put [OF wf i(1) l(1)] unfolding dotKept_def secs S_def by (auto simp: image_iff)
  note g = dir_grown [OF ok u u' de(1,3) set' _ z _ _ _ bl dot]
  have "wfDisk ?dk" using volWfD(1) [OF vol] i(1) l(2) by (simp add: wfDisk_def)
  then have "volWf s bm ?dk" by (rule volWf_disk [OF vol])
  moreover have "dirOk s bm ?dk ?nd" "dirMap ?dk ?nd = (dirMap dk nd)(entName de \<mapsto> de)"
    by (rule g; use D(1-3) secs in simp)+
  ultimately show ?thesis using b bd(3) by (auto simp: dirAdded_def)
qed


lemma filter_put: "k < length xs \<Longrightarrow> xs ! k = 0 \<Longrightarrow> b \<noteq> 0 \<Longrightarrow>
   filter (\<lambda>x. x \<noteq> 0) xs = filter (\<lambda>x. x \<noteq> 0) (take k xs) @ filter (\<lambda>x. x \<noteq> 0) (drop (Suc k) xs) \<and>
   filter (\<lambda>x. x \<noteq> 0) (xs[k := b]) = filter (\<lambda>x. x \<noteq> 0) (take k xs) @ b # filter (\<lambda>x. x \<noteq> 0) (drop (Suc k) (xs :: u32 list))"
  by (subst (1) id_take_nth_drop [of k xs]) (simp_all add: upd_conv_take_nth_drop)

lemma dirAdded_block:
  assumes vol: "volWf s bm dk" and ok: "dirOk s bm dk nd" and k: "k < 12" "block nd ! k = 0"
    and al: "allocRel s [b] bm dk bm' dk1" "b \<noteq> dataLbaStart (cursb s)"
    and de: "entOk de" "fileType de \<noteq> FT_UNKNOWN" "dirMap dk nd (entName de) = None" and z: "isize nd < 6048"
  shows "dirAdded s bm dk nd de bm' (dk1(b := overlay (replicate 512 0) 0 (encDe de)))
    (nd\<lparr>block := (block nd)[k := b], isize := isize nd + 24\<rparr>)"
proof -
  let ?dk = "dk1(b := overlay (replicate 512 0) 0 (encDe de))" and ?nd = "nd\<lparr>block := (block nd)[k := b], isize := isize nd + 24\<rparr>"
  note D = dirOkD [OF ok]
  have a: "volWf s bm' dk1" "\<not> usedBlk s bm b" "usedBlk s bm' b" "\<And>c. usedBlk s bm c \<Longrightarrow> usedBlk s bm' c"
    "\<And>l. l \<noteq> blockBitMapLbaStart (cursb s) \<Longrightarrow> dk1 l = dk l"
    using al(1) by (auto simp: allocRel_def)
  have b: "b \<noteq> 0" "unat (dataLbaStart (cursb s)) < unat b" using usedBlk_bounds [OF a(1,3)] by auto
  have l: "length (fileName de) = 16" "length (encDe de) = 24" using de(1) by (simp_all add: entOk_def)
  have nb: "b \<notin> set (dirSecs nd)" using D(4) a(2) al(2) by (auto simp: dirBlk_def)
  define xs ys where "xs = filter (\<lambda>x. x \<noteq> 0) (take k (take 12 (block nd)))"
    and "ys = filter (\<lambda>x. x \<noteq> 0) (drop (Suc k) (take 12 (block nd)))"
  have secs: "dirSecs nd = xs @ ys" "dirSecs ?nd = xs @ b # ys"
    using filter_put [of k "take 12 (block nd)" b] k b(1) D(1) by (simp_all add: dirSecs_def xs_def ys_def take_update_swap)
  have same: "?dk c = dk c" if "c \<in> set (dirSecs nd)" for c
    using that nb a(5) dirBlk_bounds(2) [OF vol D(4) [OF that]] by auto
  define A where "A = concat (map (\<lambda>c. sectorEntries (dk c)) xs)"
  define B where "B = concat (map (\<lambda>c. sectorEntries (dk c)) ys)"
  have AB: "concat (map (\<lambda>c. sectorEntries (?dk c)) xs) = A" "concat (map (\<lambda>c. sectorEntries (?dk c)) ys) = B"
    unfolding A_def B_def using same secs(1) by (intro arg_cong [where f = concat] map_cong; simp)+
  have new: "sectorEntries (?dk b) = de # replicate 20 zeroDe"
    using sectorEntries_put [of "replicate 512 0" 0 de] l(1) by (simp add: sectorEntries_zero replicate_put)
  have e: "dirEntries dk nd = A @ B" "dirEntries ?dk ?nd = A @ (de # replicate 20 zeroDe) @ B"
    unfolding dirEntries_def secs map_append list.map concat_append concat.simps AB new by (simp_all add: A_def B_def)
  have u: "inUse (dirEntries dk nd) = inUse A @ inUse B" "inUse (dirEntries ?dk ?nd) = inUse A @ de # inUse B"
    unfolding e using de(2) by (simp_all add: zeroDe_def)
  have set': "\<forall>x \<in> set (dirEntries ?dk ?nd). x = de \<or> x = zeroDe \<or> x \<in> set (dirEntries dk nd)"
    unfolding e by auto
  have blks: "dirBlk s bm' c" if "dirBlk s bm c" for c using that a(4) by (auto simp: dirBlk_def)
  have tail: "drop 504 (overlay (replicate 512 0) 0 (encDe de)) = replicate 8 0" using l(2) by (simp add: overlay_def)
  have bl: "\<forall>c \<in> set (dirSecs ?nd). dirBlk s bm' c \<and> drop 504 (?dk c) = replicate 8 0"
  proof
    fix c assume "c \<in> set (dirSecs ?nd)"
    then consider "c = b" | "c \<in> set (dirSecs nd)" unfolding secs by auto
    then show "dirBlk s bm' c \<and> drop 504 (?dk c) = replicate 8 0"
    proof cases
      case 1
      then show ?thesis using a(3) tail by (simp add: dirBlk_def)
    next
      case 2
      then show ?thesis using blks D(4,5) same by simp
    qed
  qed
  have dis: "distinct (dirSecs ?nd)" using D(3) nb unfolding secs by auto
  have z': "isize ?nd = isize nd + 24" "isize nd < 6048" "length (block ?nd) = 13" "block ?nd ! 12 = 0"
    using z D(1,2) k(1) by simp_all
  have "dataLbaStart (cursb s) \<noteq> blockBitMapLbaStart (cursb s)" using volWfD(5) [OF vol] by (metis less_irrefl)
  then have "?dk (dataLbaStart (cursb s)) = dk (dataLbaStart (cursb s))" "dataLbaStart (cursb s) \<noteq> b"
    using al(2) a(5) [of "dataLbaStart (cursb s)"] by auto
  then have dot: "dotKept s ?dk ?nd" using D(9) unfolding dotKept_def secs by auto
  have g: "dirOk s bm' ?dk ?nd" "dirMap ?dk ?nd = (dirMap dk nd)(entName de \<mapsto> de)"
    using dir_grown [OF ok u de(1,3) set' z' dis bl dot] .
  have "wfDisk ?dk" using volWfD(1) [OF a(1)] l(2) by (simp add: wfDisk_def)
  then have "volWf s bm' ?dk" by (rule volWf_disk [OF a(1)])
  moreover have "c \<noteq> b" "c \<noteq> blockBitMapLbaStart (cursb s)" if "usedBlk s bm c" for c
    using that a(2) usedBlk_bounds(5) [OF vol that] by auto
  ultimately show ?thesis using g a(4,5) b(2) by (auto simp: dirAdded_def)
qed

lemma allocSynced_ok:
  assumes "volWf s bm dk" "0 < freeCnt bm"
  obtains b bm' dk' where "allocSynced (fsUpd p nd bm dk s) = Inr (b, fsUpd p nd bm' dk' s)"
    "b \<noteq> - 1" "b \<noteq> dataLbaStart (cursb s)" "allocRel s [b] bm dk bm' dk'"
proof -
  obtain b bm' dk' where a: "\<And>p nd. blockBitMapAlloc (curPart s) (fsUpd p nd bm dk s) = Inr (b, fsUpd p nd bm' dk s)"
    "b \<noteq> - 1" "b - dataLbaStart (cursb s) \<noteq> 0"
    "\<And>p nd. bitMapSync (curPart s) (b - dataLbaStart (cursb s)) BLOCK_BITMAP (fsUpd p nd bm' dk s) = Inr (fsUpd p nd bm' dk' s)"
    "allocRel s [b] bm dk bm' dk'" "allocRel s [b] bm dk bm' dk"
    by (rule alloc_sync [OF assms]) blast
  have "unat (dataLbaStart (cursb s)) < unat b" using usedBlk_bounds(1) [of s bm' dk b] a(6) by (auto simp: allocRel_def)
  moreover have "b < MAX_LBA" using usedBlk_bounds(2) [of s bm' dk b] a(6) by (auto simp: allocRel_def)
  ultimately have "unat (b - dataLbaStart (cursb s)) < 163839"
    by (subst unat_sub_small) (simp_all add: word_less_nat_alt)
  then have "b - dataLbaStart (cursb s) \<noteq> - 1" using unat_minus1_max by auto
  then have "allocSynced (fsUpd p nd bm dk s) = Inr (b, fsUpd p nd bm' dk' s)"
    using a(1-4) by (simp add: allocSynced_def blockLbaToBitMapIdx_def)
  then show ?thesis using that a(2,3,5) by auto
qed

text \<open>The search of a place for the entry, sector by sector.\<close>

lemma syncLoop_ok:
  assumes vol: "volWf s bm dk" and ok: "dirOk s bm dk nd" and p: "dinode (dirs s d) = p" and sz: "dirEntrySize (cursb s) = 24"
    and de: "entOk de" "fileType de \<noteq> FT_UNKNOWN" "dirMap dk nd (entName de) = None" and z: "isize nd < 6048"
    and free: "0 < freeCnt bm" and bs: "blocks = take 12 (block nd) @ replicate 128 0"
    and n: "k + n = 140" and room: "\<exists>j < 12. k \<le> j \<and> (block nd ! j = 0 \<or> (\<exists>i < 21. fileType (deAt (dk (block nd ! j)) i) = FT_UNKNOWN))"
  shows "\<exists>nd' bm' dk'. syncLoop d de blocks n k (fsUpd p nd bm dk s) = Inr (True, fsUpd p nd' bm' dk' s) \<and>
    dirAdded s bm dk nd de bm' dk' nd'"
  using n room
proof (induction n arbitrary: k)
  case 0
  then show ?case by auto
next
  case (Suc n)
  note D = dirOkD [OF ok]
  have k: "k < 12" using Suc.prems(2) by auto
  have bk: "blocks ! k = block nd ! k" using k D(1) by (simp add: bs nth_append)
  have l: "length (encDe de) = 24" "take 24 (encDe de) = encDe de" using de(1) by (simp_all add: entOk_def)
  have len: "length blocks = 140" using D(1) by (simp add: bs)
  show ?case
  proof (cases "block nd ! k = 0")
    case True
    obtain b bm' dk1 where a: "allocSynced (fsUpd p nd bm dk s) = Inr (b, fsUpd p nd bm' dk1 s)"
      "b \<noteq> - 1" "b \<noteq> dataLbaStart (cursb s)" "allocRel s [b] bm dk bm' dk1"
      by (rule allocSynced_ok [OF vol free])
    have "b < MAX_LBA" using usedBlk_bounds(2) [of s bm' dk1 b] a(4) by (auto simp: allocRel_def)
    moreover have "growDir d k blocks (fsUpd p nd bm dk s) =
      Inr (Some (blocks[k := b]), fsUpd p (nd\<lparr>block := (block nd)[k := b]\<rparr>) bm' dk1 s)"
      using a(1,2) k p by (simp add: growDir_def setBlock_def updDirInode_def)
    ultimately have "syncLoop d de blocks (Suc n) k (fsUpd p nd bm dk s) =
      Inr (True, fsUpd p (nd\<lparr>block := (block nd)[k := b], isize := isize nd + 24\<rparr>) bm' (dk1(b := overlay (replicate 512 0) 0 (encDe de))) s)"
      using True bk len k sz l p by (simp add: addSize_def updDirInode_def)
    then show ?thesis using dirAdded_block [OF vol ok k True a(4,3) de z] by blast
  next
    case False
    have b: "block nd ! k \<in> set (dirSecs nd)" using False k D(1) by (force simp: dirSecs_def in_set_conv_nth)
    have lba: "block nd ! k < MAX_LBA" by (rule dirBlk_bounds(1) [OF vol D(4) [OF b]])
    let ?fs = "freeSlot (dk (block nd ! k)) 21 0"
    show ?thesis
    proof (cases ?fs)
      case None
      then have no: "\<not> (\<exists>i < 21. fileType (deAt (dk (block nd ! k)) i) = FT_UNKNOWN)"
        by (auto simp: freeSlot_find find_None_iff)
      then have "\<exists>j < 12. Suc k \<le> j \<and> (block nd ! j = 0 \<or> (\<exists>i < 21. fileType (deAt (dk (block nd ! j)) i) = FT_UNKNOWN))"
        using Suc.prems(2) False by (metis Suc_leI le_neq_implies_less)
      then show ?thesis using Suc.IH [of "Suc k"] Suc.prems(1) False None bk lba sz by simp
    next
      case (Some i)
      then have i: "i < 21" "fileType (deAt (dk (block nd ! k)) i) = FT_UNKNOWN"
        by (auto simp: freeSlot_find find_Some_iff)
      have "length (dk (block nd ! k)) = 512" using volWfD(1) [OF vol] by simp
      then have "syncLoop d de blocks (Suc n) k (fsUpd p nd bm dk s) =
        Inr (True, fsUpd p (nd\<lparr>isize := isize nd + 24\<rparr>) bm
          (dk(block nd ! k := overlay (dk (block nd ! k)) (24 * i) (encDe de))) s)"
        using Some i(1) False bk lba sz l p by (simp add: addSize_def updDirInode_def)
      then show ?thesis using dirAdded_slot [OF vol ok b i de z] by blast
    qed
  qed
qed


lemma dir_room:
  assumes ok: "dirOk s bm dk nd" and z: "isize nd < 6048"
  shows "\<exists>j < 12. block nd ! j = 0 \<or> (\<exists>i < 21. fileType (deAt (dk (block nd ! j)) i) = FT_UNKNOWN)"
proof (rule ccontr)
  assume no: "\<not> ?thesis"
  note D = dirOkD [OF ok]
  have all: "b \<noteq> 0 \<and> (\<forall>i < 21. fileType (deAt (dk b) i) \<noteq> FT_UNKNOWN)" if "b \<in> set (take 12 (block nd))" for b
    using that no D(1) by (auto simp: in_set_conv_nth)
  then have s: "dirSecs nd = take 12 (block nd)" by (simp add: dirSecs_def filter_id_conv)
  have "\<forall>e \<in> set (dirEntries dk nd). fileType e \<noteq> FT_UNKNOWN"
    unfolding dirEntries_def s sectorEntries_def using all by auto
  then have "inUse (dirEntries dk nd) = dirEntries dk nd" by (simp add: filter_id_conv)
  moreover have "length (concat (map (\<lambda>b. sectorEntries (dk b)) bs)) = 21 * length bs" for bs by (induction bs) simp_all
  ultimately have "unat (isize nd) = 6048" using D(1,8) by (simp add: dirEntries_def s)
  then show False using z by (simp add: word_less_nat_alt)
qed

section \<open>Removing an entry\<close>

lemma encDe_zero: "encDe zeroDe = replicate 24 0"
  by (simp add: encDe_def zeroDe_def le32_def) (simp add: eval_nat_numeral)

lemma cstr_dot: "cstr dot = dotName" "is_cstr dot"
  by (simp_all add: dot_def dotName_def bytes_def)

lemma scanEntries_ok:
  assumes b: "length b = 512" and e: "\<forall>m < 21. entOk (deAt b m)" and n: "k + n = 21"
    and P: "\<And>m. P m \<longleftrightarrow> fileType (deAt b m) \<noteq> FT_UNKNOWN" and Q: "\<And>m. Q m \<longleftrightarrow> entName (deAt b m) = dotName"
    and M: "\<And>m. M m \<longleftrightarrow> P m \<and> \<not> Q m \<and> dino (deAt b m) = i"
    and one: "\<forall>m < 21. \<forall>m' < 21. M m \<longrightarrow> M m' \<longrightarrow> m = m'" "f = None \<or> (\<forall>m < 21. k \<le> m \<longrightarrow> \<not> M m)"
  shows "scanEntries b i n k (d, c, f) = Inr (d \<or> (\<exists>m < 21. k \<le> m \<and> P m \<and> Q m),
    c + length (filter (\<lambda>m. P m \<and> \<not> Q m) [k..<21]), case f of None \<Rightarrow> find M [k..<21] | Some m \<Rightarrow> Some m)"
  using n one(2)
proof (induction n arbitrary: k d c f)
  case 0
  then show ?case by (auto split: option.splits)
next
  case (Suc n)
  have k: "k < 21" using Suc.prems by simp
  have l: "[k..<21] = k # [Suc k..<21]" using k by (rule upt_conv_Cons)
  have split: "(\<exists>m < 21. k \<le> m \<and> X m) \<longleftrightarrow> X k \<or> (\<exists>m < 21. Suc k \<le> m \<and> X m)" for X
    using k by (metis Suc_leD Suc_leI le_neq_implies_less le_refl)
  have "entOk (deAt b k)" using e k by blast
  then have nm: "is_cstr (take 16 (drop (24 * k) b))" "cstr (take 16 (drop (24 * k) b)) = entName (deAt b k)"
    using deAt_name [OF b k] by (simp_all add: entOk_def)
  obtain c0 where c0: "strcmp (drop (24 * k) b) dot = Inr c0" "c0 = 0 \<longleftrightarrow> Q k"
    using strcmp_name [OF nm(1) cstr_dot(2), of "[]"] by (auto simp: nm(2) Q cstr_dot)
  consider (unused) "\<not> P k" | (dot) "P k" "Q k" | (other) "P k" "\<not> Q k" "\<not> M k" | (found) "P k" "\<not> Q k" "M k" by blast
  then show ?case
  proof cases
    case unused
    then have "scanEntries b i (Suc n) k (d, c, f) = scanEntries b i n (Suc k) (d, c, f)" by (simp add: P)
    moreover have "\<not> M k" using unused by (simp add: M)
    ultimately show ?thesis using Suc.IH [of "Suc k" f d c] Suc.prems unused unfolding l split by (auto split: option.splits)
  next
    case dot
    then have "scanEntries b i (Suc n) k (d, c, f) = scanEntries b i n (Suc k) (True, c, f)" using c0 by (simp add: P)
    moreover have "\<not> M k" using dot by (simp add: M)
    ultimately show ?thesis using Suc.IH [of "Suc k" f True c] Suc.prems dot unfolding l split by (auto split: option.splits)
  next
    case other
    then have "scanEntries b i (Suc n) k (d, c, f) = scanEntries b i n (Suc k) (d, Suc c, f)" using c0 by (simp add: P M)
    then show ?thesis using Suc.IH [of "Suc k" f d "Suc c"] Suc.prems other unfolding l split by (auto split: option.splits)
  next
    case found
    then have f: "f = None" using Suc.prems(2) k by auto
    have no: "\<forall>m < 21. Suc k \<le> m \<longrightarrow> \<not> M m" using one(1) found(3) k by (metis Suc_n_not_le_n)
    have "scanEntries b i (Suc n) k (d, c, f) = scanEntries b i n (Suc k) (d, Suc c, Some k)" using found c0 f by (simp add: P M)
    then show ?thesis using Suc.IH [of "Suc k" "Some k" d "Suc c"] Suc.prems(1) no found f unfolding l split by simp
  qed
qed

text \<open>One entry fewer in the list of those in use.\<close>

lemma dir_shrunk:
  assumes ok: "dirOk s bm dk nd"
    and u: "inUse (dirEntries dk nd) = U @ e # V" "inUse (dirEntries dk' nd') = U @ V"
    and s: "\<forall>x \<in> set (dirEntries dk' nd'). x = zeroDe \<or> x \<in> set (dirEntries dk nd)"
    and z: "isize nd' = isize nd - 24"
    and b: "length (block nd') = 13" "block nd' ! 12 = 0" "distinct (dirSecs nd')"
    "\<forall>b \<in> set (dirSecs nd'). dirBlk s bm' b \<and> drop 504 (dk' b) = replicate 8 0" "dotKept s dk' nd'"
  shows "dirOk s bm' dk' nd'" "dirMap dk' nd' = (dirMap dk nd)(entName e := None)" "24 \<le> isize nd"
proof -
  note ok = dirOkD [OF ok]
  have "entOk zeroDe" by (simp add: entOk_def zeroDe_def) (simp add: eval_nat_numeral)
  then have "\<forall>x \<in> set (dirEntries dk' nd'). entOk x" using s ok(6) by auto
  moreover have "distinct (map entName (inUse (dirEntries dk' nd')))" using ok(7) unfolding u by auto
  moreover have sz: "24 \<le> unat (isize nd)" using ok(8) unfolding u by simp
  moreover have "unat (isize nd - 24) = unat (isize nd) - 24" using sz by (subst unat_sub_small) simp_all
  ultimately show "dirOk s bm' dk' nd'" using b ok(8) z unfolding dirOk_def u by simp
  show "24 \<le> isize nd" using sz by (simp add: word_le_nat_alt)
  have n: "entName e \<notin> fst ` set (named U)" "entName e \<notin> fst ` set (named (U @ V))"
    using ok(7) unfolding u fst_named by auto
  then have "map_of (named (U @ V)) (entName e) = None" by (simp only: map_of_eq_None_iff not_False_eq_True)
  then show "dirMap dk' nd' = (dirMap dk nd)(entName e := None)"
    unfolding dirMap_def u map_append list.map map_of_insert [OF n(1)] by auto
qed

definition dirRemoved :: "'a kfs_scheme \<Rightarrow> BitMap \<Rightarrow> (u32 \<Rightarrow> u8 list) \<Rightarrow> Inode \<Rightarrow> DirEntry \<Rightarrow>
    BitMap \<Rightarrow> (u32 \<Rightarrow> u8 list) \<Rightarrow> Inode \<Rightarrow> bool" where
  "dirRemoved s bm dk nd e bm' dk' nd' \<longleftrightarrow> volWf s bm' dk' \<and> dirOk s bm' dk' nd' \<and>
     dirMap dk' nd' = (dirMap dk nd)(entName e := None) \<and> isize nd' = isize nd - 24 \<and> ino nd' = ino nd \<and>
     (\<forall>b. usedBlk s bm' b \<longrightarrow> usedBlk s bm b) \<and>
     (\<forall>b. usedBlk s bm b \<longrightarrow> b \<notin> set (dirSecs nd) \<longrightarrow> usedBlk s bm' b \<and> dk' b = dk b)"

text \<open>The entry is zeroed in its sector.\<close>

lemma dirRemoved_wipe:
  assumes vol: "volWf s bm dk" and ok: "dirOk s bm dk nd" and b: "b \<in> set (dirSecs nd)"
    and i: "i < 21" "deAt (dk b) i = e" "fileType e \<noteq> FT_UNKNOWN" "entName e \<noteq> dotName"
  shows "dirRemoved s bm dk nd e bm (dk(b := overlay (dk b) (24 * i) (replicate 24 0))) (nd\<lparr>isize := isize nd - 24\<rparr>)"
    "24 \<le> isize nd" "\<forall>l. unat l < unat (dataLbaStart (cursb s)) \<longrightarrow> l \<noteq> b"
proof -
  let ?dk = "dk(b := overlay (dk b) (24 * i) (replicate 24 0))" and ?nd = "nd\<lparr>isize := isize nd - 24\<rparr>"
  note D = dirOkD [OF ok] and bd = dirBlk_bounds [OF vol dirOkD(4) [OF ok b]]
  have wf: "length (dk b) = 512" using volWfD(1) [OF vol] by simp
  have zl: "length (fileName zeroDe) = 16" by (simp add: zeroDe_def)
  obtain xs ys where xy: "dirSecs nd = xs @ b # ys" using b by (auto simp: in_set_conv_decomp)
  have nb: "b \<notin> set xs" "b \<notin> set ys" using D(3) xy by auto
  define A where "A = concat (map (\<lambda>c. sectorEntries (dk c)) xs)"
  define B where "B = concat (map (\<lambda>c. sectorEntries (dk c)) ys)"
  have AB: "concat (map (\<lambda>c. sectorEntries (?dk c)) xs) = A" "concat (map (\<lambda>c. sectorEntries (?dk c)) ys) = B"
    unfolding A_def B_def using nb by (intro arg_cong [where f = concat] map_cong; auto)+
  define S where "S = sectorEntries (dk b)"
  have len: "i < length S" using i(1) by (simp add: S_def)
  have S: "S = take i S @ S ! i # drop (Suc i) S" "S ! i = e" "S[i := zeroDe] = take i S @ zeroDe # drop (Suc i) S"
    using i(1,2) id_take_nth_drop [OF len] upd_conv_take_nth_drop [OF len] by (simp_all add: S_def sectorEntries_def)
  have put: "sectorEntries (?dk b) = S[i := zeroDe]"
    using sectorEntries_put [OF wf i(1) zl] by (simp add: encDe_zero S_def)
  have secs: "dirSecs ?nd = dirSecs nd" by (simp add: dirSecs_def)
  have e: "dirEntries dk nd = A @ S @ B" "dirEntries ?dk ?nd = A @ S[i := zeroDe] @ B"
    unfolding dirEntries_def secs xy map_append list.map concat_append concat.simps AB put
    by (simp_all add: A_def B_def S_def)
  have u: "inUse (dirEntries dk nd) = (inUse A @ inUse (take i S)) @ e # (inUse (drop (Suc i) S) @ inUse B)"
    unfolding e(1) by (subst S(1)) (simp add: S(2) i(3))
  have u': "inUse (dirEntries ?dk ?nd) = (inUse A @ inUse (take i S)) @ (inUse (drop (Suc i) S) @ inUse B)"
    unfolding e(2) S(3) by (simp add: zeroDe_def)
  have set': "\<forall>x \<in> set (dirEntries ?dk ?nd). x = zeroDe \<or> x \<in> set (dirEntries dk nd)"
    unfolding e using set_update_subset_insert [of S i zeroDe] by auto
  have tail: "drop 504 (overlay (dk b) (24 * i) (replicate 24 0)) = drop 504 (dk b)"
    using wf i(1) by (intro nth_equalityI) (auto simp: nth_overlay)
  have bl: "\<forall>c \<in> set (dirSecs ?nd). dirBlk s bm c \<and> drop 504 (?dk c) = replicate 8 0"
    unfolding secs using D(4,5) tail by auto
  have keep: "dotName \<in> entName ` set (inUse (S[i := zeroDe]))" if "dotName \<in> entName ` set (inUse S)"
  proof -
    from that obtain x where x: "x \<in> set (inUse S)" "dotName = entName x" by (rule imageE)
    have "set S = set (take i S) \<union> insert e (set (drop (Suc i) S))" by (subst S(1)) (simp add: S(2))
    then have "x \<in> set (inUse (S[i := zeroDe]))" unfolding S(3) using x i(4) by auto
    then show ?thesis using x(2) by (rule rev_image_eqI)
  qed
  have dot: "dotKept s ?dk ?nd"
  proof (cases "dataLbaStart (cursb s) = b")
    case True
    then show ?thesis using D(9) keep unfolding dotKept_def secs True put S_def by blast
  next
    case False
    then show ?thesis using D(9) unfolding dotKept_def secs by simp
  qed
  have z: "isize ?nd = isize nd - 24" "length (block ?nd) = 13" "block ?nd ! 12 = 0" "distinct (dirSecs ?nd)"
    using D(1-3) secs by simp_all
  note g = dir_shrunk [OF ok u u' set' z bl dot]
  have "wfDisk ?dk" using volWfD(1) [OF vol] i(1) by (simp add: wfDisk_def)
  then have "volWf s bm ?dk" by (rule volWf_disk [OF vol])
  then show "dirRemoved s bm dk nd e bm ?dk ?nd" using g(1,2) b bd(3) by (auto simp: dirRemoved_def)
  show "24 \<le> isize nd" "\<forall>l. unat l < unat (dataLbaStart (cursb s)) \<longrightarrow> l \<noteq> b" using g(3) bd(3) by auto
qed


text \<open>Giving a block back: its bit is cleared in memory and on disk.\<close>

lemma free_ok:
  assumes vol: "volWf s bm dk" and b: "usedBlk s bm b" and cap: "bm_cap bm \<le> 512"
  obtains bm' dk' where
    "\<And>p nd. clearBit BLOCK_BITMAP (curPart s) (b - dataLbaStart (cursb s)) (fsUpd p nd bm dk s) = Inr (fsUpd p nd bm' dk s)"
    "\<And>p nd. bitMapSync (curPart s) (b - dataLbaStart (cursb s)) BLOCK_BITMAP (fsUpd p nd bm' dk s) = Inr (fsUpd p nd bm' dk' s)"
    "volWf s bm' dk'" "\<And>c. usedBlk s bm' c \<longleftrightarrow> usedBlk s bm c \<and> c \<noteq> b"
    "\<And>l. l \<noteq> blockBitMapLbaStart (cursb s) \<Longrightarrow> dk' l = dk l"
proof -
  note v = volWfD [OF vol]
  obtain n where n: "n < bm_cap bm" "0 < n" "bm_used bm n" "unat b = unat (dataLbaStart (cursb s)) + n"
    using b by (auto simp: usedBlk_def)
  have un: "unat (b - dataLbaStart (cursb s)) = n" using n(4) by (subst unat_sub_small) simp_all
  have "n div 8 < length (startAddr bm)" using v(2) n(1) by (auto simp: bm_wf_def bm_cap_def)
  then obtain bm' where bm': "bitMapSet bm (b - dataLbaStart (cursb s)) False = Inr bm'" "bm_same_shape bm bm'"
    "\<And>j. bm_used bm' j = (if j = n then False else bm_used bm j)"
    using bitMapSet_spec [of "b - dataLbaStart (cursb s)" bm False] unfolding un by blast
  have cap': "bm_cap bm' = bm_cap bm" using bm_cap_same_shape bm'(2) by blast
  have vol': "volWf s bm' dk"
    using vol bm'(2) bm_wf_same_shape [OF bm'(2)] n(1,2) cap
    by (auto simp: volWf_def cap' bm'(3) bm_same_shape_def)
  let ?dk = "dk(blockBitMapLbaStart (cursb s) := take 512 (startAddr bm'))"
  have "wfDisk ?dk" using volWfD(1,3) [OF vol'] by (simp add: wfDisk_def)
  then have "volWf s bm' ?dk" by (rule volWf_disk [OF vol'])
  moreover have "clearBit BLOCK_BITMAP (curPart s) (b - dataLbaStart (cursb s)) (fsUpd p nd bm dk s) = Inr (fsUpd p nd bm' dk s)" for p nd
    by (simp add: clearBit_def bm'(1))
  moreover have "usedBlk s bm' c \<longleftrightarrow> usedBlk s bm c \<and> c \<noteq> b" for c
  proof -
    have "c = b \<longleftrightarrow> unat c = unat (dataLbaStart (cursb s)) + n" using n(4) by (metis unat_inj_iff)
    then show ?thesis by (auto simp: usedBlk_def bm'(3) cap')
  qed
  moreover have "unat (b - dataLbaStart (cursb s)) < 512" using un n(1) cap by simp
  ultimately show ?thesis using that sync_ok [OF vol'] by (metis fun_upd_other)
qed

text \<open>The last entry of a sector that is not the first: the sector is given back.\<close>

lemma dirRemoved_drop:
  assumes vol: "volWf s bm dk" and ok: "dirOk s bm dk nd" and k: "k < 12" "block nd ! k = b" "b \<noteq> 0"
    and S: "inUse (sectorEntries (dk b)) = [e]" "entName e \<noteq> dotName"
    and f: "volWf s bm' dk'" "\<And>c. usedBlk s bm' c \<longleftrightarrow> usedBlk s bm c \<and> c \<noteq> b"
    "\<And>l. l \<noteq> blockBitMapLbaStart (cursb s) \<Longrightarrow> dk' l = dk l"
  shows "dirRemoved s bm dk nd e bm' dk' (nd\<lparr>block := (block nd)[k := 0], isize := isize nd - 24\<rparr>)" "24 \<le> isize nd"
proof -
  let ?nd = "nd\<lparr>block := (block nd)[k := 0], isize := isize nd - 24\<rparr>"
  note D = dirOkD [OF ok]
  define X where "X = take 12 (block nd)"
  define xs ys where "xs = filter (\<lambda>x. x \<noteq> 0) (take k X)" and "ys = filter (\<lambda>x. x \<noteq> 0) (drop (Suc k) X)"
  have kl: "k < length X" "X ! k = b" using k(1,2) D(1) by (simp_all add: X_def)
  have X: "X = take k X @ b # drop (Suc k) X" "X[k := 0] = take k X @ 0 # drop (Suc k) X"
    using id_take_nth_drop [OF kl(1)] upd_conv_take_nth_drop [OF kl(1)] kl(2) by simp_all
  have "dirSecs nd = filter (\<lambda>x. x \<noteq> 0) X" "dirSecs ?nd = filter (\<lambda>x. x \<noteq> 0) (X[k := 0])"
    by (simp_all add: dirSecs_def X_def take_update_swap)
  moreover have "filter (\<lambda>x. x \<noteq> 0) X = xs @ b # ys" by (subst X(1)) (simp add: xs_def ys_def k(3))
  moreover have "filter (\<lambda>x. x \<noteq> 0) (X[k := 0]) = xs @ ys" by (subst X(2)) (simp add: xs_def ys_def)
  ultimately have secs: "dirSecs nd = xs @ b # ys" "dirSecs ?nd = xs @ ys" by simp_all
  have same: "dk' c = dk c" if "c \<in> set (dirSecs nd)" for c
    using f(3) dirBlk_bounds(2) [OF vol D(4) [OF that]] by auto
  define A where "A = concat (map (\<lambda>c. sectorEntries (dk c)) xs)"
  define B where "B = concat (map (\<lambda>c. sectorEntries (dk c)) ys)"
  have AB: "concat (map (\<lambda>c. sectorEntries (dk' c)) xs) = A" "concat (map (\<lambda>c. sectorEntries (dk' c)) ys) = B"
    unfolding A_def B_def using same secs(1) by (intro arg_cong [where f = concat] map_cong; simp)+
  have en: "dirEntries dk nd = A @ sectorEntries (dk b) @ B" "dirEntries dk' ?nd = A @ B"
    unfolding dirEntries_def secs map_append list.map concat_append concat.simps AB by (simp_all add: A_def B_def)
  have u: "inUse (dirEntries dk nd) = inUse A @ e # inUse B" "inUse (dirEntries dk' ?nd) = inUse A @ inUse B"
    unfolding en by (simp_all add: S(1))
  have set': "\<forall>x \<in> set (dirEntries dk' ?nd). x = zeroDe \<or> x \<in> set (dirEntries dk nd)" unfolding en by auto
  have nb: "b \<notin> set (dirSecs ?nd)" "set (dirSecs ?nd) \<subseteq> set (dirSecs nd)" using D(3) unfolding secs by auto
  have bl: "\<forall>c \<in> set (dirSecs ?nd). dirBlk s bm' c \<and> drop 504 (dk' c) = replicate 8 0"
  proof
    fix c assume "c \<in> set (dirSecs ?nd)"
    then have c: "c \<in> set (dirSecs nd)" "c \<noteq> b" using nb by auto
    then show "dirBlk s bm' c \<and> drop 504 (dk' c) = replicate 8 0"
      using D(4) [OF c(1)] D(5) [OF c(1)] same [OF c(1)] f(2) [of c] by (simp add: dirBlk_def)
  qed
  have "b \<noteq> dataLbaStart (cursb s)"
  proof
    assume "b = dataLbaStart (cursb s)"
    moreover have "b \<in> set (dirSecs nd)" unfolding secs by simp
    ultimately have "dotName \<in> entName ` set (inUse (sectorEntries (dk b)))" using D(9) by (simp add: dotKept_def)
    then show False unfolding S(1) using S(2) by simp
  qed
  moreover have "dk' (dataLbaStart (cursb s)) = dk (dataLbaStart (cursb s))"
    using f(3) volWfD(5) [OF vol] by (metis less_irrefl)
  ultimately have dot: "dotKept s dk' ?nd" using D(9) subsetD [OF nb(2), of "dataLbaStart (cursb s)"] by (simp add: dotKept_def)
  have z: "isize ?nd = isize nd - 24" "length (block ?nd) = 13" "block ?nd ! 12 = 0" "distinct (dirSecs ?nd)"
    using D(1-3) k(1) unfolding secs by simp_all
  note g = dir_shrunk [OF ok u set' z bl dot]
  have "b \<in> set (dirSecs nd)" unfolding secs by simp
  then show "dirRemoved s bm dk nd e bm' dk' ?nd"
    using g(1,2) f usedBlk_bounds(5) [OF vol] by (auto simp: dirRemoved_def)
  show "24 \<le> isize nd" by (rule g(3))
qed


text \<open>The search of the entry, sector by sector, before the inode is written.\<close>

definition isEntry :: "u32 \<Rightarrow> DirEntry \<Rightarrow> bool" where
  "isEntry i e \<longleftrightarrow> fileType e \<noteq> FT_UNKNOWN \<and> entName e \<noteq> dotName \<and> dino e = i"

lemma two_matches: "j < length xs \<Longrightarrow> j' < length xs \<Longrightarrow> P (xs ! j) \<Longrightarrow> P (xs ! j') \<Longrightarrow> length (filter P xs) \<le> 1 \<Longrightarrow> j = j'"
proof -
  assume a: "j < length xs" "j' < length xs" "P (xs ! j)" "P (xs ! j')" "length (filter P xs) \<le> 1"
  have "card {m. m < length xs \<and> P (xs ! m)} \<le> Suc 0" using a(5) by (simp add: length_filter_conv_card)
  then have "\<forall>x \<in> {m. m < length xs \<and> P (xs ! m)}. \<forall>y \<in> {m. m < length xs \<and> P (xs ! m)}. x = y"
    by (subst (asm) card_le_Suc0_iff_eq) simp_all
  then show "j = j'" using a(1-4) by blast
qed

lemma sectorEntries_nth: "m < 21 \<Longrightarrow> sectorEntries b ! m = deAt b m"
  by (simp add: sectorEntries_def)

lemma deleteLoop_ok:
  assumes vol: "volWf s bm dk" and ok: "dirOk s bm dk nd" and p: "dinode (dirs s d) = p" and sz: "dirEntrySize (cursb s) = 24"
    and cap: "bm_cap bm \<le> 512" and nd: "ino nd < 4096" and e: "filter (isEntry i) (dirEntries dk nd) = [e]"
    and bs: "blocks = take 12 (block nd) @ replicate 128 0"
    and n: "k + n = 140" and k: "\<exists>j < 12. k \<le> j \<and> block nd ! j \<noteq> 0 \<and> (\<exists>m < 21. isEntry i (deAt (dk (block nd ! j)) m))"
  shows "\<exists>nd' bm' dk'. deleteLoop (curPart s) d i blocks n k (fsUpd p nd bm dk s) =
      rbind (inodeSync (curPart s) nd' (fsUpd p nd' bm' dk' s)) (\<lambda>s. Inr (True, s)) \<and> dirRemoved s bm dk nd e bm' dk' nd' \<and>
      (\<forall>l. unat l < unat (dataLbaStart (cursb s)) \<longrightarrow> l \<noteq> blockBitMapLbaStart (cursb s) \<longrightarrow> dk' l = dk l)"
  using n k
proof (induction n arbitrary: k)
  case 0
  then show ?case by auto
next
  case (Suc n)
  note D = dirOkD [OF ok]
  have k: "k < 12" using Suc.prems(2) by auto
  have bk: "blocks ! k = block nd ! k" using k D(1) by (simp add: bs nth_append)
  show ?case
  proof (cases "block nd ! k = 0")
    case True
    then have "\<exists>j < 12. Suc k \<le> j \<and> block nd ! j \<noteq> 0 \<and> (\<exists>m < 21. isEntry i (deAt (dk (block nd ! j)) m))"
      using Suc.prems(2) by (metis Suc_leI le_neq_implies_less)
    then show ?thesis using Suc.IH [of "Suc k"] Suc.prems(1) True bk by simp
  next
    case False
    define b where "b = block nd ! k"
    have b: "b \<in> set (dirSecs nd)" "b \<noteq> 0" using False k D(1) by (force simp: dirSecs_def in_set_conv_nth b_def)+
    have lba: "b < MAX_LBA" by (rule dirBlk_bounds(1) [OF vol D(4) [OF b(1)]])
    have wf: "length (dk b) = 512" using volWfD(1) [OF vol] by simp
    have ents: "\<forall>m < 21. entOk (deAt (dk b) m)" using D(6) entries_of [OF b(1)] by blast
    obtain xs ys where xy: "dirSecs nd = xs @ b # ys" using b(1) by (auto simp: in_set_conv_decomp)
    then have "length (filter (isEntry i) (sectorEntries (dk b))) \<le> length (filter (isEntry i) (dirEntries dk nd))"
      by (simp add: dirEntries_def)
    then have len: "length (filter (isEntry i) (sectorEntries (dk b))) \<le> 1" using e by simp
    define P where "P m \<longleftrightarrow> fileType (deAt (dk b) m) \<noteq> FT_UNKNOWN" for m
    define Q where "Q m \<longleftrightarrow> entName (deAt (dk b) m) = dotName" for m
    define M where "M m \<longleftrightarrow> P m \<and> \<not> Q m \<and> dino (deAt (dk b) m) = i" for m
    have ME: "M m \<longleftrightarrow> isEntry i (deAt (dk b) m)" for m by (auto simp: M_def P_def Q_def isEntry_def)
    have one: "\<forall>m < 21. \<forall>m' < 21. M m \<longrightarrow> M m' \<longrightarrow> m = m'"
      using two_matches [OF _ _ _ _ len] by (simp add: ME sectorEntries_nth)
    have scan: "scanEntries (dk b) i 21 0 (False, 0, None) =
      Inr (\<exists>m < 21. P m \<and> Q m, length (filter (\<lambda>m. P m \<and> \<not> Q m) [0..<21]), find M [0..<21])"
      using scanEntries_ok [OF wf ents, of 0 21 P Q M i None False 0] one by (simp add: P_def Q_def M_def)
    show ?thesis
    proof (cases "find M [0..<21]")
      case None
      then have no: "\<not> (\<exists>m < 21. isEntry i (deAt (dk b) m))" by (auto simp: find_None_iff ME)
      then have "\<exists>j < 12. Suc k \<le> j \<and> block nd ! j \<noteq> 0 \<and> (\<exists>m < 21. isEntry i (deAt (dk (block nd ! j)) m))"
        using Suc.prems(2) unfolding b_def by (metis Suc_leI le_neq_implies_less)
      then show ?thesis using Suc.IH [of "Suc k"] Suc.prems(1) False scan None bk lba sz by (simp add: b_def del: upt_Suc)
    next
      case (Some j)
      then have j: "j < 21" "M j" by (auto simp: find_Some_iff)
      have "deAt (dk b) j \<in> set (filter (isEntry i) (dirEntries dk nd))"
        using entries_of [OF b(1) j(1)] j(2) ME by simp
      then have ej: "deAt (dk b) j = e" unfolding e by simp
      have ep: "fileType e \<noteq> FT_UNKNOWN" "entName e \<noteq> dotName" using j(2) ej by (auto simp: M_def P_def Q_def)
      define c where "c = length (filter (\<lambda>m. P m \<and> \<not> Q m) [0..<21])"
      have "j \<in> set (filter (\<lambda>m. P m \<and> \<not> Q m) [0..<21])" using j by (simp add: M_def)
      then have c: "c \<ge> 1" unfolding c_def by (metis One_nat_def Suc_leI length_pos_if_in_set)
      define h where "h \<longleftrightarrow> (\<exists>m < 21. P m \<and> Q m)"
      have scan': "scanEntries (dk b) i 21 0 (False, 0, None) = Inr (h, c, Some j)" using scan Some by (simp add: h_def c_def)
      show ?thesis
      proof (cases "c = 1 \<and> \<not> h")
        case drop: True
        have "filter P [0..<21] = filter (\<lambda>m. P m \<and> \<not> Q m) [0..<21]" using drop by (intro filter_cong) (auto simp: h_def)
        then have "length (filter P [0..<21]) = 1" using drop by (simp add: c_def)
        then obtain x where x: "filter P [0..<21] = [x]" by (auto simp: length_Suc_conv)
        have "j \<in> set (filter P [0..<21])" using j by (simp add: M_def)
        then have "filter P [0..<21] = [j]" using x by simp
        moreover have "inUse (sectorEntries (dk b)) = map (deAt (dk b)) (filter P [0..<21])"
          unfolding sectorEntries_def filter_map o_def by (intro arg_cong [where f = "map (deAt (dk b))"] filter_cong) (auto simp: P_def)
        ultimately have S: "inUse (sectorEntries (dk b)) = [e]" using ej by simp
        have "b \<noteq> dataLbaStart (cursb s)"
        proof
          assume eq: "b = dataLbaStart (cursb s)"
          then have "dotName \<in> entName ` set (inUse (sectorEntries (dk b)))" using D(9) b(1) by (simp add: dotKept_def)
          then show False unfolding S using ep(2) by simp
        qed
        then have "usedBlk s bm b" using D(4) [OF b(1)] by (simp add: dirBlk_def)
        then obtain bm' dk' where f:
          "\<And>p nd. clearBit BLOCK_BITMAP (curPart s) (b - dataLbaStart (cursb s)) (fsUpd p nd bm dk s) = Inr (fsUpd p nd bm' dk s)"
          "\<And>p nd. bitMapSync (curPart s) (b - dataLbaStart (cursb s)) BLOCK_BITMAP (fsUpd p nd bm' dk s) = Inr (fsUpd p nd bm' dk' s)"
          "volWf s bm' dk'" "\<And>c. usedBlk s bm' c \<longleftrightarrow> usedBlk s bm c \<and> c \<noteq> b"
          "\<And>l. l \<noteq> blockBitMapLbaStart (cursb s) \<Longrightarrow> dk' l = dk l"
          by (rule free_ok [OF vol _ cap]) blast
        note r = dirRemoved_drop [OF vol ok k b_def [symmetric] b(2) S ep(2) f(3-5)]
        have "dropBlock (curPart s) d k blocks (fsUpd p nd bm dk s) = Inr (fsUpd p (nd\<lparr>block := (block nd)[k := 0]\<rparr>) bm' dk' s)"
          using f(1,2) k bk p by (simp add: dropBlock_def blockLbaToBitMapIdx_def setBlock_def updDirInode_def b_def)
        then have "deleteLoop (curPart s) d i blocks (Suc n) k (fsUpd p nd bm dk s) =
          rbind (inodeSync (curPart s) (nd\<lparr>block := (block nd)[k := 0], isize := isize nd - 24\<rparr>)
            (fsUpd p (nd\<lparr>block := (block nd)[k := 0], isize := isize nd - 24\<rparr>) bm' dk' s)) (\<lambda>s. Inr (True, s))"
          using scan' drop b(2) lba sz p bk r(2) by (simp add: b_def [symmetric] updDirInode_def)
        then show ?thesis using r(1) f(5) by blast
      next
        case wipe: False
        note r = dirRemoved_wipe [OF vol ok b(1) j(1) ej ep]
        have "deleteLoop (curPart s) d i blocks (Suc n) k (fsUpd p nd bm dk s) =
          rbind (inodeSync (curPart s) (nd\<lparr>isize := isize nd - 24\<rparr>) (fsUpd p (nd\<lparr>isize := isize nd - 24\<rparr>) bm
            (dk(b := overlay (dk b) (24 * j) (replicate 24 0))) s)) (\<lambda>s. Inr (True, s))"
          using scan' wipe c b(2) lba sz p bk wf j(1) r(2)
          by (cases h; cases "c = 1") (simp_all add: b_def [symmetric] updDirInode_def)
        moreover have "\<forall>l. unat l < unat (dataLbaStart (cursb s)) \<longrightarrow>
          (dk(b := overlay (dk b) (24 * j) (replicate 24 0))) l = dk l" using r(3) by simp
        ultimately show ?thesis using r(1) by blast
      qed
    qed
  qed
qed


lemma dirRemoved_low:
  assumes "dirRemoved s bm dk nd e bm' dk' nd'" "wfDisk dk''"
    and "\<And>l. unat (dataLbaStart (cursb s)) \<le> unat l \<Longrightarrow> dk'' l = dk' l"
  shows "dirRemoved s bm dk nd e bm' dk'' nd'"
proof -
  have r: "volWf s bm' dk'" "dirOk s bm' dk' nd'" using assms(1) by (simp_all add: dirRemoved_def)
  have same: "dk'' b = dk' b" if "b \<in> set (dirSecs nd')" for b
    using assms(3) dirBlk_bounds(3) [OF r(1) dirOkD(4) [OF r(2) that]] .
  have en: "dirEntries dk'' nd' = dirEntries dk' nd'"
    unfolding dirEntries_def using same by (intro arg_cong [where f = concat] map_cong) auto
  have "dotKept s dk'' nd' = dotKept s dk' nd'" using same [of "dataLbaStart (cursb s)"] by (auto simp: dotKept_def)
  then have "dirOk s bm' dk'' nd'" using r(2) same by (simp add: dirOk_def en)
  moreover have "volWf s bm' dk''" by (rule volWf_disk [OF r(1) assms(2)])
  moreover have "dk'' b = dk' b" if "usedBlk s bm b" for b
    using assms(3) usedBlk_bounds(1) [of s bm dk' b] that r(1) assms(1) by (auto simp: dirRemoved_def usedBlk_def)
  ultimately show ?thesis using assms(1) by (simp add: dirRemoved_def dirMap_def en)
qed

lemma dirSecs_nth: "b \<in> set (dirSecs nd) \<Longrightarrow> \<exists>j < 12. 0 \<le> j \<and> block nd ! j \<noteq> 0 \<and> b = block nd ! j"
  by (auto simp: dirSecs_def in_set_conv_nth)

section \<open>The root directory of the sample volume\<close>

definition demoDot :: "u8 list \<Rightarrow> DirEntry" where
  "demoDot nm = \<lparr>fileName = nm, dino = 0, fileType = FT_DIRECTORY\<rparr>"

lemma cstr_zeros [simp]: "cstr (replicate n 0) = []" "is_cstr (replicate n 0) \<longleftrightarrow> 0 < n"
  by (cases n; simp)+

lemma strcmp_zeros [simp]: "0 < n \<Longrightarrow> c \<noteq> 0 \<Longrightarrow> strcmp (replicate n 0 @ r) (c # q) =
   Inr (if sint c < 0 then 1 else - 1)"
  by (cases n) (auto simp: not_less_iff_gr_or_eq)

lemma demo_stray: "noStray demoFs (46 # q)"
proof -
  have e: "strcmp (drop n (replicate 8 0 @ heapAfter demoFs)) (46 # q) = Inr (- 1)" if "n < 1008" for n
  proof -
    have "drop n (replicate 8 0 @ heapAfter demoFs) = replicate (1008 - n) 0" using that by (simp flip: replicate_add)
    then show ?thesis using strcmp_zeros [of "1008 - n" 46 "[]" q] that by (simp only:) simp
  qed
  have "case strcmp (drop (24 * k) (replicate 8 0 @ heapAfter demoFs)) (46 # q) of Inl e \<Rightarrow> False | Inr c \<Rightarrow> c \<noteq> 0"
    if "k < 3" for k using e [of "24 * k"] that by (simp only:) simp
  then show ?thesis unfolding noStray_def list_all_iff by (auto simp del: demoFs_fields drop_append)
qed

lemma demo_sector: "sectorEntries demoSector = demoDot (46 # replicate 15 0) # demoDot (46 # 46 # replicate 14 0) # replicate 19 zeroDe"
proof -
  let ?a = "demoDot (46 # replicate 15 0)" and ?b = "demoDot (46 # 46 # replicate 14 0)"
  have "demoSector = overlay (overlay (replicate 512 0) (24 * 0) (encDe ?a)) (24 * 1) (encDe ?b)"
    by (simp add: demoSector_def demoDot_def overlay_def)
  also have "sectorEntries \<dots> = (sectorEntries (overlay (replicate 512 0) (24 * 0) (encDe ?a)))[1 := ?b]"
    by (rule sectorEntries_put) (simp_all add: demoDot_def)
  also have "sectorEntries (overlay (replicate 512 0) (24 * 0) (encDe ?a)) = (replicate 21 zeroDe)[0 := ?a]"
    using sectorEntries_put [of "replicate 512 0" 0 ?a] by (simp add: sectorEntries_zero demoDot_def)
  finally have s: "sectorEntries demoSector = (replicate 21 zeroDe)[0 := ?a, 1 := ?b]" .
  show ?thesis unfolding s by (rule nth_equalityI) (auto simp: nth_list_update nth_Cons')
qed

lemma demo_secs: "dirSecs demoRootInode = [612]"
  by (simp add: dirSecs_def demoRootInode_def)

lemma demo_entries: "dirEntries demoDisk demoRootInode =
   demoDot (46 # replicate 15 0) # demoDot (46 # 46 # replicate 14 0) # replicate 19 zeroDe"
  by (simp only: dirEntries_def demo_secs list.map concat.simps append_Nil2) (simp only: demoDisk_def refl if_True demo_sector)

lemma demo_inUse: "inUse (dirEntries demoDisk demoRootInode) = [demoDot (46 # replicate 15 0), demoDot (46 # 46 # replicate 14 0)]"
  unfolding demo_entries by (simp add: demoDot_def zeroDe_def)

lemma demo_dirMap: "dirMap demoDisk demoRootInode =
   [[46] \<mapsto> demoDot (46 # replicate 15 0), [46, 46] \<mapsto> demoDot (46 # 46 # replicate 14 0)]"
  unfolding dirMap_def demo_inUse by (auto simp: demoDot_def fun_eq_iff)

lemma demo_dirOk: "dirOk demoFs (blockBitMap demoPart) demoDisk demoRootInode"
proof -
  have "entOk e" if "e \<in> set (dirEntries demoDisk demoRootInode)" for e
    using that unfolding demo_entries by (auto simp: entOk_def demoDot_def zeroDe_def)
  moreover have "dotKept demoFs demoDisk demoRootInode"
    by (simp add: dotKept_def demo_secs demoDisk_def demo_sector dotName_def bytes_def demoDot_def)
  moreover have "drop 504 (demoDisk 612) = replicate 8 0" by (simp add: demoDisk_def demoSector_def)
  moreover have "distinct (map entName (inUse (dirEntries demoDisk demoRootInode)))"
    unfolding demo_inUse by (simp add: demoDot_def)
  moreover have "unat (isize demoRootInode) = 24 * length (inUse (dirEntries demoDisk demoRootInode))"
    unfolding demo_inUse by (simp add: demoRootInode_def)
  ultimately show ?thesis by (simp add: dirOk_def demo_secs dirBlk_def) (simp add: demoRootInode_def)
qed

lemma demo_vol: "volWf demoFs (blockBitMap (curp demoFs)) (cdisk demoFs)" "dirOk demoFs (blockBitMap (curp demoFs)) (cdisk demoFs) (dirInode d demoFs)"
  using demo_volWf demo_dirOk by (simp_all del: demoPart_fields(5))

section \<open>Properties of directories\<close>

text \<open>C36: searchDirEntry is the lookup of a name in the directory: it returns the entry with the name when there is
  one, and nothing otherwise, and gives its two buffers back. The strings behind the sector buffer, that the
  inner loop compares as well, are assumed to differ from the name.\<close>

theorem searchDirEntry_looks_up:
  assumes "volWf s (blockBitMap (curp s)) (cdisk s)" "dirOk s (blockBitMap (curp s)) (cdisk s) (dirInode d s)"
    and "dirEntrySize (cursb s) = 24" "is_cstr q" "cstr q \<noteq> []" "noStray s q"
    and "allocResult s (allocCnt s) \<noteq> NULLPTR" "allocResult s (allocCnt s + 1) \<noteq> NULLPTR"
  shows "searchDirEntry (curPart s) d q s =
    Inr (dirMap (cdisk s) (dirInode d s) (cstr q), s\<lparr>allocCnt := allocCnt s + 2\<rparr>)"
proof -
  note ok = dirOkD [OF assms(2)]
  let ?dk = "cdisk s" and ?nd = "dirInode d s"
  define ab buf where "ab = allocResult s (allocCnt s)" and "buf = allocResult s (allocCnt s + 1)"
  let ?s2 = "s\<lparr>allocCnt := allocCnt s + 2, bufs := buf # ab # bufs s\<rparr>"
  have m: "fsMalloc s = (ab, s\<lparr>allocCnt := allocCnt s + 1, bufs := ab # bufs s\<rparr>)"
    "fsMalloc (s\<lparr>allocCnt := allocCnt s + 1, bufs := ab # bufs s\<rparr>) = (buf, ?s2)"
    using assms(7,8) by (simp_all add: fsMalloc_def ab_def buf_def Let_def)
  have secs: "\<forall>b \<in> set (take 12 (block ?nd) @ replicate 128 0). b \<noteq> 0 \<longrightarrow> b < MAX_LBA \<and>
      drop 504 (?dk b) = replicate 8 0 \<and> (\<forall>i < 21. entOk (deAt (?dk b) i))"
  proof (intro ballI impI)
    fix b :: u32
    assume "b \<in> set (take 12 (block ?nd) @ replicate 128 0)" "b \<noteq> 0"
    then have "b \<in> set (dirSecs ?nd)" by (auto simp: dirSecs_def)
    then show "b < MAX_LBA \<and> drop 504 (?dk b) = replicate 8 0 \<and> (\<forall>i < 21. entOk (deAt (?dk b) i))"
      using ok(4-6) entries_of [of b ?nd _ ?dk] dirBlk_bounds(1) [OF assms(1), of b] by auto
  qed
  have nz: "ab \<noteq> NULLPTR" "buf \<noteq> NULLPTR" using assms(7,8) by (simp_all add: ab_def buf_def)
  have st: "noStray ?s2 q" using assms(6) by (simp add: noStray_def)
  obtain r where r: "searchBlocks (curPart s) buf q (take 12 (block ?nd) @ replicate 128 0) ?s2 = Inr r"
    "map_option decDe r = find (\<lambda>e. entName e = cstr q) (dirEntries ?dk ?nd)"
    using searchBlocks_ok [of ?s2 "curPart s" buf q "take 12 (block ?nd) @ replicate 128 0"] secs st assms(3,4,8) volWfD(1) [OF assms(1)]
    by (auto simp: buf_def dirEntries_def dirSecs_def)
  have "map_option decDe r = dirMap ?dk ?nd (cstr q)"
    unfolding r(2) dirMap_def using ok(6) by (intro find_named [OF _ assms(5)]) (auto simp: entOk_def)
  then show ?thesis
    using m r(1) nz ok(1,2) unfolding searchDirEntry_def by (simp add: loadBlocks_dir fsFree_def)
qed


theorem searchDirEntry_looks_up_witness:
  "searchDirEntry 0 0x2000 (bytes ''..'' @ [0]) demoFs = Inr (Some (demoDot (46 # 46 # replicate 14 0)), demoFs\<lparr>allocCnt := 2\<rparr>)"
proof -
  have "noStray demoFs (bytes ''..'' @ [0])" using demo_stray by (simp add: bytes_def)
  then show ?thesis
    using searchDirEntry_looks_up [OF demo_vol(1) demo_vol(2) [of "0x2000"], of "bytes ''..'' @ [0]"]
    by (simp add: bytes_def demo_dirMap)
qed







end
