(* ===== verification/ReadProps.thy ===== *)
theory ReadProps
  imports FileProps
begin

text \<open>
  Reading a file: fileRead returns the bytes of the contents from the position of the descriptor on.
\<close>

lemma overlay_overlay_append:
  assumes "k + length xs + length ys \<le> length zs"
  shows "overlay (overlay zs k xs) (k + length xs) ys = overlay zs k (xs @ ys)"
  using assms by (simp add: overlay_def ac_simps)

lemma take_drop_split:
  "n \<le> m \<Longrightarrow> take m (drop k xs) = take n (drop k xs) @ take (m - n) (drop (k + n) xs)"
  using take_add [of n "m - n" "drop k xs"] by (simp add: add.commute)

lemma fileBytes_chunk:
  assumes "wfDisk dk" "q < length bs" "off + n \<le> 512"
  shows "take n (drop (512 * q + off) (fileBytes dk bs)) = take n (drop off (dk (bs ! q)))"
proof -
  have l: "length (fileBytes dk (take q bs)) = 512 * q" "length (dk (bs ! q)) = 512"
    using assms(1,2) by (simp_all add: wfDisk_def)
  show ?thesis
    unfolding fileBytes_split [OF assms(1,2)] using l assms(3) by (simp add: take_add)
qed

lemma copyDirect_ok:
  "length ib = 13 \<Longrightarrow> length blocks = 140 \<Longrightarrow> k + n \<le> 13 \<Longrightarrow>
   copyDirect ib n k blocks = Inr (overlay blocks k (take n (drop k ib)))"
proof (induction n arbitrary: k blocks)
  case (Suc n)
  have "take (Suc n) (drop k ib) = ib ! k # take n (drop (Suc k) ib)"
    using Suc.prems by (simp add: Cons_nth_drop_Suc [symmetric])
  then show ?case using Suc by (simp add: rd_def wr_def overlay_Cons)
qed simp

text \<open>The array of blocks a read uses agrees with the block list of the file where it is looked at.\<close>

lemma readBlockTable_ok:
  assumes vol: "volWf s bm (cdisk s)" and ok: "blocksOk s bm (cdisk s) (inodes s p) m" and le: "start \<le> stop" "stop < m"
  shows "\<exists>B. readBlockTable p start stop s = Inr B \<and> length B = 140 \<and>
    (\<forall>j. start \<le> j \<and> j \<le> stop \<longrightarrow> B ! j = inodeBlocks (cdisk s) (inodes s p) ! j)"
proof -
  note o = blocksOkD [OF ok]
  let ?ib = "block (inodes s p)" and ?Z = "replicate 140 (0 :: u32)"
  have m: "m \<le> 140" using o(2) .
  have wf: "wfDisk (cdisk s)" using volWfD(1) [OF vol] .
  have tab: "?ib ! 12 < MAX_LBA" "?ib ! 12 \<noteq> 0" if "12 \<le> stop"
    using that le(2) o(4,6) usedBlk_bounds(2) [OF vol, of "?ib ! 12"] by (auto simp: owned_def)
  have load: "loadIndirect (?ib ! 12) b s = Inr (take 12 b @ wordsOf (cdisk s (?ib ! 12)))" if "12 \<le> stop" for b
    using tab(1) [OF that] by (simp add: loadIndirect_def)
  have nth: "inodeBlocks (cdisk s) (inodes s p) ! j =
      (if j < 12 then ?ib ! j else wordsOf (cdisk s (?ib ! 12)) ! (j - 12))" if "j \<le> stop" "12 \<le> stop" for j
    using o(1) tab(2) [OF that(2)] by (simp add: inodeBlocks_def nth_append)
  have low: "inodeBlocks (cdisk s) (inodes s p) ! j = ?ib ! j" if "j < 12" for j
    using inodeBlocks_direct [OF o(1) that] .
  have lw: "length (wordsOf (cdisk s (?ib ! 12))) = 128" using wf by simp
  consider (direct) "stop < 12" | (across) "start < 12" "12 \<le> stop" | (indirect) "12 \<le> start" using le by linarith
  then show ?thesis
  proof cases
    case direct
    have c: "copyDirect ?ib (stop + 1 - start) start ?Z = Inr (overlay ?Z start (take (stop + 1 - start) (drop start ?ib)))"
      using direct le o(1) by (intro copyDirect_ok) simp_all
    have "readBlockTable p start stop s = copyDirect ?ib (stop + 1 - start) start ?Z"
      using direct le by (simp add: readBlockTable_def Let_def)
    then show ?thesis using c direct le o(1) low by (auto simp: nth_overlay)
  next
    case across
    let ?B = "overlay ?Z start (take (12 - start) (drop start ?ib))"
    have c: "copyDirect ?ib (12 - start) start ?Z = Inr ?B"
      using across o(1) by (intro copyDirect_ok) simp_all
    have "readBlockTable p start stop s = Inr (take 12 ?B @ wordsOf (cdisk s (?ib ! 12)))"
      using across le c load tab by (simp add: readBlockTable_def Let_def)
    moreover have "length ?B = 140" using across o(1) by simp
    ultimately show ?thesis using across o(1) nth lw by (auto simp: nth_append nth_overlay)
  next
    case indirect
    then have s12: "12 \<le> stop" using le by simp
    have "readBlockTable p start stop s = Inr (take 12 ?Z @ wordsOf (cdisk s (?ib ! 12)))"
      using indirect s12 le load tab by (simp add: readBlockTable_def Let_def)
    then show ?thesis using indirect s12 nth lw by (auto simp: nth_append)
  qed
qed

lemma fileReadLoop_ok:
  assumes "wfDisk (cdisk s)" "length bs = 140" "length B = 140" "fi < length (fileTable s)"
    and "unat (fdPos (fileTable s ! fi)) = pos" "pos + left < 71680"
    and "\<And>j. pos div 512 \<le> j \<Longrightarrow> j \<le> stop \<Longrightarrow> B ! j = bs ! j" "\<And>j. j \<le> stop \<Longrightarrow> bs ! j < MAX_LBA"
    and "(pos + left) div 512 \<le> stop" "at + left \<le> length dst"
  shows "fileReadLoop fi B dst at left s =
    Inr (overlay dst at (take left (drop pos (fileBytes (cdisk s) bs))), updFile fi (\<lambda>f. f\<lparr>fdPos := fdPos f + of_nat left\<rparr>) s)"
  using assms
proof (induction left arbitrary: pos s dst at rule: less_induct)
  case (less left)
  note p = less.prems
  show ?case
  proof (cases "left = 0")
    case True
    have "updFile fi (\<lambda>f. f\<lparr>fdPos := fdPos f + of_nat 0\<rparr>) s = s" by (simp add: updFile_def)
    with True show ?thesis by (subst fileReadLoop.simps) simp
  next
    case False
    let ?q = "pos div 512" and ?off = "pos mod 512"
    let ?n = "min left (512 - ?off)"
    let ?F = "fileBytes (cdisk s) bs"
    have off: "?off < 512" "pos = 512 * ?q + ?off" by simp_all
    have n: "0 < ?n" "?n \<le> left" "?off + ?n \<le> 512" using False off by auto
    have q: "?q \<le> stop" using p(9) by (meson div_le_mono le_add1 order_trans)
    have q140: "?q < 140" using p(6) by (simp add: div_less_iff_less_mult)
    have qb: "B ! ?q = bs ! ?q" "bs ! ?q < MAX_LBA" using p(7,8) q by auto
    let ?s = "updFile fi (\<lambda>f. f\<lparr>fdPos := fdPos f + of_nat ?n\<rparr>) s"
    let ?c = "take ?n (drop ?off (cdisk s (bs ! ?q)))"
    have c: "?c = take ?n (drop pos ?F)"
      using fileBytes_chunk [OF p(1) _ n(3), of ?q bs] q140 p(2) off(2) by simp
    have lF: "length ?F = 71680" using p(1,2) by simp
    have lc: "length ?c = ?n" unfolding c using lF n(2) p(6) by simp
    have room: "\<not> length dst < at + ?n" using p(10) n(2) by linarith
    have step: "fileReadLoop fi B dst at left s = fileReadLoop fi B (overlay dst at ?c) (at + ?n) (left - ?n) ?s"
      using False qb room p(3) q140
      by (subst fileReadLoop.simps, simp only: Let_def p(5)) (simp add: rd_def)
    have pos': "unat (fdPos (fileTable ?s ! fi)) = pos + ?n"
      using p(4,5,6) n(2) by (simp add: updFile_def unat_add_small unat_of_nat_small)
    have same: "cdisk ?s = cdisk s" by simp
    have dec: "left - ?n < left" using n by simp
    have wf': "wfDisk (cdisk ?s)" using p(1) unfolding same .
    have fi': "fi < length (fileTable ?s)" using p(4) by simp
    have small: "pos + ?n + (left - ?n) < 71680" using p(6) n(2) by simp
    have B': "B ! j = bs ! j" if "(pos + ?n) div 512 \<le> j" "j \<le> stop" for j
      using that p(7) by (meson div_le_mono le_add1 order_trans)
    have stop': "(pos + ?n + (left - ?n)) div 512 \<le> stop" using p(9) n(2) by simp
    have room1: "at + ?n + (left - ?n) \<le> length dst" using p(10) n(2) by (simp only: add.assoc le_add_diff_inverse)
    have "at + length ?c \<le> length dst" unfolding lc using room1 by (rule order_trans [OF le_add1])
    then have "length (overlay dst at ?c) = length dst" by (rule length_overlay)
    then have room': "at + ?n + (left - ?n) \<le> length (overlay dst at ?c)" using room1 by simp
    have "fileReadLoop fi B (overlay dst at ?c) (at + ?n) (left - ?n) ?s =
        Inr (overlay (overlay dst at ?c) (at + ?n) (take (left - ?n) (drop (pos + ?n) ?F)),
          updFile fi (\<lambda>f. f\<lparr>fdPos := fdPos f + of_nat (left - ?n)\<rparr>) ?s)"
      using less.IH [OF dec wf' p(2,3) fi' pos' small B' p(8) stop' room'] unfolding same .
    moreover have "overlay (overlay dst at ?c) (at + ?n) (take (left - ?n) (drop (pos + ?n) ?F)) =
        overlay dst at (take left (drop pos ?F))"
    proof -
      have "take left (drop pos ?F) = take ?n (drop pos ?F) @ take (left - ?n) (drop (pos + ?n) ?F)"
        using n(2) by (rule take_drop_split)
      then have e: "take left (drop pos ?F) = ?c @ take (left - ?n) (drop (pos + ?n) ?F)" unfolding c .
      have "at + length ?c + length (take (left - ?n) (drop (pos + ?n) ?F)) \<le> length dst"
        unfolding lc using room1 by (rule order_trans [OF add_left_mono, rotated]) simp
      from overlay_overlay_append [OF this] show ?thesis unfolding e lc .
    qed
    moreover have "updFile fi (\<lambda>f. f\<lparr>fdPos := fdPos f + of_nat (left - ?n)\<rparr>) ?s =
        updFile fi (\<lambda>f. f\<lparr>fdPos := fdPos f + of_nat left\<rparr>) s"
    proof -
      have "(of_nat ?n :: u32) + of_nat (left - ?n) = of_nat left" using n(2) by (simp flip: of_nat_add)
      then show ?thesis using p(4) by (simp add: updFile_twice o_def add.assoc del: of_nat_diff of_nat_min)
    qed
    ultimately show ?thesis unfolding step by simp
  qed
qed

lemma fileRead_run:
  assumes "volWf s (blockBitMap (curp s)) (cdisk s)"
    and "fileOk s (blockBitMap (curp s)) (cdisk s) (inodes s p)"
    and "fi < length (fileTable s)" "fdInode (fileTable s ! fi) = p" "p \<noteq> NULLPTR"
    and "unat (fdPos (fileTable s ! fi)) = pos" "pos < unat (isize (inodes s p))" "pos + unat count < 2 ^ 32"
    and "n = min (unat count) (unat (isize (inodes s p)) - pos)" "n \<le> length buf"
    and "allocResult s (allocCnt s) = a" "allocResult s (Suc (allocCnt s)) = b" "a \<noteq> NULLPTR" "b \<noteq> NULLPTR"
  shows "fileRead fi buf count s =
    Inr (of_nat n, overlay buf 0 (take n (drop pos (fileContent (cdisk s) (inodes s p)))),
      (updFile fi (\<lambda>f. f\<lparr>fdPos := fdPos f + of_nat n\<rparr>) s)
        \<lparr>allocCnt := Suc (Suc (allocCnt s)), bufs := b # a # bufs s\<rparr>)"
proof -
  let ?nd = "inodes s p" and ?P = "fdPos (fileTable s ! fi)"
  let ?bs = "inodeBlocks (cdisk s) ?nd"
  let ?s1 = "s\<lparr>allocCnt := Suc (Suc (allocCnt s)), bufs := b # a # bufs s\<rparr>"
  have sz: "unat (isize ?nd) < 71680" using assms(2) by (simp add: fileOk_def)
  have psum: "unat (?P + count) = pos + unat count" using assms(6,8) by (simp add: unat_add_small)
  let ?size = "if isize ?nd < ?P + count then isize ?nd - ?P else count"
  have size: "?size = of_nat n" "unat ?size = n"
  proof -
    have "unat (isize ?nd - ?P) = unat (isize ?nd) - pos"
      using assms(6,7) by (simp add: unat_sub_if')
    then show "unat ?size = n" unfolding assms(9) word_less_nat_alt psum by simp
    then have "of_nat (unat ?size) = (of_nat n :: u32)" by (rule arg_cong)
    then show "?size = of_nat n" by (simp del: of_nat_numeral split del: if_split)
  qed
  have npos: "isize ?nd < ?P + count \<Longrightarrow> isize ?nd - ?P \<noteq> 0" using assms(6,7) by auto
  have n: "pos + n \<le> unat (isize ?nd)" using assms(7) unfolding assms(9) by linarith
  have cnt: "blockCount ?nd = unat (isize ?nd) div 512 + 1"
    using assms(2,7) by (auto simp: fileOk_def blockCount_def)
  have ok: "blocksOk s (blockBitMap (curp s)) (cdisk s) ?nd (blockCount ?nd)" using assms(2) by (simp add: fileOk_def)
  define start stop where "start = pos div 512" "stop = (pos + n) div 512"
  have le: "start \<le> stop" "stop < blockCount ?nd" "stop < 140"
    using n sz unfolding start_stop_def cnt by (auto simp: div_le_mono less_Suc_eq_le div_less_iff_less_mult)
  have words: "unat (?P div 512) = start" "unat ((?P + ?size) div 512) = stop"
  proof -
    show "unat (?P div 512) = start" using assms(6) by (simp add: unat_div start_stop_def)
    have "unat (?P + ?size) = pos + n" using n sz assms(6) size(2) by (subst unat_add_small) simp_all
    then show "unat ((?P + ?size) div 512) = stop" by (simp add: unat_div start_stop_def)
  qed
  have vol1: "volWf ?s1 (blockBitMap (curp s)) (cdisk ?s1)" "blocksOk ?s1 (blockBitMap (curp s)) (cdisk ?s1) (inodes ?s1 p) (blockCount ?nd)"
    using assms(1) ok same_volume [of ?s1 s] by simp_all
  obtain B where B: "readBlockTable p start stop ?s1 = Inr B" "length B = 140"
    "\<And>j. start \<le> j \<Longrightarrow> j \<le> stop \<Longrightarrow> B ! j = ?bs ! j"
    using readBlockTable_ok [OF vol1 le(1,2)] by auto
  have wf: "wfDisk (cdisk s)" using volWfD(1) [OF assms(1)] .
  have lb: "length ?bs = 140" using wf blocksOkD(1) [OF ok] by simp
  have lt: "?bs ! j < MAX_LBA" if "j \<le> stop" for j
    using blocksOk_used(1) [OF assms(1) ok, of j] usedBlk_bounds(2) [OF assms(1)] that le(2) by simp
  have pn: "pos + n < 71680" using n sz by simp
  have "fileReadLoop fi B buf 0 n ?s1 = Inr (overlay buf 0 (take n (drop pos (fileBytes (cdisk s) ?bs))),
      updFile fi (\<lambda>f. f\<lparr>fdPos := fdPos f + of_nat n\<rparr>) ?s1)"
    using fileReadLoop_ok [of ?s1 ?bs B fi pos n stop 0 buf] wf lb B(2,3) assms(3,6,10) lt pn
    by (simp add: start_stop_def)
  moreover have "take n (drop pos (fileBytes (cdisk s) ?bs)) = take n (drop pos (fileContent (cdisk s) ?nd))"
    using n by (simp add: fileContent_def drop_take)
  ultimately have loop: "fileReadLoop fi B buf 0 n ?s1 =
      Inr (overlay buf 0 (take n (drop pos (fileContent (cdisk s) ?nd))), (updFile fi (\<lambda>f. f\<lparr>fdPos := fdPos f + of_nat n\<rparr>) s)
        \<lparr>allocCnt := Suc (Suc (allocCnt s)), bufs := b # a # bufs s\<rparr>)"
    by (simp add: updFile_def)
  have guard: "\<not> (isize ?nd < ?P + count \<and> (of_nat n :: u32) = 0)"
    using npos size(1) by (metis (full_types))
  have w: "unat ((?P + of_nat n) div 512) = stop" "unat (of_nat n :: u32) = n"
    using words(2) size by simp_all
  have "start < 140" using le by simp
  then show ?thesis
    using assms(11-14) le(3) B(1) loop unfolding fileRead_def Let_def assms(4) fsMalloc_def size(1) if_not_P [OF guard]
    by (simp add: assms(5) deref_def words(1) w split del: if_split)
qed

text \<open>C21: fileRead reads: from a position before the end of the file it stores the next \<open>count\<close> bytes of
  the contents at the start of the buffer, or those up to the end of the file when there are fewer, returns
  their number and advances the position by it. Nothing else changes, except that its two buffers are
  never given back.\<close>

theorem fileRead_content:
  assumes "volWf s (blockBitMap (curp s)) (cdisk s)"
    and "fileOk s (blockBitMap (curp s)) (cdisk s) (inodes s p)"
    and "fi < length (fileTable s)" "fdInode (fileTable s ! fi) = p" "p \<noteq> NULLPTR"
    and "unat (fdPos (fileTable s ! fi)) = pos" "pos < unat (isize (inodes s p))" "pos + unat count < 2 ^ 32"
    and "n = min (unat count) (unat (isize (inodes s p)) - pos)" "n \<le> length buf"
    and "allocResult s (allocCnt s) = a" "allocResult s (Suc (allocCnt s)) = b" "a \<noteq> NULLPTR" "b \<noteq> NULLPTR"
  shows "fileRead fi buf count s =
    Inr (of_nat n, overlay buf 0 (take n (drop pos (fileContent (cdisk s) (inodes s p)))),
      (updFile fi (\<lambda>f. f\<lparr>fdPos := fdPos f + of_nat n\<rparr>) s)
        \<lparr>allocCnt := Suc (Suc (allocCnt s)), bufs := b # a # bufs s\<rparr>)"
  using assms by (rule fileRead_run)

text \<open>The sample volume with a file of five bytes.\<close>

definition readFs :: kfs where
  "readFs = demoFs\<lparr>inodes := (\<lambda>_. demoFileInode\<lparr>isize := 5, block := 613 # replicate 12 0\<rparr>),
     disks := (\<lambda>_. demoDisk(613 := [1, 2, 3, 4, 5] @ replicate 507 0)),
     parts := (\<lambda>_. demoPart\<lparr>blockBitMap := \<lparr>bm_length = 8, startAddr = 3 # replicate 1000 0\<rparr>\<rparr>)\<rparr>"

lemma readFs_used: "i < 64 \<Longrightarrow> bm_used \<lparr>bm_length = 8, startAddr = 3 # replicate 1000 0\<rparr> i \<longleftrightarrow> i < 2"
proof -
  assume "i < 64"
  then have "i \<in> set [0..<64]" by simp
  moreover have "list_all (\<lambda>i. bm_used \<lparr>bm_length = 8, startAddr = 3 # replicate 1000 0\<rparr> i \<longleftrightarrow> i < 2) [0..<64]"
    by (simp add: bm_used_def upt_rec bit_iff_odd nth_Cons')
  ultimately show ?thesis by (simp only: list_all_iff)
qed

lemma readFs_ok:
  "volWf readFs (blockBitMap (curp readFs)) (cdisk readFs)"
  "fileOk readFs (blockBitMap (curp readFs)) (cdisk readFs) (inodes readFs 0x4000)"
proof -
  show v: "volWf readFs (blockBitMap (curp readFs)) (cdisk readFs)"
    using readFs_used by (auto simp: readFs_def volWf_def bm_cap_def bm_wf_def wfDisk_def demoDisk_def demoSector_def)
  have "usedBlk readFs (blockBitMap (curp readFs)) 613"
    using readFs_used [of 1] by (auto simp: readFs_def usedBlk_def bm_cap_def intro!: exI [of _ 1])
  then show "fileOk readFs (blockBitMap (curp readFs)) (cdisk readFs) (inodes readFs 0x4000)"
    by (simp add: readFs_def fileOk_def demoFileInode_def blockCount_def blocksOk_def inodeBlocks_def owned_def nth_append nth_Cons')
qed

lemma readFs_fields [simp]:
  "fileTable readFs = fileTable demoFs" "isize (inodes readFs p) = 5" "allocResult readFs = allocResult demoFs"
  "allocCnt readFs = 0"
  by (simp_all add: readFs_def demoFileInode_def)

lemma readFs_content: "fileContent (cdisk readFs) (inodes readFs 0x4000) = [1, 2, 3, 4, 5]"
  by (simp add: readFs_def fileContent_def fileBytes_def inodeBlocks_def demoFileInode_def)

theorem fileRead_content_witness: "\<exists>s'. fileRead 3 [9, 9, 9, 9, 9, 9, 9, 9] 20 readFs = Inr (5, [1, 2, 3, 4, 5, 9, 9, 9], s')"
proof -
  let ?buf = "[9, 9, 9, 9, 9, 9, 9, 9] :: u8 list"
  have "fileRead 3 ?buf 20 readFs =
      Inr (of_nat 5, overlay ?buf 0 (take 5 (drop 0 (fileContent (cdisk readFs) (inodes readFs 0x4000)))),
        (updFile 3 (\<lambda>f. f\<lparr>fdPos := fdPos f + of_nat 5\<rparr>) readFs)
          \<lparr>allocCnt := Suc (Suc (allocCnt readFs)), bufs := 0x11000 # 0x10000 # bufs readFs\<rparr>)"
    by (rule fileRead_content [OF readFs_ok]) simp_all
  then show ?thesis unfolding readFs_content by (simp add: overlay_def)
qed

section \<open>Composition and errors\<close>

lemma take_1_drop: "k < length xs \<Longrightarrow> take 1 (drop k xs) = [xs ! k]"
  by (simp add: Cons_nth_drop_Suc [symmetric])

lemma length_fileContent:
  assumes "volWf s bm dk" "fileOk s bm dk nd"
  shows "length (fileContent dk nd) = unat (isize nd)"
proof -
  have "length (inodeBlocks dk nd) = 140" using assms by (simp add: fileOk_def blocksOk_def volWf_def)
  then show ?thesis using assms by (simp add: fileContent_def volWf_def fileOk_def)
qed

lemma updFile_alloc [simp]:
  "allocResult (updFile fi f s) = allocResult s" "allocCnt (updFile fi f s) = allocCnt s"
  "fi < length (fileTable s) \<Longrightarrow> fileTable (updFile fi f s) ! fi = f (fileTable s ! fi)"
  by (simp_all add: updFile_def)

lemma same_geometry:
  assumes "cursb s' = cursb s" "lbaStart (curp s') = lbaStart (curp s)" "secCnt (curp s') = secCnt (curp s)"
  shows "volWf s' = volWf s" "usedBlk s' = usedBlk s" "blocksOk s' = blocksOk s" "fileOk s' = fileOk s"
proof -
  show v: "volWf s' = volWf s" "usedBlk s' = usedBlk s" by (auto simp: volWf_def usedBlk_def assms intro!: ext)
  show b: "blocksOk s' = blocksOk s" by (auto simp: blocksOk_def v intro!: ext)
  show f: "fileOk s' = fileOk s" by (auto simp: fileOk_def b intro!: ext)
qed

text \<open>C22: a read right after a write does not continue behind the bytes written: fileWrite leaves the
  descriptor one byte before the end, so the read returns the last byte of the write.\<close>

theorem fileRead_after_fileWrite:
  assumes "volWf s (blockBitMap (curp s)) (cdisk s)"
    and "fileOk s (blockBitMap (curp s)) (cdisk s) (inodes s p)"
    and "fi < length (fileTable s)" "fdInode (fileTable s ! fi) = p" "p \<noteq> NULLPTR"
    and "unat (isize (inodes s p)) + unat count < 71680" "unat count \<le> length buf" "0 < count"
    and "unat count div 512 + 3 \<le> freeCnt (blockBitMap (curp s))"
    and "NULLPTR \<notin> set (map (\<lambda>n. allocResult s (allocCnt s + n)) [0..<4])" "0 < length dst" "0 < m" "unat m < 2 ^ 31"
  shows "\<exists>s1 s2. fileWrite fi buf count s = Inr (count, s1) \<and>
    fileRead fi dst m s1 = Inr (1, overlay dst 0 [buf ! (unat count - 1)], s2)"
proof -
  let ?nd = "inodes s p" and ?c = "take (unat count) buf"
  have al: "allocResult s (allocCnt s) \<noteq> NULLPTR" "allocResult s (allocCnt s + 1) \<noteq> NULLPTR"
    "allocResult s (Suc (Suc (allocCnt s))) \<noteq> NULLPTR" "allocResult s (Suc (Suc (Suc (allocCnt s)))) \<noteq> NULLPTR"
    using assms(10) by (simp_all add: upt_rec numeral_eq_Suc)
  obtain nd bm dk where w: "fileWrite fi buf count s = Inr (count, fsUpd p nd bm dk
      (updFile fi (\<lambda>f. f\<lparr>fdPos := isize nd - 1\<rparr>) (s\<lparr>allocCnt := Suc (Suc (allocCnt s))\<rparr>)))"
    "appended s (blockBitMap (curp s)) (cdisk s) ?nd ?c bm dk nd"
    using fileWrite_run [OF assms(1-7,9)] al by blast
  let ?s = "fsUpd p nd bm dk (updFile fi (\<lambda>f. f\<lparr>fdPos := isize nd - 1\<rparr>) (s\<lparr>allocCnt := Suc (Suc (allocCnt s))\<rparr>))"
  have lc: "length ?c = unat count" using assms(7) by simp
  have cnt: "0 < unat count" using assms(8) by (simp add: word_less_nat_alt)
  have nd: "nd = ?nd\<lparr>isize := isize ?nd + of_nat (length ?c), block := block nd\<rparr>"
    and ok: "volWf s bm dk" "fileOk s bm dk nd" and content: "fileContent dk nd = fileContent (cdisk s) ?nd @ ?c"
    using w(2) by (simp_all only: appended_def)
  have "isize nd = isize ?nd + of_nat (length ?c)" by (subst nd) simp
  then have sz: "unat (isize nd) = unat (isize ?nd) + unat count"
    using assms(6) unfolding lc by (simp add: unat_add_small)
  have fields: "blockBitMap (curp ?s) = bm" "cdisk ?s = dk" "inodes ?s p = nd" "length (fileTable ?s) = length (fileTable s)"
    "fdInode (fileTable ?s ! fi) = p" "allocResult ?s = allocResult s"
    using assms(3,4) by (simp_all add: fsUpd_def updFile_def)
  have vol: "volWf ?s bm dk" "fileOk ?s bm dk nd"
    using ok same_geometry [of ?s s] by (simp_all add: fsUpd_def)
  have pos: "unat (fdPos (fileTable ?s ! fi)) = unat (isize nd) - 1"
    using assms(3) sz cnt by (simp add: updFile_def unat_sub_if' word_le_nat_alt)
  have "fileRead fi dst m ?s = Inr (of_nat 1, overlay dst 0 (take 1 (drop (unat (isize nd) - 1) (fileContent dk nd))),
      (updFile fi (\<lambda>f. f\<lparr>fdPos := fdPos f + of_nat 1\<rparr>) ?s)\<lparr>allocCnt := Suc (Suc (allocCnt ?s)),
        bufs := allocResult s (Suc (allocCnt ?s)) # allocResult s (allocCnt ?s) # bufs ?s\<rparr>)"
    unfolding fields(6) [symmetric]
  proof (rule fileRead_run [of ?s p fi "unat (isize nd) - 1" m 1 dst, unfolded fields])
    have "0 < unat m" using assms(12) by (simp add: word_less_nat_alt)
    then show "1 = min (unat m) (unat (isize nd) - (unat (isize nd) - 1))" using sz cnt by simp
    show "unat (isize nd) - 1 + unat m < 2 ^ 32" using sz assms(6,13) by simp
    show "1 \<le> length dst" using assms(11) by linarith
  qed (use vol pos sz cnt assms(3,5) al in \<open>simp_all add: fields(5)\<close>)
  moreover have "take 1 (drop (unat (isize nd) - 1) (fileContent dk nd)) = [buf ! (unat count - 1)]"
  proof -
    have l: "length (fileContent (cdisk s) ?nd) = unat (isize ?nd)"
      by (rule length_fileContent [OF assms(1,2)])
    then have len: "length (fileContent dk nd) = unat (isize nd)" unfolding content using lc sz by simp
    have i: "unat (isize nd) - 1 = unat (isize ?nd) + (unat count - 1)" using sz cnt by linarith
    have "fileContent dk nd ! (unat (isize nd) - 1) = ?c ! (unat count - 1)"
      unfolding content i using l by (simp only: nth_append_length_plus [of "fileContent (cdisk s) ?nd", unfolded l])
    moreover have "?c ! (unat count - 1) = buf ! (unat count - 1)" using cnt by simp
    moreover have "unat (isize nd) - 1 < length (fileContent dk nd)" using len sz cnt by simp
    ultimately show ?thesis using take_1_drop [of "unat (isize nd) - 1" "fileContent dk nd"] by metis
  qed
  ultimately show ?thesis using w(1) by auto
qed

theorem fileRead_after_fileWrite_witness:
  "\<exists>s1 s2. fileWrite 3 [1, 2, 3, 4, 5] 5 demoFs = Inr (5, s1) \<and> fileRead 3 [0, 0] 2 s1 = Inr (1, [5, 0], s2)"
proof -
  let ?buf = "[1, 2, 3, 4, 5] :: u8 list"
  have "\<exists>s1 s2. fileWrite 3 ?buf 5 demoFs = Inr (5, s1) \<and>
      fileRead 3 [0, 0] 2 s1 = Inr (1, overlay [0, 0] 0 [?buf ! (unat (5 :: u32) - 1)], s2)"
  proof (rule fileRead_after_fileWrite [where p = "0x4000"])
    show "volWf demoFs (blockBitMap (curp demoFs)) (cdisk demoFs)" using demo_volWf by (simp del: demoPart_fields(5))
    show "fileOk demoFs (blockBitMap (curp demoFs)) (cdisk demoFs) (inodes demoFs 0x4000)"
      using demo_fileOk by (simp del: demoPart_fields(5))
    show "unat (5 :: u32) div 512 + 3 \<le> freeCnt (blockBitMap (curp demoFs))"
      using demo_freeCnt by (simp del: demoPart_fields(5))
    show "NULLPTR \<notin> set (map (\<lambda>n. allocResult demoFs (allocCnt demoFs + n)) [0..<4])" by (simp add: upt_rec)
  qed (simp_all add: demoFileInode_def)
  then show ?thesis by (simp add: overlay_def)
qed

text \<open>a write that would bring a file to exactly the maximal size of 71680 bytes passes the size test
  at the start of fileWrite and panics on the number of blocks.\<close>

theorem fileWrite_panics_at_max:
  assumes "fdInode (fileTable s ! fi) = p" "p \<noteq> NULLPTR" "isize (inodes s p) + count = 71680"
    and "block (inodes s p) ! 0 \<noteq> 0"
    and "allocResult s (allocCnt s) \<noteq> NULLPTR" "allocResult s (allocCnt s + 1) \<noteq> NULLPTR"
  shows "fileWrite fi buf count s = Inl (Panic ''fileWillUseBlocks < 140'')"
  using assms by (simp add: fileWrite_def Let_def fsMalloc_def deref_def firstBlock_def writeBlocks_def)

theorem fileWrite_panics_at_max_witness:
  "fileWrite 3 [1] 71675 readFs = Inl (Panic ''fileWillUseBlocks < 140'')"
  using fileWrite_panics_at_max [where s = readFs and p = "0x4000" and fi = 3 and buf = "[1]" and count = 71675]
  by (simp add: readFs_def demoFileInode_def)

text \<open>closing a descriptor that was opened for reading takes the write lock of the inode away from a
  descriptor that writes: the inode stays open, its \<open>writeDeny\<close> is cleared, and fileOpen then admits a
  second writer.\<close>

theorem fileClose_lifts_write_lock:
  assumes "fdInode (fileTable s ! fi) = p" "p \<noteq> NULLPTR" "1 < openCnt (inodes s p)" "writeDeny (inodes s p)"
  shows "\<exists>s'. fileClose fi s = Inr (0, s') \<and> openCnt (inodes s' p) = openCnt (inodes s p) - 1 \<and>
    \<not> writeDeny (inodes s' p) \<and> (\<forall>fj. fj \<noteq> fi \<longrightarrow> fileTable s' ! fj = fileTable s ! fj)"
proof -
  have o: "openCnt (inodes s p) - 1 \<noteq> 0" using assms(3) by auto
  show ?thesis
    using assms o by (simp add: fileClose_def Let_def deref_def inodeClose_def updFile_def updInode_def setIntrStatus_def
        enableIntr_def disableIntr_def)
qed

theorem fileClose_lifts_write_lock_witness:
  "\<exists>s'. fileClose 3 (updInode 0x4000 (\<lambda>n. n\<lparr>openCnt := 2, writeDeny := True\<rparr>) demoFs) = Inr (0, s') \<and>
     \<not> writeDeny (inodes s' 0x4000)"
  using fileClose_lifts_write_lock [of "updInode 0x4000 (\<lambda>n. n\<lparr>openCnt := 2, writeDeny := True\<rparr>) demoFs" 3 "0x4000"]
  by (auto simp: updInode_def)

end
