(* ===== verification/Ide.thy ===== *)
theory Ide
  imports Layout
begin

text \<open>
  The disk driver, device/ide.c: the commands it gives the ATA controller through its ports, the
  interrupt handler, the identification of a disk and the scan of its partition tables.
  The controller is not code of the kernel: its ports, its interrupt line and the time it takes
  are the functions of \<open>ATAPorts\<close>, over a state \<open>'d\<close> of its own, and \<open>ataOk\<close> states the part of the
  ATA documentation the driver relies on. The driver of one channel runs under the lock of the
  channel, so that its semaphore \<open>diskDone\<close> and its lock are kept as values here; the full
  semaphores, with the queues of blocked threads, are in the theory Sched.
\<close>

section \<open>The controller\<close>

record 'd ATAPorts =
  outbP :: "u16 \<Rightarrow> u8 \<Rightarrow> 'd \<Rightarrow> 'd"
  inbP :: "u16 \<Rightarrow> 'd \<Rightarrow> u8 \<times> 'd"
  inswP :: "u16 \<Rightarrow> nat \<Rightarrow> 'd \<Rightarrow> u8 list \<times> 'd"
  outswP :: "u16 \<Rightarrow> u8 list \<Rightarrow> 'd \<Rightarrow> 'd"
  irqWait :: "'d \<Rightarrow> 'd option"  \<comment> \<open>until the interrupt line is raised, None when it never is\<close>
  sleepP :: "'d \<Rightarrow> 'd"  \<comment> \<open>10 milliseconds pass\<close>

record 'd IDEChannel =
  cname :: "u8 list"
  expectingIntr :: bool
  intrNo :: u8
  portBase :: u16
  chLocked :: bool
  diskDone :: u8
  ctl :: 'd

definition outb :: "'d ATAPorts \<Rightarrow> u16 \<Rightarrow> u8 \<Rightarrow> 'd IDEChannel \<Rightarrow> 'd IDEChannel" where
  "outb hw reg v c = c\<lparr>ctl := outbP hw (portBase c + reg) v (ctl c)\<rparr>"

definition inb :: "'d ATAPorts \<Rightarrow> u16 \<Rightarrow> 'd IDEChannel \<Rightarrow> u8 \<times> 'd IDEChannel" where
  "inb hw reg c = (let (v, d) = inbP hw (portBase c + reg) (ctl c) in (v, c\<lparr>ctl := d\<rparr>))"

section \<open>Commands\<close>

abbreviation (input) regData :: u16 where "regData \<equiv> 0"
abbreviation (input) regSectCnt :: u16 where "regSectCnt \<equiv> 2"
abbreviation (input) regLbaL :: u16 where "regLbaL \<equiv> 3"
abbreviation (input) regLbaM :: u16 where "regLbaM \<equiv> 4"
abbreviation (input) regLbaH :: u16 where "regLbaH \<equiv> 5"
abbreviation (input) regDev :: u16 where "regDev \<equiv> 6"
abbreviation (input) regStatus :: u16 where "regStatus \<equiv> 7"

abbreviation (input) BIT_STAT_BSY :: u8 where "BIT_STAT_BSY \<equiv> 0x80"
abbreviation (input) BIT_STAT_DRQ :: u8 where "BIT_STAT_DRQ \<equiv> 0x8"
abbreviation (input) CMD_IDENTIFY :: u8 where "CMD_IDENTIFY \<equiv> 0xec"
abbreviation (input) CMD_READ_SECTOR :: u8 where "CMD_READ_SECTOR \<equiv> 0x20"
abbreviation (input) CMD_WRITE_SECTOR :: u8 where "CMD_WRITE_SECTOR \<equiv> 0x30"

definition slaveBit :: "u8 \<Rightarrow> u8" where
  "slaveBit devNo = (if devNo = 1 then 0x10 else 0)"

definition selectDisk :: "'d ATAPorts \<Rightarrow> u8 \<Rightarrow> 'd IDEChannel \<Rightarrow> 'd IDEChannel" where
  "selectDisk hw devNo c = outb hw regDev (0xa0 OR 0x40 OR slaveBit devNo) c"

definition selectSector :: "'d ATAPorts \<Rightarrow> u8 \<Rightarrow> u32 \<Rightarrow> u8 \<Rightarrow> 'd IDEChannel \<Rightarrow> 'd IDEChannel res" where
  "selectSector hw devNo lba cnt c =
     assertC ''lba < MAX_LBA'' (lba < MAX_LBA)
     (let c = outb hw regSectCnt cnt c;
          c = outb hw regLbaL (ucast lba) c;
          c = outb hw regLbaM (ucast (drop_bit 8 lba)) c;
          c = outb hw regLbaH (ucast (drop_bit 16 lba)) c;
          c = outb hw regDev (ucast (drop_bit 24 lba OR 0xa0 OR 0x40 OR ucast (slaveBit devNo))) c
      in Inr c)"

definition cmdOut :: "'d ATAPorts \<Rightarrow> u8 \<Rightarrow> 'd IDEChannel \<Rightarrow> 'd IDEChannel" where
  "cmdOut hw cmd c = outb hw regStatus cmd (c\<lparr>expectingIntr := True\<rparr>)"

definition sizeInByte :: "u8 \<Rightarrow> nat" where
  "sizeInByte cnt = (if cnt = 0 then 256 * 512 else unat cnt * 512)"

definition readSector :: "'d ATAPorts \<Rightarrow> u8 \<Rightarrow> 'd IDEChannel \<Rightarrow> u8 list \<times> 'd IDEChannel" where
  "readSector hw cnt c =
     (let (sec, d) = inswP hw (portBase c + regData) (sizeInByte cnt div 2) (ctl c)
      in (sec, c\<lparr>ctl := d\<rparr>))"

definition writeSector :: "'d ATAPorts \<Rightarrow> u8 list \<Rightarrow> u8 \<Rightarrow> 'd IDEChannel \<Rightarrow> 'd IDEChannel res" where
  "writeSector hw buf cnt c =
     (if length buf < sizeInByte cnt then Inl OutOfBounds
      else Inr (c\<lparr>ctl := outswP hw (portBase c + regData) (take (sizeInByte cnt) buf) (ctl c)\<rparr>))"

text \<open>\<open>busyWait\<close> polls the status every 10 of 30000 milliseconds.\<close>

fun busyLoop :: "'d ATAPorts \<Rightarrow> nat \<Rightarrow> 'd IDEChannel \<Rightarrow> bool \<times> 'd IDEChannel" where
  "busyLoop hw 0 c = (False, c)"
| "busyLoop hw (Suc rounds) c =
     (let (st, c) = inb hw regStatus c in
      if st AND BIT_STAT_BSY = 0 then (let (st, c) = inb hw regStatus c in (st AND BIT_STAT_DRQ \<noteq> 0, c))
      else busyLoop hw rounds (c\<lparr>ctl := sleepP hw (ctl c)\<rparr>))"

definition busyWait :: "'d ATAPorts \<Rightarrow> 'd IDEChannel \<Rightarrow> bool \<times> 'd IDEChannel" where
  "busyWait hw c = busyLoop hw (30 * 1000 div 10) c"

section \<open>The interrupt\<close>

definition diskSemaUp :: "'d IDEChannel \<Rightarrow> 'd IDEChannel res" where
  "diskSemaUp c = assertC ''sema->value == 0'' (diskDone c = 0) (Inr (c\<lparr>diskDone := 1\<rparr>))"

definition intrHdHandler :: "'d ATAPorts \<Rightarrow> u8 \<Rightarrow> 'd IDEChannel \<Rightarrow> 'd IDEChannel res" where
  "intrHdHandler hw no c =
     assertC ''intrNo == 0x2e || intrNo == 0x2f'' (no = 0x2e \<or> no = 0x2f)
     (assertC ''channel->intrNo == intrNo'' (intrNo c = no)
     (if expectingIntr c
      then rbind (diskSemaUp (c\<lparr>expectingIntr := False\<rparr>)) (\<lambda>c. Inr (snd (inb hw regStatus c)))
      else Inr c))"

text \<open>\<open>semaDown(&channel->diskDone)\<close>: without a unit the thread sleeps until the interrupt comes.\<close>

definition diskSemaDown :: "'d ATAPorts \<Rightarrow> 'd IDEChannel \<Rightarrow> 'd IDEChannel res" where
  "diskSemaDown hw c =
     (if diskDone c \<noteq> 0 then assertC ''sema->value == 0'' (diskDone c = 1) (Inr (c\<lparr>diskDone := 0\<rparr>))
      else case irqWait hw (ctl c) of None \<Rightarrow> Inl Blocks
      | Some d \<Rightarrow> rbind (intrHdHandler hw (intrNo c) (c\<lparr>ctl := d\<rparr>)) (\<lambda>c.
          if diskDone c = 0 then Inl Blocks else Inr (c\<lparr>diskDone := 0\<rparr>)))"

definition chLock :: "'d IDEChannel \<Rightarrow> 'd IDEChannel res" where
  "chLock c = (if chLocked c then Inl Blocks else Inr (c\<lparr>chLocked := True\<rparr>))"

definition chUnlock :: "'d IDEChannel \<Rightarrow> 'd IDEChannel" where
  "chUnlock c = c\<lparr>chLocked := False\<rparr>"

section \<open>Reading and writing\<close>

definition secsPerLoop :: "nat \<Rightarrow> nat \<Rightarrow> nat" where
  "secsPerLoop secsDone cnt = (if secsDone + 256 \<le> cnt then 256 else cnt - secsDone)"

function ideReadLoop :: "'d ATAPorts \<Rightarrow> u8 \<Rightarrow> u32 \<Rightarrow> nat \<Rightarrow> nat \<Rightarrow> u8 list \<Rightarrow> 'd IDEChannel \<Rightarrow> (u8 list \<times> 'd IDEChannel) res" where
  "ideReadLoop hw devNo lba cnt secsDone buf c =
     (if \<not> secsDone < cnt then Inr (buf, c) else
      (let per = secsPerLoop secsDone cnt in
       rbind (selectSector hw devNo (lba + of_nat secsDone) (of_nat per) c) (\<lambda>c.
       rbind (diskSemaDown hw (cmdOut hw CMD_READ_SECTOR c)) (\<lambda>c.
       (let (ready, c) = busyWait hw c in
       if \<not> ready then Inl (Panic ''read sector failed'') else
       (let (sec, c) = readSector hw (of_nat per) c in
        ideReadLoop hw devNo lba cnt (secsDone + per) (buf @ sec) c))))))"
  by pat_completeness auto
termination
  by (relation "measure (\<lambda>(_, _, _, cnt, secsDone, _, _). cnt - secsDone)") (auto simp: secsPerLoop_def)

declare ideReadLoop.simps [simp del]

definition ideReadPorts :: "'d ATAPorts \<Rightarrow> u8 \<Rightarrow> u32 \<Rightarrow> nat \<Rightarrow> 'd IDEChannel \<Rightarrow> (u8 list \<times> 'd IDEChannel) res" where
  "ideReadPorts hw devNo lba cnt c =
     assertC ''lba < MAX_LBA'' (lba < MAX_LBA)
     (assertC ''secCnt > 0'' (cnt > 0)
     (rbind (chLock c) (\<lambda>c.
      rbind (ideReadLoop hw devNo lba cnt 0 [] (selectDisk hw devNo c)) (\<lambda>(buf, c).
      Inr (buf, chUnlock c)))))"

function ideWriteLoop :: "'d ATAPorts \<Rightarrow> u8 \<Rightarrow> u32 \<Rightarrow> u8 list \<Rightarrow> nat \<Rightarrow> nat \<Rightarrow> 'd IDEChannel \<Rightarrow> 'd IDEChannel res" where
  "ideWriteLoop hw devNo lba buf cnt secsDone c =
     (if \<not> secsDone < cnt then Inr c else
      (let per = secsPerLoop secsDone cnt in
       rbind (selectSector hw devNo (lba + of_nat secsDone) (of_nat per) c) (\<lambda>c.
       (let (ready, c) = busyWait hw (cmdOut hw CMD_WRITE_SECTOR c) in
       if \<not> ready then Inl (Panic ''write sector failed'') else
       rbind (writeSector hw (drop (512 * secsDone) buf) (of_nat per) c) (\<lambda>c.
       rbind (diskSemaDown hw c) (\<lambda>c.
       ideWriteLoop hw devNo lba buf cnt (secsDone + per) c))))))"
  by pat_completeness auto
termination
  by (relation "measure (\<lambda>(_, _, _, _, cnt, secsDone, _). cnt - secsDone)") (auto simp: secsPerLoop_def)

declare ideWriteLoop.simps [simp del]

definition ideWritePorts :: "'d ATAPorts \<Rightarrow> u8 \<Rightarrow> u32 \<Rightarrow> u8 list \<Rightarrow> nat \<Rightarrow> 'd IDEChannel \<Rightarrow> 'd IDEChannel res" where
  "ideWritePorts hw devNo lba buf cnt c =
     assertC ''lba < MAX_LBA'' (lba < MAX_LBA)
     (assertC ''secCnt > 0'' (cnt > 0)
     (rbind (chLock c) (\<lambda>c.
      rbind (ideWriteLoop hw devNo lba buf cnt 0 (selectDisk hw devNo c)) (\<lambda>c.
      Inr (chUnlock c)))))"

end
