(* ===== verification/IdeScan.thy ===== *)
theory IdeScan
  imports Ide
begin

text \<open>
  Finding the disks and their partitions, device/ide.c: identifyDisk, partitionScan and ideInit. A
  sector that the scan reads comes from \<open>ideRead\<close> of the theory Disk, which the port protocol of
  the theory Ide implements. The partition objects of disk \<open>dv\<close> have the names \<open>primPart dv i\<close> and
  \<open>logicPart dv i\<close>.
\<close>

section \<open>Identification\<close>

text \<open>The loop of \<open>swapPairsBytes\<close>: \<open>n\<close> rounds from index \<open>idx\<close> on.\<close>

fun swapLoop :: "u8 list \<Rightarrow> u8 list \<Rightarrow> nat \<Rightarrow> nat \<Rightarrow> u8 list res" where
  "swapLoop src dst idx 0 = wr dst idx 0"
| "swapLoop src dst idx (Suc n) =
     rbind (rd src idx) (\<lambda>a. rbind (wr dst (idx + 1) a) (\<lambda>dst.
     rbind (rd src (idx + 1)) (\<lambda>b. rbind (wr dst idx b) (\<lambda>dst.
     swapLoop src dst (idx + 2) n))))"

definition swapPairsBytes :: "u8 list \<Rightarrow> u8 list \<Rightarrow> nat \<Rightarrow> u8 list res" where
  "swapPairsBytes src dst len = swapLoop src dst 0 ((len + 1) div 2)"

text \<open>What \<open>identifyDisk\<close> prints: serial number, model, sectors and megabytes.\<close>

record DiskInfo =
  diSN :: "u8 list"
  diModule :: "u8 list"
  diSectors :: u32
  diCapacity :: u32

definition identifyDisk :: "'d ATAPorts \<Rightarrow> u8 \<Rightarrow> u8 list \<Rightarrow> 'd IDEChannel \<Rightarrow> (DiskInfo \<times> 'd IDEChannel) res" where
  "identifyDisk hw devNo junk c =
     (let c = cmdOut hw CMD_IDENTIFY (selectDisk hw devNo c) in
      rbind (diskSemaDown hw c) (\<lambda>c.
      (let (ready, c) = busyWait hw c in
      if \<not> ready then Inl (Panic ''identify failed'') else
      (let (info, c) = readSector hw 1 c in
      rbind (swapPairsBytes (drop 20 info) junk 20) (\<lambda>sn.
      rbind (swapPairsBytes (drop (27 * 2) info) (replicate 64 0) 40) (\<lambda>md.
      (let sectors = rd32 info (60 * 2) in
      Inr (\<lparr>diSN = take 20 sn, diModule = take 40 md, diSectors = sectors,
             diCapacity = sectors * 512 div 1024 div 1024\<rparr>, c))))))))"

section \<open>Partitions\<close>

record DiskDev =
  dname :: "u8 list"
  devNo :: u8

record 'd kide = kfs +
  chans :: "nat \<Rightarrow> 'd IDEChannel"
  hds :: "nat \<Rightarrow> DiskDev"
  extLbaBase :: u32
  pno :: u8
  lno :: u8

definition primPart :: "nat \<Rightarrow> nat \<Rightarrow> nat" where "primPart dv i = 12 * dv + i"
definition logicPart :: "nat \<Rightarrow> nat \<Rightarrow> nat" where "logicPart dv i = 12 * dv + 4 + i"

text \<open>The entry \<open>i\<close> of the partition table in a boot sector.\<close>

record PartitionTableEntry =
  fsType :: u8
  startLba :: u32
  pteSecCnt :: u32

definition partitionEntry :: "u8 list \<Rightarrow> nat \<Rightarrow> PartitionTableEntry" where
  "partitionEntry bs i =
     \<lparr>fsType = bs ! (446 + 16 * i + 4), startLba = rd32 bs (446 + 16 * i + 8), pteSecCnt = rd32 bs (446 + 16 * i + 12)\<rparr>"

definition addPartition :: "nat \<Rightarrow> nat \<Rightarrow> u32 \<Rightarrow> u32 \<Rightarrow> u32 \<Rightarrow> ('d, 'a) kide_scheme \<Rightarrow> ('d, 'a) kide_scheme res" where
  "addPartition dv k lba cnt num s =
     (let s = updPart k (\<lambda>p. p\<lparr>lbaStart := lba, secCnt := cnt, pdisk := dv\<rparr>) s;
          s = s\<lparr>partitionList := partitionList s @ [k]\<rparr>
      in rbind (sprintf (pname (parts s k)) (bytes ''%s%d'' @ [0]) [VStr (dname (hds s dv)), VInt num])
           (\<lambda>nm. Inr (updPart k (\<lambda>p. p\<lparr>pname := nm\<rparr>) s)))"

text \<open>\<open>partitionScan\<close> with its loop over the entries. A chain of extended partitions may be circular: the
  result is None when the fuel ends.\<close>

fun partitionScan :: "nat \<Rightarrow> nat \<Rightarrow> u32 \<Rightarrow> ('d, 'a) kide_scheme \<Rightarrow> ('d, 'a) kide_scheme res option"
  and scanTable :: "nat \<Rightarrow> nat \<Rightarrow> u32 \<Rightarrow> u8 list \<Rightarrow> u32 \<Rightarrow> nat \<Rightarrow> ('d, 'a) kide_scheme \<Rightarrow> ('d, 'a) kide_scheme res option"
where
  "partitionScan 0 dv extLba s = None"
| "partitionScan (Suc fuel) dv extLba s =
     (let (bs, s) = fsMalloc s in
      if bs = NULLPTR then Some (Inl OutOfBounds) else
      case ideRead dv extLba 1 s of Inl e \<Rightarrow> Some (Inl e)
      | Inr sec \<Rightarrow> scanTable fuel dv extLba sec bs 4 s)"
| "scanTable fuel dv extLba sec bs 0 s = Some (fsFree bs s)"
| "scanTable fuel dv extLba sec bs (Suc n) s =
     (let p = partitionEntry sec (3 - n) in
      if fsType p = 0x5 then
        (let r = (if extLbaBase s \<noteq> 0 then partitionScan fuel dv (startLba p + extLbaBase s) s
                  else partitionScan fuel dv (startLba p) (s\<lparr>extLbaBase := startLba p\<rparr>))
         in case r of None \<Rightarrow> None | Some (Inl e) \<Rightarrow> Some (Inl e)
            | Some (Inr s) \<Rightarrow> scanTable fuel dv extLba sec bs n s)
      else if fsType p \<noteq> 0 then
        (if extLba = 0 then
           (if unat (pno s) \<ge> 4 then Some (Inl OutOfBounds) else
            case addPartition dv (primPart dv (unat (pno s))) (startLba p) (pteSecCnt p) (ucast (pno s) + 1) s of
              Inl e \<Rightarrow> Some (Inl e)
            | Inr s \<Rightarrow> (let s = s\<lparr>pno := pno s + 1\<rparr> in
                if \<not> pno s < 4 then Some (Inl (Panic ''pno < 4''))
                else scanTable fuel dv extLba sec bs n s))
         else
           (if unat (lno s) \<ge> 8 then Some (Inl OutOfBounds) else
            case addPartition dv (logicPart dv (unat (lno s))) (extLba + startLba p) (pteSecCnt p) (ucast (lno s) + 5) s of
              Inl e \<Rightarrow> Some (Inl e)
            | Inr s \<Rightarrow> (let s = s\<lparr>lno := lno s + 1\<rparr> in
                if lno s \<ge> 8 then Some (Inr s)
                else scanTable fuel dv extLba sec bs n s)))
      else scanTable fuel dv extLba sec bs n s)"

declare partitionScan.simps [simp del] scanTable.simps [simp del]

text \<open>One call of \<open>printPartitionInfo\<close>: the text for the console.\<close>

definition printPartitionInfo :: "nat \<Rightarrow> ('d, 'a) kide_scheme \<Rightarrow> u8 list res" where
  "printPartitionInfo k s =
     printk (bytes ''        %s startLba:%d , secCnt:%d'' @ [10, 0])
       [VStr (pname (parts s k)), VInt (lbaStart (parts s k)), VInt (secCnt (parts s k))]"

section \<open>ideInit\<close>

definition updChan :: "nat \<Rightarrow> ('d IDEChannel \<Rightarrow> 'd IDEChannel) \<Rightarrow> ('d, 'a) kide_scheme \<Rightarrow> ('d, 'a) kide_scheme" where
  "updChan ch f s = s\<lparr>chans := (chans s)(ch := f (chans s ch))\<rparr>"

definition initChannel :: "u8 \<Rightarrow> ('d, 'a) kide_scheme \<Rightarrow> ('d, 'a) kide_scheme res" where
  "initChannel channelNo s =
     rbind (sprintf (cname (chans s (unat channelNo))) (bytes ''ide%d'' @ [0]) [VInt (ucast channelNo)]) (\<lambda>nm.
     Inr (updChan (unat channelNo) (\<lambda>c.
       (if channelNo = 0 then c\<lparr>portBase := 0x1f0, intrNo := 0x20 + 14\<rparr>
        else if channelNo = 1 then c\<lparr>portBase := 0x170, intrNo := 0x20 + 15\<rparr> else c)
       \<lparr>cname := nm, expectingIntr := False, chLocked := False, diskDone := 0\<rparr>) s))"

text \<open>One round of the loop over the disks, on the channel \<open>channelNo\<close>.\<close>

definition initDisk :: "'d ATAPorts \<Rightarrow> nat \<Rightarrow> u8 \<Rightarrow> u8 \<Rightarrow> ('d, 'a) kide_scheme \<Rightarrow> ('d, 'a) kide_scheme res option" where
  "initDisk hw fuel channelNo dev s =
     (let ch = unat channelNo; dv = 2 * ch + unat (dev mod 2) in
      case sprintf (dname (hds s dv)) (bytes ''sd%c'' @ [0]) [VInt (97 + ucast channelNo * 2 + ucast dev)] of
        Inl e \<Rightarrow> Some (Inl e)
      | Inr nm \<Rightarrow>
      (let s = s\<lparr>hds := (hds s)(dv := \<lparr>dname = nm, devNo = dev\<rparr>)\<rparr> in
      case identifyDisk hw dev (junkBytes ''buf'' 64 s) (chans s ch) of Inl e \<Rightarrow> Some (Inl e)
      | Inr (info, c) \<Rightarrow>
      (let s = updChan ch (\<lambda>_. c) s in
       if dev \<noteq> 0 then partitionScan fuel dv 0 (s\<lparr>pno := 0, lno := 0\<rparr>) else Some (Inr s))))"

fun initDisks :: "'d ATAPorts \<Rightarrow> nat \<Rightarrow> u8 \<Rightarrow> nat \<Rightarrow> nat \<Rightarrow> ('d, 'a) kide_scheme \<Rightarrow> ('d, 'a) kide_scheme res option" where
  "initDisks hw fuel channelNo dev 0 s = Some (Inr s)"
| "initDisks hw fuel channelNo dev (Suc n) s =
     (case initDisk hw fuel channelNo (of_nat dev) s of None \<Rightarrow> None | Some (Inl e) \<Rightarrow> Some (Inl e)
      | Some (Inr s) \<Rightarrow> initDisks hw fuel channelNo (Suc dev) n s)"

text \<open>The loop over the channels. The index of the disk is not reset for the next channel, so that the first
  one takes all disks.\<close>

fun initChannels :: "'d ATAPorts \<Rightarrow> nat \<Rightarrow> nat \<Rightarrow> nat \<Rightarrow> nat \<Rightarrow> nat \<Rightarrow> ('d, 'a) kide_scheme \<Rightarrow> ('d, 'a) kide_scheme res option" where
  "initChannels hw fuel hdCnt channelNo dev 0 s = Some (Inr s)"
| "initChannels hw fuel hdCnt channelNo dev (Suc n) s =
     (if channelNo \<ge> 2 then Some (Inl OutOfBounds) else
      case initChannel (of_nat channelNo) s of Inl e \<Rightarrow> Some (Inl e)
      | Inr s \<Rightarrow> (case initDisks hw fuel (of_nat channelNo) dev (hdCnt - dev) s of
          None \<Rightarrow> None | Some (Inl e) \<Rightarrow> Some (Inl e)
        | Some (Inr s) \<Rightarrow> initChannels hw fuel hdCnt (Suc channelNo) (max dev hdCnt) n s))"

text \<open>\<open>ideInit\<close> for the number of disks the BIOS left at 0x475.\<close>

definition ideInit :: "'d ATAPorts \<Rightarrow> nat \<Rightarrow> u8 \<Rightarrow> ('d, 'a) kide_scheme \<Rightarrow> ('d, 'a) kide_scheme res option" where
  "ideInit hw fuel hdCnt s =
     (if \<not> hdCnt > 0 then Some (Inl (Panic ''hdCnt > 0''))
      else initChannels hw fuel (unat hdCnt) 0 0 (unat (DIV_ROUND_UP (ucast hdCnt) 2)) (s\<lparr>partitionList := []\<rparr>))"

end
