(* ===== verification/ScanProps.thy ===== *)
theory ScanProps
  imports IdeScan InodeInv
begin

text \<open>
  Finding the partitions of a disk: what partitionScan enters for a partition table with a chain of logical
  partitions.
\<close>

section \<open>Names of partitions\<close>

definition partName :: "u8 list \<Rightarrow> nat \<Rightarrow> u8 list" where
  "partName dn n = (let t = cstr dn @ projr (itoa (of_nat n)) in t @ replicate (8 - length t) 0)"

lemma digits_small:
  assumes "0 < n" "n \<le> 12"
  shows "length (projr (itoa (of_nat n))) \<le> 2" "0 \<notin> set (projr (itoa (of_nat n)))" "\<not> sint (of_nat n :: u32) < 0"
proof -
  have "n \<in> {1, 2, 3, 4, 5, 6, 7, 8, 9, 10, 11, 12}" using assms by simp arith
  then have "length (projr (itoa (of_nat n))) \<le> 2 \<and> \<not> sint (of_nat n :: u32) < 0"
    by (elim insertE emptyE) (simp_all add: itoa_def digitLoop.simps)
  moreover have "0 \<notin> set (projr (itoa (of_nat n)))" using itoa_ok [of "of_nat n"] by (auto dest!: bspec [of _ _ 0])
  ultimately show "length (projr (itoa (of_nat n))) \<le> 2" "0 \<notin> set (projr (itoa (of_nat n)))" "\<not> sint (of_nat n :: u32) < 0"
    by simp_all
qed

lemma sprintf_part:
  assumes "is_cstr dn" "length (cstr dn) \<le> 3" "0 < n" "n \<le> 12"
  shows "sprintf (replicate 8 0) (bytes ''%s%d'' @ [0]) [VStr dn, VInt (of_nat n)] = Inr (partName dn n)"
proof -
  note d = digits_small [OF assms(3,4)]
  have "render (bytes ''%s%d'') [VStr dn, VInt (of_nat n)] = Some (cstr dn @ projr (itoa (of_nat n)))"
    using assms(1) d(3) by (simp add: bytes_def piece_def)
  moreover have "0 \<notin> set (bytes ''%s%d'')" by (simp add: bytes_def)
  moreover have "0 \<notin> set (cstr dn @ projr (itoa (of_nat n)))" using d(2) cstr_nonzero [of dn] by simp
  ultimately show ?thesis
    using vsprintf_render [of "bytes ''%s%d''" _ "cstr dn @ projr (itoa (of_nat n))" 8 "[]"] d(1) assms(2)
    by (simp add: sprintf_def partName_def Let_def)
qed

section \<open>Entering a partition\<close>

definition newPart :: "nat \<Rightarrow> u32 \<times> u32 \<Rightarrow> u8 list \<Rightarrow> Partition \<Rightarrow> Partition" where
  "newPart dv e nm p = p\<lparr>lbaStart := fst e, secCnt := snd e, pdisk := dv, pname := nm\<rparr>"

definition enter :: "nat \<Rightarrow> nat \<Rightarrow> u32 \<times> u32 \<Rightarrow> nat \<Rightarrow> ('d, 'a) kide_scheme \<Rightarrow> ('d, 'a) kide_scheme" where
  "enter dv k e n s = s\<lparr>parts := (parts s)(k := newPart dv e (partName (dname (hds s dv)) n) (parts s k)),
     partitionList := partitionList s @ [k]\<rparr>"

lemma addPartition_enter:
  assumes "is_cstr (dname (hds s dv))" "length (cstr (dname (hds s dv))) \<le> 3" "0 < n" "n \<le> 12"
    "pname (parts s k) = replicate 8 0"
  shows "addPartition dv k lba cnt (of_nat n) s = Inr (enter dv k (lba, cnt) n s)"
  using sprintf_part [OF assms(1-4)] assms(5)
  by (simp add: addPartition_def Let_def updPart_def enter_def newPart_def del: of_nat_numeral)

definition enterLog :: "nat \<Rightarrow> u32 \<times> u32 \<Rightarrow> ('d, 'a) kide_scheme \<Rightarrow> ('d, 'a) kide_scheme" where
  "enterLog dv e s = (enter dv (logicPart dv (unat (lno s))) e (unat (lno s) + 5) s)\<lparr>lno := lno s + 1\<rparr>"

definition enterPrim :: "nat \<Rightarrow> u32 \<times> u32 \<Rightarrow> ('d, 'a) kide_scheme \<Rightarrow> ('d, 'a) kide_scheme" where
  "enterPrim dv e s = (enter dv (primPart dv (unat (pno s))) e (unat (pno s) + 1) s)\<lparr>pno := pno s + 1\<rparr>"

text \<open>The parts of the state the scan does not use.\<close>

definition mem :: "nat \<Rightarrow> u32 list \<Rightarrow> ('d, 'a) kide_scheme \<Rightarrow> ('d, 'a) kide_scheme" where
  "mem c bs s = s\<lparr>allocCnt := c, bufs := bs\<rparr>"

lemma mem_fields [simp]:
  "parts (mem c bs s) = parts s" "partitionList (mem c bs s) = partitionList s" "hds (mem c bs s) = hds s"
  "disks (mem c bs s) = disks s" "lno (mem c bs s) = lno s" "pno (mem c bs s) = pno s" "extLbaBase (mem c bs s) = extLbaBase s"
  "allocResult (mem c bs s) = allocResult s" "bufs (mem c bs s) = bs" "allocCnt (mem c bs s) = c" "mem c bs (mem c' bs' s) = mem c bs s"
  by (simp_all add: mem_def)

lemma enterLog_mem [simp]: "enterLog dv e (mem c bs s) = mem c bs (enterLog dv e s)"
  by (rule kide.equality) (simp_all add: enterLog_def enter_def mem_def del: pap_papOf)

lemma enterPrim_mem [simp]: "enterPrim dv e (mem c bs s) = mem c bs (enterPrim dv e s)"
  by (rule kide.equality) (simp_all add: enterPrim_def enter_def mem_def del: pap_papOf)

lemma enterLogs_mem [simp]: "fold (enterLog dv) ps (mem c bs s) = mem c bs (fold (enterLog dv) ps s)"
  by (induction ps arbitrary: s) simp_all

lemma enter_fields [simp]:
  "disks (enterLog dv e s) = disks s" "hds (enterLog dv e s) = hds s" "extLbaBase (enterLog dv e s) = extLbaBase s"
  "allocResult (enterLog dv e s) = allocResult s" "bufs (enterLog dv e s) = bufs s" "allocCnt (enterLog dv e s) = allocCnt s"
  "lno (enterLog dv e s) = lno s + 1" "pno (enterLog dv e s) = pno s"
  "disks (enterPrim dv e s) = disks s" "hds (enterPrim dv e s) = hds s" "extLbaBase (enterPrim dv e s) = extLbaBase s"
  "allocResult (enterPrim dv e s) = allocResult s" "bufs (enterPrim dv e s) = bufs s" "allocCnt (enterPrim dv e s) = allocCnt s"
  "pno (enterPrim dv e s) = pno s + 1" "lno (enterPrim dv e s) = lno s"
  by (simp_all add: enterLog_def enterPrim_def enter_def)

lemma enterLogs_fields [simp]:
  "disks (fold (enterLog dv) ps s) = disks s" "hds (fold (enterLog dv) ps s) = hds s"
  "extLbaBase (fold (enterLog dv) ps s) = extLbaBase s" "allocResult (fold (enterLog dv) ps s) = allocResult s"
  "bufs (fold (enterLog dv) ps s) = bufs s" "allocCnt (fold (enterLog dv) ps s) = allocCnt s"
  "pno (fold (enterLog dv) ps s) = pno s"
  by (induction ps arbitrary: s) simp_all

text \<open>What the scan relies on: the name of the disk, empty names of the partitions, memory for the sectors.\<close>

definition scanOk :: "nat \<Rightarrow> ('d, 'a) kide_scheme \<Rightarrow> bool" where
  "scanOk dv s \<longleftrightarrow> is_cstr (dname (hds s dv)) \<and> length (cstr (dname (hds s dv))) \<le> 3 \<and>
     (\<forall>i < 4. unat (pno s) \<le> i \<longrightarrow> pname (parts s (primPart dv i)) = replicate 8 0) \<and>
     (\<forall>i < 8. unat (lno s) \<le> i \<longrightarrow> pname (parts s (logicPart dv i)) = replicate 8 0) \<and>
     (\<forall>n. allocResult s n \<noteq> NULLPTR)"

lemma scanOk_mem [simp]: "scanOk dv (mem c bs s) = scanOk dv s"
  by (simp add: scanOk_def)

lemma scanOk_ext [simp]: "scanOk dv (s\<lparr>extLbaBase := x\<rparr>) = scanOk dv s"
  by (simp add: scanOk_def)

lemma part_inj [simp]:
  "primPart dv i = primPart dv j \<longleftrightarrow> i = j" "logicPart dv i = logicPart dv j \<longleftrightarrow> i = j"
  "i < 4 \<Longrightarrow> primPart dv i \<noteq> logicPart dv j" "i < 4 \<Longrightarrow> logicPart dv j \<noteq> primPart dv i"
  by (simp_all add: primPart_def logicPart_def)

lemma unat_Suc8: "unat (x :: u8) < n \<Longrightarrow> n \<le> 255 \<Longrightarrow> unat (x + 1) = Suc (unat x)"
  by (simp add: unat_word_ariths)

lemma scanOk_log: "scanOk dv s \<Longrightarrow> unat (lno s) < 8 \<Longrightarrow> scanOk dv (enterLog dv e s)"
  using unat_Suc8 [of "lno s" 8] by (simp add: scanOk_def enterLog_def enter_def)

lemma scanOk_prim: "scanOk dv s \<Longrightarrow> unat (pno s) < 4 \<Longrightarrow> scanOk dv (enterPrim dv e s)"
  using unat_Suc8 [of "pno s" 4] by (simp add: scanOk_def enterPrim_def enter_def)

section \<open>The chain of logical partitions\<close>

abbreviation ptab :: "(u32 \<Rightarrow> u8 list) \<Rightarrow> u32 \<Rightarrow> nat \<Rightarrow> PartitionTableEntry" where
  "ptab dk lba i \<equiv> partitionEntry (dk lba) i"

text \<open>The logical partitions from the sector \<open>lba\<close> on, in at most \<open>n\<close> links: the first entry of a table is a logical
  partition, relative to the table; the second is empty or links to the next table, relative to the start
  of the extended partition.\<close>

fun logicals :: "(u32 \<Rightarrow> u8 list) \<Rightarrow> u32 \<Rightarrow> nat \<Rightarrow> u32 \<Rightarrow> (u32 \<times> u32) list option" where
  "logicals dk base 0 lba = None"
| "logicals dk base (Suc n) lba =
     (if lba = 0 \<or> \<not> lba < MAX_LBA \<or> fsType (ptab dk lba 0) \<in> {0, 5} \<or> fsType (ptab dk lba 2) \<noteq> 0 \<or> fsType (ptab dk lba 3) \<noteq> 0 then None
      else let e = (lba + startLba (ptab dk lba 0), pteSecCnt (ptab dk lba 0)) in
        if fsType (ptab dk lba 1) = 0 then Some [e]
        else if fsType (ptab dk lba 1) = 5 then map_option ((#) e) (logicals dk base n (startLba (ptab dk lba 1) + base))
        else None)"

lemma fsMalloc_mem:
  "allocResult s (allocCnt s) \<noteq> NULLPTR \<Longrightarrow>
   fsMalloc s = (allocResult s (allocCnt s), mem (allocCnt s + 1) (allocResult s (allocCnt s) # bufs s) s)"
  by (simp add: fsMalloc_def Let_def mem_def)

lemma mem_id: "mem (allocCnt s) (bufs s) s = s"
  by (simp add: mem_def)

lemma fsFree_mem: "b \<noteq> NULLPTR \<Longrightarrow> fsFree b (mem c (b # bs) s) = Inr (mem c bs s)"
  by (simp add: fsFree_def mem_def)

text \<open>One entry of a table, \<open>n\<close> more to come.\<close>

lemma scan_none: "fsType (partitionEntry sec (3 - n)) = 0 \<Longrightarrow> scanTable f dv lba sec b (Suc n) s = scanTable f dv lba sec b n s"
  by (simp add: scanTable.simps)

lemma scan_end: "b \<noteq> NULLPTR \<Longrightarrow> scanTable f dv lba sec b 0 (mem c (b # bs) s) = Some (Inr (mem c bs s))"
  by (simp add: scanTable.simps fsFree_mem)

lemma scan_log:
  assumes "fsType (partitionEntry sec (3 - n)) = t" "t \<noteq> 0" "t \<noteq> 5" "lba \<noteq> 0" "unat (lno s) < 7" "scanOk dv s"
  shows "scanTable f dv lba sec b (Suc n) s = scanTable f dv lba sec b n
    (enterLog dv (lba + startLba (partitionEntry sec (3 - n)), pteSecCnt (partitionEntry sec (3 - n))) s)"
proof -
  let ?e = "(lba + startLba (partitionEntry sec (3 - n)), pteSecCnt (partitionEntry sec (3 - n)))"
  have l: "\<not> 8 \<le> lno s + 1" "\<not> 8 \<le> unat (lno s)"
    using assms(5) unat_Suc8 [of "lno s" 7] by (simp_all add: word_le_nat_alt)
  have "addPartition dv (logicPart dv (unat (lno s))) (fst ?e) (snd ?e) (of_nat (unat (lno s) + 5)) s =
    Inr (enter dv (logicPart dv (unat (lno s))) ?e (unat (lno s) + 5) s)"
    using addPartition_enter [of s dv "unat (lno s) + 5" "logicPart dv (unat (lno s))" "fst ?e" "snd ?e"] assms(5,6)
    by (simp add: scanOk_def)
  then have "addPartition dv (logicPart dv (unat (lno s))) (fst ?e) (snd ?e) (ucast (lno s) + 5) s =
    Inr (enter dv (logicPart dv (unat (lno s))) ?e (unat (lno s) + 5) s)"
    by (simp add: of_nat_unat)
  moreover have "lno (enter dv k e m s) = lno s" for k e m by (simp add: enter_def)
  ultimately show ?thesis
    unfolding scanTable.simps(2) Let_def assms(1) using assms(2-4) l by (simp add: enterLog_def)
qed

lemma scan_prim:
  assumes "fsType (partitionEntry sec (3 - n)) = t" "t \<noteq> 0" "t \<noteq> 5" "unat (pno s) < 3" "scanOk dv s"
  shows "scanTable f dv 0 sec b (Suc n) s = scanTable f dv 0 sec b n
    (enterPrim dv (startLba (partitionEntry sec (3 - n)), pteSecCnt (partitionEntry sec (3 - n))) s)"
proof -
  let ?e = "(startLba (partitionEntry sec (3 - n)), pteSecCnt (partitionEntry sec (3 - n)))"
  have l: "pno s + 1 < 4" "\<not> 4 \<le> unat (pno s)"
    using assms(4) unat_Suc8 [of "pno s" 3] by (simp_all add: word_less_nat_alt)
  have "addPartition dv (primPart dv (unat (pno s))) (fst ?e) (snd ?e) (of_nat (unat (pno s) + 1)) s =
    Inr (enter dv (primPart dv (unat (pno s))) ?e (unat (pno s) + 1) s)"
    using addPartition_enter [of s dv "unat (pno s) + 1" "primPart dv (unat (pno s))" "fst ?e" "snd ?e"] assms(4,5)
    by (simp add: scanOk_def)
  then have "addPartition dv (primPart dv (unat (pno s))) (fst ?e) (snd ?e) (ucast (pno s) + 1) s =
    Inr (enter dv (primPart dv (unat (pno s))) ?e (unat (pno s) + 1) s)"
    by (simp add: of_nat_unat add.commute)
  moreover have "pno (enter dv k e m s) = pno s" for k e m by (simp add: enter_def)
  ultimately show ?thesis
    unfolding scanTable.simps(2) Let_def assms(1) using assms(2,3) l by (simp add: enterPrim_def)
qed

lemma scan_link:
  assumes "fsType (partitionEntry sec (3 - n)) = 5"
    and "partitionScan f dv (startLba (partitionEntry sec (3 - n)) + extLbaBase s)
      (if extLbaBase s \<noteq> 0 then s else s\<lparr>extLbaBase := startLba (partitionEntry sec (3 - n))\<rparr>) = Some (Inr s')"
  shows "scanTable f dv lba sec b (Suc n) s = scanTable f dv lba sec b n s'"
  unfolding scanTable.simps(2) Let_def assms(1) using assms(2) by (cases "extLbaBase s = 0") simp_all

lemma scan_chain:
  assumes "logicals (disks s dv) (extLbaBase s) n lba = Some ps" "extLbaBase s \<noteq> 0" "scanOk dv s"
    "unat (lno s) + length ps < 8" "n < fuel"
  shows "partitionScan fuel dv lba s = Some (Inr (mem (allocCnt s + length ps) (bufs s) (fold (enterLog dv) ps s)))"
  using assms
proof (induction n arbitrary: lba ps s fuel)
  case 0
  then show ?case by simp
next
  case (Suc n)
  obtain f where f: "fuel = Suc f" "n < f" using Suc.prems(5) by (cases fuel) auto
  let ?dk = "disks s dv"
  let ?e = "(lba + startLba (ptab ?dk lba 0), pteSecCnt (ptab ?dk lba 0))"
  have t: "lba \<noteq> 0" "lba < MAX_LBA" "fsType (ptab ?dk lba 0) \<noteq> 0" "fsType (ptab ?dk lba 0) \<noteq> 5"
    "fsType (ptab ?dk lba 2) = 0" "fsType (ptab ?dk lba 3) = 0"
    using Suc.prems(1) by (auto split: if_splits)
  define b where "b = allocResult s (allocCnt s)"
  have b: "b \<noteq> NULLPTR" using Suc.prems(3) by (simp add: b_def scanOk_def)
  let ?s1 = "mem (allocCnt s + 1) (b # bufs s) s" and ?s2 = "mem (allocCnt s + 1) (b # bufs s) (enterLog dv ?e s)"
  have "0 < length ps" using Suc.prems(1) by (auto simp: Let_def split: if_splits)
  then have lno: "unat (lno s) < 7" using Suc.prems(4) by linarith
  have lno': "unat (lno s + 1) = Suc (unat (lno s))" using lno by (intro unat_Suc8 [of _ 7]) simp_all
  have ok1: "scanOk dv (enterLog dv ?e s)" using scanOk_log [OF Suc.prems(3)] lno by simp
  have "partitionScan fuel dv lba s = scanTable f dv lba (?dk lba) b (Suc 3) ?s1"
    using t(2) b fsMalloc_mem [of s] by (simp add: f(1) partitionScan.simps b_def Let_def)
  also have "\<dots> = scanTable f dv lba (?dk lba) b (Suc 2) ?s2"
    using scan_log [of "?dk lba" 3 _ lba ?s1 dv f b, OF refl] t lno Suc.prems(3) by simp
  finally have start: "partitionScan fuel dv lba s = scanTable f dv lba (?dk lba) b (Suc 2) ?s2" .
  have fin: "scanTable f dv lba (?dk lba) b 2 (mem c (b # bs) x) = Some (Inr (mem c bs x))" for c bs x
  proof -
    let ?y = "mem c (b # bs) x"
    have "scanTable f dv lba (?dk lba) b (Suc 1) ?y = scanTable f dv lba (?dk lba) b 1 ?y"
      "scanTable f dv lba (?dk lba) b (Suc 0) ?y = scanTable f dv lba (?dk lba) b 0 ?y"
      using t(5,6) by (intro scan_none; simp)+
    then show ?thesis by (simp add: numeral_2_eq_2 scan_end [OF b])
  qed
  show ?case
  proof (cases "fsType (ptab ?dk lba 1) = 0")
    case True
    then have "ps = [?e]" using Suc.prems(1) t by (simp add: Let_def)
    moreover have "scanTable f dv lba (?dk lba) b (Suc 2) ?s2 = scanTable f dv lba (?dk lba) b 2 ?s2"
      using True by (intro scan_none) simp
    ultimately show ?thesis unfolding start by (simp add: fin)
  next
    case False
    then obtain qs where q: "fsType (ptab ?dk lba 1) = 5" "logicals ?dk (extLbaBase s) n (startLba (ptab ?dk lba 1) + extLbaBase s) = Some qs"
      "ps = ?e # qs" using Suc.prems(1) t by (auto simp: Let_def split: if_splits)
    have "partitionScan f dv (startLba (ptab ?dk lba 1) + extLbaBase s) ?s2 =
      Some (Inr (mem (allocCnt ?s2 + length qs) (bufs ?s2) (fold (enterLog dv) qs ?s2)))"
      using q Suc.prems(2-4) ok1 lno' by (intro Suc.IH [OF _ _ _ _ f(2)]) simp_all
    then have "scanTable f dv lba (?dk lba) b (Suc 2) ?s2 = scanTable f dv lba (?dk lba) b 2
        (mem (allocCnt ?s2 + length qs) (bufs ?s2) (fold (enterLog dv) qs ?s2))"
      using q(1) Suc.prems(2) by (intro scan_link) simp_all
    then show ?thesis unfolding start q(3) by (simp add: fin)
  qed
qed


section \<open>The table of the disk\<close>

text \<open>The partitions in the order the scan enters them: the primary ones on the left, those of the extended partition,
  which may be at any place, on the right.\<close>

fun tableParts :: "(u32 \<Rightarrow> u8 list) \<Rightarrow> nat \<Rightarrow> nat list \<Rightarrow> (u32 \<times> u32 + (u32 \<times> u32) list) list option" where
  "tableParts dk m [] = Some []"
| "tableParts dk m (i # is) =
     (if fsType (ptab dk 0 i) = 0 then tableParts dk m is
      else if fsType (ptab dk 0 i) = 5 then
        (case logicals dk (startLba (ptab dk 0 i)) m (startLba (ptab dk 0 i)) of None \<Rightarrow> None
         | Some ps \<Rightarrow> map_option ((#) (Inr ps)) (tableParts dk m is))
      else map_option ((#) (Inl (startLba (ptab dk 0 i), pteSecCnt (ptab dk 0 i)))) (tableParts dk m is))"

definition prims :: "(u32 \<times> u32 + (u32 \<times> u32) list) list \<Rightarrow> (u32 \<times> u32) list" where
  "prims xs = concat (map (\<lambda>x. case x of Inl e \<Rightarrow> [e] | Inr ps \<Rightarrow> []) xs)"

definition logs :: "(u32 \<times> u32 + (u32 \<times> u32) list) list \<Rightarrow> (u32 \<times> u32) list" where
  "logs xs = concat (map (\<lambda>x. case x of Inl e \<Rightarrow> [] | Inr ps \<Rightarrow> ps) xs)"

lemma prims_logs [simp]:
  "prims [] = []" "prims (Inl e # xs) = e # prims xs" "prims (Inr ps # xs) = prims xs"
  "logs [] = []" "logs (Inl e # xs) = logs xs" "logs (Inr ps # xs) = ps @ logs xs"
  by (simp_all add: prims_def logs_def)

text \<open>What entering a list of partitions does.\<close>

definition entered :: "nat \<Rightarrow> (u32 \<times> u32) list \<Rightarrow> (u32 \<times> u32) list \<Rightarrow> ('d, 'a) kide_scheme \<Rightarrow> ('d, 'a) kide_scheme \<Rightarrow> bool" where
  "entered dv ps ls s s' \<longleftrightarrow>
     unat (pno s') = unat (pno s) + length ps \<and> unat (lno s') = unat (lno s) + length ls \<and>
     (\<forall>i < length ps. parts s' (primPart dv (unat (pno s) + i)) = newPart dv (ps ! i)
        (partName (dname (hds s dv)) (unat (pno s) + i + 1)) (parts s (primPart dv (unat (pno s) + i)))) \<and>
     (\<forall>i < length ls. parts s' (logicPart dv (unat (lno s) + i)) = newPart dv (ls ! i)
        (partName (dname (hds s dv)) (unat (lno s) + i + 5)) (parts s (logicPart dv (unat (lno s) + i)))) \<and>
     (\<forall>k. k \<notin> (\<lambda>i. primPart dv (unat (pno s) + i)) ` {..<length ps} \<union> (\<lambda>i. logicPart dv (unat (lno s) + i)) ` {..<length ls} \<longrightarrow>
        parts s' k = parts s k) \<and>
     (\<exists>ks. partitionList s' = partitionList s @ ks \<and> distinct ks \<and>
        set ks = (\<lambda>i. primPart dv (unat (pno s) + i)) ` {..<length ps} \<union> (\<lambda>i. logicPart dv (unat (lno s) + i)) ` {..<length ls}) \<and>
     hds s' = hds s \<and> disks s' = disks s \<and> allocResult s' = allocResult s"


lemma entered_none: "entered dv [] [] s s"
  by (simp add: entered_def)

lemma entered_prim:
  assumes e: "entered dv ps ls (enterPrim dv e s) s'" and b: "unat (pno s) + length ps < 3" "unat (lno s) + length ls < 8"
  shows "entered dv (e # ps) ls s s'"
proof -
  let ?p = "unat (pno s)" and ?l = "unat (lno s)"
  have u: "unat (pno s + 1) = Suc ?p" using b by (intro unat_Suc8 [of _ 4]) simp_all
  let ?P = "\<lambda>i. primPart dv (?p + i)" and ?L = "\<lambda>i. logicPart dv (?l + i)"
  have pr: "parts (enterPrim dv e s) = (parts s)(?P 0 := newPart dv e (partName (dname (hds s dv)) (?p + 1)) (parts s (?P 0)))"
    "partitionList (enterPrim dv e s) = partitionList s @ [?P 0]"
    by (simp_all add: enterPrim_def enter_def)
  have sets: "?P ` {..<length (e # ps)} = insert (?P 0) ((\<lambda>i. primPart dv (Suc ?p + i)) ` {..<length ps})"
    by (simp add: lessThan_Suc_eq_insert_0 image_image)
  have n0: "?P 0 \<notin> (\<lambda>i. primPart dv (Suc ?p + i)) ` {..<length ps} \<union> ?L ` {..<length ls}"
    using b by (auto simp: primPart_def logicPart_def)
  note E = e [unfolded entered_def, simplified u enter_fields]
  have parts0: "parts s' (?P 0) = newPart dv e (partName (dname (hds s dv)) (?p + 1)) (parts s (?P 0))"
    using E n0 by (simp add: pr)
  have pi: "parts s' (?P i) = newPart dv ((e # ps) ! i) (partName (dname (hds s dv)) (?p + i + 1)) (parts s (?P i))"
    if "i < length (e # ps)" for i
    using that E parts0 by (cases i) (auto simp: pr)
  have li: "parts s' (?L i) = newPart dv (ls ! i) (partName (dname (hds s dv)) (?l + i + 5)) (parts s (?L i))"
    if "i < length ls" for i
    using that E b by (auto simp: pr)
  have other: "parts s' k = parts s k" if "k \<notin> ?P ` {..<length (e # ps)} \<union> ?L ` {..<length ls}" for k
    using that E unfolding sets by (auto simp: pr)
  obtain ks where ks: "partitionList s' = partitionList (enterPrim dv e s) @ ks" "distinct ks"
    "set ks = (\<lambda>i. primPart dv (Suc ?p + i)) ` {..<length ps} \<union> ?L ` {..<length ls}" using E by auto
  have "partitionList s' = partitionList s @ ?P 0 # ks" "distinct (?P 0 # ks)"
    "set (?P 0 # ks) = ?P ` {..<length (e # ps)} \<union> ?L ` {..<length ls}"
    unfolding sets using ks n0 by (simp_all add: pr(2))
  then show ?thesis using pi li other E unfolding entered_def by (intro conjI exI [of _ "?P 0 # ks"]) simp_all
qed


lemma entered_log:
  assumes e: "entered dv ps ls (enterLog dv e s) s'" and b: "unat (pno s) + length ps < 4" "unat (lno s) + length ls < 7"
  shows "entered dv ps (e # ls) s s'"
proof -
  let ?p = "unat (pno s)" and ?l = "unat (lno s)"
  have u: "unat (lno s + 1) = Suc ?l" using b by (intro unat_Suc8 [of _ 8]) simp_all
  let ?P = "\<lambda>i. primPart dv (?p + i)" and ?L = "\<lambda>i. logicPart dv (?l + i)"
  have pr: "parts (enterLog dv e s) = (parts s)(?L 0 := newPart dv e (partName (dname (hds s dv)) (?l + 5)) (parts s (?L 0)))"
    "partitionList (enterLog dv e s) = partitionList s @ [?L 0]"
    by (simp_all add: enterLog_def enter_def)
  have sets: "?L ` {..<length (e # ls)} = insert (?L 0) ((\<lambda>i. logicPart dv (Suc ?l + i)) ` {..<length ls})"
    by (simp add: lessThan_Suc_eq_insert_0 image_image)
  have n0: "?L 0 \<notin> ?P ` {..<length ps} \<union> (\<lambda>i. logicPart dv (Suc ?l + i)) ` {..<length ls}"
    using b by (auto simp: primPart_def logicPart_def)
  note E = e [unfolded entered_def, simplified u enter_fields]
  have parts0: "parts s' (?L 0) = newPart dv e (partName (dname (hds s dv)) (?l + 5)) (parts s (?L 0))"
    using E n0 by (simp add: pr)
  have li: "parts s' (?L i) = newPart dv ((e # ls) ! i) (partName (dname (hds s dv)) (?l + i + 5)) (parts s (?L i))"
    if "i < length (e # ls)" for i
    using that E parts0 by (cases i) (auto simp: pr)
  have pi: "parts s' (?P i) = newPart dv (ps ! i) (partName (dname (hds s dv)) (?p + i + 1)) (parts s (?P i))"
    if "i < length ps" for i
    using that E b by (auto simp: pr)
  have other: "parts s' k = parts s k" if "k \<notin> ?P ` {..<length ps} \<union> ?L ` {..<length (e # ls)}" for k
    using that E unfolding sets by (auto simp: pr)
  obtain ks where ks: "partitionList s' = partitionList (enterLog dv e s) @ ks" "distinct ks"
    "set ks = ?P ` {..<length ps} \<union> (\<lambda>i. logicPart dv (Suc ?l + i)) ` {..<length ls}" using E by auto
  have "partitionList s' = partitionList s @ ?L 0 # ks" "distinct (?L 0 # ks)"
    "set (?L 0 # ks) = ?P ` {..<length ps} \<union> ?L ` {..<length (e # ls)}"
    unfolding sets using ks n0 by (simp_all add: pr(2))
  then show ?thesis using pi li other E unfolding entered_def by (intro conjI exI [of _ "?L 0 # ks"]) simp_all
qed

lemma entered_logs:
  "entered dv ps ls (fold (enterLog dv) qs s) s' \<Longrightarrow> unat (pno s) + length ps < 4 \<Longrightarrow>
   unat (lno s) + length qs + length ls < 8 \<Longrightarrow> entered dv ps (qs @ ls) s s'"
proof (induction qs arbitrary: s)
  case (Cons q qs)
  have "unat (lno s + 1) = Suc (unat (lno s))" using Cons.prems(3) by (intro unat_Suc8 [of _ 8]) simp_all
  then have "entered dv ps (qs @ ls) (enterLog dv q s) s'" using Cons by (intro Cons.IH) simp_all
  then show ?case using Cons.prems(2,3) by (simp add: entered_log)
qed simp

lemma fold_log_ok:
  "scanOk dv s \<Longrightarrow> unat (lno s) + length qs < 8 \<Longrightarrow>
   scanOk dv (fold (enterLog dv) qs s) \<and> unat (lno (fold (enterLog dv) qs s)) = unat (lno s) + length qs"
proof (induction qs arbitrary: s)
  case (Cons q qs)
  have "unat (lno s + 1) = Suc (unat (lno s))" using Cons.prems(2) by (intro unat_Suc8 [of _ 8]) simp_all
  then show ?case using Cons.IH [of "enterLog dv q s"] Cons.prems scanOk_log [of dv s q] by simp
qed simp

lemma entered_same [simp]:
  "entered dv ps ls (mem c bs s) s' = entered dv ps ls s s'" "entered dv ps ls s (mem c bs s') = entered dv ps ls s s'"
  "entered dv ps ls (s\<lparr>extLbaBase := x\<rparr>) s' = entered dv ps ls s s'"
  by (simp_all add: entered_def)

lemma mem_ext: "(mem c bs s)\<lparr>extLbaBase := x\<rparr> = mem c bs (s\<lparr>extLbaBase := x\<rparr>)"
  by (rule kide.equality) (simp_all add: mem_def del: pap_papOf)

lemma scan_mbr:
  assumes "tableParts (disks s dv) m [4 - n..<4] = Some xs" "n \<le> 4"
    "length (filter (\<lambda>x. \<not> isl x) xs) \<le> (if extLbaBase s = 0 then 1 else 0)"
    "unat (pno s) + length (prims xs) \<le> 3" "unat (lno s) + length (logs xs) < 8" "scanOk dv s" "m < f" "b \<noteq> NULLPTR"
  shows "\<exists>s' c'. scanTable f dv 0 (disks s dv 0) b n (mem c (b # bs) s) = Some (Inr (mem c' bs s')) \<and>
    entered dv (prims xs) (logs xs) s s'"
  using assms
proof (induction n arbitrary: s xs c)
  case 0
  then show ?case using scan_end [of b f dv 0 _ c bs s] entered_none by fastforce
next
  case (Suc n)
  have u: "[4 - Suc n..<4] = (3 - n) # [4 - n..<4]"
  proof -
    have "4 - Suc n = 3 - n" "Suc (3 - n) = 4 - n" "3 - n < 4" using Suc.prems(2) by arith+
    then show ?thesis using upt_conv_Cons [of "3 - n" 4] by simp
  qed
  let ?dk = "disks s dv" and ?i = "3 - n"
  let ?t = "fsType (ptab ?dk 0 ?i)"
  consider (none) "?t = 0" | (ext) "?t = 5" | (prim) "?t \<noteq> 0" "?t \<noteq> 5" by blast
  then show ?case
  proof cases
    case none
    then have "tableParts ?dk m [4 - n..<4] = Some xs" using Suc.prems(1) unfolding u by simp
    then show ?thesis using Suc.IH [of s xs c] Suc.prems none by (simp add: scan_none)
  next
    case ext
    then obtain ps ys where x: "logicals ?dk (startLba (ptab ?dk 0 ?i)) m (startLba (ptab ?dk 0 ?i)) = Some ps"
      "tableParts ?dk m [4 - n..<4] = Some ys" "xs = Inr ps # ys"
      using Suc.prems(1) unfolding u by (auto split: option.splits)
    have e0: "extLbaBase s = 0" using Suc.prems(3) x(3) by (auto split: if_splits)
    have nz: "startLba (ptab ?dk 0 ?i) \<noteq> 0" using x(1) by (cases m) auto
    let ?s1 = "s\<lparr>extLbaBase := startLba (ptab ?dk 0 ?i)\<rparr>"
    let ?s2 = "fold (enterLog dv) ps ?s1"
    have l: "unat (lno s) + length ps < 8" using Suc.prems(5) x(3) by simp
    have ok: "scanOk dv ?s2" "unat (lno ?s2) = unat (lno s) + length ps"
      using fold_log_ok [of dv ?s1 ps] l Suc.prems(6) by simp_all
    have "partitionScan f dv (startLba (ptab ?dk 0 ?i)) (mem c (b # bs) ?s1) = Some (Inr (mem (c + length ps) (b # bs) ?s2))"
      using scan_chain [of "mem c (b # bs) ?s1" dv m "startLba (ptab ?dk 0 ?i)" ps f] x(1) nz l Suc.prems(6,7) by simp
    then have step: "scanTable f dv 0 (?dk 0) b (Suc n) (mem c (b # bs) s) = scanTable f dv 0 (?dk 0) b n (mem (c + length ps) (b # bs) ?s2)"
      using ext e0 by (intro scan_link) (simp_all add: mem_ext)
    have "\<exists>s' c'. scanTable f dv 0 (disks ?s2 dv 0) b n (mem (c + length ps) (b # bs) ?s2) = Some (Inr (mem c' bs s')) \<and>
        entered dv (prims ys) (logs ys) ?s2 s'"
      using x Suc.prems nz ok e0 by (intro Suc.IH) simp_all
    then obtain s' c' where r: "scanTable f dv 0 (?dk 0) b n (mem (c + length ps) (b # bs) ?s2) = Some (Inr (mem c' bs s'))"
      "entered dv (prims ys) (logs ys) ?s2 s'" by auto
    have "entered dv (prims ys) (ps @ logs ys) ?s1 s'"
      using entered_logs [OF r(2)] Suc.prems(4,5) x(3) by simp
    then show ?thesis using step r(1) x(3) by (intro exI [of _ s'] exI [of _ c']) simp
  next
    case prim
    let ?e = "(startLba (ptab ?dk 0 ?i), pteSecCnt (ptab ?dk 0 ?i))"
    obtain ys where x: "tableParts ?dk m [4 - n..<4] = Some ys" "xs = Inl ?e # ys"
      using Suc.prems(1) prim unfolding u by auto
    let ?s2 = "enterPrim dv ?e s"
    have p: "unat (pno s) < 3" using Suc.prems(4) x(2) by simp
    have up: "unat (pno s + 1) = Suc (unat (pno s))" using p by (intro unat_Suc8 [of _ 3]) simp_all
    have ok: "scanOk dv ?s2" using scanOk_prim [OF Suc.prems(6)] p by simp
    have step: "scanTable f dv 0 (?dk 0) b (Suc n) (mem c (b # bs) s) = scanTable f dv 0 (?dk 0) b n (mem c (b # bs) ?s2)"
      using scan_prim [of "?dk 0" n _ "mem c (b # bs) s" dv f b, OF refl prim] p Suc.prems(6) by simp
    have "\<exists>s' c'. scanTable f dv 0 (disks ?s2 dv 0) b n (mem c (b # bs) ?s2) = Some (Inr (mem c' bs s')) \<and>
        entered dv (prims ys) (logs ys) ?s2 s'"
      using x Suc.prems ok up by (intro Suc.IH) simp_all
    then obtain s' c' where r: "scanTable f dv 0 (?dk 0) b n (mem c (b # bs) ?s2) = Some (Inr (mem c' bs s'))"
      "entered dv (prims ys) (logs ys) ?s2 s'" by auto
    have "entered dv (?e # prims ys) (logs ys) s s'" using entered_prim [OF r(2)] Suc.prems(4,5) x(2) by simp
    then show ?thesis using step r(1) x(2) by (intro exI [of _ s'] exI [of _ c']) simp
  qed
qed


section \<open>The property\<close>

text \<open>C27: partitionScan finds the partitions of a disk: for a partition table with at most three primary partitions and an
  extended one at any place, whose chain of tables lists fewer than eight logical partitions, the scan returns, has
  entered each partition once, under its number, with its first sector (of a logical one relative to its table), its
  size and its name, has left all other partition objects alone, and has given every sector buffer back.\<close>

theorem partitionScan_finds_all:
  assumes "tableParts (disks s dv) m [0..<4] = Some xs" "length (filter (\<lambda>x. \<not> isl x) xs) \<le> 1"
    and "length (prims xs) \<le> 3" "length (logs xs) < 8" "scanOk dv s" "pno s = 0" "lno s = 0" "extLbaBase s = 0" "m + 1 < fuel"
  shows "\<exists>s'. partitionScan fuel dv 0 s = Some (Inr s') \<and> entered dv (prims xs) (logs xs) s s' \<and> bufs s' = bufs s"
proof -
  obtain f where f: "fuel = Suc f" "m < f" using assms(9) by (cases fuel) auto
  define b where "b = allocResult s (allocCnt s)"
  have b: "b \<noteq> NULLPTR" using assms(5) by (simp add: b_def scanOk_def)
  have "partitionScan fuel dv 0 s = scanTable f dv 0 (disks s dv 0) b 4 (mem (allocCnt s + 1) (b # bufs s) s)"
    using b fsMalloc_mem [of s] by (simp add: f(1) partitionScan.simps b_def Let_def)
  moreover obtain s' c' where "scanTable f dv 0 (disks s dv 0) b 4 (mem (allocCnt s + 1) (b # bufs s) s) = Some (Inr (mem c' (bufs s) s'))"
    "entered dv (prims xs) (logs xs) s s'"
    using scan_mbr [of s dv m 4 xs f b "allocCnt s + 1" "bufs s"] assms f(2) b by auto
  ultimately show ?thesis by (intro exI [of _ "mem c' (bufs s) s'"]) simp
qed

text \<open>A disk with a primary partition and two logical ones.\<close>

definition pte :: "u8 \<Rightarrow> u32 \<Rightarrow> u32 \<Rightarrow> u8 list" where
  "pte t start cnt = replicate 4 0 @ [t] @ replicate 3 0 @ le32 start @ le32 cnt"

definition demoTable :: "u8 list \<Rightarrow> u8 list \<Rightarrow> u8 list" where
  "demoTable a b = replicate 446 0 @ a @ b @ replicate 34 0"

definition demoMbr :: "u32 \<Rightarrow> u8 list" where
  "demoMbr l = (if l = 0 then demoTable (pte 0x83 100 200) (pte 5 1000 900)
     else if l = 1000 then demoTable (pte 0x83 10 50) (pte 5 500 100)
     else if l = 1500 then demoTable (pte 0x83 20 60) (pte 0 0 0) else replicate 512 0)"

lemma table_entries:
  "partitionEntry (demoTable (pte t a n) (pte u c m)) 0 = \<lparr>fsType = t, startLba = a, pteSecCnt = n\<rparr>"
  "partitionEntry (demoTable (pte t a n) (pte u c m)) 1 = \<lparr>fsType = u, startLba = c, pteSecCnt = m\<rparr>"
  "fsType (partitionEntry (demoTable (pte t a n) (pte u c m)) 2) = 0"
  "fsType (partitionEntry (demoTable (pte t a n) (pte u c m)) 3) = 0"
proof -
  define P where "P = replicate 446 (0 :: u8) @ replicate 4 0 @ [t] @ replicate 3 0"
  define Q where "Q = P @ le32 a @ le32 n @ replicate 4 0 @ [u] @ replicate 3 0"
  have l: "length P = 454" "length Q = 470" "length (P @ le32 a) = 458" "length (Q @ le32 c) = 474" by (simp_all add: P_def Q_def)
  have e: "demoTable (pte t a n) (pte u c m) = P @ le32 a @ le32 n @ pte u c m @ replicate 34 0"
    "demoTable (pte t a n) (pte u c m) = (P @ le32 a) @ le32 n @ pte u c m @ replicate 34 0"
    "demoTable (pte t a n) (pte u c m) = Q @ le32 c @ le32 m @ replicate 34 0"
    "demoTable (pte t a n) (pte u c m) = (Q @ le32 c) @ le32 m @ replicate 34 0"
    by (simp_all add: demoTable_def pte_def P_def Q_def)
  have r: "rd32 (demoTable (pte t a n) (pte u c m)) 454 = a" "rd32 (demoTable (pte t a n) (pte u c m)) 458 = n"
    "rd32 (demoTable (pte t a n) (pte u c m)) 470 = c" "rd32 (demoTable (pte t a n) (pte u c m)) 474 = m"
    using rd32_here [OF l(1)] rd32_here [OF l(3)] rd32_here [OF l(2)] rd32_here [OF l(4)] e by metis+
  have f: "demoTable (pte t a n) (pte u c m) ! 450 = t" "demoTable (pte t a n) (pte u c m) ! 466 = u"
    "demoTable (pte t a n) (pte u c m) ! 482 = 0" "demoTable (pte t a n) (pte u c m) ! 498 = 0"
    by (simp_all add: demoTable_def pte_def nth_append)
  show "partitionEntry (demoTable (pte t a n) (pte u c m)) 0 = \<lparr>fsType = t, startLba = a, pteSecCnt = n\<rparr>"
    "partitionEntry (demoTable (pte t a n) (pte u c m)) 1 = \<lparr>fsType = u, startLba = c, pteSecCnt = m\<rparr>"
    "fsType (partitionEntry (demoTable (pte t a n) (pte u c m)) 2) = 0"
    "fsType (partitionEntry (demoTable (pte t a n) (pte u c m)) 3) = 0"
    using r f by (simp_all add: partitionEntry_def)
qed

lemma demoMbr_simps: "demoMbr 0 = demoTable (pte 0x83 100 200) (pte 5 1000 900)"
  "demoMbr 1000 = demoTable (pte 0x83 10 50) (pte 5 500 100)" "demoMbr 1500 = demoTable (pte 0x83 20 60) (pte 0 0 0)"
  by (simp_all add: demoMbr_def)

lemma demo_logicals: "logicals demoMbr 1000 2 1000 = Some [(1010, 50), (1520, 60)]"
proof -
  have "logicals demoMbr 1000 (Suc 0) 1500 = Some [(1520, 60)]"
    unfolding logicals.simps demoMbr_simps table_entries by simp
  then have "logicals demoMbr 1000 (Suc (Suc 0)) 1000 = Some [(1010, 50), (1520, 60)]"
    unfolding logicals.simps(2) [of _ _ "Suc 0"] demoMbr_simps table_entries by simp
  then show ?thesis by (simp only: numeral_2_eq_2)
qed

lemma demo_tableParts: "tableParts demoMbr 2 [0..<4] = Some [Inl (100, 200), Inr [(1010, 50), (1520, 60)]]"
proof -
  have u: "[0..<4] = [0, 1, 2, 3 :: nat]" by (simp add: upt_rec)
  show ?thesis unfolding u tableParts.simps demoMbr_simps table_entries by (simp add: demo_logicals)
qed

definition demoScan :: "(unit, unit) kide_scheme" where
  "demoScan = kfs.extend (demoFs\<lparr>disks := (\<lambda>_. demoMbr), parts := (\<lambda>_. demoPart\<lparr>pname := replicate 8 0\<rparr>),
       allocResult := (\<lambda>n. if n mod 3 = 0 then 0x10000 else if n mod 3 = 1 then 0x20000 else 0x30000)\<rparr>)
     \<lparr>chans = (\<lambda>_. \<lparr>cname = [], expectingIntr = False, intrNo = 0, portBase = 0, chLocked = False, diskDone = 0, ctl = ()\<rparr>),
      hds = (\<lambda>_. \<lparr>dname = bytes ''sdb'' @ [0], devNo = 1\<rparr>), extLbaBase = 0, pno = 0, lno = 0, \<dots> = ()\<rparr>"

lemma demoScan_fields:
  "disks demoScan = (\<lambda>_. demoMbr)" "parts demoScan = (\<lambda>_. demoPart\<lparr>pname := replicate 8 0\<rparr>)"
  "hds demoScan = (\<lambda>_. \<lparr>dname = bytes ''sdb'' @ [0], devNo = 1\<rparr>)" "extLbaBase demoScan = 0" "pno demoScan = 0" "lno demoScan = 0"
  "allocResult demoScan = (\<lambda>n. if n mod 3 = 0 then 0x10000 else if n mod 3 = 1 then 0x20000 else 0x30000)"
  by (simp_all add: demoScan_def kfs.defs)

lemma demo_scanOk: "scanOk 1 demoScan"
  by (simp add: scanOk_def demoScan_fields bytes_def)

lemma replicate_10: "replicate 10 x = x # replicate 9 x"
  using replicate_Suc [of 9 x] by (simp only: Suc_numeral semiring_norm)

theorem partitionScan_finds_all_witness:
  "\<exists>s'. partitionScan 5 1 0 demoScan = Some (Inr s') \<and> lbaStart (parts s' (primPart 1 0)) = 100 \<and>
     lbaStart (parts s' (logicPart 1 1)) = 1520 \<and> secCnt (parts s' (logicPart 1 1)) = 60 \<and>
     pname (parts s' (logicPart 1 1)) = bytes ''sdb6'' @ replicate 4 0"
proof -
  obtain s' where s': "partitionScan 5 1 0 demoScan = Some (Inr s')" "entered 1 [(100, 200)] [(1010, 50), (1520, 60)] demoScan s'"
    using partitionScan_finds_all [of demoScan 1 2 _ 5] demo_tableParts demo_scanOk by (auto simp: demoScan_fields)
  have "partName (bytes ''sdb'' @ [0]) 6 = bytes ''sdb6'' @ replicate 4 0"
    by (simp add: partName_def bytes_def itoa_def digitLoop.simps replicate_10)
  moreover have "\<forall>i < 2. parts s' (logicPart 1 i) = newPart 1 ([(1010, 50), (1520, 60)] ! i) (partName (bytes ''sdb'' @ [0]) (i + 5))
      (parts demoScan (logicPart 1 i))" "parts s' (primPart 1 0) = newPart 1 (100, 200) (partName (bytes ''sdb'' @ [0]) 1) (parts demoScan (primPart 1 0))"
    using s'(2) by (simp_all add: entered_def demoScan_fields)
  ultimately show ?thesis using s'(1) by (intro exI [of _ s']) (simp add: newPart_def)
qed

end
