(* ===== verification/IdeInv.thy ===== *)
theory IdeInv
  imports Ide InodeInv
begin

text \<open>
  The driver against the controller: what the ATA documentation promises of the ports, as the
  predicate \<open>ataOk\<close>, and that the loops of device/ide.c then transfer exactly the sectors that
  the theory Disk says.
\<close>

section \<open>What the driver relies on\<close>

text \<open>A controller seen from outside: its registers, what the data port stands for, and the sectors of
  the two disks (False the master).\<close>

datatype chPhase = Idle | DataIn "u8 list" | DataOut bool u32 nat | Written

record ataView =
  rCnt :: u8
  rL :: u8
  rM :: u8
  rH :: u8
  rDev :: u8
  chPhase :: chPhase
  media :: "bool \<Rightarrow> u32 \<Rightarrow> u8 list"

definition lbaReg :: "ataView \<Rightarrow> u32" where
  "lbaReg v = ucast (rL v) OR push_bit 8 (ucast (rM v)) OR push_bit 16 (ucast (rH v)) OR
     push_bit 24 (ucast (rDev v) AND 15)"

definition cntReg :: "ataView \<Rightarrow> nat" where
  "cntReg v = (if rCnt v = 0 then 256 else unat (rCnt v))"

definition slaveSel :: "ataView \<Rightarrow> bool" where
  "slaveSel v \<longleftrightarrow> rDev v AND 0x10 \<noteq> 0"

text \<open>The contract: registers keep what is written to them, READ SECTORS and WRITE SECTORS start a
  transfer of the addressed sectors, a transfer raises the interrupt line (a read before, a write after the
  data), BSY is cleared in time and DRQ is set with it, and the data port moves the whole block.\<close>

definition ataOk :: "'d ATAPorts \<Rightarrow> u16 \<Rightarrow> ('d \<Rightarrow> ataView) \<Rightarrow> bool" where
  "ataOk hw base view \<longleftrightarrow>
     (\<forall>d b. chPhase (view d) = Idle \<longrightarrow>
        view (outbP hw (base + regSectCnt) b d) = (view d)\<lparr>rCnt := b\<rparr> \<and>
        view (outbP hw (base + regLbaL) b d) = (view d)\<lparr>rL := b\<rparr> \<and>
        view (outbP hw (base + regLbaM) b d) = (view d)\<lparr>rM := b\<rparr> \<and>
        view (outbP hw (base + regLbaH) b d) = (view d)\<lparr>rH := b\<rparr> \<and>
        view (outbP hw (base + regDev) b d) = (view d)\<lparr>rDev := b\<rparr>) \<and>
     (\<forall>d. chPhase (view d) = Idle \<longrightarrow>
        view (outbP hw (base + regStatus) CMD_READ_SECTOR d) =
          (view d)\<lparr>chPhase := DataIn (readSectors (media (view d) (slaveSel (view d))) (lbaReg (view d)) (cntReg (view d)))\<rparr> \<and>
        view (outbP hw (base + regStatus) CMD_WRITE_SECTOR d) =
          (view d)\<lparr>chPhase := DataOut (slaveSel (view d)) (lbaReg (view d)) (cntReg (view d))\<rparr>) \<and>
     (\<forall>d b. chPhase (view d) = DataIn b \<longrightarrow> (\<exists>d'. irqWait hw d = Some d' \<and> view d' = view d)) \<and>
     (\<forall>d. chPhase (view d) = Written \<longrightarrow> (\<exists>d'. irqWait hw d = Some d' \<and> view d' = (view d)\<lparr>chPhase := Idle\<rparr>)) \<and>
     (\<forall>d. view (snd (inbP hw (base + regStatus) d)) = view d \<and> view (sleepP hw d) = view d) \<and>
     (\<forall>d. chPhase (view d) \<notin> {Idle, Written} \<longrightarrow>
        (\<exists>n < 3000. fst (inbP hw (base + regStatus) (((\<lambda>d. sleepP hw (snd (inbP hw (base + regStatus) d))) ^^ n) d))
           AND BIT_STAT_BSY = 0)) \<and>
     (\<forall>d. chPhase (view d) \<notin> {Idle, Written} \<longrightarrow> fst (inbP hw (base + regStatus) d) AND BIT_STAT_BSY = 0 \<longrightarrow>
        fst (inbP hw (base + regStatus) (snd (inbP hw (base + regStatus) d))) AND BIT_STAT_DRQ \<noteq> 0) \<and>
     (\<forall>d b n. chPhase (view d) = DataIn b \<longrightarrow> 2 * n = length b \<longrightarrow>
        (\<exists>d'. inswP hw (base + regData) n d = (b, d') \<and> view d' = (view d)\<lparr>chPhase := Idle\<rparr>)) \<and>
     (\<forall>d sl lba n buf. chPhase (view d) = DataOut sl lba n \<longrightarrow> length buf = 512 * n \<longrightarrow>
        view (outswP hw (base + regData) buf d) =
          (view d)\<lparr>chPhase := Written, media := (media (view d))(sl := writeSectors lba n buf (media (view d) sl))\<rparr>)"

lemma ataOkD:
  assumes "ataOk hw base view"
  shows "chPhase (view d) = Idle \<Longrightarrow> view (outbP hw (base + regSectCnt) b d) = (view d)\<lparr>rCnt := b\<rparr>"
    "chPhase (view d) = Idle \<Longrightarrow> view (outbP hw (base + regLbaL) b d) = (view d)\<lparr>rL := b\<rparr>"
    "chPhase (view d) = Idle \<Longrightarrow> view (outbP hw (base + regLbaM) b d) = (view d)\<lparr>rM := b\<rparr>"
    "chPhase (view d) = Idle \<Longrightarrow> view (outbP hw (base + regLbaH) b d) = (view d)\<lparr>rH := b\<rparr>"
    "chPhase (view d) = Idle \<Longrightarrow> view (outbP hw (base + regDev) b d) = (view d)\<lparr>rDev := b\<rparr>"
    "chPhase (view d) = Idle \<Longrightarrow> view (outbP hw (base + regStatus) CMD_READ_SECTOR d) =
       (view d)\<lparr>chPhase := DataIn (readSectors (media (view d) (slaveSel (view d))) (lbaReg (view d)) (cntReg (view d)))\<rparr>"
    "chPhase (view d) = Idle \<Longrightarrow> view (outbP hw (base + regStatus) CMD_WRITE_SECTOR d) =
       (view d)\<lparr>chPhase := DataOut (slaveSel (view d)) (lbaReg (view d)) (cntReg (view d))\<rparr>"
    "chPhase (view d) = DataIn bs \<Longrightarrow> \<exists>d'. irqWait hw d = Some d' \<and> view d' = view d"
    "chPhase (view d) = Written \<Longrightarrow> \<exists>d'. irqWait hw d = Some d' \<and> view d' = (view d)\<lparr>chPhase := Idle\<rparr>"
    "view (snd (inbP hw (base + regStatus) d)) = view d" "view (sleepP hw d) = view d"
    "chPhase (view d) = DataIn bs \<Longrightarrow> 2 * n = length bs \<Longrightarrow>
       \<exists>d'. inswP hw (base + regData) n d = (bs, d') \<and> view d' = (view d)\<lparr>chPhase := Idle\<rparr>"
    "chPhase (view d) = DataOut sl lba n \<Longrightarrow> length buf = 512 * n \<Longrightarrow>
       view (outswP hw (base + regData) buf d) =
         (view d)\<lparr>chPhase := Written, media := (media (view d))(sl := writeSectors lba n buf (media (view d) sl))\<rparr>"
    "chPhase (view d) \<notin> {Idle, Written} \<Longrightarrow>
       \<exists>n < 3000. fst (inbP hw (base + regStatus) (((\<lambda>d. sleepP hw (snd (inbP hw (base + regStatus) d))) ^^ n) d))
           AND BIT_STAT_BSY = 0"
    "chPhase (view d) \<notin> {Idle, Written} \<Longrightarrow> fst (inbP hw (base + regStatus) d) AND BIT_STAT_BSY = 0 \<Longrightarrow>
        fst (inbP hw (base + regStatus) (snd (inbP hw (base + regStatus) d))) AND BIT_STAT_DRQ \<noteq> 0"
  using assms unfolding ataOk_def by blast+

section \<open>Single commands\<close>

lemma lba_bits: "lba < MAX_LBA \<Longrightarrow> bit lba n \<Longrightarrow> n < 28"
proof -
  assume l: "lba < MAX_LBA" and b: "bit lba n"
  have "unat lba < 2 ^ 28" using l by (simp add: word_less_nat_alt)
  then have "take_bit 28 (unat lba) = unat lba" by (simp add: take_bit_nat_eq_self)
  then have "bit (take_bit 28 (unat lba)) n" using b by (simp add: bit_unsigned_iff)
  then show ?thesis by (simp add: bit_take_bit_iff)
qed

lemma dev_low: "take_bit 4 (ucast (ucast (x OR 0xa0 OR 0x40 OR ucast (slaveBit devNo) :: u32) :: u8) :: u32) = take_bit 4 x"
proof -
  have "take_bit 4 (ucast (ucast y :: u8) :: u32) = take_bit 4 y" for y :: u32
    by (rule bit_word_eqI) (auto simp: bit_simps)
  moreover have "take_bit 4 (ucast (slaveBit devNo) :: u32) = 0" by (simp add: slaveBit_def)
  ultimately show ?thesis by (simp add: take_bit_or)
qed

lemma lba_registers:
  assumes "lba < MAX_LBA"
  shows "ucast (ucast lba :: u8) OR push_bit 8 (ucast (ucast (drop_bit 8 lba) :: u8)) OR
    push_bit 16 (ucast (ucast (drop_bit 16 lba) :: u8)) OR
    push_bit 24 (ucast (ucast (drop_bit 24 lba OR 0xa0 OR 0x40 OR ucast (slaveBit devNo)) :: u8) AND 15) = (lba :: u32)"
proof -
  have m: "(15 :: u32) = mask 4" by (simp add: mask_eq_exp_minus_1)
  have d: "(ucast (ucast (drop_bit 24 lba OR 0xa0 OR 0x40 OR ucast (slaveBit devNo)) :: u8) :: u32) AND 15 =
      take_bit 4 (drop_bit 24 lba)"
    unfolding m take_bit_eq_mask [symmetric] by (rule dev_low)
  show ?thesis unfolding d
  proof (rule bit_word_eqI)
    fix n assume "n < LENGTH(32)"
    consider "n < 8" | "8 \<le> n" "n < 16" | "16 \<le> n" "n < 24" | "24 \<le> n" "n < 28" | "28 \<le> n" by linarith
    then show "bit (ucast (ucast lba :: u8) OR push_bit 8 (ucast (ucast (drop_bit 8 lba) :: u8)) OR
        push_bit 16 (ucast (ucast (drop_bit 16 lba) :: u8)) OR push_bit 24 (take_bit 4 (drop_bit 24 lba))) n = bit lba n"
      using lba_bits [OF assms, of n] \<open>n < LENGTH(32)\<close> by cases (auto simp: bit_simps)
  qed
qed

lemma slave_register:
  assumes "lba < MAX_LBA"
  shows "(ucast (drop_bit 24 (lba :: u32) OR 0xa0 OR 0x40 OR ucast (slaveBit devNo)) :: u8) AND 0x10 \<noteq> 0 \<longleftrightarrow> devNo = 1"
proof -
  have z: "bit (ucast (drop_bit 24 lba) :: u8) 4 = False"
    using lba_bits [OF assms, of 28] by (auto simp: bit_simps)
  have p: "(0x10 :: u8) = push_bit 4 1" by simp
  have q: "bit (0x10 :: u8) k \<longleftrightarrow> k = 4" for k
    unfolding p by (auto simp only: bit_push_bit_iff bit_1_iff) simp_all
  have "bit (ucast (drop_bit 24 lba OR 0xa0 OR 0x40 OR ucast (slaveBit devNo)) :: u8) 4 \<longleftrightarrow> devNo = 1"
    using z by (auto simp: bit_simps slaveBit_def bit_numeral_rec)
  moreover have "w AND 0x10 \<noteq> 0 \<longleftrightarrow> bit w 4" for w :: u8
  proof
    assume "w AND 0x10 \<noteq> 0"
    then obtain k where "bit (w AND 0x10) k" by (metis bit_eqI bit_0_eq bot_apply bot_bool_def)
    then have "bit w k \<and> k = 4" unfolding bit_and_iff q .
    then show "bit w 4" by auto
  next
    assume "bit w 4"
    then have "bit (w AND 0x10) 4" by (simp only: bit_and_iff q simp_thms)
    then show "w AND 0x10 \<noteq> 0" by auto
  qed
  ultimately show ?thesis by simp
qed

text \<open>A channel of the driver between two calls.\<close>

definition chanOk :: "'d ATAPorts \<Rightarrow> ('d \<Rightarrow> ataView) \<Rightarrow> 'd IDEChannel \<Rightarrow> bool" where
  "chanOk hw view c \<longleftrightarrow> ataOk hw (portBase c) view \<and> (intrNo c = 0x2e \<or> intrNo c = 0x2f) \<and> diskDone c = 0 \<and>
     chPhase (view (ctl c)) = Idle"

lemma selectDisk_ok:
  assumes "chanOk hw view c"
  obtains d' where "selectDisk hw devNo c = c\<lparr>ctl := d'\<rparr>" "chPhase (view d') = Idle" "media (view d') = media (view (ctl c))"
  using assms ataOkD(5) [of hw "portBase c" view "ctl c"] that
  by (simp add: chanOk_def selectDisk_def outb_def)

lemma selectSector_ok:
  assumes ok: "chanOk hw view c" and lba: "lba < MAX_LBA"
  obtains d' where "selectSector hw devNo lba cnt c = Inr (c\<lparr>ctl := d'\<rparr>)" "chPhase (view d') = Idle"
    "media (view d') = media (view (ctl c))" "lbaReg (view d') = lba" "slaveSel (view d') \<longleftrightarrow> devNo = 1" "rCnt (view d') = cnt"
proof -
  have a: "ataOk hw (portBase c) view" "chPhase (view (ctl c)) = Idle" using ok by (simp_all add: chanOk_def)
  let ?o = "\<lambda>r v d. outbP hw (portBase c + r) v d"
  let ?dev = "ucast (drop_bit 24 lba OR 0xa0 OR 0x40 OR ucast (slaveBit devNo)) :: u8"
  let ?d = "?o regDev ?dev (?o regLbaH (ucast (drop_bit 16 lba)) (?o regLbaM (ucast (drop_bit 8 lba))
      (?o regLbaL (ucast lba) (?o regSectCnt cnt (ctl c)))))"
  have v: "view ?d = (view (ctl c))\<lparr>rCnt := cnt, rL := ucast lba, rM := ucast (drop_bit 8 lba),
      rH := ucast (drop_bit 16 lba), rDev := ?dev\<rparr>"
    using a(2) by (simp add: ataOkD(1-5) [OF a(1)])
  have "selectSector hw devNo lba cnt c = Inr (c\<lparr>ctl := ?d\<rparr>)"
    using lba by (simp add: selectSector_def outb_def)
  moreover have "lbaReg (view ?d) = lba"
    using lba_registers [OF lba, of devNo] unfolding lbaReg_def v by simp
  moreover have "slaveSel (view ?d) \<longleftrightarrow> devNo = 1"
    using slave_register [OF lba, of devNo] unfolding slaveSel_def v by simp
  ultimately show ?thesis using that [of ?d] a(2) unfolding v by simp
qed

lemma busyLoop_ok:
  assumes a: "ataOk hw (portBase c) view" and p: "chPhase (view (ctl c)) \<notin> {Idle, Written}"
    and n: "fst (inbP hw (portBase c + regStatus)
      (((\<lambda>d. sleepP hw (snd (inbP hw (portBase c + regStatus) d))) ^^ n) (ctl c))) AND BIT_STAT_BSY = 0" "n < rounds"
  shows "\<exists>d'. busyLoop hw rounds c = (True, c\<lparr>ctl := d'\<rparr>) \<and> view d' = view (ctl c)"
  using assms
proof (induction rounds arbitrary: c n)
  case (Suc rounds)
  let ?in = "inbP hw (portBase c + regStatus)"
  obtain st d where st: "?in (ctl c) = (st, d)" by (cases "?in (ctl c)")
  have v: "view d = view (ctl c)" using ataOkD(10) [OF Suc.prems(1), of "ctl c"] st by simp
  show ?case
  proof (cases "st AND BIT_STAT_BSY = 0")
    case True
    obtain st2 d2 where st2: "?in d = (st2, d2)" by (cases "?in d")
    have "st2 AND BIT_STAT_DRQ \<noteq> 0"
      using ataOkD(15) [OF Suc.prems(1,2)] True st st2 by simp
    moreover have "view d2 = view (ctl c)" using ataOkD(10) [OF Suc.prems(1), of d] st2 v by simp
    ultimately show ?thesis using True st st2 by (auto simp: inb_def intro!: exI [of _ d2])
  next
    case False
    then obtain m where m: "n = Suc m" using Suc.prems(3) st by (cases n) auto
    let ?c = "c\<lparr>ctl := sleepP hw d\<rparr>"
    have v': "view (sleepP hw d) = view (ctl c)" using ataOkD(11) [OF Suc.prems(1), of d] v by simp
    have "\<exists>d'. busyLoop hw rounds ?c = (True, ?c\<lparr>ctl := d'\<rparr>) \<and> view d' = view (ctl ?c)"
      using Suc.prems m st v' by (intro Suc.IH [of _ m]) (simp_all add: funpow_Suc_right del: funpow.simps)
    then show ?thesis using False st v' by (auto simp: inb_def)
  qed
qed simp

lemma busyWait_ok:
  assumes a: "ataOk hw (portBase c) view" and p: "chPhase (view (ctl c)) \<notin> {Idle, Written}"
  obtains d' where "busyWait hw c = (True, c\<lparr>ctl := d'\<rparr>)" "view d' = view (ctl c)"
  using ataOkD(14) [OF a p] busyLoop_ok [OF a p, of _ 3000] that by (auto simp: busyWait_def)

lemma diskSemaDown_ok:
  assumes a: "ataOk hw (portBase c) view" and i: "intrNo c = 0x2e \<or> intrNo c = 0x2f" "diskDone c = 0" "expectingIntr c"
    and w: "irqWait hw (ctl c) = Some d"
  obtains d' where "diskSemaDown hw c = Inr (c\<lparr>ctl := d', expectingIntr := False\<rparr>)" "view d' = view d"
proof -
  obtain st d' where st: "inbP hw (portBase c + regStatus) d = (st, d')" by (cases "inbP hw (portBase c + regStatus) d")
  have "view d' = view d" using ataOkD(10) [OF a, of d] st by simp
  moreover have "diskSemaDown hw c = Inr (c\<lparr>ctl := d', expectingIntr := False\<rparr>)"
    using i w st by (simp add: diskSemaDown_def intrHdHandler_def diskSemaUp_def inb_def)
  ultimately show ?thesis using that by blast
qed

section \<open>One round of the loops\<close>

lemma count_register:
  assumes "0 < per" "per \<le> 256" "rCnt v = of_nat per"
  shows "cntReg v = per" "sizeInByte (of_nat per) = 512 * per"
proof -
  have "(of_nat per :: u8) = 0 \<longleftrightarrow> per = 256" and "per < 256 \<Longrightarrow> unat (of_nat per :: u8) = per"
    using assms(1,2) by (auto simp: word_of_nat_eq_0_iff unat_of_nat take_bit_nat_eq_self elim: dvdE)
  then show "cntReg v = per" "sizeInByte (of_nat per) = 512 * per"
    using assms by (auto simp: cntReg_def sizeInByte_def)
qed

lemma read_round:
  assumes ok: "chanOk hw view c" and wf: "\<And>sl. wfDisk (media (view (ctl c)) sl)" and lba: "lba < MAX_LBA" and per: "0 < per" "per \<le> 256"
  obtains d' where "chPhase (view d') = Idle" "media (view d') = media (view (ctl c))"
    "\<And>F. rbind (selectSector hw devNo lba (of_nat per) c) (\<lambda>c.
       rbind (diskSemaDown hw (cmdOut hw CMD_READ_SECTOR c)) (\<lambda>c.
       (let (ready, c) = busyWait hw c in
       if \<not> ready then Inl (Panic ''read sector failed'') else
       (let (sec, c) = readSector hw (of_nat per) c in F sec c)))) =
       F (readSectors (media (view (ctl c)) (devNo = 1)) lba per) (c\<lparr>ctl := d', expectingIntr := False\<rparr>)"
proof -
  have a: "ataOk hw (portBase c) view" "intrNo c = 0x2e \<or> intrNo c = 0x2f" "diskDone c = 0"
    using ok by (simp_all add: chanOk_def)
  obtain d1 where d1: "selectSector hw devNo lba (of_nat per) c = Inr (c\<lparr>ctl := d1\<rparr>)" "chPhase (view d1) = Idle"
    "media (view d1) = media (view (ctl c))" "lbaReg (view d1) = lba" "slaveSel (view d1) \<longleftrightarrow> devNo = 1"
    "rCnt (view d1) = of_nat per"
    by (rule selectSector_ok [OF ok lba])
  let ?bs = "readSectors (media (view (ctl c)) (devNo = 1)) lba per"
  note cnt = count_register [OF per d1(6)]
  define d2 where "d2 = outbP hw (portBase c + regStatus) CMD_READ_SECTOR d1"
  have v2: "view d2 = (view d1)\<lparr>chPhase := DataIn ?bs\<rparr>"
    using ataOkD(6) [OF a(1) d1(2)] d1 cnt(1) by (simp add: d2_def)
  let ?c2 = "c\<lparr>ctl := d2, expectingIntr := True\<rparr>"
  have cmd: "cmdOut hw CMD_READ_SECTOR (c\<lparr>ctl := d1\<rparr>) = ?c2" by (simp add: cmdOut_def outb_def d2_def)
  obtain d3 where d3: "irqWait hw d2 = Some d3" "view d3 = view d2"
    using ataOkD(8) [OF a(1), of d2 ?bs] v2 by auto
  obtain d4 where d4: "diskSemaDown hw ?c2 = Inr (?c2\<lparr>ctl := d4, expectingIntr := False\<rparr>)" "view d4 = view d3"
    by (rule diskSemaDown_ok [of hw ?c2 view d3]) (use a d3 in simp_all)
  let ?c4 = "c\<lparr>ctl := d4, expectingIntr := False\<rparr>"
  obtain d5 where d5: "busyWait hw ?c4 = (True, ?c4\<lparr>ctl := d5\<rparr>)" "view d5 = view d4"
    by (rule busyWait_ok [of hw ?c4 view]) (use a v2 d3 d4 in simp_all)
  have l: "length ?bs = 512 * per" using wf by simp
  have v5: "chPhase (view d5) = DataIn ?bs" using d5(2) d4(2) d3(2) v2 by simp
  obtain d6 where d6: "inswP hw (portBase c + regData) (256 * per) d5 = (?bs, d6)" "view d6 = (view d5)\<lparr>chPhase := Idle\<rparr>"
    using ataOkD(12) [OF a(1) v5, of "256 * per"] l by auto
  have "512 * per div 2 = 256 * per" by simp
  then have rd: "readSector hw (of_nat per) (?c4\<lparr>ctl := d5\<rparr>) = (?bs, c\<lparr>ctl := d6, expectingIntr := False\<rparr>)"
    using d6(1) by (simp add: readSector_def cnt(2))
  show ?thesis
    using that [of d6] d6(2) d5(2) d4(2) d3(2) v2 d1(1,3) cmd d4(1) d5(1) rd by simp
qed

lemma write_round:
  assumes ok: "chanOk hw view c" and lba: "lba < MAX_LBA" and per: "0 < per" "per \<le> 256" and buf: "512 * per \<le> length buf"
  obtains d' where "chPhase (view d') = Idle"
    "media (view d') = (media (view (ctl c)))(devNo = 1 := writeSectors lba per (take (512 * per) buf) (media (view (ctl c)) (devNo = 1)))"
    "\<And>F. rbind (selectSector hw devNo lba (of_nat per) c) (\<lambda>c.
       (let (ready, c) = busyWait hw (cmdOut hw CMD_WRITE_SECTOR c) in
       if \<not> ready then Inl (Panic ''write sector failed'') else
       rbind (writeSector hw buf (of_nat per) c) (\<lambda>c. rbind (diskSemaDown hw c) F))) =
       F (c\<lparr>ctl := d', expectingIntr := False\<rparr>)"
proof -
  have a: "ataOk hw (portBase c) view" "intrNo c = 0x2e \<or> intrNo c = 0x2f" "diskDone c = 0"
    using ok by (simp_all add: chanOk_def)
  obtain d1 where d1: "selectSector hw devNo lba (of_nat per) c = Inr (c\<lparr>ctl := d1\<rparr>)" "chPhase (view d1) = Idle"
    "media (view d1) = media (view (ctl c))" "lbaReg (view d1) = lba" "slaveSel (view d1) \<longleftrightarrow> devNo = 1"
    "rCnt (view d1) = of_nat per"
    by (rule selectSector_ok [OF ok lba])
  note cnt = count_register [OF per d1(6)]
  define d2 where "d2 = outbP hw (portBase c + regStatus) CMD_WRITE_SECTOR d1"
  have v2: "view d2 = (view d1)\<lparr>chPhase := DataOut (devNo = 1) lba per\<rparr>"
    using ataOkD(7) [OF a(1) d1(2)] d1 cnt(1) by (simp add: d2_def)
  let ?c2 = "c\<lparr>ctl := d2, expectingIntr := True\<rparr>"
  have cmd: "cmdOut hw CMD_WRITE_SECTOR (c\<lparr>ctl := d1\<rparr>) = ?c2" by (simp add: cmdOut_def outb_def d2_def)
  obtain d3 where d3: "busyWait hw ?c2 = (True, ?c2\<lparr>ctl := d3\<rparr>)" "view d3 = view d2"
    by (rule busyWait_ok [of hw ?c2 view]) (use a v2 in simp_all)
  define d4 where "d4 = outswP hw (portBase c + regData) (take (512 * per) buf) d3"
  have v4: "view d4 = (view d3)\<lparr>chPhase := Written, media := (media (view d3))(devNo = 1 :=
      writeSectors lba per (take (512 * per) buf) (media (view d3) (devNo = 1)))\<rparr>"
    unfolding d4_def by (rule ataOkD(13) [OF a(1)]) (use d3(2) v2 buf in simp_all)
  let ?c4 = "c\<lparr>ctl := d4, expectingIntr := True\<rparr>"
  have wr: "writeSector hw buf (of_nat per) (?c2\<lparr>ctl := d3\<rparr>) = Inr ?c4"
    using buf by (simp add: writeSector_def cnt(2) d4_def)
  obtain d5 where d5: "irqWait hw d4 = Some d5" "view d5 = (view d4)\<lparr>chPhase := Idle\<rparr>"
    using ataOkD(9) [OF a(1), of d4] v4 by auto
  obtain d6 where d6: "diskSemaDown hw ?c4 = Inr (?c4\<lparr>ctl := d6, expectingIntr := False\<rparr>)" "view d6 = view d5"
    by (rule diskSemaDown_ok [of hw ?c4 view d5]) (use a d5 in simp_all)
  show ?thesis
    using that [of d6] d6 d5(2) v4 d3 v2 d1(1,3) cmd wr by simp
qed

section \<open>The loops\<close>

definition roundsOk :: "u32 \<Rightarrow> nat \<Rightarrow> nat \<Rightarrow> bool" where
  "roundsOk lba cnt dn \<longleftrightarrow> (\<forall>k. dn \<le> 256 * k \<longrightarrow> 256 * k < cnt \<longrightarrow> lba + of_nat (256 * k) < MAX_LBA)"

lemma chunksOk_rounds: "chunksOk lba n \<longleftrightarrow> roundsOk lba n 0"
proof -
  have "k < (n + 255) div 256 \<longleftrightarrow> 256 * k < n" for k
    using less_eq_div_iff_mult_less_eq [of 256 "Suc k" "n + 255"] by (simp add: Suc_le_eq) linarith
  then show ?thesis by (auto simp: chunksOk_def roundsOk_def list_all_iff)
qed

lemma roundsOk_step:
  assumes "256 dvd dn" "dn < cnt"
  shows "roundsOk lba cnt dn \<longleftrightarrow> lba + of_nat dn < MAX_LBA \<and> roundsOk lba cnt (dn + secsPerLoop dn cnt)"
proof -
  obtain j where j: "dn = 256 * j" using assms(1) by blast
  have "dn \<le> 256 * k \<and> 256 * k < cnt \<longleftrightarrow> k = j \<or> dn + secsPerLoop dn cnt \<le> 256 * k \<and> 256 * k < cnt" for k
    using assms(2) j by (auto simp: secsPerLoop_def)
  then show ?thesis unfolding roundsOk_def j by (metis j)
qed

lemma secsPerLoop_bounds:
  "dn < cnt \<Longrightarrow> 0 < secsPerLoop dn cnt \<and> secsPerLoop dn cnt \<le> 256 \<and> dn + secsPerLoop dn cnt \<le> cnt"
  by (auto simp: secsPerLoop_def)

lemma secsPerLoop_dvd:
  "256 dvd dn \<Longrightarrow> dn < cnt \<Longrightarrow> 256 dvd (dn + secsPerLoop dn cnt) \<or> cnt \<le> dn + secsPerLoop dn cnt"
  by (auto simp: secsPerLoop_def)

lemma ideReadLoop_step:
  fixes c :: "'d IDEChannel"
  assumes ok: "chanOk hw view c" "\<And>sl. wfDisk (media (view (ctl c)) sl)" and dn: "dn < cnt" and lba: "lba + of_nat dn < MAX_LBA"
  obtains c' where "chanOk hw view c'" "media (view (ctl c')) = media (view (ctl c))"
    "ideReadLoop hw devNo lba cnt dn buf c = ideReadLoop hw devNo lba cnt (dn + secsPerLoop dn cnt)
       (buf @ readSectors (media (view (ctl c)) (devNo = 1)) (lba + of_nat dn) (secsPerLoop dn cnt)) c'"
proof -
  let ?per = "secsPerLoop dn cnt"
  note b = secsPerLoop_bounds [OF dn]
  show ?thesis
  proof (rule read_round [OF ok lba, of ?per devNo])
    fix d' assume d': "chPhase (view d') = Idle" "media (view d') = media (view (ctl c))"
      and F: "\<And>F :: u8 list \<Rightarrow> 'd IDEChannel \<Rightarrow> (u8 list \<times> 'd IDEChannel) res. rbind (selectSector hw devNo (lba + of_nat dn) (of_nat ?per) c) (\<lambda>c.
         rbind (diskSemaDown hw (cmdOut hw CMD_READ_SECTOR c)) (\<lambda>c.
         (let (ready, c) = busyWait hw c in
         if \<not> ready then Inl (Panic ''read sector failed'') else
         (let (sec, c) = readSector hw (of_nat ?per) c in F sec c)))) =
         F (readSectors (media (view (ctl c)) (devNo = 1)) (lba + of_nat dn) ?per) (c\<lparr>ctl := d', expectingIntr := False\<rparr>)"
    show thesis
    proof (rule that [of "c\<lparr>ctl := d', expectingIntr := False\<rparr>"])
      show "ideReadLoop hw devNo lba cnt dn buf c = ideReadLoop hw devNo lba cnt (dn + ?per)
          (buf @ readSectors (media (view (ctl c)) (devNo = 1)) (lba + of_nat dn) ?per)
          (c\<lparr>ctl := d', expectingIntr := False\<rparr>)"
        using dn F [of "\<lambda>sec. ideReadLoop hw devNo lba cnt (dn + ?per) (buf @ sec)"]
        by (subst ideReadLoop.simps) (simp add: Let_def)
    qed (use d' ok(1) in \<open>simp_all add: chanOk_def\<close>)
  qed (use b in auto)
qed

lemma ideReadLoop_ok:
  assumes "chanOk hw view c" "\<And>sl. wfDisk (media (view (ctl c)) sl)" "256 dvd dn \<or> cnt \<le> dn" "roundsOk lba cnt dn"
  shows "\<exists>c'. ideReadLoop hw devNo lba cnt dn buf c =
      Inr (buf @ readSectors (media (view (ctl c)) (devNo = 1)) (lba + of_nat dn) (cnt - dn), c') \<and>
    chanOk hw view c' \<and> media (view (ctl c')) = media (view (ctl c))"
  using assms
proof (induction "cnt - dn" arbitrary: dn buf c rule: less_induct)
  case less
  show ?case
  proof (cases "dn < cnt")
    case False
    then show ?thesis using less.prems(1) by (subst ideReadLoop.simps) simp
  next
    case True
    let ?per = "secsPerLoop dn cnt" and ?M = "media (view (ctl c)) (devNo = 1)"
    note b = secsPerLoop_bounds [OF True]
    have dv: "256 dvd dn" using less.prems(3) True by simp
    have r: "lba + of_nat dn < MAX_LBA" "roundsOk lba cnt (dn + ?per)"
      using roundsOk_step [OF dv True] less.prems(4) by auto
    obtain c1 where c1: "chanOk hw view c1" "media (view (ctl c1)) = media (view (ctl c))"
      "ideReadLoop hw devNo lba cnt dn buf c =
        ideReadLoop hw devNo lba cnt (dn + ?per) (buf @ readSectors ?M (lba + of_nat dn) ?per) c1"
      by (rule ideReadLoop_step [OF less.prems(1,2) True r(1)])
    have dec: "cnt - (dn + ?per) < cnt - dn" using b True by linarith
    obtain c' where c': "ideReadLoop hw devNo lba cnt (dn + ?per) (buf @ readSectors ?M (lba + of_nat dn) ?per) c1 =
        Inr ((buf @ readSectors ?M (lba + of_nat dn) ?per) @
          readSectors ?M (lba + of_nat (dn + ?per)) (cnt - (dn + ?per)), c')"
      "chanOk hw view c'" "media (view (ctl c')) = media (view (ctl c))"
      using less.hyps [OF dec c1(1) _ secsPerLoop_dvd [OF dv True] r(2), of "buf @ readSectors ?M (lba + of_nat dn) ?per"]
        less.prems(2) unfolding c1(2) by blast
    have "readSectors ?M (lba + of_nat dn) (cnt - dn) = readSectors ?M (lba + of_nat dn) ?per @
        readSectors ?M (lba + of_nat (dn + ?per)) (cnt - (dn + ?per))"
      using readSectors_append [of ?M "lba + of_nat dn" ?per "cnt - (dn + ?per)"] b by (simp add: add.assoc)
    then show ?thesis using c1(3) c' by simp
  qed
qed

lemma ideReadLoop_panics:
  assumes "chanOk hw view c" "\<And>sl. wfDisk (media (view (ctl c)) sl)" "256 dvd dn \<or> cnt \<le> dn" "\<not> roundsOk lba cnt dn"
  shows "ideReadLoop hw devNo lba cnt dn buf c = Inl (Panic ''lba < MAX_LBA'')"
  using assms
proof (induction "cnt - dn" arbitrary: dn buf c rule: less_induct)
  case less
  have True: "dn < cnt" using less.prems(4) by (auto simp: roundsOk_def)
  have dv: "256 dvd dn" using less.prems(3) True by simp
  show ?case
  proof (cases "lba + of_nat dn < MAX_LBA")
    case False
    then show ?thesis using True by (subst ideReadLoop.simps) (simp add: Let_def selectSector_def)
  next
    case lba: True
    have dec: "cnt - (dn + secsPerLoop dn cnt) < cnt - dn" using secsPerLoop_bounds [OF True] True by linarith
    have r: "\<not> roundsOk lba cnt (dn + secsPerLoop dn cnt)" using roundsOk_step [OF dv True] less.prems(4) lba by blast
    obtain c1 where c1: "chanOk hw view c1" "media (view (ctl c1)) = media (view (ctl c))"
      "ideReadLoop hw devNo lba cnt dn buf c = ideReadLoop hw devNo lba cnt (dn + secsPerLoop dn cnt)
        (buf @ readSectors (media (view (ctl c)) (devNo = 1)) (lba + of_nat dn) (secsPerLoop dn cnt)) c1"
      by (rule ideReadLoop_step [OF less.prems(1,2) True lba])
    show ?thesis
      unfolding c1(3) using less.hyps [OF dec c1(1) _ secsPerLoop_dvd [OF dv True] r] less.prems(2) unfolding c1(2) by blast
  qed
qed

lemma writeSectors_append:
  "writeSectors l (m + n) buf d = writeSectors (l + of_nat m) n (drop (512 * m) buf) (writeSectors l m buf d)"
  by (induction m arbitrary: l buf d) (simp_all add: ac_simps)

lemma writeSectors_take: "512 * n \<le> k \<Longrightarrow> writeSectors l n (take k buf) d = writeSectors l n buf d"
  by (induction n arbitrary: l buf d k) (simp_all add: drop_take)

lemma ideWriteLoop_step:
  fixes c :: "'d IDEChannel"
  assumes ok: "chanOk hw view c" and dn: "dn < cnt" and lba: "lba + of_nat dn < MAX_LBA" and buf: "512 * cnt \<le> length buf"
  obtains c' where "chanOk hw view c'"
    "media (view (ctl c')) = (media (view (ctl c)))(devNo = 1 :=
       writeSectors (lba + of_nat dn) (secsPerLoop dn cnt) (drop (512 * dn) buf) (media (view (ctl c)) (devNo = 1)))"
    "ideWriteLoop hw devNo lba buf cnt dn c = ideWriteLoop hw devNo lba buf cnt (dn + secsPerLoop dn cnt) c'"
proof -
  let ?per = "secsPerLoop dn cnt"
  note b = secsPerLoop_bounds [OF dn]
  show ?thesis
  proof (rule write_round [OF ok lba, of ?per "drop (512 * dn) buf" devNo])
    fix d' assume d': "chPhase (view d') = Idle"
      "media (view d') = (media (view (ctl c)))(devNo = 1 := writeSectors (lba + of_nat dn) ?per
         (take (512 * ?per) (drop (512 * dn) buf)) (media (view (ctl c)) (devNo = 1)))"
      and F: "\<And>F :: 'd IDEChannel \<Rightarrow> 'd IDEChannel res. rbind (selectSector hw devNo (lba + of_nat dn) (of_nat ?per) c) (\<lambda>c.
         (let (ready, c) = busyWait hw (cmdOut hw CMD_WRITE_SECTOR c) in
         if \<not> ready then Inl (Panic ''write sector failed'') else
         rbind (writeSector hw (drop (512 * dn) buf) (of_nat ?per) c) (\<lambda>c. rbind (diskSemaDown hw c) F))) =
         F (c\<lparr>ctl := d', expectingIntr := False\<rparr>)"
    show thesis
    proof (rule that [of "c\<lparr>ctl := d', expectingIntr := False\<rparr>"])
      show "ideWriteLoop hw devNo lba buf cnt dn c =
          ideWriteLoop hw devNo lba buf cnt (dn + ?per) (c\<lparr>ctl := d', expectingIntr := False\<rparr>)"
        using dn F [of "ideWriteLoop hw devNo lba buf cnt (dn + ?per)"]
        by (subst ideWriteLoop.simps) (simp add: Let_def)
    qed (use d' ok in \<open>simp_all add: chanOk_def writeSectors_take\<close>)
  qed (use b buf in auto)
qed

lemma ideWriteLoop_ok:
  assumes "chanOk hw view c" "256 dvd dn \<or> cnt \<le> dn" "roundsOk lba cnt dn" "512 * cnt \<le> length buf"
  shows "\<exists>c'. ideWriteLoop hw devNo lba buf cnt dn c = Inr c' \<and> chanOk hw view c' \<and>
    media (view (ctl c')) = (media (view (ctl c)))(devNo = 1 :=
      writeSectors (lba + of_nat dn) (cnt - dn) (drop (512 * dn) buf) (media (view (ctl c)) (devNo = 1)))"
  using assms
proof (induction "cnt - dn" arbitrary: dn c rule: less_induct)
  case less
  show ?case
  proof (cases "dn < cnt")
    case False
    then show ?thesis using less.prems(1) by (subst ideWriteLoop.simps) simp
  next
    case True
    let ?per = "secsPerLoop dn cnt" and ?M = "media (view (ctl c)) (devNo = 1)"
    note b = secsPerLoop_bounds [OF True]
    have dv: "256 dvd dn" using less.prems(2) True by simp
    have r: "lba + of_nat dn < MAX_LBA" "roundsOk lba cnt (dn + ?per)"
      using roundsOk_step [OF dv True] less.prems(3) by auto
    obtain c1 where c1: "chanOk hw view c1" "media (view (ctl c1)) = (media (view (ctl c)))(devNo = 1 :=
        writeSectors (lba + of_nat dn) ?per (drop (512 * dn) buf) ?M)"
      "ideWriteLoop hw devNo lba buf cnt dn c = ideWriteLoop hw devNo lba buf cnt (dn + ?per) c1"
      by (rule ideWriteLoop_step [OF less.prems(1) True r(1) less.prems(4)])
    have dec: "cnt - (dn + ?per) < cnt - dn" using b True by linarith
    have "writeSectors (lba + of_nat dn) (cnt - dn) (drop (512 * dn) buf) ?M =
        writeSectors (lba + of_nat (dn + ?per)) (cnt - (dn + ?per)) (drop (512 * (dn + ?per)) buf)
          (writeSectors (lba + of_nat dn) ?per (drop (512 * dn) buf) ?M)"
      using writeSectors_append [of "lba + of_nat dn" ?per "cnt - (dn + ?per)" "drop (512 * dn) buf" ?M] b
      by (simp add: add.assoc add.commute)
    then show ?thesis
      using less.hyps [OF dec c1(1) secsPerLoop_dvd [OF dv True] r(2) less.prems(4)] c1(2,3) by simp
  qed
qed

lemma ideWriteLoop_panics:
  assumes "chanOk hw view c" "256 dvd dn \<or> cnt \<le> dn" "\<not> roundsOk lba cnt dn" "512 * cnt \<le> length buf"
  shows "ideWriteLoop hw devNo lba buf cnt dn c = Inl (Panic ''lba < MAX_LBA'')"
  using assms
proof (induction "cnt - dn" arbitrary: dn c rule: less_induct)
  case less
  have True: "dn < cnt" using less.prems(3) by (auto simp: roundsOk_def)
  have dv: "256 dvd dn" using less.prems(2) True by simp
  show ?case
  proof (cases "lba + of_nat dn < MAX_LBA")
    case False
    then show ?thesis using True by (subst ideWriteLoop.simps) (simp add: Let_def selectSector_def)
  next
    case lba: True
    have dec: "cnt - (dn + secsPerLoop dn cnt) < cnt - dn" using secsPerLoop_bounds [OF True] True by linarith
    have r: "\<not> roundsOk lba cnt (dn + secsPerLoop dn cnt)" using roundsOk_step [OF dv True] less.prems(3) lba by blast
    obtain c1 where c1: "chanOk hw view c1"
      "ideWriteLoop hw devNo lba buf cnt dn c = ideWriteLoop hw devNo lba buf cnt (dn + secsPerLoop dn cnt) c1"
      by (rule ideWriteLoop_step [OF less.prems(1) True lba less.prems(4)])
    show ?thesis
      unfolding c1(2) by (rule less.hyps [OF dec c1(1) secsPerLoop_dvd [OF dv True] r less.prems(4)])
  qed
qed

section \<open>The driver implements the sectors\<close>



section \<open>A controller\<close>

text \<open>A controller that meets the contract: it has no delay and remembers what the contract speaks of.\<close>

definition demoAta :: "ataView ATAPorts" where
  "demoAta =
     \<lparr>outbP = (\<lambda>p b v. if chPhase v \<noteq> Idle then v
        else if p = 0x1f2 then v\<lparr>rCnt := b\<rparr> else if p = 0x1f3 then v\<lparr>rL := b\<rparr>
        else if p = 0x1f4 then v\<lparr>rM := b\<rparr> else if p = 0x1f5 then v\<lparr>rH := b\<rparr>
        else if p = 0x1f6 then v\<lparr>rDev := b\<rparr>
        else if p = 0x1f7 \<and> b = CMD_READ_SECTOR then v\<lparr>chPhase := DataIn (readSectors (media v (slaveSel v)) (lbaReg v) (cntReg v))\<rparr>
        else if p = 0x1f7 \<and> b = CMD_WRITE_SECTOR then v\<lparr>chPhase := DataOut (slaveSel v) (lbaReg v) (cntReg v)\<rparr> else v),
      inbP = (\<lambda>p v. (0x48, v)),
      inswP = (\<lambda>p n v. case chPhase v of DataIn b \<Rightarrow> (b, v\<lparr>chPhase := Idle\<rparr>) | _ \<Rightarrow> (replicate (2 * n) 0, v)),
      outswP = (\<lambda>p buf v. case chPhase v of
         DataOut sl lba n \<Rightarrow> v\<lparr>chPhase := Written, media := (media v)(sl := writeSectors lba n buf (media v sl))\<rparr> | _ \<Rightarrow> v),
      irqWait = (\<lambda>v. Some (if chPhase v = Written then v\<lparr>chPhase := Idle\<rparr> else v)),
      sleepP = id\<rparr>"

lemma demoAta_ok: "ataOk demoAta 0x1f0 id"
  unfolding ataOk_def demoAta_def by (auto intro: exI [of _ 0])

definition demoChan :: "ataView IDEChannel" where
  "demoChan = \<lparr>cname = bytes ''ide0'' @ [0, 0, 0, 0], expectingIntr = False, intrNo = 0x2e, portBase = 0x1f0,
     chLocked = False, diskDone = 0,
     ctl = \<lparr>rCnt = 0, rL = 0, rM = 0, rH = 0, rDev = 0, chPhase = Idle, media = (\<lambda>_. demoDisk)\<rparr>\<rparr>"

lemma demoChan_ok: "chanOk demoAta id demoChan"
  using demoAta_ok by (simp add: chanOk_def demoChan_def)



end
