(* ===== verification/Syscall.thy ===== *)
theory Syscall
  imports GPrelude
begin

text \<open>
  System calls: the functions of lib/user/syscall.c that user programs call, the numbers of
  kernel/user/syscall_define.h they put into eax, the table that kernel/user/syscall.c fills, and the
  dispatch of an \<open>int 0x80\<close> through it with the arguments in ebx, ecx and edx.
\<close>

section \<open>Numbers and handlers\<close>

datatype SYSCALL =
    SYS_GETPID
  | SYS_WRITE
  | SYS_MALLOC
  | SYS_FREE
  | SYS_FORK
  | SYS_READ
  | SYS_PUTCHAR
  | SYS_CLEAR
  | SYS_OPEN
  | SYS_CLOSE
  | SYS_LSEEK
  | SYS_UNLINK
  | SYS_MKDIR
  | SYS_GETCWD
  | SYS_OPENDIR
  | SYS_CLOSEDIR
  | SYS_CHDIR
  | SYS_RMDIR
  | SYS_READDIR
  | SYS_REWINDDIR
  | SYS_STAT
  | SYS_PS
  | SYS_EXECV
  | SYS_EXIT
  | SYS_WAIT

text \<open>The value of the enumeration constant.\<close>

fun sysNo :: "SYSCALL \<Rightarrow> nat" where
  "sysNo SYS_GETPID = 0"
| "sysNo SYS_WRITE = 1"
| "sysNo SYS_MALLOC = 2"
| "sysNo SYS_FREE = 3"
| "sysNo SYS_FORK = 4"
| "sysNo SYS_READ = 5"
| "sysNo SYS_PUTCHAR = 6"
| "sysNo SYS_CLEAR = 7"
| "sysNo SYS_OPEN = 8"
| "sysNo SYS_CLOSE = 9"
| "sysNo SYS_LSEEK = 10"
| "sysNo SYS_UNLINK = 11"
| "sysNo SYS_MKDIR = 12"
| "sysNo SYS_GETCWD = 13"
| "sysNo SYS_OPENDIR = 14"
| "sysNo SYS_CLOSEDIR = 15"
| "sysNo SYS_CHDIR = 16"
| "sysNo SYS_RMDIR = 17"
| "sysNo SYS_READDIR = 18"
| "sysNo SYS_REWINDDIR = 19"
| "sysNo SYS_STAT = 20"
| "sysNo SYS_PS = 21"
| "sysNo SYS_EXECV = 22"
| "sysNo SYS_EXIT = 23"
| "sysNo SYS_WAIT = 24"

text \<open>The kernel functions a system call may reach.\<close>

datatype syscallHandler =
    K_sysGetPid
  | K_sysWrite
  | K_sysMalloc
  | K_sysFree
  | K_sysFork
  | K_sysRead
  | K_sysPutChar
  | K_sysClear
  | K_sysOpen
  | K_sysClose
  | K_sysLseek
  | K_sysUnlink
  | K_sysMkdir
  | K_sysGetCwd
  | K_sysOpenDir
  | K_sysCloseDir
  | K_sysChDir
  | K_sysRmdir
  | K_sysReadDir
  | K_sysRewindDir
  | K_sysStat
  | K_sysPs
  | K_sysExecv
  | K_sysExit
  | K_sysWait

abbreviation (input) SYSCALL_NUMBER :: nat where "SYSCALL_NUMBER \<equiv> 32"

text \<open>The table, a static array: zero until \<open>syscallInit\<close> has filled it.\<close>

definition setHandler :: "SYSCALL \<Rightarrow> syscallHandler \<Rightarrow> syscallHandler option list \<Rightarrow> syscallHandler option list" where
  "setHandler n h tab = tab[sysNo n := Some h]"

definition syscallInit :: "syscallHandler option list" where
  "syscallInit =
     (let tab = replicate SYSCALL_NUMBER None;
          tab = setHandler SYS_GETPID K_sysGetPid tab;
          tab = setHandler SYS_WRITE K_sysWrite tab;
          tab = setHandler SYS_MALLOC K_sysMalloc tab;
          tab = setHandler SYS_FREE K_sysFree tab;
          tab = setHandler SYS_FORK K_sysFork tab;
          tab = setHandler SYS_READ K_sysRead tab;
          tab = setHandler SYS_PUTCHAR K_sysPutChar tab;
          tab = setHandler SYS_CLEAR K_sysClear tab;
          tab = setHandler SYS_OPEN K_sysOpen tab;
          tab = setHandler SYS_CLOSE K_sysClose tab;
          tab = setHandler SYS_LSEEK K_sysLseek tab;
          tab = setHandler SYS_UNLINK K_sysUnlink tab;
          tab = setHandler SYS_MKDIR K_sysMkdir tab;
          tab = setHandler SYS_GETCWD K_sysGetCwd tab;
          tab = setHandler SYS_OPENDIR K_sysOpenDir tab;
          tab = setHandler SYS_CLOSEDIR K_sysCloseDir tab;
          tab = setHandler SYS_CHDIR K_sysChDir tab;
          tab = setHandler SYS_RMDIR K_sysRmdir tab;
          tab = setHandler SYS_READDIR K_sysReadDir tab;
          tab = setHandler SYS_REWINDDIR K_sysRewindDir tab;
          tab = setHandler SYS_STAT K_sysStat tab;
          tab = setHandler SYS_PS K_sysPs tab;
          tab = setHandler SYS_EXECV K_sysExecv tab;
          tab = setHandler SYS_EXIT K_sysExit tab;
          tab = setHandler SYS_WAIT K_sysWait tab
      in tab)"

section \<open>The calls\<close>

text \<open>The registers of an \<open>int 0x80\<close>: the number and the arguments that are passed.\<close>

record Trap =
  trapNo :: nat
  trapArgs :: "u32 list"

definition syscall0 :: "SYSCALL \<Rightarrow> Trap" where
  "syscall0 number = \<lparr>trapNo = sysNo number, trapArgs = []\<rparr>"

definition syscall1 :: "SYSCALL \<Rightarrow> u32 \<Rightarrow> Trap" where
  "syscall1 number arg1 = \<lparr>trapNo = sysNo number, trapArgs = [arg1]\<rparr>"

definition syscall2 :: "SYSCALL \<Rightarrow> u32 \<Rightarrow> u32 \<Rightarrow> Trap" where
  "syscall2 number arg1 arg2 = \<lparr>trapNo = sysNo number, trapArgs = [arg1, arg2]\<rparr>"

definition syscall3 :: "SYSCALL \<Rightarrow> u32 \<Rightarrow> u32 \<Rightarrow> u32 \<Rightarrow> Trap" where
  "syscall3 number arg1 arg2 arg3 = \<lparr>trapNo = sysNo number, trapArgs = [arg1, arg2, arg3]\<rparr>"

definition user_getPid :: "Trap" where
  "user_getPid = syscall0 SYS_GETPID"

definition user_write :: "u32 \<Rightarrow> u32 \<Rightarrow> u32 \<Rightarrow> Trap" where
  "user_write fd buf count = syscall3 SYS_WRITE fd buf count"

definition user_malloc :: "u32 \<Rightarrow> Trap" where
  "user_malloc sz = syscall1 SYS_MALLOC sz"

definition user_free :: "u32 \<Rightarrow> Trap" where
  "user_free ptr = syscall1 SYS_FREE ptr"

definition user_fork :: "Trap" where
  "user_fork = syscall0 SYS_FORK"

definition user_read :: "u32 \<Rightarrow> u32 \<Rightarrow> u32 \<Rightarrow> Trap" where
  "user_read fd buf count = syscall3 SYS_READ fd buf count"

definition user_putChar :: "u32 \<Rightarrow> Trap" where
  "user_putChar c = syscall1 SYS_PUTCHAR c"

definition user_clear :: "Trap" where
  "user_clear = syscall0 SYS_CLEAR"

definition user_open :: "u32 \<Rightarrow> u32 \<Rightarrow> Trap" where
  "user_open pathName flags = syscall2 SYS_OPEN pathName flags"

definition user_close :: "u32 \<Rightarrow> Trap" where
  "user_close fd = syscall1 SYS_CLOSE fd"

definition user_lseek :: "u32 \<Rightarrow> u32 \<Rightarrow> u32 \<Rightarrow> Trap" where
  "user_lseek fd offset seekFlag = syscall3 SYS_LSEEK fd offset seekFlag"

definition user_unlink :: "u32 \<Rightarrow> Trap" where
  "user_unlink pathName = syscall1 SYS_UNLINK pathName"

definition user_mkdir :: "u32 \<Rightarrow> Trap" where
  "user_mkdir pathName = syscall1 SYS_MKDIR pathName"

definition user_getCwd :: "u32 \<Rightarrow> u32 \<Rightarrow> Trap" where
  "user_getCwd buf sz = syscall2 SYS_GETCWD buf sz"

definition user_openDir :: "u32 \<Rightarrow> Trap" where
  "user_openDir pathName = syscall1 SYS_OPENDIR pathName"

definition user_closeDir :: "u32 \<Rightarrow> Trap" where
  "user_closeDir dir = syscall1 SYS_CLOSEDIR dir"

definition user_chdir :: "u32 \<Rightarrow> Trap" where
  "user_chdir pathName = syscall1 SYS_CHDIR pathName"

definition user_rmdir :: "u32 \<Rightarrow> Trap" where
  "user_rmdir pathName = syscall1 SYS_RMDIR pathName"

definition user_readDir :: "u32 \<Rightarrow> Trap" where
  "user_readDir dir = syscall1 SYS_READDIR dir"

definition user_rewindDir :: "u32 \<Rightarrow> Trap" where
  "user_rewindDir dir = syscall1 SYS_REWINDDIR dir"

definition user_stat :: "u32 \<Rightarrow> u32 \<Rightarrow> Trap" where
  "user_stat path buf = syscall2 SYS_STAT path buf"

definition user_ps :: "Trap" where
  "user_ps = syscall0 SYS_PS"

definition user_execv :: "u32 \<Rightarrow> u32 \<Rightarrow> Trap" where
  "user_execv path argv = syscall2 SYS_EXECV path argv"

definition user_exit :: "u32 \<Rightarrow> Trap" where
  "user_exit status = syscall1 SYS_EXIT status"

definition user_wait :: "u32 \<Rightarrow> Trap" where
  "user_wait status = syscall1 SYS_WAIT status"

section \<open>The dispatch\<close>

text \<open>The handler an \<open>int 0x80\<close> calls and its arguments; a number without an entry of the table makes the
  kernel call address 0 or read behind the table, as no one checks it.\<close>

definition syscallDispatch :: "syscallHandler option list \<Rightarrow> Trap \<Rightarrow> (syscallHandler \<times> u32 list) res" where
  "syscallDispatch tab t =
     rbind (rd tab (trapNo t)) (\<lambda>h. case h of None \<Rightarrow> Inl OutOfBounds | Some k \<Rightarrow> Inr (k, trapArgs t))"

lemmas user_calls =
  user_getPid_def user_write_def user_malloc_def user_free_def user_fork_def user_read_def user_putChar_def user_clear_def user_open_def user_close_def user_lseek_def user_unlink_def user_mkdir_def user_getCwd_def user_openDir_def user_closeDir_def user_chdir_def user_rmdir_def user_readDir_def user_rewindDir_def user_stat_def user_ps_def user_execv_def user_exit_def user_wait_def
  syscall0_def syscall1_def syscall2_def syscall3_def

text \<open>The table as \<open>syscallInit\<close> leaves it: the first 25 entries, in the order of the numbers.\<close>

lemma syscallInit_table:
  "syscallInit = map Some [K_sysGetPid, K_sysWrite, K_sysMalloc, K_sysFree, K_sysFork, K_sysRead, K_sysPutChar, K_sysClear, K_sysOpen, K_sysClose, K_sysLseek, K_sysUnlink, K_sysMkdir, K_sysGetCwd, K_sysOpenDir, K_sysCloseDir, K_sysChDir, K_sysRmdir, K_sysReadDir, K_sysRewindDir, K_sysStat, K_sysPs, K_sysExecv, K_sysExit, K_sysWait] @ replicate 7 None"
  by (simp add: syscallInit_def setHandler_def Let_def numeral_eq_Suc)

lemma dispatch_nth:
  "n < 25 \<Longrightarrow> syscallDispatch syscallInit \<lparr>trapNo = n, trapArgs = as\<rparr> = Inr (the (syscallInit ! n), as)"
proof -
  assume n: "n < 25"
  then have "n \<in> set [0..<25]" by simp
  moreover have "list_all (\<lambda>n. n < length syscallInit \<and> syscallInit ! n \<noteq> None) [0..<25]"
    by (simp add: syscallInit_table upt_rec nth_append)
  ultimately have "n < length syscallInit" "syscallInit ! n \<noteq> None" by (auto simp: list_all_iff)
  then show ?thesis by (auto simp: syscallDispatch_def rd_def)
qed

lemma dispatch_beyond: "syscallDispatch syscallInit \<lparr>trapNo = 25 + n, trapArgs = as\<rparr> = Inl OutOfBounds"
  by (cases "n < 7") (simp_all add: syscallDispatch_def syscallInit_table rd_def nth_append)


end
