(* ===== verification/PathProps.thy ===== *)
theory PathProps
  imports Shell Layout
begin

text \<open>
  Paths as lists of names: the reference for pathParse, pathDepthCnt and washPath.
\<close>

section \<open>The names of a path\<close>

function comps :: "u8 list \<Rightarrow> u8 list list" where
  "comps p =
     (let q = dropWhile (\<lambda>c. c = slash) p; c = takeWhile (\<lambda>x. x \<noteq> slash \<and> x \<noteq> 0) q
      in if c = [] then [] else c # comps (drop (length c) q))"
  by pat_completeness auto
termination
proof (relation "measure length", goal_cases)
  case 1
  then show ?case by simp
next
  case (2 p q c)
  have "0 < length c" using 2 by simp
  moreover have "length c \<le> length q" unfolding 2(2) by (rule length_takeWhile_le)
  ultimately have "length (drop (length c) q) < length q" unfolding length_drop by linarith
  then show ?case using 2(1) length_dropWhile_le [of "\<lambda>c. c = slash" p] by simp
qed

declare comps.simps [simp del]

definition okName :: "u8 list \<Rightarrow> bool" where
  "okName c \<longleftrightarrow> c \<noteq> [] \<and> slash \<notin> set c \<and> 0 \<notin> set c"

lemma nameLoop_ok:
  assumes "is_cstr p" "k + length (takeWhile (\<lambda>x. x \<noteq> slash \<and> x \<noteq> 0) p) \<le> length nm"
  shows "nameLoop p nm k = Inr (dropWhile (\<lambda>x. x \<noteq> slash \<and> x \<noteq> 0) p, overlay nm k (takeWhile (\<lambda>x. x \<noteq> slash \<and> x \<noteq> 0) p))"
  using assms
proof (induction p arbitrary: nm k)
  case (Cons c p)
  show ?case
  proof (cases "c \<noteq> slash \<and> c \<noteq> 0")
    case True
    then show ?thesis
      using Cons.IH [of "Suc k" "nm[k := c]"] Cons.prems by (simp add: wr_def overlay_Cons)
  qed auto
qed simp

lemma dropWhile_cstr: "is_cstr p \<Longrightarrow> \<forall>c. P c \<longrightarrow> c \<noteq> 0 \<Longrightarrow> is_cstr (dropWhile P p)"
  by (induction p) auto

lemma pathParse_ok:
  assumes "is_cstr p"
  defines "q \<equiv> dropWhile (\<lambda>c. c = slash) p"
  defines "c \<equiv> takeWhile (\<lambda>x. x \<noteq> slash \<and> x \<noteq> 0) q"
  assumes "length c \<le> length nm"
  shows "pathParse p nm = Inr (if drop (length c) q ! 0 = 0 then None else Some (drop (length c) q), overlay nm 0 c)"
    "is_cstr (drop (length c) q)"
proof -
  have q: "is_cstr q" unfolding q_def by (rule dropWhile_cstr [OF assms(1)]) (simp add: slash_def)
  have d: "drop (length c) q = dropWhile (\<lambda>x. x \<noteq> slash \<and> x \<noteq> 0) q"
    unfolding c_def by (rule dropWhile_eq_drop [symmetric])
  then show r: "is_cstr (drop (length c) q)" using dropWhile_cstr [OF q] by simp
  have "p \<noteq> []" using assms(1) by auto
  moreover have "(if p ! 0 = slash then dropWhile (\<lambda>c. c = slash) p else p) = q"
    unfolding q_def by (cases p) auto
  moreover have "drop (length c) q \<noteq> []" using r by auto
  moreover have "nameLoop q nm 0 = Inr (drop (length c) q, overlay nm 0 c)"
    using nameLoop_ok [OF q, of 0 nm] assms(4) unfolding d by (simp add: c_def)
  ultimately show "pathParse p nm = Inr (if drop (length c) q ! 0 = 0 then None else Some (drop (length c) q), overlay nm 0 c)"
    by (simp add: pathParse_def rd_def)
qed

lemma comps_okName: "c \<in> set (comps p) \<Longrightarrow> okName c"
proof (induction p rule: comps.induct)
  case (1 p)
  then show ?case
    by (subst (asm) (2) comps.simps) (auto simp: Let_def okName_def dest: set_takeWhileD split: if_splits)
qed

lemma comps_zero [simp]: "comps (0 # p) = []"
  by (subst comps.simps) (simp add: slash_def)

section \<open>Normal form\<close>

text \<open>Going through the names with a stack: \<open>..\<close> takes the last name off, \<open>.\<close> does nothing.\<close>

definition normStep :: "u8 list list \<Rightarrow> u8 list \<Rightarrow> u8 list list" where
  "normStep st c = (if c = bytes ''..'' then butlast st else if c = bytes ''.'' then st else st @ [c])"

definition renderPath :: "u8 list list \<Rightarrow> u8 list" where
  "renderPath st = (if st = [] then [slash] else concat (map (\<lambda>c. slash # c) st))"

lemma renderPath_snoc: "renderPath (st @ [c]) = (if st = [] then [slash] else renderPath st @ [slash]) @ c"
  by (simp add: renderPath_def)

lemma renderPath_root: "list_all okName st \<Longrightarrow> renderPath st = [slash] \<longleftrightarrow> st = []"
  by (cases st) (auto simp: renderPath_def okName_def)

lemma renderPath_no0: "list_all okName st \<Longrightarrow> 0 \<notin> set (renderPath st)"
  by (auto simp: renderPath_def list_all_iff okName_def slash_def)

lemma renderPath_butlast: "length (renderPath (butlast st)) \<le> length (renderPath st)"
  by (cases st rule: rev_cases) (auto simp: renderPath_def)

lemma okName_normStep: "list_all okName st \<Longrightarrow> okName c \<Longrightarrow> list_all okName (normStep st c)"
  by (auto simp: normStep_def list_all_iff dest: in_set_butlastD)

definition pad :: "u8 list \<Rightarrow> u8 list" where
  "pad c = c @ replicate (512 - length c) 0"

lemma pad_facts:
  assumes "0 \<notin> set c" "length c < 512"
  shows "is_cstr (pad c)" "cstr (pad c) = c" "length (pad c) = 512"
proof -
  have e: "replicate (512 - length c) (0 :: u8) = 0 # replicate (511 - length c) 0"
    using assms(2) by (simp flip: replicate_Suc)
  show "is_cstr (pad c)" "cstr (pad c) = c" using assms(1) unfolding pad_def e by simp_all
  show "length (pad c) = 512" using assms(2) by (simp add: pad_def)
qed

definition holds :: "u8 list \<Rightarrow> u8 list list \<Rightarrow> nat \<Rightarrow> bool" where
  "holds new st n \<longleftrightarrow> is_cstr new \<and> cstr new = renderPath st \<and> length new = n"

lemma cut_at:
  "length a = k \<Longrightarrow> 0 \<notin> set a \<Longrightarrow> is_cstr ((a @ x # r)[k := 0]) \<and> cstr ((a @ x # r)[k := 0]) = a"
  by (auto simp: list_update_append)

text \<open>Taking the last name off.\<close>

lemma wash_up:
  assumes new: "holds new st n" and st: "list_all okName st"
  shows "\<exists>k new'. strrchr new slash = Inr (Some k) \<and> (if k \<noteq> 0 then wr new k 0 else wr new (k + 1) 0) = Inr new' \<and>
    holds new' (butlast st) n"
proof -
  obtain r where r: "new = renderPath st @ 0 # r" and n: "length new = n"
    using new cstr_split [of new] by (auto simp: holds_def)
  show ?thesis
  proof (cases st rule: rev_cases)
    case Nil
    then have "new = [] @ slash # [] @ 0 # r" using r by (simp add: renderPath_def)
    then have k: "strrchr new slash = Inr (Some 0)" using strrchr_last [of "[]" slash "[]" r] by (simp add: slash_def)
    then show ?thesis using Nil r n by (simp add: wr_def holds_def renderPath_def slash_def)
  next
    case (snoc st' c)
    let ?a = "concat (map (\<lambda>c. slash # c) st')"
    have c: "okName c" "list_all okName st'" using st snoc by simp_all
    have a0: "0 \<notin> set ?a" using c(2) by (auto simp: list_all_iff okName_def slash_def)
    have new: "new = ?a @ slash # c @ 0 # r" using r snoc by (simp add: renderPath_def)
    then have k: "strrchr new slash = Inr (Some (length ?a))"
      using strrchr_last [OF a0, of slash c r] c(1) by (simp add: slash_def okName_def)
    show ?thesis
    proof (cases "st' = []")
      case True
      then have "new[1 := 0] = [slash] @ 0 # drop 2 new" "1 < length new"
        using new c(1) by (cases c; simp add: okName_def)+
      then show ?thesis using k True snoc n by (auto simp: wr_def holds_def renderPath_def slash_def)
    next
      case False
      then have "length ?a \<noteq> 0" by (cases st') auto
      then show ?thesis
        using k False snoc n cut_at [OF refl a0, of slash "c @ 0 # r"] new
        by (auto simp: wr_def holds_def renderPath_def)
    qed
  qed
qed

text \<open>Appending a name.\<close>

lemma wash_append:
  assumes new: "holds new st n" and st: "list_all okName st" and c: "okName c" "length c < 512"
    and room: "length (renderPath st) + Suc (length c) < n"
  shows "\<exists>root new1 new'. strcmp new (fmt ''/'') = Inr root \<and>
    (if root \<noteq> 0 then strcat new (fmt ''/'') else Inr new) = Inr new1 \<and>
    strcat new1 (pad c) = Inr new' \<and> holds new' (st @ [c]) n"
proof -
  have f: "is_cstr (fmt ''/'')" "cstr (fmt ''/'') = [slash]" by (simp_all add: bytes_def slash_def)
  have n: "is_cstr new" "cstr new = renderPath st" "length new = n" using new by (simp_all add: holds_def)
  obtain root where root: "strcmp new (fmt ''/'') = Inr root" using strcmp_total [OF n(1) f(1)] by auto
  then have root0: "root = 0 \<longleftrightarrow> st = []"
    using strcmp_zero_iff [OF n(1) f(1)] f(2) n(2) renderPath_root [OF st] by simp
  note p = pad_facts [OF _ c(2)]
  have c0: "0 \<notin> set c" using c(1) by (simp add: okName_def)
  show ?thesis
  proof (cases "st = []")
    case True
    then have "strcat new (pad c) = Inr ([slash] @ c @ 0 # drop (Suc (1 + length c)) new)"
      using strcat_ok [OF n(1) p(1)] p(2) c0 n room by (simp add: renderPath_def)
    then show ?thesis using root root0 True n room c0 by (simp add: holds_def renderPath_def slash_def)
  next
    case False
    let ?new1 = "renderPath st @ [slash] @ 0 # drop (Suc (length (renderPath st) + 1)) new"
    have s1: "strcat new (fmt ''/'') = Inr ?new1"
      using strcat_ok [OF n(1) f(1)] f(2) n room by simp
    have z: "0 \<notin> set (renderPath st @ [slash])" using renderPath_no0 [OF st] by (simp add: slash_def)
    then have n1: "is_cstr ?new1" "cstr ?new1 = renderPath st @ [slash]" "length ?new1 = n"
      using n(3) room cstr_append_0 [OF z, of "drop (Suc (length (renderPath st) + 1)) new"] by simp_all
    have "strcat ?new1 (pad c) = Inr ((renderPath st @ [slash]) @ c @ 0 # drop (Suc (length (renderPath st @ [slash]) + length c)) ?new1)"
      using strcat_ok [OF n1(1) p(1)] p(2) c0 n1 room by simp
    moreover have "holds ((renderPath st @ [slash]) @ c @ 0 # drop (Suc (length (renderPath st @ [slash]) + length c)) ?new1) (st @ [c]) n"
      using False n1(3) room z c0 cstr_append_0 [of "(renderPath st @ [slash]) @ c"] by (simp add: holds_def renderPath_snoc)
    ultimately show ?thesis using root root0 False s1 by auto
  qed
qed

section \<open>The loop of washPath\<close>

lemma overlay_zero: "length c \<le> n \<Longrightarrow> overlay (replicate n 0) 0 c = c @ replicate (n - length c) (0 :: u8)"
  by (simp add: overlay_def)

lemma pad_cleared: "length c \<le> 16 \<Longrightarrow> memset (pad c) 0 16 = Inr (replicate 512 0)"
  using memset_ok [of 16 "pad c" 0] by (simp add: pad_def flip: replicate_add)

definition subNames :: "u8 list option \<Rightarrow> u8 list list" where
  "subNames sub = (case sub of None \<Rightarrow> [] | Some p \<Rightarrow> comps p)"

definition subOk :: "u8 list option \<Rightarrow> bool" where
  "subOk sub \<longleftrightarrow> (case sub of None \<Rightarrow> True | Some p \<Rightarrow> is_cstr p)"

text \<open>One call of \<open>pathParse\<close> takes the first name.\<close>

lemma pathParse_comps:
  assumes p: "is_cstr p" and len: "\<forall>c \<in> set (comps p). length c \<le> n"
  shows "\<exists>sub. pathParse p (replicate n 0) = Inr (sub,
      (case comps p of [] \<Rightarrow> replicate n 0 | c # cs \<Rightarrow> c @ replicate (n - length c) 0)) \<and>
    subOk sub \<and> (case comps p of [] \<Rightarrow> True | c # cs \<Rightarrow> subNames sub = cs)"
proof -
  define q where "q = dropWhile (\<lambda>c. c = slash) p"
  define c where "c = takeWhile (\<lambda>x. x \<noteq> slash \<and> x \<noteq> 0) q"
  have cp: "comps p = (if c = [] then [] else c # comps (drop (length c) q))"
    by (subst comps.simps) (simp add: Let_def c_def q_def)
  have l: "length c \<le> length (replicate n (0 :: u8))" using len cp by (cases "c = []") auto
  note pp = pathParse_ok [OF p, folded q_def, folded c_def, OF l]
  have z: "comps (drop (length c) q) = []" if "drop (length c) q ! 0 = 0"
    using that pp(2) by (cases "drop (length c) q") auto
  show ?thesis
    using pp z l by (auto simp: cp overlay_zero subOk_def subNames_def)
qed

lemma pathParse_name:
  assumes "is_cstr p" "comps p = c # cs" "\<forall>d \<in> set (c # cs). length d \<le> n"
  shows "\<exists>sub. pathParse p (replicate n 0) = Inr (sub, c @ replicate (n - length c) 0) \<and> subOk sub \<and> subNames sub = cs"
  using pathParse_comps [OF assms(1), of n] assms(2,3) by simp

lemma renderPath_normStep: "length (renderPath (normStep st c)) \<le> length (renderPath st) + Suc (length c)"
  using renderPath_butlast [of st] by (auto simp: normStep_def renderPath_def)

lemma wash_name:
  assumes new: "holds new st n" and st: "list_all okName st" and c: "okName c" "length c \<le> 16"
    and room: "length (renderPath st) + Suc (length c) < n"
  shows "\<exists>new'. holds new' (normStep st c) n \<and> washLoop sub (pad c) new =
    (case sub of None \<Rightarrow> washLoop None (replicate 512 0) new'
     | Some p \<Rightarrow> rbind (pathParse p (replicate 512 0)) (\<lambda>(sub, nm). washLoop sub nm new'))"
proof -
  have c': "c \<noteq> []" "0 \<notin> set c" "length c < 512" using c by (simp_all add: okName_def)
  have rd0: "rd (pad c) 0 = Inr (c ! 0)" "c ! 0 \<noteq> 0"
    using c' by (cases c; force simp: rd_def pad_def)+
  note pd = pad_facts [OF c'(2,3)]
  have dd: "is_cstr (fmt ''..'')" "cstr (fmt ''..'') = bytes ''..''" by (simp_all add: bytes_def)
  have d: "is_cstr (fmt ''.'')" "cstr (fmt ''.'') = bytes ''.''" by (simp_all add: bytes_def)
  obtain up where up: "strcmp (fmt ''..'') (pad c) = Inr up" using strcmp_total [OF dd(1) pd(1)] by auto
  obtain dot where dot: "strcmp (fmt ''.'') (pad c) = Inr dot" using strcmp_total [OF d(1) pd(1)] by auto
  have up0: "up = 0 \<longleftrightarrow> c = bytes ''..''" using strcmp_zero_iff [OF dd(1) pd(1)] up dd(2) pd(2) by auto
  have dot0: "dot = 0 \<longleftrightarrow> c = bytes ''.''" using strcmp_zero_iff [OF d(1) pd(1)] dot d(2) pd(2) by auto
  note step = washLoop.simps [of sub "pad c" new]
  consider "up = 0" | "up \<noteq> 0" "dot = 0" | "up \<noteq> 0" "dot \<noteq> 0" by blast
  then show ?thesis
  proof cases
    case 1
    obtain k new' where w: "strrchr new slash = Inr (Some k)"
      "(if k \<noteq> 0 then wr new k 0 else wr new (k + 1) 0) = Inr new'" "holds new' (butlast st) n"
      using wash_up [OF new st] by blast
    have "normStep st c = butlast st" using 1 up0 by (simp add: normStep_def)
    then show ?thesis
      using w 1 unfolding step rd0(1) up dot by (intro exI [of _ new']) (simp add: rd0(2) pad_cleared c(2))
  next
    case 2
    then have "normStep st c = st" using up0 dot0 by (simp add: normStep_def)
    then show ?thesis
      using new 2 unfolding step rd0(1) up dot by (intro exI [of _ new]) (simp add: rd0(2) pad_cleared c(2))
  next
    case 3
    obtain root new1 new' where w: "strcmp new (fmt ''/'') = Inr root"
      "(if root \<noteq> 0 then strcat new (fmt ''/'') else Inr new) = Inr new1"
      "strcat new1 (pad c) = Inr new'" "holds new' (st @ [c]) n"
      using wash_append [OF new st c(1) c'(3) room] by blast
    have "normStep st c = st @ [c]" using 3 up0 dot0 by (simp add: normStep_def)
    then show ?thesis
      using w 3 unfolding step rd0(1) up dot by (intro exI [of _ new']) (simp add: rd0(2) pad_cleared c(2))
  qed
qed

abbreviation nameSum :: "u8 list list \<Rightarrow> nat" where
  "nameSum cs \<equiv> sum_list (map (\<lambda>c. Suc (length c)) cs)"

lemma washLoop_stop: "washLoop None (replicate 512 0) new = Inr new"
  by (simp add: washLoop.simps rd_def)

lemma washLoop_ok:
  assumes "\<forall>d \<in> set (c # cs). okName d \<and> length d \<le> 16" "holds new st n" "list_all okName st"
    "length (renderPath st) + nameSum (c # cs) < n" "subOk sub" "subNames sub = cs"
  shows "\<exists>new'. washLoop sub (pad c) new = Inr new' \<and> holds new' (foldl normStep st (c # cs)) n"
  using assms
proof (induction cs arbitrary: c st new sub)
  case Nil
  obtain new' where w: "holds new' (normStep st c) n" "washLoop sub (pad c) new =
    (case sub of None \<Rightarrow> washLoop None (replicate 512 0) new'
     | Some p \<Rightarrow> rbind (pathParse p (replicate 512 0)) (\<lambda>(sub, nm). washLoop sub nm new'))"
    using wash_name [OF Nil.prems(2,3), of c] Nil.prems(1,4) by auto
  show ?case
  proof (cases sub)
    case None
    then show ?thesis using w washLoop_stop by (intro exI [of _ new']) simp
  next
    case (Some p)
    then have p: "is_cstr p" "comps p = []" using Nil.prems by (simp_all add: subOk_def subNames_def)
    then obtain sub' where "pathParse p (replicate 512 0) = Inr (sub', replicate 512 0)"
      using pathParse_comps [OF p(1), of 512] by auto
    moreover have "washLoop sub' (replicate 512 0) new' = Inr new'" by (simp add: washLoop.simps rd_def)
    ultimately show ?thesis using w Some by (intro exI [of _ new']) simp
  qed
next
  case (Cons d cs)
  obtain p where p: "sub = Some p" "is_cstr p" "comps p = d # cs"
    using Cons.prems(5,6) by (auto simp: subOk_def subNames_def split: option.splits)
  obtain new' where w: "holds new' (normStep st c) n"
    "washLoop sub (pad c) new = rbind (pathParse p (replicate 512 0)) (\<lambda>(sub, nm). washLoop sub nm new')"
    using wash_name [OF Cons.prems(2,3), of c sub] Cons.prems(1,4) p(1) by auto
  have "\<forall>e \<in> set (d # cs). length e \<le> 512" using Cons.prems(1) by auto
  then obtain sub' where s: "pathParse p (replicate 512 0) = Inr (sub', pad d)" "subOk sub'" "subNames sub' = cs"
    using pathParse_name [OF p(2,3), of 512] unfolding pad_def by blast
  have "list_all okName (normStep st c)" using okName_normStep Cons.prems(1,3) by simp
  moreover have "\<forall>d \<in> set (d # cs). okName d \<and> length d \<le> 16" using Cons.prems(1) by simp
  moreover have "length (renderPath (normStep st c)) + nameSum (d # cs) < n"
    using Cons.prems(4) renderPath_normStep [of st c] by simp
  ultimately obtain new'' where "washLoop sub' (pad d) new' = Inr new''"
    "holds new'' (foldl normStep (normStep st c) (d # cs)) n"
    using Cons.IH [OF _ w(1) _ _ s(2,3)] by blast
  then show ?case using w(2) s(1) by simp
qed

lemma cstr_append: "0 \<notin> set a \<Longrightarrow> length (cstr (a @ r)) = length a + length (cstr r)"
  by (induction a) auto

lemma cstr_dropWhile:
  "is_cstr p \<Longrightarrow> length (cstr (dropWhile (\<lambda>c. c = slash) p)) + (if p ! 0 = slash then 1 else 0) \<le> length (cstr p)"
proof (induction p)
  case (Cons x p)
  then show ?case by (cases "x = slash") (auto simp: slash_def split: if_splits)
qed simp

lemma nameSum_comps:
  "is_cstr p \<Longrightarrow> nameSum (comps p) \<le> length (cstr p) + (if p ! 0 = slash then 0 else 1)"
proof (induction p rule: comps.induct)
  case (1 p)
  define q where "q = dropWhile (\<lambda>c. c = slash) p"
  define c where "c = takeWhile (\<lambda>x. x \<noteq> slash \<and> x \<noteq> 0) q"
  define r where "r = drop (length c) q"
  have cp: "comps p = (if c = [] then [] else c # comps r)"
    by (subst comps.simps) (simp add: Let_def c_def q_def r_def)
  have q: "is_cstr q" unfolding q_def by (rule dropWhile_cstr [OF 1(2)]) (simp add: slash_def)
  have rq: "r = dropWhile (\<lambda>x. x \<noteq> slash \<and> x \<noteq> 0) q"
    unfolding r_def c_def by (rule dropWhile_eq_drop [symmetric])
  have qc: "q = c @ r" unfolding rq c_def by simp
  have r: "is_cstr r" unfolding rq by (rule dropWhile_cstr [OF q]) simp
  then have r2: "r \<noteq> []" by (cases r) simp_all
  have "r ! 0 = slash \<or> r ! 0 = 0"
    using r2 hd_dropWhile [of "\<lambda>x. x \<noteq> slash \<and> x \<noteq> 0" q] unfolding rq by (simp add: hd_conv_nth)
  moreover have "comps r = []" if "r ! 0 = 0" using that r2 by (cases r) auto
  moreover have "length (cstr q) + (if p ! 0 = slash then 1 else 0) \<le> length (cstr p)"
    unfolding q_def by (rule cstr_dropWhile [OF 1(2)])
  moreover have "0 \<notin> set c" unfolding c_def by (auto dest: set_takeWhileD)
  then have "length (cstr q) = length c + length (cstr r)"
    unfolding qc by (rule cstr_append)
  moreover have "nameSum (comps r) \<le> length (cstr r) + (if r ! 0 = slash then 0 else 1)" if "c \<noteq> []"
    using 1(1) [OF q_def c_def that] r unfolding r_def by simp
  ultimately show ?case
    unfolding cp by (cases "c = []"; cases "r ! 0 = slash"; cases "p ! 0 = slash"; simp)
qed

lemma washPath_run:
  assumes p: "is_cstr p" "p ! 0 = slash" and names: "\<forall>c \<in> set (comps p). length c \<le> 16"
    and room: "length (cstr p) + 1 < length buf"
  shows "\<exists>out. washPath p buf s = Inr (out, s) \<and> is_cstr out \<and> length out = length buf \<and>
    cstr out = renderPath (foldl normStep [] (comps p))"
proof -
  have rd0: "rd p 0 = Inr slash" using p by (cases p) (auto simp: rd_def)
  have "cstr p \<noteq> []" using p by (cases p) (auto simp: slash_def)
  then have room2: "2 < length buf" using room by (cases "cstr p") auto
  show ?thesis
  proof (cases "comps p")
    case Nil
    obtain sub where s: "pathParse p (replicate 512 0) = Inr (sub, replicate 512 0)"
      using pathParse_comps [OF p(1), of 512] Nil by auto
    have "memcpy buf [slash, 0] 2 = Inr ([slash, 0] @ drop 2 buf)"
      using memcpy_ok [of 2 buf "[slash, 0]"] room by simp
    then show ?thesis using Nil s room2 rd0
      by (simp add: washPath_def rd_def [of "replicate 512 0"] renderPath_def) (simp add: slash_def)
  next
    case (Cons c cs)
    have "\<forall>d \<in> set (c # cs). length d \<le> 512" using names Cons by auto
    then obtain sub where s: "pathParse p (replicate 512 0) = Inr (sub, pad c)" "subOk sub" "subNames sub = cs"
      using pathParse_name [OF p(1) Cons, of 512] unfolding pad_def by blast
    have c: "c \<noteq> []" "0 \<notin> set c" using comps_okName [of c p] Cons by (simp_all add: okName_def)
    then have c0: "rd (pad c) 0 = Inr (c ! 0)" "c ! 0 \<noteq> 0"
      by (cases c; force simp: rd_def pad_def)+
    obtain b bs where buf: "buf = b # bs" using room by (cases buf) auto
    define new where "new = slash # 0 # drop 2 buf"
    have new: "wr buf 0 0 = Inr (0 # bs)" "strcat (0 # bs) (fmt ''/'') = Inr new"
      using strcat_ok [of "0 # bs" "fmt ''/''"] room2 buf
      by (cases bs; simp add: wr_def bytes_def slash_def new_def del: strcat.simps)+
    have "holds new [] (length buf)" using room by (simp add: holds_def new_def renderPath_def slash_def)
    moreover have "length (renderPath []) + nameSum (c # cs) < length buf"
      using nameSum_comps [OF p(1)] p(2) room Cons by (simp add: renderPath_def)
    moreover have "\<forall>d \<in> set (c # cs). okName d \<and> length d \<le> 16"
      using names comps_okName [of _ p] Cons by auto
    ultimately obtain out where "washLoop sub (pad c) new = Inr out"
      "holds out (foldl normStep [] (c # cs)) (length buf)"
      using washLoop_ok [of c cs new "[]" "length buf" sub] s(2,3) Cons by auto
    then show ?thesis using s(1) Cons new c0 by (simp add: washPath_def rd0 slash_def holds_def)
  qed
qed

section \<open>Counting the names\<close>

lemma depthLoop_ok:
  assumes "subOk sub" "\<forall>d \<in> set (subNames sub). length d \<le> 16" "rd nm 0 = Inr x" "x \<noteq> 0"
  shows "depthLoop sub nm k = Inr (k + Suc (length (subNames sub)))"
  using assms
proof (induction "subNames sub" arbitrary: sub nm k x)
  case Nil
  show ?case
  proof (cases sub)
    case None
    then show ?thesis using Nil by (simp add: depthLoop.simps subNames_def)
  next
    case (Some p)
    then have p: "is_cstr p" "comps p = []" using Nil by (simp_all add: subOk_def subNames_def)
    then obtain sub' where "pathParse p (replicate 16 0) = Inr (sub', replicate 16 0)"
      using pathParse_comps [OF p(1), of 16] by auto
    moreover have "depthLoop sub' (replicate 16 0) (Suc k) = Inr (Suc k)" by (simp add: depthLoop.simps rd_def)
    ultimately show ?thesis
      using Nil Some by (subst depthLoop.simps) (simp add: subNames_def)
  qed
next
  case (Cons d cs)
  obtain p where p: "sub = Some p" "is_cstr p" "comps p = d # cs"
    using Cons.hyps(2) Cons.prems(1) by (auto simp: subOk_def subNames_def split: option.splits)
  have "\<forall>e \<in> set (d # cs). length e \<le> 16" using Cons.hyps(2) Cons.prems(2) by simp
  then obtain sub' where s: "pathParse p (replicate 16 0) = Inr (sub', d @ replicate (16 - length d) 0)"
    "subOk sub'" "subNames sub' = cs"
    using pathParse_name [OF p(2,3), of 16] by blast
  have "okName d" using comps_okName [of d p] p(3) by simp
  then have d: "rd (d @ replicate (16 - length d) 0) 0 = Inr (d ! 0)" "d ! 0 \<noteq> 0"
    by (cases d; force simp: rd_def okName_def)+
  have "depthLoop sub' (d @ replicate (16 - length d) 0) (Suc k) = Inr (Suc k + Suc (length (subNames sub')))"
    by (rule Cons.hyps(1) [OF s(3) [symmetric] s(2) _ d]) (use Cons.hyps(2) [symmetric] Cons.prems(2) s(3) in simp_all)
  then show ?case
    using Cons.hyps(2) [symmetric] Cons.prems(3,4) p(1) s(1,3) by (subst depthLoop.simps) simp
qed

lemma pathDepthCnt_run:
  assumes p: "is_cstr p" and names: "\<forall>c \<in> set (comps p). length c \<le> 16"
  shows "pathDepthCnt p s = Inr (if comps p = [] then (if stackJunk s ''name'' 0 = 0 then 0 else 1) else length (comps p))"
proof -
  define q where "q = dropWhile (\<lambda>c. c = slash) p"
  define c where "c = takeWhile (\<lambda>x. x \<noteq> slash \<and> x \<noteq> 0) q"
  define sub where "sub = (if drop (length c) q ! 0 = 0 then None else Some (drop (length c) q))"
  let ?junk = "junkBytes ''name'' 16 s"
  have j: "length ?junk = 16" "?junk ! 0 = stackJunk s ''name'' 0" by (simp_all add: junkBytes_def)
  have cp: "comps p = (if c = [] then [] else c # comps (drop (length c) q))"
    by (subst comps.simps) (simp add: Let_def c_def q_def)
  have l: "length c \<le> length ?junk" using names cp j by (cases "c = []") auto
  note pp = pathParse_ok [OF p, folded q_def, folded c_def, OF l, folded sub_def]
  have ok: "subOk sub" using pp(2) by (simp add: sub_def subOk_def)
  have names': "subNames sub = comps (drop (length c) q)"
    using pp(2) by (cases "drop (length c) q") (auto simp: sub_def subNames_def)
  show ?thesis
  proof (cases "c = []")
    case True
    then have "drop (length c) q ! 0 = slash \<or> drop (length c) q ! 0 = 0"
      using pp(2) by (cases q) (auto simp: c_def split: if_splits)
    moreover have "q \<noteq> []" using pp(2) True by (cases q) simp_all
    then have "q ! 0 \<noteq> slash"
      using hd_dropWhile [of "\<lambda>c. c = slash" p] unfolding q_def [symmetric] by (simp add: hd_conv_nth)
    ultimately have "sub = None" using True by (simp add: sub_def)
    moreover have "depthLoop None ?junk 0 = Inr (if stackJunk s ''name'' 0 = 0 then 0 else 1)"
      using j by (simp add: depthLoop.simps rd_def)
    ultimately show ?thesis using True pp(1) cp j by (simp add: pathDepthCnt_def overlay_def)
  next
    case False
    then have "okName c" using comps_okName [of c p] cp by simp
    then have "rd (overlay ?junk 0 c) 0 = Inr (c ! 0)" "c ! 0 \<noteq> 0"
      using False j by (cases c; force simp: rd_def okName_def overlay_def)+
    then have "depthLoop sub (overlay ?junk 0 c) 0 = Inr (0 + Suc (length (subNames sub)))"
      using depthLoop_ok [OF ok] names cp False names' by simp
    then show ?thesis using pp(1) cp False names' by (simp add: pathDepthCnt_def)
  qed
qed

section \<open>Properties\<close>

text \<open>C26: washPath puts a path in normal form. For a path that starts with a slash, whose names have
  at most 16 characters, and a result buffer with room for the path, the string in the buffer is the
  path of the names that are left when every \<open>.\<close> is dropped and every \<open>..\<close> takes the name before it
  away; the root directory has no name above it.\<close>

theorem washPath_normalises:
  assumes "is_cstr p" "p ! 0 = slash" "\<forall>c \<in> set (comps p). length c \<le> 16"
    "length (cstr p) + 1 < length buf"
  shows "\<exists>out. washPath p buf s = Inr (out, s) \<and> is_cstr out \<and> length out = length buf \<and>
    cstr out = renderPath (foldl normStep [] (comps p))"
  using assms by (rule washPath_run)

theorem washPath_normalises_witness:
  "\<exists>out. washPath (fmt ''/a/../b/./'') (replicate 16 0) (undefined :: kfs) = Inr (out, undefined) \<and>
    is_cstr out \<and> length out = 16 \<and> cstr out = bytes ''/b''"
proof -
  have c: "comps (fmt ''/a/../b/./'') = [bytes ''a'', bytes ''..'', bytes ''b'', bytes ''.'']"
    by (simp add: comps.simps bytes_def slash_def)
  have n: "renderPath (foldl normStep [] [bytes ''a'', bytes ''..'', bytes ''b'', bytes ''.'']) = bytes ''/b''"
    by (simp add: normStep_def renderPath_def bytes_def slash_def)
  show ?thesis
    using washPath_normalises [of "fmt ''/a/../b/./''" "replicate 16 0" "undefined :: kfs"]
    unfolding c n by (simp add: bytes_def slash_def)
qed

text \<open>pathDepthCnt returns the number of names of the path, if it has one and they have at most
  16 characters. Of a path without a name, such as \<open>/\<close>, it returns 0 or 1: it looks at the first byte
  of the array \<open>name\<close>, which has not been set.\<close>

theorem pathDepthCnt_counts_names:
  assumes "is_cstr p" "\<forall>c \<in> set (comps p). length c \<le> 16"
  shows "pathDepthCnt p s = Inr (if comps p = [] then (if stackJunk s ''name'' 0 = 0 then 0 else 1) else length (comps p))"
  using assms by (rule pathDepthCnt_run)

theorem pathDepthCnt_counts_names_witness:
  "pathDepthCnt (fmt ''//usr/bin/'') (undefined :: kfs) = Inr 2"
proof -
  have c: "comps (fmt ''//usr/bin/'') = [bytes ''usr'', bytes ''bin'']"
    by (simp add: comps.simps bytes_def slash_def)
  show ?thesis
    using pathDepthCnt_counts_names [of "fmt ''//usr/bin/''" "undefined :: kfs"] unfolding c by (simp add: bytes_def)
qed

end
