(* ===== verification/Boot.thy ===== *)
theory Boot
  imports Exit
begin

text \<open>
  Setting up the machine: the exceptions, the interrupt controller and the IDT of kernel/interrupt.c, the task
  state segment of kernel/user/tss.c, and the end of \<open>main\<close> in kernel/main.c.
\<close>

section \<open>Handlers and names (kernel/interrupt.c)\<close>

abbreviation (input) IDT_DESC_CNT :: nat where "IDT_DESC_CNT \<equiv> 0x81"

text \<open>The functions that are put in \<open>intrHandlerTable\<close>.\<close>

datatype IntrHandler = H_default | H_timer | H_keyBoard | H_hd

record intrTables =
  intrHandlerTable :: "IntrHandler list"
  intrName :: "string list"

definition exceptionNames :: "string list" where
  "exceptionNames =
     [''#DE Divide Error'', ''#DB Debug Exception'', ''NMI Interrupt'', ''#BP Breakpoint Exception'',
      ''#OF Overflow Exception'', ''#BR BOUND Range Exceeded Exception'', ''#UD Invalid Opcode Exception'',
      ''#NM Device Not Available Exception'', ''#DF Double Fault Exception'', ''Coprocessor Segment Overrun'',
      ''#TS Invalid TSS Exception'', ''#NP Segment Not Present'', ''#SS Stack Fault Exception'',
      ''#GP General Protection Exception'', ''#PF Page-Fault Exception'', ''Preserve'',
      ''#MF x87 FPU Floating-Point Error'', ''#AC Alignment Check Exception'', ''#MC Machine-Check Exception'',
      ''#XF SIMD Floating-Point Exception'']"

definition exceptionInit :: intrTables where
  "exceptionInit = \<lparr>intrHandlerTable = replicate IDT_DESC_CNT H_default,
     intrName = exceptionNames @ replicate (IDT_DESC_CNT - length exceptionNames) ''unknown''\<rparr>"

definition registerIntrHandler :: "u8 \<Rightarrow> IntrHandler \<Rightarrow> intrTables \<Rightarrow> intrTables res" where
  "registerIntrHandler intrNo handler t =
     rbind (wr (intrHandlerTable t) (unat intrNo) handler) (\<lambda>tab. Inr (t\<lparr>intrHandlerTable := tab\<rparr>))"

text \<open>What \<open>defaultIntrHandler\<close> does to the screen before it spins for ever; None when it returns.\<close>

datatype vgaOp = SetCursor u16 | Put "u8 list"

definition defaultIntrHandler :: "u8 \<Rightarrow> u32 \<Rightarrow> intrTables \<Rightarrow> vgaOp list option res" where
  "defaultIntrHandler intrNr cr2 t =
     (if intrNr = 0x27 \<or> intrNr = 0x2f then Inr None
      else
        (rbind (rd (intrName t) (unat intrNr)) (\<lambda>nm.
        rbind (putUint32Hex (ucast intrNr)) (\<lambda>no.
        rbind (putUint32Hex cr2) (\<lambda>addr.
        Inr (Some ([SetCursor 0, Put (replicate 320 32), SetCursor 0,
          Put (bytes ''!!!!!!     exception message begin     !!!!!!'' @ [10]), SetCursor 88,
          Put (bytes ''int number : '' @ no @ [10] @ bytes ''        '' @ bytes nm)] @
          (if intrNr = 14 then [Put ([10] @ bytes ''Page Fault Addr is:'' @ addr)] else []) @
          [Put ([10] @ bytes ''!!!!!!     exception message end       !!!!!!'' @ [10])])))))))"

text \<open>The handlers that the drivers register at boot, in the order of \<open>initAll\<close>; \<open>two\<close> tells whether there is a
  second disk channel.\<close>

definition bootHandlers :: "bool \<Rightarrow> intrTables res" where
  "bootHandlers two =
     (rbind (registerIntrHandler 0x20 H_timer exceptionInit) (\<lambda>t.
     rbind (registerIntrHandler 0x21 H_keyBoard t) (\<lambda>t.
     rbind (registerIntrHandler (0x20 + 14) H_hd t) (\<lambda>t.
     if two then registerIntrHandler (0x20 + 15) H_hd t else Inr t))))"

section \<open>The interrupt controllers (kernel/interrupt.c)\<close>

abbreviation (input) PIC_M_CTRL :: u16 where "PIC_M_CTRL \<equiv> 0x20"
abbreviation (input) PIC_M_DATA :: u16 where "PIC_M_DATA \<equiv> 0x21"
abbreviation (input) PIC_S_CTRL :: u16 where "PIC_S_CTRL \<equiv> 0xa0"
abbreviation (input) PIC_S_DATA :: u16 where "PIC_S_DATA \<equiv> 0xa1"

text \<open>The port writes of \<open>picInit\<close> in their order.\<close>

definition picInit :: "(u16 \<times> u8) list" where
  "picInit =
     [(PIC_M_CTRL, 0x11), (PIC_M_DATA, 0x20), (PIC_M_DATA, 0x04), (PIC_M_DATA, 0x01),
      (PIC_S_CTRL, 0x11), (PIC_S_DATA, 0x28), (PIC_S_DATA, 0x02), (PIC_S_DATA, 0x01),
      (PIC_M_DATA, 0xf8), (PIC_S_DATA, 0xbf)]"

text \<open>The operand of lidt. The cast of the address to 64 bits extends its sign; the processor takes 48 bits.\<close>

definition idtOperand :: "u32 \<Rightarrow> 64 word" where
  "idtOperand idt = (8 * of_nat IDT_DESC_CNT - 1) OR push_bit 16 (scast idt)"

definition idtInit :: "(nat \<Rightarrow> u32) \<Rightarrow> u32 \<Rightarrow> u32 \<Rightarrow> intrTables \<times> GateDesc list \<times> (u16 \<times> u8) list \<times> 64 word" where
  "idtInit intrEntryTable syscallEntry idt =
     (exceptionInit, idtDescInit intrEntryTable syscallEntry, picInit, idtOperand idt)"

section \<open>The task state segment (kernel/user/tss.c)\<close>

record TSS =
  backLink :: u32
  esp0 :: u32
  ss0 :: u32
  esp1 :: u32
  ss1 :: u32
  esp2 :: u32
  ss2 :: u32
  tcr3 :: u32
  teip :: u32
  teflags :: u32
  teax :: u32
  tecx :: u32
  tedx :: u32
  tebx :: u32
  tesp :: u32
  tebp :: u32
  tesi :: u32
  tedi :: u32
  tes :: u32
  tcs :: u32
  tss_ss :: u32
  tds :: u32
  tfs :: u32
  tgs :: u32
  ldt :: u32
  trace :: u32
  ioBase :: u32

text \<open>The structure as it lies in memory.\<close>

definition encTSS :: "TSS \<Rightarrow> u8 list" where
  "encTSS t = concat (map le32 [backLink t, esp0 t, ss0 t, esp1 t, ss1 t, esp2 t, ss2 t, tcr3 t, teip t, teflags t,
     teax t, tecx t, tedx t, tebx t, tesp t, tebp t, tesi t, tedi t, tes t, tcs t, tss_ss t, tds t, tfs t, tgs t,
     ldt t, trace t, ioBase t])"

abbreviation (input) sizeofTSS :: u32 where "sizeofTSS \<equiv> 108"
abbreviation (input) SELECTOR_K_STACK :: u32 where "SELECTOR_K_STACK \<equiv> 0x10"
abbreviation (input) SELECTOR_TSS :: u16 where "SELECTOR_TSS \<equiv> 0x20"
abbreviation (input) TSS_ATTR_LOW :: u8 where "TSS_ATTR_LOW \<equiv> 0x89"
abbreviation (input) TSS_ATTR_HIGH :: u8 where "TSS_ATTR_HIGH \<equiv> 0x80"
abbreviation (input) GDT_ATTR_HIGH :: u8 where "GDT_ATTR_HIGH \<equiv> 0xc0"
abbreviation (input) GDT_ATTR_LOW_CODE_DPL3 :: u8 where "GDT_ATTR_LOW_CODE_DPL3 \<equiv> 0xf8"
abbreviation (input) GDT_ATTR_LOW_DATA_DPL3 :: u8 where "GDT_ATTR_LOW_DATA_DPL3 \<equiv> 0xf2"

definition zeroTSS :: TSS where
  "zeroTSS = \<lparr>backLink = 0, esp0 = 0, ss0 = 0, esp1 = 0, ss1 = 0, esp2 = 0, ss2 = 0, tcr3 = 0, teip = 0, teflags = 0,
     teax = 0, tecx = 0, tedx = 0, tebx = 0, tesp = 0, tebp = 0, tesi = 0, tedi = 0, tes = 0, tcs = 0, tss_ss = 0,
     tds = 0, tfs = 0, tgs = 0, ldt = 0, trace = 0, ioBase = 0\<rparr>"

text \<open>The structure, the descriptors by address and the operand of lgdt; \<open>tss\<close> is the address of the structure.\<close>

record gdtSetup =
  tssSeg :: TSS
  gdtSlots :: "(u32 \<times> GDTDesc) list"
  gdtOperand :: "64 word"
  taskReg :: u16

definition tssInit :: "u32 \<Rightarrow> gdtSetup" where
  "tssInit tss =
     \<lparr>tssSeg = zeroTSS\<lparr>ss0 := SELECTOR_K_STACK, ioBase := sizeofTSS\<rparr>,
      gdtSlots = [(0xc0000928, makeGDTDesc tss sizeofTSS TSS_ATTR_LOW TSS_ATTR_HIGH),
        (0xc0000930, makeGDTDesc 0 0xfffff GDT_ATTR_LOW_CODE_DPL3 GDT_ATTR_HIGH),
        (0xc0000938, makeGDTDesc 0 0xfffff GDT_ATTR_LOW_DATA_DPL3 GDT_ATTR_HIGH)],
      gdtOperand = push_bit 16 0xc0000908 OR (8 * 7 - 1), taskReg = SELECTOR_TSS\<rparr>"

text \<open>\<open>updateTSSEsp\<close> on the structure itself; the scheduler's model keeps the value of \<open>esp0\<close> as \<open>tssEsp0\<close>.\<close>

definition setEsp0 :: "u32 \<Rightarrow> TSS \<Rightarrow> TSS" where
  "setEsp0 ts t = t\<lparr>esp0 := ts + PG_SIZE\<rparr>"

section \<open>main (kernel/main.c)\<close>

text \<open>\<open>main\<close> behind \<open>initAll\<close>: it copies a program from the boot disk to the file /t1, starts \<open>init\<close>,
  swaps the pids of init and itself and ends its own thread. The loops behind a failure never end.\<close>

definition main :: "u32 \<Rightarrow> 'a kproc_scheme \<Rightarrow> 'a kproc_scheme res" where
  "main initFunc s =
     ((let fileSize = 9136 in
     (let secCnt = DIV_ROUND_UP fileSize 512 in
     (let (buf, s) = fsMalloc s in
     (if buf = NULLPTR then Inl (Panic ''main: buf = sysMalloc(secCnt * SECTOR_BYTE_SIZE) failed'') else
     rbind (ideRead 0 400 (unat secCnt) s) (\<lambda>image.
     rbind (sysOpen (fmt ''/t1'') (O_CREAT OR O_RDWR) s) (\<lambda>(fd, s).
     (if fd = - 1 then Inl (Panic ''create file test1 failed'') else
     rbind (sysWrite fd image fileSize s) (\<lambda>(r, s).
     (if r = - 1 then Inl (Panic ''write file test1 failed'') else
     rbind (sysClose fd s) (\<lambda>(r, s).
     rbind (fsFree buf s) (\<lambda>s.
     (let s = sysClear s in
     rbind (processStart initFunc (fmt ''init'') s) (\<lambda>s.
     (let t = pidToThread 3 s in
     (if t = NULLPTR then Inl OutOfBounds else
     (let s = updTask t (\<lambda>t. t\<lparr>pid := 1\<rparr>) s in
     (let s = updTask (curThread s) (\<lambda>t. t\<lparr>pid := 3\<rparr>) s in
     threadExit (curThread s) True (enableIntr s)))))))))))))))))))"


section \<open>The interrupts that arrive\<close>

text \<open>One 8259A: the base of its vectors, its mask and the step of the initialisation it is in. A command with
  bit 4 begins the initialisation; the next three data bytes belong to it, later ones are masks.\<close>

record pic8259 =
  vecBase :: u8
  irqMask :: u8
  icwStep :: nat

definition picCtrl :: "u8 \<Rightarrow> pic8259 \<Rightarrow> pic8259" where
  "picCtrl v p = (if bit v 4 then p\<lparr>irqMask := 0, icwStep := 1\<rparr> else p)"

definition picData :: "u8 \<Rightarrow> pic8259 \<Rightarrow> pic8259" where
  "picData v p =
     (if icwStep p = 0 then p\<lparr>irqMask := v\<rparr>
      else if icwStep p = 1 then p\<lparr>vecBase := v AND 0xf8, icwStep := 2\<rparr>
      else if icwStep p = 2 then p\<lparr>icwStep := 3\<rparr>
      else p\<lparr>icwStep := 0\<rparr>)"

definition picPort :: "u16 \<times> u8 \<Rightarrow> pic8259 \<times> pic8259 \<Rightarrow> pic8259 \<times> pic8259" where
  "picPort w p =
     (case (w, p) of ((port, v), (m, sl)) \<Rightarrow>
       if port = 0x20 then (picCtrl v m, sl) else if port = 0x21 then (picData v m, sl)
       else if port = 0xa0 then (m, picCtrl v sl) else if port = 0xa1 then (m, picData v sl)
       else (m, sl))"

text \<open>The vector with which line \<open>n\<close> reaches the processor.\<close>

definition irqVector :: "pic8259 \<times> pic8259 \<Rightarrow> nat \<Rightarrow> u8 option" where
  "irqVector p n =
     (if n < 8 then (if bit (irqMask (fst p)) n then None else Some (vecBase (fst p) + of_nat n))
      else if bit (irqMask (fst p)) 2 \<or> bit (irqMask (snd p)) (n - 8) then None
      else Some (vecBase (snd p) + of_nat (n - 8)))"

lemma nat_below_8: "(n::nat) < 8 \<Longrightarrow> n = 0 \<or> n = 1 \<or> n = 2 \<or> n = 3 \<or> n = 4 \<or> n = 5 \<or> n = 6 \<or> n = 7"
  by linarith

lemma mask_bits:
  "n < 8 \<Longrightarrow> bit (0xf8 :: u8) n \<longleftrightarrow> 3 \<le> n" "n < 8 \<Longrightarrow> bit (0xbf :: u8) n \<longleftrightarrow> n \<noteq> 6"
  by (drule nat_below_8, elim disjE, simp_all)+

lemma picInit_state:
  "fold picPort picInit p =
     ((fst p)\<lparr>vecBase := 0x20, irqMask := 0xf8, icwStep := 0\<rparr>, (snd p)\<lparr>vecBase := 0x28, irqMask := 0xbf, icwStep := 0\<rparr>)"
  by (cases p) (simp add: picInit_def picPort_def picCtrl_def picData_def)

lemma picInit_vectors:
  assumes "n < 16"
  shows "irqVector (fold picPort picInit p) n = (if n \<in> {0, 1, 2, 14} then Some (0x20 + of_nat n) else None)"
proof (cases "n < 8")
  case True
  then show ?thesis using mask_bits(1) [OF True] by (auto simp: picInit_state irqVector_def)
next
  case False
  then have "n = 14 \<longleftrightarrow> n - 8 = 6" by linarith
  then show ?thesis
    using False assms mask_bits(1) [of 2] mask_bits(2) [of "n - 8"] by (auto simp: picInit_state irqVector_def)
qed

lemma bootHandlers_tables:
  obtains t where "bootHandlers two = Inr t"
    "\<And>v. v < 0x81 \<Longrightarrow> intrHandlerTable t ! v =
       (if v = 0x20 then H_timer else if v = 0x21 then H_keyBoard
        else if v = 0x2e \<or> v = 0x2f \<and> two then H_hd else H_default)"
    "length (intrHandlerTable t) = 0x81"
proof -
  let ?t = "(replicate 0x81 H_default)[0x20 := H_timer, 0x21 := H_keyBoard, 0x2e := H_hd]"
  let ?u = "if two then ?t[0x2f := H_hd] else ?t"
  have "\<exists>n. bootHandlers two = Inr \<lparr>intrHandlerTable = ?u, intrName = n\<rparr>"
    by (simp add: bootHandlers_def registerIntrHandler_def exceptionInit_def wr_def)
  then obtain n where "bootHandlers two = Inr \<lparr>intrHandlerTable = ?u, intrName = n\<rparr>" ..
  then show thesis
    by (rule that) (auto simp: nth_list_update)
qed

section \<open>Ports of user programs\<close>

text \<open>The test the processor makes for a port access of a program whose privilege is below IOPL: the word at offset
  102 of the task state segment is where the permission map begins, and the byte of the port has to be within the
  limit of the segment, together with the next one.\<close>

definition ioMapBase :: "u8 list \<Rightarrow> nat" where
  "ioMapBase seg = unat (seg ! 102) + 256 * unat (seg ! 103)"

definition ioPermitted :: "u8 list \<Rightarrow> u32 \<Rightarrow> nat \<Rightarrow> bool" where
  "ioPermitted seg limit port =
     (let a = ioMapBase seg + port div 8
      in a + 1 \<le> unat limit \<and> a + 1 < length seg \<and> \<not> bit (seg ! a) (port mod 8))"

lemma encTSS_running:
  "encTSS (setEsp0 ts (tssSeg (tssInit a))) =
     replicate 4 0 @ le32 (ts + PG_SIZE) @ le32 SELECTOR_K_STACK @ replicate 92 0 @ le32 sizeofTSS"
  by (simp add: encTSS_def setEsp0_def tssInit_def zeroTSS_def le32_def numeral_eq_Suc)

lemma running_map_base: "ioMapBase (encTSS (setEsp0 ts (tssSeg (tssInit a)))) = 0"
  by (simp add: ioMapBase_def encTSS_running nth_append le32_def)

lemma running_zero_byte:
  assumes "12 \<le> i" "i < 104"
  shows "encTSS (setEsp0 ts (tssSeg (tssInit a))) ! i = 0"
  using assms by (simp add: encTSS_running nth_append le32_def)

section \<open>Properties of the start\<close>

text \<open>C32: After idtInit and the drivers' registrations a line n of the two interrupt controllers reaches the processor
  exactly when it is the timer, the keyboard, the cascade or the first disk channel; it does so at vector 32 + n, whose
  gate has privilege 0 and leads to the entry of that vector, and the driver's handler is the one in the table. The
  handler of the second disk channel is registered and its line stays masked.\<close>

theorem boot_interrupts:
  assumes "n < 16" "bootHandlers True = Inr t"
    "idtInit entries sys idt = (tabs, gates, ports, operand)"
  shows "irqVector (fold picPort ports pics) n = (if n \<in> {0, 1, 2, 14} then Some (0x20 + of_nat n) else None) \<and>
    gate_dpl (gates ! (0x20 + n)) = 0 \<and> gate_target (gates ! (0x20 + n)) = entries (0x20 + n) \<and>
    intrHandlerTable t ! (0x20 + n) =
      (if n = 0 then H_timer else if n = 1 then H_keyBoard else if n = 14 \<or> n = 15 then H_hd else H_default)"
proof -
  obtain u where u: "bootHandlers True = Inr u"
    "\<And>v. v < 0x81 \<Longrightarrow> intrHandlerTable u ! v =
       (if v = 0x20 then H_timer else if v = 0x21 then H_keyBoard
        else if v = 0x2e \<or> v = 0x2f \<and> True then H_hd else H_default)"
    by (rule bootHandlers_tables [of True]) blast
  have i: "gates = idtDescInit entries sys" "ports = picInit" using assms(3) by (auto simp: idtInit_def)
  show ?thesis
    using idt_gates [of "0x20 + n" entries sys] picInit_vectors [OF assms(1), of pics] assms(1,2) u(1) u(2) [of "0x20 + n"]
    by (simp add: i)
qed

theorem boot_interrupts_witness:
  "\<exists>t tabs gates ports operand. bootHandlers True = Inr t \<and>
     idtInit (\<lambda>i. 0xc0001500 + 16 * of_nat i) 0xc0001480 0xc0005000 = (tabs, gates, ports, operand) \<and>
     irqVector (fold picPort ports (\<lparr>vecBase = 8, irqMask = 0, icwStep = 0\<rparr>, \<lparr>vecBase = 0x70, irqMask = 0, icwStep = 0\<rparr>)) 14
       = Some 0x2e \<and>
     intrHandlerTable t ! 0x2e = H_hd"
proof -
  obtain t where t: "bootHandlers True = Inr t" by (rule bootHandlers_tables [of True]) blast
  obtain tabs gates ports operand where
    i: "idtInit (\<lambda>i. 0xc0001500 + 16 * of_nat i) 0xc0001480 0xc0005000 = (tabs, gates, ports, operand)"
    by (metis prod_cases4)
  show ?thesis
    using boot_interrupts [of 14, OF _ t i] t i by (intro exI conjI) auto
qed

text \<open>C33: tssInit means to shut user programs off from the ports by a permission map behind the limit of the segment,
  but it writes the offset of the map two bytes too far. The processor reads 0 as the offset and takes the structure
  itself for the map: every port from 0x60 to 0x33f, those of the disks and of the second interrupt controller among
  them, is open to user programs, whatever thread runs.\<close>

theorem user_ports_open:
  assumes "0x60 \<le> port" "port < 0x340"
  shows "ioPermitted (encTSS (setEsp0 ts (tssSeg (tssInit a)))) (desc_limit (snd (gdtSlots (tssInit a) ! 0))) port"
proof -
  have i: "12 \<le> port div 8" "port div 8 < 104" using assms by auto
  have "desc_limit (snd (gdtSlots (tssInit a) ! 0)) = sizeofTSS"
    by (simp add: tssInit_def desc_limit_make)
  moreover have "length (encTSS (setEsp0 ts (tssSeg (tssInit a)))) = 108"
    by (simp add: encTSS_running le32_def)
  ultimately show ?thesis
    using i running_zero_byte [OF i, of ts a] by (simp add: ioPermitted_def running_map_base)
qed

theorem user_ports_open_witness:
  "ioPermitted (encTSS (setEsp0 0xc009e000 (tssSeg (tssInit 0xc000a000))))
     (desc_limit (snd (gdtSlots (tssInit 0xc000a000) ! 0))) 0x1f7"
  by (rule user_ports_open) simp_all

end
