(* ===== verification/FormatProps.thy ===== *)
theory FormatProps
  imports InodeInv Format
begin

text \<open>
  What formatting a partition leaves on the disk and mounting it reads back.
\<close>

section \<open>The layout of a partition\<close>

lemma unat_div_round_up:
  assumes "unat (a :: u32) + unat b < 2 ^ 32" "0 < unat b"
  shows "unat (DIV_ROUND_UP a b) = (unat a + unat b - 1) div unat b"
proof -
  have "1 \<le> a + b" using assms by (simp add: word_le_nat_alt unat_add_small)
  then have "unat (a + b - 1) = unat a + unat b - 1"
    using assms by (simp add: unat_sub unat_add_small)
  then show ?thesis by (simp add: DIV_ROUND_UP_def unat_div)
qed

text \<open>The sizes as natural numbers: the sectors of the block bitmap and the blocks it accounts for.\<close>

definition freeBlocks :: "nat \<Rightarrow> nat" where
  "freeBlocks n = (n - 611) - ((n - 611) + 4095) div 4096"

definition mapSecs :: "nat \<Rightarrow> nat" where
  "mapSecs n = (freeBlocks n + 4095) div 4096"

lemma mapSecs_bounds:
  assumes "613 \<le> n" "n \<le> 163839"
  shows "1 \<le> freeBlocks n" "1 \<le> mapSecs n" "mapSecs n \<le> 40" "freeBlocks n \<le> 4096 * mapSecs n"
    "611 + mapSecs n + freeBlocks n \<le> n" "freeBlocks n \<le> 163839"
proof -
  let ?b = "((n - 611) + 4095) div 4096"
  have b: "1 \<le> ?b" "?b < n - 611" using assms by auto
  have f: "freeBlocks n = n - 611 - ?b" by (simp add: freeBlocks_def)
  show f1: "1 \<le> freeBlocks n" using b f by linarith
  have fb: "freeBlocks n \<le> n - 612" using b f by linarith
  have mb: "mapSecs n \<le> ?b" unfolding mapSecs_def by (intro div_le_mono) (use b f in linarith)
  show "1 \<le> mapSecs n" "freeBlocks n \<le> 4096 * mapSecs n" using f1 by (simp_all add: mapSecs_def)
  have "mapSecs n \<le> (163227 + 4095) div 4096"
    unfolding mapSecs_def by (intro div_le_mono) (use fb assms in linarith)
  then show "mapSecs n \<le> 40" by simp
  show "611 + mapSecs n + freeBlocks n \<le> n" using f mb b by linarith
  show "freeBlocks n \<le> 163839" using fb assms by linarith
qed

lemma formatSuper_fields:
  fixes start n :: u32
  assumes "613 \<le> unat n" "unat start + unat n \<le> 163839" "formatSuper start n rest = (sb, cnt)"
  shows "unat cnt = freeBlocks (unat n)" "magicNum sb = SUPER_BLOCK_MAGIC_NUM" "dirEntrySize sb = 24"
    "rootInodeNo sb = 0" "emptyByte sb = rest"
    "unat (blockBitMapLbaStart sb) = unat start + 2" "unat (blockBitMapSecCnt sb) = mapSecs (unat n)"
    "unat (inodeBitMapLbaStart sb) = unat start + 2 + mapSecs (unat n)" "inodeBitMapSecCnt sb = 1"
    "unat (inodeTableLbaStart sb) = unat start + 3 + mapSecs (unat n)" "inodeTableSecCnt sb = 608"
    "unat (dataLbaStart sb) = unat start + 611 + mapSecs (unat n)"
proof -
  note b = mapSecs_bounds [OF assms(1)]
  have n: "unat n \<le> 163839" using assms(2) by simp
  let ?free = "n - 611"
  have le: "611 \<le> n" using assms(1) by (simp add: word_le_nat_alt)
  have f: "unat ?free = unat n - 611" using le by (simp add: unat_sub)
  have d1: "unat (DIV_ROUND_UP ?free 4096) = (unat n - 611 + 4095) div 4096"
    using f n by (subst unat_div_round_up) simp_all
  have "(unat n - 611 + 4095) div 4096 \<le> unat n - 611" using assms(1) by simp
  then have "DIV_ROUND_UP ?free 4096 \<le> ?free" by (simp add: word_le_nat_alt d1 f)
  then have c: "unat (?free - DIV_ROUND_UP ?free 4096) = freeBlocks (unat n)"
    by (simp add: unat_sub d1 f freeBlocks_def)
  have m: "unat (DIV_ROUND_UP (?free - DIV_ROUND_UP ?free 4096) 4096) = mapSecs (unat n)"
    using c b(6) n by (subst unat_div_round_up) (simp_all add: mapSecs_def)
  have k: "DIV_ROUND_UP 4096 4096 = 1" "DIV_ROUND_UP 311296 512 = 608"
    by (simp_all add: DIV_ROUND_UP_def)
  have sb: "sb = fst (formatSuper start n rest)" "cnt = snd (formatSuper start n rest)" using assms(3) by simp_all
  have F: "formatSuper start n rest =
    (\<lparr>magicNum = SUPER_BLOCK_MAGIC_NUM, sbSecCnt = n, inodeCnt = MAX_FILE_PER_PART, partLbaStart = start,
           blockBitMapLbaStart = start + 2, blockBitMapSecCnt = DIV_ROUND_UP (?free - DIV_ROUND_UP ?free 4096) 4096,
           inodeBitMapLbaStart = start + 2 + DIV_ROUND_UP (?free - DIV_ROUND_UP ?free 4096) 4096, inodeBitMapSecCnt = 1,
           inodeTableLbaStart = start + 2 + DIV_ROUND_UP (?free - DIV_ROUND_UP ?free 4096) 4096 + 1, inodeTableSecCnt = 608,
           dataLbaStart = start + 2 + DIV_ROUND_UP (?free - DIV_ROUND_UP ?free 4096) 4096 + 1 + 608, rootInodeNo = 0, dirEntrySize = 24,
           emptyByte = rest\<rparr>, ?free - DIV_ROUND_UP ?free 4096)"
    by (simp add: formatSuper_def Let_def k)
  show "unat cnt = freeBlocks (unat n)" "magicNum sb = SUPER_BLOCK_MAGIC_NUM" "dirEntrySize sb = 24"
    "rootInodeNo sb = 0" "emptyByte sb = rest" "unat (blockBitMapSecCnt sb) = mapSecs (unat n)"
    "inodeBitMapSecCnt sb = 1" "inodeTableSecCnt sb = 608"
    unfolding sb F by (simp_all add: c m)
  have u: "unat (start + 2) = unat start + 2"
    "unat (start + 2 + DIV_ROUND_UP (?free - DIV_ROUND_UP ?free 4096) 4096) = unat start + 2 + mapSecs (unat n)"
    "unat (start + 2 + DIV_ROUND_UP (?free - DIV_ROUND_UP ?free 4096) 4096 + 1) = unat start + 3 + mapSecs (unat n)"
    "unat (start + 2 + DIV_ROUND_UP (?free - DIV_ROUND_UP ?free 4096) 4096 + 1 + 608) = unat start + 611 + mapSecs (unat n)"
    using assms(2) b(3) n m by (simp_all add: unat_add_small)
  show "unat (blockBitMapLbaStart sb) = unat start + 2"
    "unat (inodeBitMapLbaStart sb) = unat start + 2 + mapSecs (unat n)"
    "unat (inodeTableLbaStart sb) = unat start + 3 + mapSecs (unat n)"
    "unat (dataLbaStart sb) = unat start + 611 + mapSecs (unat n)"
    unfolding sb F using u by (simp_all add: add.assoc)
qed

section \<open>The block bitmap\<close>

lemma bit_clear_low:
  "bit (fold (\<lambda>i b. b AND NOT (push_bit i 1)) [0..<m] (b :: u8)) k \<longleftrightarrow> bit b k \<and> \<not> k < m"
proof (induction m)
  case (Suc m)
  have "bit b k \<Longrightarrow> k < 8" using bit_imp_le_length [of b k] by simp
  then show ?case
    using Suc by (auto simp: bit_and_iff bit_not_iff bit_exp_iff less_Suc_eq)
qed simp

text \<open>The buffer that \<open>partitionFormat\<close> writes as the block bitmap: in use are the first block and what lies behind
  the last one. A bitmap of less than eight blocks would lose the mark of the first.\<close>

lemma formatBlockMap_ok:
  fixes cnt :: u32
  assumes "8 \<le> unat cnt" "unat cnt div 8 + 512 \<le> n"
  obtains bm where "formatBlockMap n cnt = Inr bm" "length bm = n"
    "\<And>i. i < 8 * (unat cnt div 8 div 512 * 512 + 512) \<Longrightarrow> bit (bm ! (i div 8)) (i mod 8) \<longleftrightarrow> i = 0 \<or> unat cnt \<le> i"
proof -
  define c lb lz where "c = unat cnt" and "lb = c div 8" and "lz = 512 - lb mod 512"
  define b0 where "b0 = (replicate n (0::u8))[0 := 1]"
  define b1 where "b1 = overlay b0 lb (replicate lz 0xff)"
  define bm where "bm = b1[lb := fold (\<lambda>i b. b AND NOT (push_bit i 1)) [0..<c mod 8] (b1 ! lb)]"
  have w: "unat (cnt div 8) = lb" "unat (cnt mod 8) = c mod 8"
    by (simp_all add: unat_div unat_mod c_def lb_def)
  have lb: "1 \<le> lb" "lb + lz \<le> n" "lb < n" "0 < lz" "lb + lz = lb div 512 * 512 + 512"
  proof -
    have m: "lb mod 512 < 512" by simp
    show "1 \<le> lb" using assms(1) by (simp add: lb_def c_def)
    show "0 < lz" "lb + lz \<le> n" "lb < n" using assms(2) m by (auto simp: lz_def lb_def c_def)
    show "lb + lz = lb div 512 * 512 + 512" using m div_mult_mod_eq [of lb 512] unfolding lz_def by linarith
  qed
  have l: "length b0 = n" "length b1 = n" "length bm = n" using lb by (simp_all add: b0_def b1_def bm_def)
  have "formatBlockMap n cnt = Inr bm"
    unfolding formatBlockMap_def Let_def w using lb
    by (simp add: rd_def bm_def b1_def b0_def lz_def)
  moreover have "bit (bm ! (i div 8)) (i mod 8) \<longleftrightarrow> i = 0 \<or> c \<le> i" if i: "i < 8 * (lb + lz)" for i
  proof -
    have j: "i div 8 < lb + lz" using i by (simp add: less_mult_imp_div_less ac_simps)
    have ff: "bit (0xff :: u8) (i mod 8)"
      using bit_mask_iff [of 8 "i mod 8", where 'a = u8] by (simp add: mask_eq_exp_minus_1)
    have b1: "b1 ! (i div 8) = (if lb \<le> i div 8 then 0xff else b0 ! (i div 8))"
      using j lb l by (simp add: b1_def nth_overlay)
    consider "i div 8 < lb" | "i div 8 = lb" | "lb < i div 8" by linarith
    then show ?thesis
    proof cases
      case 1
      then have "i < c" unfolding lb_def by (metis div_le_mono leD leI)
      moreover have "bit (bm ! (i div 8)) (i mod 8) \<longleftrightarrow> i = 0"
        using 1 b1 lb by (auto simp: bm_def b0_def nth_list_update bit_1_iff)
      ultimately show ?thesis by auto
    next
      case 2
      then have B: "bm ! (i div 8) = fold (\<lambda>i b. b AND NOT (push_bit i 1)) [0..<c mod 8] 0xff"
        using b1 lb l by (simp add: bm_def)
      moreover have "i = 8 * lb + i mod 8" "c = 8 * lb + c mod 8"
        using 2 mult_div_mod_eq [of 8 i] mult_div_mod_eq [of 8 c] unfolding lb_def by linarith+
      then have "c mod 8 \<le> i mod 8 \<longleftrightarrow> c \<le> i" "i \<noteq> 0" using lb(1) by linarith+
      ultimately show ?thesis unfolding B bit_clear_low using ff by auto
    next
      case 3
      then have "c < i" unfolding lb_def by (metis div_le_mono leD leI)
      moreover have "bm ! (i div 8) = 0xff" using 3 b1 lb l by (simp add: bm_def)
      ultimately show ?thesis using ff by simp
    qed
  qed
  ultimately show thesis
    using l lb(5) by (intro that [of bm]) (simp_all add: c_def lb_def)
qed

section \<open>Ranges of sectors\<close>

lemma chunksOk_range: "0 < n \<Longrightarrow> unat lba + n \<le> 163839 \<Longrightarrow> chunksOk lba n"
proof -
  assume a: "0 < n" "unat lba + n \<le> 163839"
  have "lba + of_nat (256 * k) < MAX_LBA" if "k < (n + 255) div 256" for k
  proof -
    have "256 * k < n" using that by linarith
    moreover from this have "unat (of_nat (256 * k) :: u32) = 256 * k"
      using a(2) by (intro unat_of_nat_small) linarith
    ultimately have "unat (lba + of_nat (256 * k)) = unat lba + 256 * k"
      using a(2) by (subst unat_add_small; linarith)
    then show ?thesis using a(2) \<open>256 * k < n\<close> by (simp add: word_less_nat_alt)
  qed
  then show ?thesis by (simp add: chunksOk_def list_all_iff)
qed

lemma ideRead_range:
  "0 < n \<Longrightarrow> unat lba + n \<le> 163839 \<Longrightarrow> ideRead dv lba n s = Inr (readSectors (disks s dv) lba n)"
  by (simp add: ideRead_def chunksOk_range word_less_nat_alt)

lemma ideWrite_range:
  "0 < n \<Longrightarrow> unat lba + n \<le> 163839 \<Longrightarrow> 512 * n \<le> length buf \<Longrightarrow>
   ideWrite dv lba buf n s = Inr (setDisk dv (writeSectors lba n buf (disks s dv)) s)"
  by (simp add: ideWrite_def chunksOk_range word_less_nat_alt)

lemma writeSectors_prefix: "writeSectors lba n (take (512 * n) buf) d = writeSectors lba n buf d"
proof (induction n arbitrary: lba buf d)
  case (Suc n)
  show ?case using Suc [of "lba + 1" "drop 512 buf" "d(lba := take 512 buf)"] by (simp add: drop_take min_def fun_upd_def)
qed simp

lemma readSectors_written:
  "unat lba + n \<le> 163839 \<Longrightarrow> 512 * n \<le> length buf \<Longrightarrow>
   readSectors (writeSectors lba n buf d) lba n = take (512 * n) buf"
  using readSectors_write [of lba n "take (512 * n) buf" d] by (simp add: writeSectors_prefix)

lemma readSectors_other:
  assumes "unat lba + n \<le> 163839" "unat l + k \<le> 163839" "unat l + k \<le> unat lba \<or> unat lba + n \<le> unat l"
  shows "readSectors (writeSectors lba n buf d) l k = readSectors d l k"
proof (intro readSectors_cong writeSectors_out)
  fix i assume "i < k"
  then have "unat (l + of_nat i) = unat l + i" using assms(2) by (simp add: unat_add_small unat_of_nat_small)
  then show "unat (l + of_nat i) < unat lba \<or> unat lba + n \<le> unat (l + of_nat i)" using assms \<open>i < k\<close> by auto
qed (use assms in simp)

section \<open>Formatting\<close>

lemma length_rootInode [simp]: "length (block (rootInode sb)) = 13"
  by (simp add: rootInode_def)

lemma length_dotEntry [simp]: "length nm \<le> 16 \<Longrightarrow> length (fileName (dotEntry nm i)) = 16"
  by (simp add: dotEntry_def bytes_def)

definition rootEntries :: "u8 list" where
  "rootEntries = encDe (dotEntry ''.'' 0) @ encDe (dotEntry ''..'' 0)"

lemma length_rootEntries [simp]: "length rootEntries = 48"
  by (simp add: rootEntries_def)

lemma partitionFormat_ok:
  fixes s :: "'a kfs_scheme" and pt :: nat
  defines "p \<equiv> parts s pt"
  assumes size: "620 \<le> unat (secCnt p)" "unat (lbaStart p) + unat (secCnt p) \<le> 163839"
    and wf: "wfDisk (disks s (pdisk p))" and mem: "allocResult s (allocCnt s) \<noteq> NULLPTR"
    and sb: "formatSuper (lbaStart p) (secCnt p) (junkBytes ''sb.emptyByte'' 460 s) = (sb, cnt)"
  obtains dk kl bm where
    "partitionFormat pt s = Inr (s\<lparr>disks := (disks s)(pdisk p := dk), allocCnt := allocCnt s + 1, klog := kl\<rparr>)"
    "wfDisk dk" "dk (lbaStart p + 1) = encSuper sb" "formatBlockMap 311296 cnt = Inr bm" "length bm = 311296"
    "readSectors dk (blockBitMapLbaStart sb) (mapSecs (unat (secCnt p))) = take (512 * mapSecs (unat (secCnt p))) bm"
    "dk (inodeBitMapLbaStart sb) = 1 # replicate 511 0"
    "readSectors dk (inodeTableLbaStart sb) 608 = overlay (replicate 311296 0) 0 (encInode (rootInode sb))"
    "dk (dataLbaStart sb) = overlay (replicate 512 0) 0 rootEntries"
proof -
  let ?dv = "pdisk p" and ?n = "unat (secCnt p)" and ?N = "311296 :: nat"
  have n613: "613 \<le> ?n" using size(1) by simp
  have nmax: "?n \<le> 163839" using size(2) by simp
  note b = mapSecs_bounds [OF n613 nmax]
  note f = formatSuper_fields [OF n613 size(2) sb]
  have cnt8: "8 \<le> unat cnt" using f(1) size(1) by (simp add: freeBlocks_def)
  have cntN: "unat cnt div 8 + 512 \<le> ?N" using f(1) b(6) by linarith
  obtain bm where bm: "formatBlockMap ?N cnt = Inr bm" "length bm = ?N"
    using formatBlockMap_ok [OF cnt8 cntN] by metis
  define z where "z = replicate ?N (0 :: u8)"
  have z: "length z = ?N" "take 512 (z[0 := 1]) = 1 # replicate 511 0"
    by (simp_all add: z_def list_eq_iff_nth_eq nth_Cons')
  define d1 d2 d3 d4 d5 where
    "d1 = writeSectors (lbaStart p + 1) 1 (encSuper sb) (disks s ?dv)" and
    "d2 = writeSectors (blockBitMapLbaStart sb) (mapSecs ?n) bm d1" and
    "d3 = writeSectors (inodeBitMapLbaStart sb) 1 (z[0 := 1]) d2" and
    "d4 = writeSectors (inodeTableLbaStart sb) 608 (overlay z 0 (encInode (rootInode sb))) d3" and
    "d5 = writeSectors (dataLbaStart sb) 1 (overlay z 0 rootEntries) d4"
  note d_defs = d1_def d2_def d3_def d4_def d5_def
  have lsup: "length (encSuper sb) = 512" using f(5) by (simp add: junkBytes_def)
  have sup: "unat (lbaStart p + 1) = unat (lbaStart p) + 1" using size by (simp add: unat_add_small)
  have lov: "length (overlay z 0 (encInode (rootInode sb))) = ?N" "length (overlay z 0 rootEntries) = ?N"
    using z(1) by simp_all
  have wfs: "wfDisk d5"
    unfolding d_defs using wf lsup bm(2) z(1) lov b(3)
    by (intro wfDisk_write) (simp_all del: writeSectors.simps writeSectors_1)
  have lbas: "unat (dataLbaStart sb) + 1 \<le> 163839" "unat (inodeTableLbaStart sb) + 608 \<le> 163839"
    "unat (inodeBitMapLbaStart sb) + 1 \<le> 163839" "unat (blockBitMapLbaStart sb) + mapSecs ?n \<le> 163839"
    "unat (lbaStart p + 1) + 1 \<le> 163839"
    using f sup b(1,5) size by linarith+
  have bufSize: "unat ((if (if blockBitMapSecCnt sb \<ge> inodeBitMapSecCnt sb then blockBitMapSecCnt sb else inodeBitMapSecCnt sb)
      \<ge> inodeTableSecCnt sb then (if blockBitMapSecCnt sb \<ge> inodeBitMapSecCnt sb then blockBitMapSecCnt sb else inodeBitMapSecCnt sb)
      else inodeTableSecCnt sb) * 512) = ?N"
    using f(7,9,11) b(2,3) by (simp add: word_le_nat_alt)
  note w = ideWrite_range [where 'a = 'a and dv = ?dv]
  have run: "\<exists>kl. partitionFormat pt s = Inr (s\<lparr>disks := (disks s)(?dv := d5), allocCnt := allocCnt s + 1, klog := kl\<rparr>)"
  proof -
    define buf where "buf = allocResult s (allocCnt s)"
    define t0 t1 t2 t3 t4 t5 t6 where "t0 = logk ''info'' s" and "t1 = setDisk ?dv d1 t0"
      and "t2 = t1\<lparr>allocCnt := allocCnt t1 + 1, bufs := buf # bufs t1\<rparr>"
      and "t3 = setDisk ?dv d2 (logk ''buf size'' t2)" and "t4 = setDisk ?dv d3 t3"
      and "t5 = setDisk ?dv d4 t4" and "t6 = setDisk ?dv d5 t5"
    note t_defs = t0_def t1_def t2_def t3_def t4_def t5_def t6_def logk_def
    have dk: "disks t0 ?dv = disks s ?dv" "disks (logk ''buf size'' t2) ?dv = d1" "disks t3 ?dv = d2"
      "disks t4 ?dv = d3" "disks t5 ?dv = d4"
      by (simp_all add: t_defs)
    have e1: "ideWrite ?dv (lbaStart p + 1) (encSuper sb) 1 t0 = Inr t1"
      using lbas lsup by (simp add: w dk d1_def t1_def)
    have e2: "fsMalloc t1 = (buf, t2)" using mem by (simp add: fsMalloc_def t_defs buf_def Let_def)
    have e3: "ideWrite ?dv (blockBitMapLbaStart sb) bm (unat (blockBitMapSecCnt sb)) (logk ''buf size'' t2) = Inr t3"
      using lbas bm b f by (subst w) (simp_all add: dk d2_def t3_def)
    have e4: "ideWrite ?dv (inodeBitMapLbaStart sb) (z[0 := 1]) (unat (inodeBitMapSecCnt sb)) t3 = Inr t4"
      using lbas z f(9) by (subst w) (simp_all add: dk d3_def t4_def)
    have e5: "ideWrite ?dv (inodeTableLbaStart sb) (overlay z 0 (encInode (rootInode sb))) (unat (inodeTableSecCnt sb)) t4 = Inr t5"
      using lbas lov f(11) by (subst w) (simp_all add: dk d4_def t5_def)
    have e6: "ideWrite ?dv (dataLbaStart sb) (overlay z 0 rootEntries) 1 t5 = Inr t6"
      using lbas lov by (subst w) (simp_all add: dk d5_def t6_def)
    have e7: "fsFree buf (logk ''format done'' t6) = Inr ((logk ''format done'' t6)\<lparr>bufs := bufs s\<rparr>)"
      using mem by (simp add: fsFree_def t_defs buf_def)
    have buf: "(buf = NULLPTR) = False" using mem by (simp add: buf_def)
    have "partitionFormat pt s = Inr ((logk ''format done'' t6)\<lparr>bufs := bufs s\<rparr>)"
      unfolding partitionFormat_def Let_def p_def [symmetric] sb prod.case t0_def [symmetric] e1 rbind_Inr e2
        bufSize z_def [symmetric] bm buf if_False e3 e4 e5 rootEntries_def [symmetric] e6 e7 ..
    moreover have "(logk ''format done'' t6)\<lparr>bufs := bufs s\<rparr> =
        s\<lparr>disks := (disks s)(?dv := d5), allocCnt := allocCnt s + 1, klog := klog (logk ''format done'' t6)\<rparr>"
      by (rule kfs.equality) (simp_all add: t_defs)
    ultimately show ?thesis by (intro exI) simp
  qed
  have one: "readSectors d l 1 = d l" for d and l :: u32 by simp
  note rw = readSectors_written and ro = readSectors_other
  have r1: "readSectors d5 (lbaStart p + 1) 1 = encSuper sb"
    unfolding d_defs using lbas f sup b lsup by (simp add: rw ro del: readSectors_simps writeSectors.simps writeSectors_1)
  have r2: "readSectors d5 (blockBitMapLbaStart sb) (mapSecs ?n) = take (512 * mapSecs ?n) bm"
    unfolding d_defs using lbas f sup b bm by (simp add: rw ro del: readSectors_simps writeSectors.simps writeSectors_1)
  have r3: "readSectors d5 (inodeBitMapLbaStart sb) 1 = 1 # replicate 511 0"
    unfolding d_defs using lbas f sup b z by (simp add: rw ro del: readSectors_simps writeSectors.simps writeSectors_1)
  have r4: "readSectors d5 (inodeTableLbaStart sb) 608 = overlay z 0 (encInode (rootInode sb))"
    unfolding d_defs using lbas f sup b lov by (simp add: rw ro del: readSectors_simps writeSectors.simps writeSectors_1)
  have "take 512 (overlay z 0 rootEntries) = overlay (replicate 512 0) 0 rootEntries"
    by (simp add: overlay_def z_def)
  then have r5: "readSectors d5 (dataLbaStart sb) 1 = overlay (replicate 512 0) 0 rootEntries"
    unfolding d_defs using lbas f sup b lov by (simp add: rw ro del: readSectors_simps writeSectors.simps writeSectors_1)
  from run obtain kl where
    "partitionFormat pt s = Inr (s\<lparr>disks := (disks s)(?dv := d5), allocCnt := allocCnt s + 1, klog := kl\<rparr>)" ..
  then show thesis
    using wfs r1 bm r2 r3 r4 r5 unfolding one z_def by (rule that)
qed

section \<open>Mounting\<close>

lemma mountPartition_ok:
  fixes s :: "'a kfs_scheme" and pt :: nat
  defines "p \<equiv> parts s pt"
  assumes nm: "strcmp (pname p) nm = Inr 0"
    and mem: "\<And>k. k < 4 \<Longrightarrow> allocResult s (allocCnt s + k) \<noteq> NULLPTR"
    and sb: "decSuper (disks s (pdisk p) (lbaStart p + 1)) = sb" "unat (lbaStart p + 1) + 1 \<le> 163839"
    and bb: "0 < unat (blockBitMapSecCnt sb)" "unat (blockBitMapLbaStart sb) + unat (blockBitMapSecCnt sb) \<le> 163839"
    and ib: "0 < unat (inodeBitMapSecCnt sb)" "unat (inodeBitMapLbaStart sb) + unat (inodeBitMapSecCnt sb) \<le> 163839"
  obtains s' where "mountPartition nm pt s = Inr (True, s')" "disks s' = disks s" "curPart s' = pt"
    "parts s' pt = p\<lparr>superBlock := sb,
       blockBitMap := \<lparr>bm_length = blockBitMapSecCnt sb * 512,
         startAddr = readSectors (disks s (pdisk p)) (blockBitMapLbaStart sb) (unat (blockBitMapSecCnt sb)) @ heapAfter s\<rparr>,
       inodeBitMap := \<lparr>bm_length = inodeBitMapSecCnt sb * 512,
         startAddr = readSectors (disks s (pdisk p)) (inodeBitMapLbaStart sb) (unat (inodeBitMapSecCnt sb)) @ heapAfter s\<rparr>,
       openInodes := []\<rparr>"
proof -
  have m: "allocResult s (allocCnt s) \<noteq> 0" "allocResult s (Suc (allocCnt s)) \<noteq> 0"
    "allocResult s (Suc (Suc (allocCnt s))) \<noteq> 0" "allocResult s (Suc (Suc (Suc (allocCnt s)))) \<noteq> 0"
    using mem [of 0] mem [of 1] mem [of 2] mem [of 3] by (simp_all add: numeral_eq_Suc)
  have l: "lbaStart p + 1 < MAX_LBA" using sb(2) by (simp add: word_less_nat_alt)
  let ?q = "p\<lparr>superBlock := sb,
       blockBitMap := \<lparr>bm_length = blockBitMapSecCnt sb * 512,
         startAddr = readSectors (disks s (pdisk p)) (blockBitMapLbaStart sb) (unat (blockBitMapSecCnt sb)) @ heapAfter s\<rparr>,
       inodeBitMap := \<lparr>bm_length = inodeBitMapSecCnt sb * 512,
         startAddr = readSectors (disks s (pdisk p)) (inodeBitMapLbaStart sb) (unat (inodeBitMapSecCnt sb)) @ heapAfter s\<rparr>,
       openInodes := []\<rparr>"
  have "\<exists>s'. mountPartition nm pt s = Inr (True, s') \<and> disks s' = disks s \<and> curPart s' = pt \<and> parts s' pt = ?q"
    using m nm l bb ib by (simp add: mountPartition_def fsMalloc_def Let_def updPart_def logk_def
      mountedMap_def ideRead_range sb(1) flip: p_def)
  then show thesis using that by blast
qed

text \<open>What the mounted bitmaps, the inode table and the first sector of data hold.\<close>

lemma mounted_block_map:
  fixes cnt :: u32
  assumes cnt: "8 \<le> unat cnt" "unat cnt \<le> 163839" and bm: "formatBlockMap 311296 cnt = Inr bm"
    and m: "m = (unat cnt + 4095) div 4096" and i: "i < 4096 * m"
  shows "bit ((take (512 * m) bm @ h) ! (i div 8)) (i mod 8) \<longleftrightarrow> i = 0 \<or> unat cnt \<le> i"
proof -
  have room: "unat cnt div 8 + 512 \<le> 311296" using cnt(2) by linarith
  obtain b where b: "formatBlockMap 311296 cnt = Inr b" "length b = 311296"
    "\<And>i. i < 8 * (unat cnt div 8 div 512 * 512 + 512) \<Longrightarrow> bit (b ! (i div 8)) (i mod 8) \<longleftrightarrow> i = 0 \<or> unat cnt \<le> i"
    by (rule formatBlockMap_ok [OF cnt(1) room]) blast
  define q where "q = unat cnt div 4096"
  have q: "m \<le> q + 1" using m unfolding q_def by linarith
  have "unat cnt div 8 div 512 = q" by (simp add: q_def div_mult2_eq [symmetric])
  then have "i < 8 * (unat cnt div 8 div 512 * 512 + 512)" using i q by simp
  moreover have "i div 8 < 512 * m" "512 * m \<le> length b" using i m cnt(2) b(2) by linarith+
  ultimately show ?thesis using b bm by (simp add: nth_append)
qed

lemma mounted_inode_map:
  "i < 4096 \<Longrightarrow> bit (((1 :: u8) # replicate 511 0 @ h) ! (i div 8)) (i mod 8) \<longleftrightarrow> i = 0"
  by (cases "i div 8") (auto simp: nth_append bit_1_iff)

lemma mounted_root:
  "inodeAt (overlay (replicate 311296 0) 0 (encInode (rootInode sb))) 0 = rootInode sb"
  using decInode_encInode [of "rootInode sb" "[]"] by (simp add: inodeAt_def overlay_def)

lemma rd32_zeros: "i + 3 < n \<Longrightarrow> rd32 (replicate n 0) i = 0"
  by (simp add: rd32_def)

lemma mounted_entries:
  assumes "k < 21"
  shows "deAt (overlay (replicate 512 0) 0 rootEntries) k =
    (if k = 0 then dotEntry ''.'' 0 else if k = 1 then dotEntry ''..'' 0 else zeroDe)"
proof -
  consider "k = 0" | "k = 1" | "2 \<le> k" by linarith
  then show ?thesis
  proof cases
    case 3
    then have "drop (24 * k) (overlay (replicate 512 0) 0 rootEntries) = replicate (512 - 24 * k) 0"
      by (simp add: overlay_def)
    then have "deAt (overlay (replicate 512 0) 0 rootEntries) k = decDe (replicate 24 0)"
      using assms by (simp add: deAt_def min_def)
    then show ?thesis using 3 by (simp add: decDe_def rd32_zeros zeroDe_def)
  qed (simp_all add: deAt_def overlay_def rootEntries_def)
qed

section \<open>Properties of the format\<close>

text \<open>C35: partitionFormat divides a partition into regions that follow each other without overlap: super block, block
  bitmap, inode bitmap, inode table and data; the bitmap has a bit for every block it counts, and the last of these
  blocks is inside the partition.\<close>

theorem format_layout:
  assumes "613 \<le> unat n" "unat start + unat n \<le> 163839" "formatSuper start n rest = (sb, cnt)"
  shows "unat (blockBitMapLbaStart sb) = unat start + 2 \<and>
    unat (inodeBitMapLbaStart sb) = unat (blockBitMapLbaStart sb) + unat (blockBitMapSecCnt sb) \<and>
    unat (inodeTableLbaStart sb) = unat (inodeBitMapLbaStart sb) + unat (inodeBitMapSecCnt sb) \<and>
    unat (dataLbaStart sb) = unat (inodeTableLbaStart sb) + unat (inodeTableSecCnt sb) \<and>
    unat (dataLbaStart sb) + unat cnt \<le> unat start + unat n \<and>
    0 < unat cnt \<and> unat cnt \<le> 4096 * unat (blockBitMapSecCnt sb) \<and>
    4096 \<le> 4096 * unat (inodeBitMapSecCnt sb) \<and> 76 * 4096 \<le> 512 * unat (inodeTableSecCnt sb)"
proof -
  have n: "unat n \<le> 163839" using assms(2) by simp
  note f = formatSuper_fields [OF assms] and b = mapSecs_bounds [OF assms(1) n]
  show ?thesis using b by (simp add: f)
qed

theorem format_layout_witness:
  "\<exists>sb cnt. formatSuper 2048 161791 [] = (sb, cnt) \<and>
     unat (dataLbaStart sb) + unat cnt \<le> unat (2048 :: u32) + unat (161791 :: u32) \<and> 0 < unat cnt"
proof -
  obtain sb cnt where "formatSuper 2048 161791 [] = (sb, cnt)" by (cases "formatSuper 2048 161791 []")
  then show ?thesis using format_layout [of 161791 2048 "[]" sb cnt] by auto
qed

text \<open>C34: Mounting a partition gives the file system that formatting it has made: the super block of the layout, a block
  bitmap in which exactly the root directory's block and the bits behind the last block are in use, an inode bitmap in
  which exactly the root's inode is in use, the root directory as inode 0, and \<open>.\<close> and \<open>..\<close> as its only entries.\<close>

theorem format_then_mount:
  fixes s :: "'a kfs_scheme" and pt :: nat
  assumes size: "620 \<le> unat (secCnt (parts s pt))" "unat (lbaStart (parts s pt)) + unat (secCnt (parts s pt)) \<le> 163839"
    and wf: "wfDisk (disks s (pdisk (parts s pt)))"
    and mem: "\<And>k. k < 5 \<Longrightarrow> allocResult s (allocCnt s + k) \<noteq> NULLPTR"
    and nm: "strcmp (pname (parts s pt)) nm = Inr 0"
    and sb: "formatSuper (lbaStart (parts s pt)) (secCnt (parts s pt)) (junkBytes ''sb.emptyByte'' 460 s) = (sb, cnt)"
  shows "\<exists>s1 s2. partitionFormat pt s = Inr s1 \<and> mountPartition nm pt s1 = Inr (True, s2) \<and>
    curPart s2 = pt \<and> superBlock (parts s2 pt) = sb \<and> tableOk s2 pt \<and> openInodes (parts s2 pt) = [] \<and>
    (\<forall>i < bm_cap (blockBitMap (parts s2 pt)). bm_used (blockBitMap (parts s2 pt)) i \<longleftrightarrow> i = 0 \<or> unat cnt \<le> i) \<and>
    (\<forall>i < bm_cap (inodeBitMap (parts s2 pt)). bm_used (inodeBitMap (parts s2 pt)) i \<longleftrightarrow> i = 0) \<and>
    inodeAt (inodeTable s2 pt) 0 = rootInode sb \<and>
    (\<forall>k < 21. deAt (disks s2 (pdisk (parts s2 pt)) (dataLbaStart sb)) k =
       (if k = 0 then dotEntry ''.'' 0 else if k = 1 then dotEntry ''..'' 0 else zeroDe))"
proof -
  let ?p = "parts s pt" and ?n = "unat (secCnt (parts s pt))"
  have n: "613 \<le> ?n" "?n \<le> 163839" using size by simp_all
  note b = mapSecs_bounds [OF n] and f = formatSuper_fields [OF n(1) size(2) sb]
  have cnt: "8 \<le> unat cnt" using f(1) size(1) by (simp add: freeBlocks_def)
  have a0: "allocResult s (allocCnt s) \<noteq> NULLPTR" using mem [of 0] by simp
  obtain dk kl bm where F:
    "partitionFormat pt s = Inr (s\<lparr>disks := (disks s)(pdisk ?p := dk), allocCnt := allocCnt s + 1, klog := kl\<rparr>)"
    "wfDisk dk" "dk (lbaStart ?p + 1) = encSuper sb" "formatBlockMap 311296 cnt = Inr bm" "length bm = 311296"
    "readSectors dk (blockBitMapLbaStart sb) (mapSecs ?n) = take (512 * mapSecs ?n) bm"
    "dk (inodeBitMapLbaStart sb) = 1 # replicate 511 0"
    "readSectors dk (inodeTableLbaStart sb) 608 = overlay (replicate 311296 0) 0 (encInode (rootInode sb))"
    "dk (dataLbaStart sb) = overlay (replicate 512 0) 0 rootEntries"
    by (rule partitionFormat_ok [OF size wf a0 sb])
  let ?s1 = "s\<lparr>disks := (disks s)(pdisk ?p := dk), allocCnt := allocCnt s + 1, klog := kl\<rparr>"
  have m1: "allocResult ?s1 (allocCnt ?s1 + k) \<noteq> NULLPTR" if "k < 4" for k
    using mem [of "Suc k"] that by simp
  have start: "unat (lbaStart ?p + 1) = unat (lbaStart ?p) + 1" using size by (simp add: unat_add_small)
  obtain s2 where M: "mountPartition nm pt ?s1 = Inr (True, s2)" "disks s2 = disks ?s1" "curPart s2 = pt"
    "parts s2 pt = ?p\<lparr>superBlock := sb,
       blockBitMap := \<lparr>bm_length = blockBitMapSecCnt sb * 512, startAddr = take (512 * mapSecs ?n) bm @ heapAfter s\<rparr>,
       inodeBitMap := \<lparr>bm_length = 512, startAddr = (1 # replicate 511 0) @ heapAfter s\<rparr>, openInodes := []\<rparr>"
  proof (rule mountPartition_ok [where s = ?s1 and pt = pt and nm = nm and sb = sb])
    show "strcmp (pname (parts ?s1 pt)) nm = Inr 0" using nm by simp
    show "decSuper (disks ?s1 (pdisk (parts ?s1 pt)) (lbaStart (parts ?s1 pt) + 1)) = sb" using F(3) by simp
  qed (use m1 F f b size start that in \<open>simp_all\<close>)
  have tab: "tableOk s2 pt"
    using F(2) M f b size by (simp add: tableOk_def unat_add_small)
  have "bm_cap (blockBitMap (parts s2 pt)) = 4096 * mapSecs ?n"
    using f(7) b(3) by (simp add: M(4) bm_cap_def unat_mult_small)
  then have blk: "bm_used (blockBitMap (parts s2 pt)) i \<longleftrightarrow> i = 0 \<or> unat cnt \<le> i"
    if "i < bm_cap (blockBitMap (parts s2 pt))" for i
    using mounted_block_map [OF cnt _ F(4), of "mapSecs ?n" i "heapAfter s"] that f(1) b(6)
    by (simp add: M(4) bm_used_def mapSecs_def)
  have ino: "bm_used (inodeBitMap (parts s2 pt)) i \<longleftrightarrow> i = 0" if "i < bm_cap (inodeBitMap (parts s2 pt))" for i
    using mounted_inode_map [of i "heapAfter s"] that by (simp add: M(4) bm_used_def bm_cap_def)
  have root: "inodeAt (inodeTable s2 pt) 0 = rootInode sb"
    using F(8) mounted_root [of sb] by (simp add: inodeTable_def M(2,4))
  have de: "deAt (disks s2 (pdisk (parts s2 pt)) (dataLbaStart sb)) k =
      (if k = 0 then dotEntry ''.'' 0 else if k = 1 then dotEntry ''..'' 0 else zeroDe)" if "k < 21" for k
    using F(9) mounted_entries [OF that] by (simp add: M(2,4))
  have "superBlock (parts s2 pt) = sb" "openInodes (parts s2 pt) = []" by (simp_all add: M(4))
  with F(1) M(1,3) tab blk ino root de show ?thesis by blast
qed

theorem format_then_mount_witness:
  "\<exists>s1 s2. partitionFormat 0 demoFs = Inr s1 \<and> mountPartition (bytes ''sdb1'' @ [0, 0, 0, 0]) 0 s1 = Inr (True, s2) \<and>
     curPart s2 = 0 \<and> tableOk s2 0 \<and> isize (inodeAt (inodeTable s2 0) 0) = 48"
proof -
  obtain sb cnt where sb: "formatSuper 0 1000 (junkBytes ''sb.emptyByte'' 460 demoFs) = (sb, cnt)"
    by (cases "formatSuper 0 1000 (junkBytes ''sb.emptyByte'' 460 demoFs)")
  have "dirEntrySize sb = 24"
    by (rule formatSuper_fields(3) [OF _ _ sb]) simp_all
  moreover have "allocResult demoFs (allocCnt demoFs + k) \<noteq> NULLPTR" if "k < 5" for k
  proof -
    from that have "k \<in> {0, 1, 2, 3, 4}" by auto
    then show ?thesis by auto
  qed
  moreover have "strcmp (pname (parts demoFs 0)) (bytes ''sdb1'' @ [0, 0, 0, 0]) = Inr 0"
    by (simp add: demoPart_def bytes_def strcmp.simps rd_def)
  ultimately show ?thesis
    using format_then_mount [where s = demoFs and pt = 0 and nm = "bytes ''sdb1'' @ [0, 0, 0, 0]" and sb = sb and cnt = cnt] sb
    by (auto simp: rootInode_def)
qed

end
