(* ===== verification/Spec2Isabelle.thy ===== *)
theory Spec2Isabelle
  imports HeapProps DirProps Fs ReadProps ScanProps IdeInv Syscall PathProps ExecProps ExitProps Boot FormatProps
begin

text \<open>
  gogoos, a small operating system for 32-bit x86: a model of the C code under src/kernel, src/lib, src/device,
  src/fs and src/shell, and the theorems that make it correct.

  \<^bold>\<open>The program.\<close> The boot loader (assembly) maps the kernel to the last gigabyte and calls \<open>main\<close>, which
  initialises the interrupt tables, memory, threads, console, keyboard, the task state segment, the disks and the file
  system, in this order. Kernel threads and user processes are scheduled by a timer interrupt. They wait for each
  other with semaphores and locks, for the keyboard and the disk with ring buffers and semaphores that the interrupt
  handlers signal. A process has a page directory of its own, in which the kernel's part is shared. It calls the kernel
  through interrupt 0x80. The file system keeps inodes, directories and two bitmaps on an ATA disk. The shell is a user
  program that is linked with the kernel.

  \<^bold>\<open>How the code is modelled.\<close> A 32-bit value of the code is a \<open>u32\<close>, a byte a \<open>u8\<close> (words of HOL-Library.Word),
  so that sums wrap and shifts drop bits as they do in C. A pointer is its address. A step that can fail has the
  result type \<open>'a res\<close> of GPrelude: \<open>Inl (Panic msg)\<close> is a failed ASSERT or a PANIC with its text, \<open>Inl OutOfBounds\<close> an
  access outside the object it is meant for, \<open>Inr\<close> the result; \<open>rbind\<close> puts steps in sequence and \<open>assertC\<close> is ASSERT.
  State is passed explicitly. The records of the state extend each other in the order of the components: \<open>cpu\<close>
  (the flags), \<open>lheap\<close> (links of list elements), \<open>ksched\<close> (threads, ready list, locks), \<open>kmem\<close> (physical memory, cr3,
  the pools), \<open>kfs\<close> (disks, partitions, inodes, the file table), \<open>kproc\<close> (interrupt frames of processes), \<open>kide\<close> (the
  channels of the disk driver). Operations are stated over the extensible type of the record they need, so that
  later components call earlier ones on the larger state. A loop over data is structural recursion or a \<open>function\<close>
  with its measure; \<open>partitionScan\<close> and the waits of the disk driver take fuel and give None when it ends.

  \<^bold>\<open>The theories.\<close> They follow the directories of the code.
  \<^item> GPrelude: types, errors, sequencing, bounded reads and writes, facts about words, and the locale \<open>fifo\<close>: what a
    put and a get promise about the sequence a representation stands for.
  \<^item> Bitmap, CString, Stdio, DList (lib/structure/bitmap.c, lib/string.c, lib/user/stdio.c with lib/kernel/print.c and
    stdio.c, lib/structure/list.c). Bitmap has the locale \<open>id_pool\<close>, the contract of a pool of numbers, and its
    interpretation on the bitmap; DList interprets \<open>fifo\<close> on the doubly linked lists and shows that a list stands for a
    sequence that append, pop, insert and remove change as the names say.
  \<^item> Cpu (lib/kernel/interrupt.c; the descriptors of kernel/interrupt.c and kernel/user/tss.c) and Boot (the rest of these
    two files and \<open>main\<close>): the interrupts that arrive after the start, the ports user programs may use.
  \<^item> Sched (kernel/thread/thread.c, sync.c, device/timer.c, processActivate of kernel/user/process.c). The part of a
    suspended call that runs after the next switch to its thread is a \<open>kframe\<close> on the thread's \<open>kstack\<close>; \<open>kresume\<close> runs
    it. SchedInv and SyncInv: each thread is in exactly one list, at most one thread owns a lock, no wake-up is lost,
    no assertion fails, for every run of the inductive relation \<open>kreach\<close>, whose steps are the calls of the threads, the
    resumption of suspended ones and timer interrupts between them.
  \<^item> IoQueue, Keyboard (lib/structure/ioqueue.c, device/console.c, device/keyboard.c). The ring refines a bounded queue;
    IoQueue interprets \<open>fifo\<close> on it.
  \<^item> Paging, Memory, Heap (kernel/memory.c). \<open>mmu\<close> is the translation of the processor, \<open>vread\<close> and \<open>vwrite\<close> go through
    it. MemoryInv: the invariant \<open>memInv\<close> (the directory is mapped into itself, pages have frames of their own, the
    frames in use are marked), mapping, allocating with roll-back, and freeing. HeapProps: the invariant \<open>heapOk\<close> of the
    kernel's heap (each arena is a page of its own, the free lists hold blocks of arenas and each arena counts its own),
    and what allocating and freeing do to the set of blocks in use.
  \<^item> Disk, Inode, Dir, File, Path, Format, Fs (fs/*.c). Layout, InodeInv, FileInv, FileProps, ReadProps, DirProps,
    FormatProps: records are read back as they were written; the inode table; a file as a sequence of bytes, that a write
    extends and a read returns a part of; a directory as a finite map from names to entries, that searching looks up in and
    adding and removing an entry update; the layout a format gives, and that a mount reads it back.
  \<^item> Ide, IdeScan, IdeInv, ScanProps (device/ide.c). The driver's port accesses run against an arbitrary controller \<open>ATAPorts\<close>, a
    parameter. The predicate \<open>ataOk\<close> states what the ATA documentation promises of it; under it the driver's reads and
    writes are those of Disk. A concrete disk, for which \<open>ataOk\<close> is proved, serves as the witness.
    ScanProps: the scan of a partition table and of its chain of logical partitions enters each partition once.
  \<^item> Syscall (kernel/user/syscall.c, lib/user/syscall.c): each function of the user library reaches its handler.
  \<^item> Shell (shell/*.c), PathProps: paths as lists of names.
  \<^item> Process, Exec, Exit (kernel/user/process.c, fork.c, exec.c, wait_exit.c, threadExit and sysPs of thread.c), ExecProps,
    ExitProps: which pages exec maps, what exit gives back, what wait returns.

  \<^bold>\<open>Bounds and fuel.\<close> A bitmap's scan reads one byte behind it, so the model keeps the bytes that follow. File contents
  are bounded by the 140 blocks of an inode, partitions by the 163839 sectors of the driver, transfers of more than 256
  sectors are cut as the driver cuts them. The waits of the disk driver poll at most 30000 milliseconds in steps of 10,
  as the code does, so their fuel is the code's own bound. \<open>partitionScan\<close> uses one unit of fuel for a
  sector; for a circular chain of extended partitions the code does not return, and None is the result.

  \<^bold>\<open>Not modelled.\<close> The assembly (mbr, loader, the entry and switch code, the character output) and userprog, which is an
  example. \<open>initAll\<close>, which calls the initialisations one after the other and whose state is spread over the records
  above, and \<open>init\<close>, a user program that forks the shell and waits. panicAndSpin1 of lib/debug.c prints and spins: it is
  the value \<open>Panic\<close>. printHex80 of exec.c and printDirEntry of dir.c, debugging aids that nothing calls. The translation
  buffer of the processor: a page is seen as its table entry says. The position of the cursor. What printk prints on
  the way is kept as the list of its formats in the file system and left out in the drivers' loops. In the file system
  the results of sysMalloc are an input, in the order of the calls, and the buffers handed out are recorded; Heap models
  sysMalloc itself, with the headers of the arenas as typed state beside the words of the pages.
\<close>

end
